(* ===== verification/Prelude.thy ===== *)
theory Prelude
  imports Main "HOL-Library.Word"
begin

text \<open>
  Shared vocabulary of the development: C characters and NUL-terminated strings, the
  signed 32-bit \<open>int\<close> of the C code, byte buffers with checked writes, and the
  generic lemmas on lists that several components use.

  A pointer into a C string is modelled by the list of the bytes it points at, up to the
  terminator: \<open>*s\<close> is \<open>chd s\<close>, which is the NUL byte at the end of the list,
  and \<open>s + 1\<close> is \<open>tl s\<close>.
\<close>

section \<open>Characters and strings\<close>

type_synonym cstring = string
type_synonym u8 = "8 word"
type_synonym u32 = "32 word"
type_synonym u64 = "64 word"

named_theorems c_char "facts about C characters and strings"
named_theorems inv_intros "preservation of component invariants"

abbreviation NUL :: char where
  "NUL \<equiv> CHR 0x00"

definition chd :: "cstring \<Rightarrow> char" where
  "chd s = (case s of [] \<Rightarrow> NUL | c # _ \<Rightarrow> c)"

lemma chd_simps [simp]: "chd [] = NUL" "chd (c # s) = c"
  by (simp_all add: chd_def)

lemma chd_not_NUL [dest]: "chd s \<noteq> NUL \<Longrightarrow> s \<noteq> []"
  by auto

text \<open>A list of bytes that is the contents of a C string: it holds no terminator.\<close>

definition c_str :: "cstring \<Rightarrow> bool" where
  "c_str s \<longleftrightarrow> NUL \<notin> set s"

lemma c_str_simps [simp]:
  "c_str []" "c_str (c # s) \<longleftrightarrow> c \<noteq> NUL \<and> c_str s"
  "c_str (s @ t) \<longleftrightarrow> c_str s \<and> c_str t"
  by (auto simp: c_str_def)

lemma c_str_chd: "c_str s \<Longrightarrow> chd s = NUL \<longleftrightarrow> s = []"
  by (cases s) auto

lemma c_str_tl [intro]: "c_str s \<Longrightarrow> c_str (tl s)"
  by (cases s) auto

lemma c_str_take [intro]: "c_str s \<Longrightarrow> c_str (take n s)"
  by (auto simp: c_str_def dest: in_set_takeD)

lemma c_str_drop [intro]: "c_str s \<Longrightarrow> c_str (drop n s)"
  by (auto simp: c_str_def dest: in_set_dropD)

lemma length_tl_less [simp]: "chd s \<noteq> NUL \<Longrightarrow> length (tl s) < length s"
  by (cases s) auto

text \<open>The value of a byte as an \<open>unsigned char\<close> and as a (signed) \<open>char\<close>.\<close>

definition uchar :: "char \<Rightarrow> nat" where
  "uchar c = of_char c"

definition schar :: "char \<Rightarrow> int" where
  "schar c = (if uchar c < 128 then int (uchar c) else int (uchar c) - 256)"

lemma uchar_less [simp]: "uchar c < 256"
  by (simp add: uchar_def)

lemma uchar_inject [simp]: "uchar c = uchar d \<longleftrightarrow> c = d"
  by (simp add: uchar_def)

lemma uchar_char_of [simp]: "uchar (char_of n) = n mod 256"
  by (simp add: uchar_def)

lemma char_of_uchar [simp]: "char_of (uchar c) = c"
  by (simp add: uchar_def)

lemma uchar_NUL [simp]: "uchar NUL = 0"
  by (simp add: uchar_def)

lemma uchar_eq_0 [simp]: "uchar c = 0 \<longleftrightarrow> c = NUL"
  using uchar_inject [of c NUL] by simp

lemma uchar_pos [simp]: "0 < uchar c \<longleftrightarrow> c \<noteq> NUL"
  using uchar_eq_0 [of c] by linarith

lemma schar_inject [simp]: "schar c = schar d \<longleftrightarrow> c = d"
proof -
  have "schar c = schar d \<longleftrightarrow> int (uchar c) = int (uchar d)"
    using uchar_less [of c] uchar_less [of d] by (auto simp: schar_def simp del: uchar_less uchar_inject)
  then show ?thesis by simp
qed

text \<open>\<^verbatim>\<open>isspace\<close> in the C locale.\<close>

definition isspace :: "char \<Rightarrow> bool" where
  "isspace c \<longleftrightarrow> uchar c = 32 \<or> 9 \<le> uchar c \<and> uchar c \<le> 13"

section \<open>The C type int\<close>

text \<open>Conversion of a mathematical integer to a 32-bit two's complement \<open>int\<close>.\<close>

definition i32 :: "int \<Rightarrow> int" where
  "i32 n = (n + 2147483648) mod 4294967296 - 2147483648"

lemma i32_id: "- 2147483648 \<le> n \<Longrightarrow> n < 2147483648 \<Longrightarrow> i32 n = n"
  by (simp add: i32_def)

lemma i32_bounds: "- 2147483648 \<le> i32 n" "i32 n < 2147483648"
  by (simp_all add: i32_def)

section \<open>32-bit words as numbers\<close>

lemma unat_take_bit_mod: "unat (take_bit n (w :: u32)) = unat w mod 2 ^ n"
  by (simp only: unsigned_take_bit_eq take_bit_eq_mod [of n "unat w"])

lemma unat_drop_bit_div: "unat (drop_bit n (w :: u32)) = unat w div 2 ^ n"
  by (simp only: unat_drop_bit_eq drop_bit_eq_div [of n "unat w"])

lemma unat_push_bit: "unat (push_bit n (w :: u32)) = unat w * 2 ^ n mod 2 ^ 32"
  by (simp only: unsigned_push_bit_eq) (simp add: push_bit_eq_mult take_bit_eq_mod)

section \<open>Byte buffers\<close>

text \<open>
  A buffer is the list of its cells. A write outside of it is undefined behaviour in C and
  gives \<open>None\<close> here, so a theorem that an operation returns \<open>Some\<close> says that
  it stays inside the buffer.
\<close>

definition buf_put :: "'a list \<Rightarrow> nat \<Rightarrow> 'a \<Rightarrow> 'a list option" where
  "buf_put b i x = (if i < length b then Some (b[i := x]) else None)"

definition buf_get :: "'a list \<Rightarrow> nat \<Rightarrow> 'a option" where
  "buf_get b i = (if i < length b then Some (b ! i) else None)"

lemma buf_put_Some [simp]: "i < length b \<Longrightarrow> buf_put b i x = Some (b[i := x])"
  by (simp add: buf_put_def)

lemma buf_put_None_iff: "buf_put b i x = None \<longleftrightarrow> length b \<le> i"
  by (simp add: buf_put_def)

lemma buf_put_eq_Some: "buf_put b i x = Some b' \<longleftrightarrow> i < length b \<and> b' = b[i := x]"
  by (auto simp: buf_put_def)

text \<open>The C string that starts at a cell of a buffer.\<close>

definition buf_str :: "char list \<Rightarrow> nat \<Rightarrow> cstring" where
  "buf_str b i = takeWhile (\<lambda>c. c \<noteq> NUL) (drop i b)"

text \<open>A run of cells overwritten with the bytes of a list.\<close>

definition put_bytes :: "'a list \<Rightarrow> nat \<Rightarrow> 'a list \<Rightarrow> 'a list" where
  "put_bytes m i xs = take i m @ xs @ drop (i + length xs) m"

lemma put_bytes_Nil [simp]: "put_bytes m i [] = m"
  by (simp add: put_bytes_def)

lemma put_bytes_snoc: "i < length m \<Longrightarrow> put_bytes (m[i := x]) (i + 1) xs = put_bytes m i (x # xs)"
  by (simp add: put_bytes_def take_Suc_conv_app_nth)

lemma put_bytes_cons:
  "i + length xs < length m \<Longrightarrow> (put_bytes m (i + 1) xs)[i := x] = put_bytes m i (x # xs)"
  by (simp add: put_bytes_def list_update_append take_Suc_conv_app_nth)

lemma put_bytes_props:
  assumes "i + length xs \<le> length m"
  shows "length (put_bytes m i xs) = length m" "j \<le> i \<Longrightarrow> take j (put_bytes m i xs) = take j m"
    "take (length xs) (drop i (put_bytes m i xs)) = xs"
  using assms by (simp_all add: put_bytes_def)

section \<open>Lists\<close>

lemma takeWhile_append_stop:
  "(\<forall>x \<in> set xs. P x) \<Longrightarrow> \<not> P y \<Longrightarrow> takeWhile P (xs @ y # ys) = xs"
  by (simp add: takeWhile_append)

lemma buf_str_prefix: "c_str t \<Longrightarrow> buf_str (t @ NUL # post) 0 = t"
  by (induction t) (auto simp: buf_str_def)

lemma list_update_append_right:
  "i = length xs \<Longrightarrow> (xs @ y # ys)[i := z] = xs @ z # ys"
  by simp

lemma dropWhile_length_le [simp]: "length (dropWhile P xs) \<le> length xs"
  by (induction xs) auto

lemma sum_list_update_nat:
  "i < length (xs :: nat list) \<Longrightarrow> sum_list (xs[i := x]) + xs ! i = sum_list xs + x"
  by (induction xs arbitrary: i) (auto split: nat.splits)

lemma sorted_wrt_insert_middle:
  "sorted_wrt P (xs @ ys) \<Longrightarrow> (\<forall>x \<in> set xs. P x a) \<Longrightarrow> (\<forall>y \<in> set ys. P a y)
    \<Longrightarrow> sorted_wrt P (xs @ a # ys)"
  by (auto simp: sorted_wrt_append)

end
