(* ===== verification/CString.thy ===== *)
theory CString
  imports Prelude "HOL-Library.List_Lexorder"
begin

text \<open>
  The libc replacements of \<^verbatim>\<open>source/string.c\<close> (the \<^verbatim>\<open>str*\<close> functions and the
  case tables) and the \<^verbatim>\<open>strlcpy\<close>/\<^verbatim>\<open>strlcat\<close> pair of
  \<^verbatim>\<open>source/contrib\<close>. Reading functions work on the list of bytes before the
  terminator. Functions that write take the whole destination buffer and return \<open>None\<close>
  for a write or a read outside of it.
\<close>

section \<open>Case tables\<close>

definition tolowertab :: "nat list" where
  "tolowertab =
  [0, 1, 2, 3, 4, 5, 6, 7, 8, 9, 10, 11, 12, 13, 14, 15,
   16, 17, 18, 19, 20, 21, 22, 23, 24, 25, 26, 27, 28, 29, 30, 31,
   32, 33, 34, 35, 36, 37, 38, 39, 40, 41, 42, 43, 44, 45, 46, 47,
   48, 49, 50, 51, 52, 53, 54, 55, 56, 57, 58, 59, 60, 61, 62, 63,
   64, 97, 98, 99, 100, 101, 102, 103, 104, 105, 106, 107, 108, 109, 110, 111,
   112, 113, 114, 115, 116, 117, 118, 119, 120, 121, 122, 91, 92, 93, 94, 95,
   96, 97, 98, 99, 100, 101, 102, 103, 104, 105, 106, 107, 108, 109, 110, 111,
   112, 113, 114, 115, 116, 117, 118, 119, 120, 121, 122, 123, 124, 125, 126, 127,
   128, 129, 130, 131, 132, 133, 134, 135, 136, 137, 138, 139, 140, 141, 142, 143,
   144, 145, 146, 147, 148, 149, 150, 151, 152, 153, 154, 155, 156, 157, 158, 159,
   160, 161, 162, 163, 164, 165, 166, 167, 168, 169, 170, 171, 172, 173, 174, 175,
   176, 177, 178, 179, 180, 181, 182, 183, 184, 185, 186, 187, 188, 189, 190, 191,
   192, 193, 194, 195, 196, 197, 198, 199, 200, 201, 202, 203, 204, 205, 206, 207,
   208, 209, 210, 211, 212, 213, 214, 215, 216, 217, 218, 219, 220, 221, 222, 223,
   224, 225, 226, 227, 228, 229, 230, 231, 232, 233, 234, 235, 236, 237, 238, 239,
   240, 241, 242, 243, 244, 245, 246, 247, 248, 249, 250, 251, 252, 253, 254, 255]"

definition touppertab :: "nat list" where
  "touppertab =
  [0, 1, 2, 3, 4, 5, 6, 7, 8, 9, 10, 11, 12, 13, 14, 15,
   16, 17, 18, 19, 20, 21, 22, 23, 24, 25, 26, 27, 28, 29, 30, 31,
   32, 33, 34, 35, 36, 37, 38, 39, 40, 41, 42, 43, 44, 45, 46, 47,
   48, 49, 50, 51, 52, 53, 54, 55, 56, 57, 58, 59, 60, 61, 62, 63,
   64, 65, 66, 67, 68, 69, 70, 71, 104, 73, 74, 75, 76, 77, 78, 79,
   80, 81, 82, 83, 116, 85, 86, 87, 88, 89, 90, 91, 92, 93, 94, 95,
   96, 65, 66, 67, 68, 69, 70, 71, 72, 73, 106, 75, 76, 77, 78, 79,
   80, 81, 82, 83, 84, 85, 86, 87, 88, 89, 90, 123, 124, 125, 126, 127,
   128, 129, 130, 131, 132, 133, 134, 135, 136, 137, 138, 139, 140, 141, 142, 143,
   144, 145, 146, 147, 148, 149, 150, 151, 152, 153, 154, 155, 156, 157, 158, 159,
   160, 161, 162, 163, 164, 165, 166, 167, 168, 169, 170, 171, 172, 173, 174, 175,
   176, 177, 178, 179, 180, 181, 182, 183, 184, 185, 186, 187, 188, 189, 190, 191,
   192, 193, 194, 195, 196, 197, 198, 199, 200, 201, 202, 203, 204, 205, 206, 207,
   208, 209, 210, 211, 212, 213, 214, 215, 216, 217, 218, 219, 220, 221, 222, 223,
   224, 225, 226, 227, 228, 229, 230, 231, 232, 233, 234, 235, 236, 237, 238, 239,
   240, 241, 242, 243, 244, 245, 246, 247, 248, 249, 250, 251, 252, 253, 254, 255]"

definition tolower :: "char \<Rightarrow> char" where
  "tolower c = char_of (tolowertab ! uchar c)"

definition toupper :: "char \<Rightarrow> char" where
  "toupper c = char_of (touppertab ! uchar c)"

lemma tolowertab_eq:
  "tolowertab = map (\<lambda>n. if 65 \<le> n \<and> n \<le> 90 then n + 32 else n) [0..<256]"
  by code_simp

text \<open>
  The upper-case table is the ASCII one except for three entries: the rows hold lower-case
  letters where \<^verbatim>\<open>'H'\<close> (72) and \<^verbatim>\<open>'T'\<close> (84) belong, and \<^verbatim>\<open>'j'\<close> (106)
  maps to itself.
\<close>

lemma touppertab_eq:
  "touppertab = map (\<lambda>n. if n = 72 then 104 else if n = 84 then 116 else if n = 106 then 106
     else if 97 \<le> n \<and> n \<le> 122 then n - 32 else n) [0..<256]"
  by code_simp

lemma uchar_tolower:
  "uchar (tolower c) = (if 65 \<le> uchar c \<and> uchar c \<le> 90 then uchar c + 32 else uchar c)"
  by (simp add: tolower_def tolowertab_eq)

lemma uchar_toupper:
  "uchar (toupper c) = (if uchar c = 72 then 104 else if uchar c = 84 then 116
     else if uchar c = 106 then 106
     else if 97 \<le> uchar c \<and> uchar c \<le> 122 then uchar c - 32 else uchar c)"
  using uchar_less [of c] by (simp add: toupper_def touppertab_eq del: uchar_less)


lemma tolower_NUL_iff [simp]: "tolower c = NUL \<longleftrightarrow> c = NUL"
proof -
  have "uchar (tolower c) = 0 \<longleftrightarrow> uchar c = 0"
    by (auto simp: uchar_tolower split: if_splits simp del: uchar_eq_0)
  then show ?thesis by simp
qed

lemma toupper_NUL_iff [simp]: "toupper c = NUL \<longleftrightarrow> c = NUL"
proof -
  have "uchar (toupper c) = 0 \<longleftrightarrow> uchar c = 0"
    by (auto simp: uchar_toupper split: if_splits simp del: uchar_eq_0)
  then show ?thesis by simp
qed

lemma case_NUL [simp]:
  "tolower NUL = NUL" "toupper NUL = NUL"
  "NUL = tolower c \<longleftrightarrow> c = NUL" "NUL = toupper c \<longleftrightarrow> c = NUL"
  using tolower_NUL_iff [of c] toupper_NUL_iff [of c] by (simp, simp, metis, metis)

lemma tolower_idem: "tolower (tolower c) = tolower c"
proof -
  have "uchar (tolower (tolower c)) = uchar (tolower c)"
    by (simp add: uchar_tolower)
  then show ?thesis by simp
qed

section \<open>Comparisons\<close>

fun ith_strlen :: "cstring \<Rightarrow> nat" where
  "ith_strlen s = (if chd s = NUL then 0 else Suc (ith_strlen (tl s)))"

fun ith_strcasecmp :: "cstring \<Rightarrow> cstring \<Rightarrow> int" where
  "ith_strcasecmp one two =
     (if tolower (chd one) = tolower (chd two)
      then (if chd one = NUL then 0 else ith_strcasecmp (tl one) (tl two))
      else int (uchar (tolower (chd one))) - int (uchar (tolower (chd two))))"

fun ith_strncasecmp_loop :: "cstring \<Rightarrow> cstring \<Rightarrow> int \<Rightarrow> int" where
  "ith_strncasecmp_loop one two len =
     (if tolower (chd one) \<noteq> tolower (chd two)
      then int (uchar (tolower (chd one))) - int (uchar (tolower (chd two)))
      else if chd one = NUL then 0
      else if len - 1 \<noteq> 0 then ith_strncasecmp_loop (tl one) (tl two) (len - 1)
      else 0)"

definition ith_strncasecmp :: "cstring \<Rightarrow> cstring \<Rightarrow> int \<Rightarrow> int" where
  "ith_strncasecmp one two len = (if len \<noteq> 0 then ith_strncasecmp_loop one two len else 0)"

fun ith_strcmp :: "cstring \<Rightarrow> cstring \<Rightarrow> int" where
  "ith_strcmp one two =
     (if chd one = chd two
      then (if chd one = NUL then 0 else ith_strcmp (tl one) (tl two))
      else schar (chd one) - schar (chd two))"

fun ith_strncmp_loop :: "cstring \<Rightarrow> cstring \<Rightarrow> int \<Rightarrow> int" where
  "ith_strncmp_loop one two len =
     (if chd one \<noteq> chd two then schar (chd one) - schar (chd two)
      else if chd one = NUL then 0
      else if len - 1 \<noteq> 0 then ith_strncmp_loop (tl one) (tl two) (len - 1)
      else 0)"

definition ith_strncmp :: "cstring \<Rightarrow> cstring \<Rightarrow> int \<Rightarrow> int" where
  "ith_strncmp one two len = (if len \<noteq> 0 then ith_strncmp_loop one two len else 0)"

text \<open>A found position is the suffix of the string that starts there.\<close>

fun ith_strchr :: "cstring \<Rightarrow> char \<Rightarrow> cstring option" where
  "ith_strchr str ch =
     (if chd str = ch then Some str
      else if chd str = NUL then None else ith_strchr (tl str) ch)"

fun ith_strrchr_loop :: "cstring option \<Rightarrow> cstring \<Rightarrow> char \<Rightarrow> cstring option" where
  "ith_strrchr_loop lst str ch =
     (let lst' = (if chd str = ch then Some str else lst)
      in if chd str = NUL then lst' else ith_strrchr_loop lst' (tl str) ch)"

definition ith_strrchr :: "cstring \<Rightarrow> char \<Rightarrow> cstring option" where
  "ith_strrchr str ch = ith_strrchr_loop None str ch"

text \<open>
  \<^verbatim>\<open>ith_strsep\<close> returns the token and the new value of \<^verbatim>\<open>*from\<close>
  (\<open>None\<close> for the null pointer); the delimiter it overwrites with NUL ends the token.
\<close>

fun strsep_is_delim :: "char \<Rightarrow> cstring \<Rightarrow> bool" where
  "strsep_is_delim c dp =
     (if chd dp = NUL then False else if c = chd dp then True else strsep_is_delim c (tl dp))"

fun ith_strsep_loop :: "cstring \<Rightarrow> cstring \<Rightarrow> cstring \<times> cstring option" where
  "ith_strsep_loop s delim =
     (if chd s = NUL then ([], None)
      else if strsep_is_delim (chd s) delim then ([], Some (tl s))
      else (case ith_strsep_loop (tl s) delim of (tok, rest) \<Rightarrow> (chd s # tok, rest)))"

definition ith_strsep :: "cstring option \<Rightarrow> cstring \<Rightarrow> (cstring \<times> cstring option) option" where
  "ith_strsep from delim = map_option (\<lambda>s. ith_strsep_loop s delim) from"

declare ith_strlen.simps [simp del] ith_strcasecmp.simps [simp del]
  ith_strncasecmp_loop.simps [simp del] ith_strcmp.simps [simp del]
  ith_strncmp_loop.simps [simp del] ith_strchr.simps [simp del]
  ith_strrchr_loop.simps [simp del] strsep_is_delim.simps [simp del]
  ith_strsep_loop.simps [simp del]

text \<open>Equations on list patterns, which the proofs use instead of the code's own.\<close>

lemma ith_strlen_list [simp]:
  "ith_strlen [] = 0" "c \<noteq> NUL \<Longrightarrow> ith_strlen (c # s) = Suc (ith_strlen s)"
  by (simp_all add: ith_strlen.simps [of "[]"] ith_strlen.simps [of "c # s"])

lemma ith_strlen_eq: "c_str s \<Longrightarrow> ith_strlen s = length s"
  by (induction s) auto

lemma ith_strcasecmp_list [simp]:
  "ith_strcasecmp [] [] = 0"
  "c \<noteq> NUL \<Longrightarrow> ith_strcasecmp [] (c # t) = - int (uchar (tolower c))"
  "c \<noteq> NUL \<Longrightarrow> ith_strcasecmp (c # s) [] = int (uchar (tolower c))"
  "c \<noteq> NUL \<Longrightarrow> ith_strcasecmp (c # s) (d # t) =
     (if tolower c = tolower d then ith_strcasecmp s t
      else int (uchar (tolower c)) - int (uchar (tolower d)))"
proof -
  show "ith_strcasecmp [] [] = 0" by (simp add: ith_strcasecmp.simps)
  show "c \<noteq> NUL \<Longrightarrow> ith_strcasecmp [] (c # t) = - int (uchar (tolower c))"
    by (simp add: ith_strcasecmp.simps [of "[]"])
  show "c \<noteq> NUL \<Longrightarrow> ith_strcasecmp (c # s) [] = int (uchar (tolower c))"
    by (simp add: ith_strcasecmp.simps [of "c # s"])
  show "c \<noteq> NUL \<Longrightarrow> ith_strcasecmp (c # s) (d # t) =
     (if tolower c = tolower d then ith_strcasecmp s t
      else int (uchar (tolower c)) - int (uchar (tolower d)))"
    by (simp add: ith_strcasecmp.simps [of "c # s"])
qed

definition same_nocase :: "cstring \<Rightarrow> cstring \<Rightarrow> bool" where
  "same_nocase a b \<longleftrightarrow> map tolower a = map tolower b"

lemma strcasecmp_zero_iff [c_char]:
  "c_str a \<Longrightarrow> c_str b \<Longrightarrow> ith_strcasecmp a b = 0 \<longleftrightarrow> same_nocase a b"
proof (induction a arbitrary: b)
  case Nil
  then show ?case by (cases b) (auto simp: same_nocase_def)
next
  case (Cons c a)
  then show ?case by (cases b) (auto simp: same_nocase_def)
qed

lemma strcasecmp_antisym:
  "c_str a \<Longrightarrow> c_str b \<Longrightarrow> ith_strcasecmp a b = - ith_strcasecmp b a"
proof (induction a arbitrary: b)
  case Nil
  then show ?case by (cases b) auto
next
  case (Cons c a)
  then show ?case by (cases b) auto
qed


text \<open>
  The comparison is the lexicographic order on the lower-cased byte values, so sorting by
  it is sorting by a linear order.
\<close>

definition nocase_key :: "cstring \<Rightarrow> nat list" where
  "nocase_key s = map (\<lambda>c. uchar (tolower c)) s"

lemma strcasecmp_pos_iff [c_char]:
  "c_str a \<Longrightarrow> c_str b \<Longrightarrow> 0 < ith_strcasecmp a b \<longleftrightarrow> nocase_key b < nocase_key a"
proof (induction a arbitrary: b)
  case Nil
  then show ?case by (cases b) (auto simp: nocase_key_def)
next
  case (Cons c a)
  then show ?case by (cases b) (auto simp: nocase_key_def)
qed

lemma nocase_key_eq_iff: "nocase_key a = nocase_key b \<longleftrightarrow> same_nocase a b"
proof (induction a arbitrary: b)
  case Nil
  then show ?case by (cases b) (auto simp: nocase_key_def same_nocase_def)
next
  case (Cons c a)
  then show ?case by (cases b) (auto simp: nocase_key_def same_nocase_def)
qed

lemma same_nocase_refl [simp]: "same_nocase a a"
  by (simp add: same_nocase_def)

lemma same_nocase_sym: "same_nocase a b \<longleftrightarrow> same_nocase b a"
  by (auto simp: same_nocase_def)

lemma same_nocase_trans: "same_nocase a b \<Longrightarrow> same_nocase b c \<Longrightarrow> same_nocase a c"
  by (simp add: same_nocase_def)

lemma strncasecmp_loop_zero_iff:
  "c_str a \<Longrightarrow> c_str b \<Longrightarrow> 0 < n \<Longrightarrow>
     ith_strncasecmp_loop a b (int n) = 0 \<longleftrightarrow> same_nocase (take n a) (take n b)"
proof (induction a arbitrary: b n)
  case Nil
  then show ?case
    by (cases b; cases n)
      (auto simp: same_nocase_def ith_strncasecmp_loop.simps [of "[]"])
next
  case (Cons c a)
  obtain m where n: "n = Suc m" using Cons.prems(3) by (cases n) auto
  show ?case
  proof (cases b)
    case Nil
    then show ?thesis using Cons.prems n
      by (simp add: same_nocase_def ith_strncasecmp_loop.simps [of "c # a"])
  next
    case (Cons d b')
    then show ?thesis
      using Cons.prems Cons.IH [of b' m] n
      by (cases "m = 0") (auto simp: same_nocase_def ith_strncasecmp_loop.simps [of "c # a"])
  qed
qed

lemma strncasecmp_zero_iff [c_char]:
  "c_str a \<Longrightarrow> c_str b \<Longrightarrow>
     ith_strncasecmp a b (int n) = 0 \<longleftrightarrow> same_nocase (take n a) (take n b)"
  by (cases "n = 0") (auto simp: ith_strncasecmp_def strncasecmp_loop_zero_iff)

lemma strcmp_zero_iff [c_char]:
  "c_str a \<Longrightarrow> c_str b \<Longrightarrow> ith_strcmp a b = 0 \<longleftrightarrow> a = b"
proof (induction a arbitrary: b)
  case Nil
  then show ?case by (cases b) (auto simp: ith_strcmp.simps)
next
  case (Cons c a)
  then show ?case by (cases b) (auto simp: ith_strcmp.simps [of "c # a"])
qed

text \<open>Search: the found suffix starts at the first occurrence.\<close>

lemma strchr_split [c_char]:
  "c_str s \<Longrightarrow> ch \<noteq> NUL \<Longrightarrow> ith_strchr s ch =
     (if ch \<in> set s then Some (dropWhile (\<lambda>c. c \<noteq> ch) s) else None)"
proof (induction s)
  case Nil
  then show ?case by (simp add: ith_strchr.simps)
next
  case (Cons c s)
  then show ?case by (auto simp: ith_strchr.simps [of "c # s"])
qed

lemma strchr_Some_length: "ith_strchr s ch = Some t \<Longrightarrow> length t \<le> length s"
proof (induction s ch rule: ith_strchr.induct)
  case (1 str ch)
  then show ?case
    by (subst (asm) (2) ith_strchr.simps) (auto split: if_splits)
qed

end
