(* ===== verification/CBuffer.thy ===== *)
theory CBuffer
  imports CString
begin

text \<open>
  The copying half of \<^verbatim>\<open>source/string.c\<close>: \<^verbatim>\<open>strcat\<close>,
  \<^verbatim>\<open>strncat\<close>, \<^verbatim>\<open>strcpy\<close>, \<^verbatim>\<open>strncpy\<close>, and
  \<^verbatim>\<open>strlcpy\<close> and \<^verbatim>\<open>strlcat\<close> of \<^verbatim>\<open>source/contrib\<close>.
  The destination is the whole array behind the pointer; source and destination do not
  overlap. Each loop is the C loop with its pointer as an index into the array.
\<close>

section \<open>Operations\<close>

function buf_end :: "char list \<Rightarrow> nat \<Rightarrow> nat option" where
  "buf_end b i =
     (case buf_get b i of
        None \<Rightarrow> None
      | Some c \<Rightarrow> if c \<noteq> NUL then buf_end b (Suc i) else Some i)"
  by pat_completeness auto
termination
  by (relation "measure (\<lambda>(b, i). length b - i)") (auto simp: buf_get_def split: if_splits)

fun strcpy_at :: "char list \<Rightarrow> nat \<Rightarrow> cstring \<Rightarrow> char list option" where
  "strcpy_at b i s =
     (case buf_put b i (chd s) of
        None \<Rightarrow> None
      | Some b' \<Rightarrow> if chd s \<noteq> NUL then strcpy_at b' (Suc i) (tl s) else Some b')"

definition ith_strcpy :: "char list \<Rightarrow> cstring \<Rightarrow> char list option" where
  "ith_strcpy b s = strcpy_at b 0 s"

definition ith_strcat :: "char list \<Rightarrow> cstring \<Rightarrow> char list option" where
  "ith_strcat b app =
     (case buf_end b 0 of None \<Rightarrow> None | Some i \<Rightarrow> strcpy_at b i app)"

fun strncat_loop ::
  "char list \<Rightarrow> nat \<Rightarrow> cstring \<Rightarrow> int \<Rightarrow> (char list \<times> nat) option" where
  "strncat_loop b i a len =
     (case buf_put b i (chd a) of
        None \<Rightarrow> None
      | Some b' \<Rightarrow>
          if chd a = NUL then Some (b', i)
          else if len - 1 \<noteq> 0 then strncat_loop b' (Suc i) (tl a) (len - 1)
          else Some (b', Suc i))"

definition ith_strncat :: "char list \<Rightarrow> cstring \<Rightarrow> int \<Rightarrow> char list option" where
  "ith_strncat b app len =
     (if len \<noteq> 0 then
        (case buf_end b 0 of
           None \<Rightarrow> None
         | Some i \<Rightarrow>
             (case strncat_loop b i app len of
                None \<Rightarrow> None
              | Some (b', j) \<Rightarrow> buf_put b' j NUL))
      else Some b)"

function strncpy_pad :: "char list \<Rightarrow> nat \<Rightarrow> int \<Rightarrow> char list option" where
  "strncpy_pad b i len =
     (if len - 1 \<noteq> 0 then
        (case buf_put b i NUL of
           None \<Rightarrow> None
         | Some b' \<Rightarrow> strncpy_pad b' (Suc i) (len - 1))
      else Some b)"
  by pat_completeness auto
termination
  by (relation "measure (\<lambda>(b, i, len). length b - i)") (auto simp: buf_put_eq_Some)

fun strncpy_loop :: "char list \<Rightarrow> nat \<Rightarrow> cstring \<Rightarrow> int \<Rightarrow> char list option" where
  "strncpy_loop b i f len =
     (case buf_put b i (chd f) of
        None \<Rightarrow> None
      | Some b' \<Rightarrow>
          if chd f = NUL then strncpy_pad b' (Suc i) len
          else if len - 1 \<noteq> 0 then strncpy_loop b' (Suc i) (tl f) (len - 1)
          else Some b')"

definition ith_strncpy :: "char list \<Rightarrow> cstring \<Rightarrow> int \<Rightarrow> char list option" where
  "ith_strncpy b from len = (if len \<noteq> 0 then strncpy_loop b 0 from len else Some b)"

text \<open>
  \<^verbatim>\<open>ith_strlcpy\<close>: the copying loop returns the buffer, the write position and the
  value of \<^verbatim>\<open>n\<close> where it stopped.
\<close>

fun strlcpy_loop ::
  "char list \<Rightarrow> nat \<Rightarrow> cstring \<Rightarrow> nat \<Rightarrow> (char list \<times> nat \<times> nat) option" where
  "strlcpy_loop b d s n =
     (case buf_put b d (chd s) of
        None \<Rightarrow> None
      | Some b' \<Rightarrow>
          if chd s = NUL then Some (b', Suc d, n)
          else if n - 1 \<noteq> 0 then strlcpy_loop b' (Suc d) (tl s) (n - 1)
          else Some (b', Suc d, 0))"

definition ith_strlcpy :: "char list \<Rightarrow> cstring \<Rightarrow> nat \<Rightarrow> (char list \<times> nat) option" where
  "ith_strlcpy dst src siz =
     (case (if siz \<noteq> 0 \<and> siz - 1 \<noteq> 0 then strlcpy_loop dst 0 src (siz - 1) else Some (dst, 0, 0)) of
        None \<Rightarrow> None
      | Some (b, d, n) \<Rightarrow>
          if n = 0 \<and> siz \<noteq> 0
          then map_option (\<lambda>b'. (b', ith_strlen src)) (buf_put b d NUL)
          else Some (b, ith_strlen src))"

function strlcat_end :: "char list \<Rightarrow> nat \<Rightarrow> nat \<Rightarrow> nat option" where
  "strlcat_end b d n =
     (if n \<noteq> 0 then
        (case buf_get b d of
           None \<Rightarrow> None
         | Some c \<Rightarrow> if c \<noteq> NUL then strlcat_end b (Suc d) (n - 1) else Some d)
      else Some d)"
  by pat_completeness auto
termination
  by (relation "measure (\<lambda>(b, d, n). n)") auto

fun strlcat_loop :: "char list \<Rightarrow> nat \<Rightarrow> cstring \<Rightarrow> nat \<Rightarrow> char list option" where
  "strlcat_loop b d s n =
     (if chd s \<noteq> NUL then
        (if n \<noteq> 1 then
           (case buf_put b d (chd s) of
              None \<Rightarrow> None
            | Some b' \<Rightarrow> strlcat_loop b' (Suc d) (tl s) (n - 1))
         else strlcat_loop b d (tl s) n)
      else buf_put b d NUL)"

definition ith_strlcat :: "char list \<Rightarrow> cstring \<Rightarrow> nat \<Rightarrow> (char list \<times> nat) option" where
  "ith_strlcat dst src siz =
     (case strlcat_end dst 0 siz of
        None \<Rightarrow> None
      | Some dlen \<Rightarrow>
          if siz - dlen = 0 then Some (dst, dlen + ith_strlen src)
          else map_option (\<lambda>b. (b, dlen + ith_strlen src)) (strlcat_loop dst dlen src (siz - dlen)))"

declare buf_end.simps [simp del] strcpy_at.simps [simp del] strncat_loop.simps [simp del]
  strncpy_pad.simps [simp del] strncpy_loop.simps [simp del] strlcpy_loop.simps [simp del]
  strlcat_end.simps [simp del] strlcat_loop.simps [simp del]

section \<open>Where the copies end up\<close>

text \<open>
  The buffer is written as \<open>pre @ mid @ post\<close>, with the write position at the end of
  \<open>pre\<close>: each loop replaces cells of \<open>mid\<close> and leaves \<open>pre\<close> and \<open>post\<close>.
\<close>

lemma buf_put_append [simp]: "buf_put (pre @ x # post) (length pre) y = Some (pre @ y # post)"
  by (simp add: buf_put_def)

lemma strcpy_at_eq:
  "c_str s \<Longrightarrow> length mid = Suc (length s) \<Longrightarrow>
     strcpy_at (pre @ mid @ post) (length pre) s = Some (pre @ s @ NUL # post)"
proof (induction s arbitrary: pre mid)
  case Nil
  then obtain x where "mid = [x]" by (cases mid) auto
  then show ?case by (simp add: strcpy_at.simps [of _ _ "[]"])
next
  case (Cons c s)
  then obtain x mid' where mid: "mid = x # mid'" and len: "length mid' = Suc (length s)"
    by (cases mid) auto
  have "strcpy_at ((pre @ [c]) @ mid' @ post) (length (pre @ [c])) s
      = Some ((pre @ [c]) @ s @ NUL # post)"
    using Cons.prems len by (intro Cons.IH) auto
  then show ?case
    using Cons.prems mid by (simp add: strcpy_at.simps [of _ _ "c # s"])
qed

lemma buf_end_eq:
  "c_str s \<Longrightarrow> buf_end (pre @ s @ NUL # post) (length pre) = Some (length pre + length s)"
proof (induction s arbitrary: pre)
  case Nil
  then show ?case by (simp add: buf_end.simps [of _ "length pre"] buf_get_def)
next
  case (Cons c s)
  have "buf_end ((pre @ [c]) @ s @ NUL # post) (length (pre @ [c]))
      = Some (length (pre @ [c]) + length s)"
    using Cons.prems by (intro Cons.IH) auto
  then show ?case
    using Cons.prems by (simp add: buf_end.simps [of _ "length pre"] buf_get_def)
qed

lemma strcat_eq:
  assumes "c_str s" "c_str app" "length mid = length app"
  shows "ith_strcat (s @ NUL # mid @ post) app = Some (s @ app @ NUL # post)"
proof -
  have "buf_end (s @ NUL # mid @ post) 0 = Some (length s)"
    using buf_end_eq [OF assms(1), of "[]" "mid @ post"] by simp
  moreover have "strcpy_at (s @ (NUL # mid) @ post) (length s) app = Some (s @ app @ NUL # post)"
    using assms by (intro strcpy_at_eq) auto
  ultimately show ?thesis by (simp add: ith_strcat_def)
qed

lemma strlcpy_loop_eq:
  "c_str s \<Longrightarrow> 0 < n \<Longrightarrow> length mid = n \<Longrightarrow>
     strlcpy_loop (pre @ mid @ post) (length pre) s n =
       Some (if length s < n
             then (pre @ s @ NUL # drop (Suc (length s)) mid @ post, length pre + Suc (length s), n - length s)
             else (pre @ take n s @ post, length pre + n, 0))"
proof (induction s arbitrary: pre mid n)
  case Nil
  then obtain x mid' where "mid = x # mid'" by (cases mid) auto
  then show ?case using Nil by (simp add: strlcpy_loop.simps [of _ _ "[]"])
next
  case (Cons c s)
  then obtain x mid' where mid: "mid = x # mid'" and len: "length mid' = n - 1"
    by (cases mid) auto
  show ?case
  proof (cases "n = 1")
    case True
    then show ?thesis
      using Cons.prems mid len by (simp add: strlcpy_loop.simps [of _ _ "c # s"])
  next
    case False
    have "strlcpy_loop ((pre @ [c]) @ mid' @ post) (length (pre @ [c])) s (n - 1) =
       Some (if length s < n - 1
             then ((pre @ [c]) @ s @ NUL # drop (Suc (length s)) mid' @ post,
                   length (pre @ [c]) + Suc (length s), n - 1 - length s)
             else ((pre @ [c]) @ take (n - 1) s @ post, length (pre @ [c]) + (n - 1), 0))"
      using Cons.prems len False by (intro Cons.IH) auto
    then show ?thesis
      using Cons.prems mid len False
      by (auto simp: strlcpy_loop.simps [of _ _ "c # s"] take_Cons' split: if_splits)
  qed
qed


lemma strlcpy_eq:
  assumes "c_str src" "0 < siz" "length mid = siz"
  shows "ith_strlcpy (mid @ post) src siz =
     (let t = take (siz - 1) src
      in Some (t @ NUL # drop (Suc (length t)) mid @ post, length src))"
proof (cases "siz = 1")
  case True
  then obtain x where "mid = [x]" using assms(3) by (auto simp: length_Suc_conv)
  then show ?thesis using assms True by (simp add: ith_strlcpy_def ith_strlen_eq buf_put_def)
next
  case False
  obtain mid1 y where mid: "mid = mid1 @ [y]" using assms by (cases mid rule: rev_cases) auto
  have "strlcpy_loop (mid1 @ y # post) 0 src (siz - 1) =
      Some (if length src < siz - 1
            then (src @ NUL # drop (Suc (length src)) mid1 @ y # post,
                  Suc (length src), siz - 1 - length src)
            else (take (siz - 1) src @ y # post, siz - 1, 0))"
    using assms mid False
      strlcpy_loop_eq [of src "siz - 1" mid1 "[]" "y # post"] by (simp split: if_splits)
  moreover have "buf_put (take (siz - 1) src @ y # post) (siz - 1) NUL
      = Some (take (siz - 1) src @ NUL # post)" if "\<not> length src < siz - 1"
    using buf_put_append [of "take (siz - 1) src" y post NUL] that by simp
  ultimately show ?thesis
    using assms mid False by (auto simp: ith_strlcpy_def ith_strlen_eq Let_def)
qed

lemma strlcat_end_eq:
  "c_str s \<Longrightarrow> length s < n \<Longrightarrow>
     strlcat_end (pre @ s @ NUL # post) (length pre) n = Some (length pre + length s)"
proof (induction s arbitrary: pre n)
  case Nil
  then show ?case by (simp add: strlcat_end.simps [of _ "length pre"] buf_get_def)
next
  case (Cons c s)
  have "strlcat_end ((pre @ [c]) @ s @ NUL # post) (length (pre @ [c])) (n - 1)
      = Some (length (pre @ [c]) + length s)"
    using Cons.prems by (intro Cons.IH) auto
  then show ?case
    using Cons.prems by (simp add: strlcat_end.simps [of _ "length pre"] buf_get_def)
qed

lemma strlcat_loop_eq:
  "c_str s \<Longrightarrow> 0 < n \<Longrightarrow> length mid = n \<Longrightarrow>
     strlcat_loop (pre @ mid @ post) (length pre) s n =
       (let t = take (n - 1) s
        in Some (pre @ t @ NUL # drop (Suc (length t)) mid @ post))"
proof (induction s arbitrary: pre mid n)
  case Nil
  then obtain x mid' where "mid = x # mid'" by (cases mid) auto
  then show ?case by (simp add: strlcat_loop.simps [of _ _ "[]"])
next
  case (Cons c s)
  then obtain x mid' where mid: "mid = x # mid'" and len: "length mid' = n - 1"
    by (cases mid) auto
  show ?case
  proof (cases "n = 1")
    case True
    then show ?thesis
      using Cons.prems Cons.IH [where pre = pre and mid = mid and n = n] by (simp add: strlcat_loop.simps [of _ _ "c # s"])
  next
    case False
    have "strlcat_loop ((pre @ [c]) @ mid' @ post) (length (pre @ [c])) s (n - 1) =
       (let t = take (n - 1 - 1) s
        in Some ((pre @ [c]) @ t @ NUL # drop (Suc (length t)) mid' @ post))"
      using Cons.prems len False by (intro Cons.IH) auto
    then show ?thesis
      using Cons.prems mid len False
      by (simp add: strlcat_loop.simps [of _ _ "c # s"] take_Cons')
  qed
qed

lemma strlcat_eq:
  assumes "c_str s" "c_str app" "length mid = siz" "length s < siz" "take (Suc (length s)) mid = s @ [NUL]"
  shows "ith_strlcat (mid @ post) app siz =
     (let t = s @ take (siz - 1 - length s) app
      in Some (t @ NUL # drop (Suc (length t)) mid @ post, length s + length app))"
proof -
  let ?r = "drop (Suc (length s)) mid"
  have mid: "mid = s @ NUL # ?r"
    using assms(5) by (metis append_Cons append_assoc append_Nil append_take_drop_id)
  have e: "strlcat_end (mid @ post) 0 siz = Some (length s)"
    using strlcat_end_eq [OF assms(1,4), of "[]" "?r @ post"] mid by (metis append.assoc append_Cons append_Nil add_0 list.size(3))
  have l: "strlcat_loop (s @ (NUL # ?r) @ post) (length s) app (siz - length s) =
       (let t = take (siz - length s - 1) app
        in Some (s @ t @ NUL # drop (Suc (length t)) (NUL # ?r) @ post))"
    using assms by (intro strlcat_loop_eq) auto
  have l': "strlcat_loop (mid @ post) (length s) app (siz - length s) =
       (let t = take (siz - length s - 1) app
        in Some (s @ t @ NUL # drop (Suc (length t)) (NUL # ?r) @ post))"
    using l mid by (metis append.assoc)
  show ?thesis
    using e l' assms(2-4) by (simp add: ith_strlcat_def ith_strlen_eq Let_def add.commute)
qed


section \<open>Splitting with strsep\<close>

lemma strsep_is_delim_iff: "c_str d \<Longrightarrow> strsep_is_delim c d \<longleftrightarrow> c \<in> set d"
  by (induction d) (auto simp: strsep_is_delim.simps [of _ "[]"] strsep_is_delim.simps [of c "x # y" for x y])

lemma strsep_loop_eq:
  "c_str s \<Longrightarrow> c_str d \<Longrightarrow> ith_strsep_loop s d =
     (takeWhile (\<lambda>c. c \<notin> set d) s,
      if \<exists>c \<in> set s. c \<in> set d then Some (tl (dropWhile (\<lambda>c. c \<notin> set d) s)) else None)"
  by (induction s)
    (auto simp: ith_strsep_loop.simps [of "[]"] ith_strsep_loop.simps [of "x # y" for x y]
      strsep_is_delim_iff)

lemma strsep_loop_length:
  "ith_strsep_loop s d = (tok, Some r) \<Longrightarrow> length r < length s"
proof (induction s d arbitrary: tok r rule: ith_strsep_loop.induct)
  case (1 s delim)
  from "1.prems" have ne: "chd s \<noteq> NUL"
    by (subst (asm) ith_strsep_loop.simps) (auto split: if_splits)
  show ?case
  proof (cases "strsep_is_delim (chd s) delim")
    case True
    with "1.prems" ne show ?thesis
      by (subst (asm) ith_strsep_loop.simps) auto
  next
    case False
    with "1.prems" ne obtain tok' where "ith_strsep_loop (tl s) delim = (tok', Some r)"
      by (subst (asm) ith_strsep_loop.simps) (auto split: prod.splits)
    with "1.IH" ne False have "length r < length (tl s)" by blast
    then show ?thesis by simp
  qed
qed

text \<open>
  The idiom \<^verbatim>\<open>while ((t = strsep(&s, sep)) != NULL)\<close>, which the command code
  uses to walk comma and space separated lists: all the tokens in order.
\<close>

function strsep_all :: "cstring option \<Rightarrow> cstring \<Rightarrow> cstring list" where
  "strsep_all from delim =
     (case from of
        None \<Rightarrow> []
      | Some s \<Rightarrow> (case ith_strsep_loop s delim of (tok, rest) \<Rightarrow> tok # strsep_all rest delim))"
  by pat_completeness auto
termination
  by (relation "measure (\<lambda>(from, _). case from of None \<Rightarrow> 0 | Some s \<Rightarrow> Suc (length s))")
    (auto split: option.splits dest: strsep_loop_length [OF sym])

declare strsep_all.simps [simp del]

lemma strsep_all_eq:
  "strsep_all None d = []"
  "strsep_all (Some s) d = fst (ith_strsep_loop s d) # strsep_all (snd (ith_strsep_loop s d)) d"
  by (simp_all add: strsep_all.simps [of None] strsep_all.simps [of "Some s"] split: prod.splits)

primrec join_with :: "char \<Rightarrow> cstring list \<Rightarrow> cstring" where
  "join_with c [] = []"
| "join_with c (t # ts) = t @ (if ts = [] then [] else c # join_with c ts)"

lemma strsep_all_nonempty [simp]: "strsep_all (Some s) d \<noteq> []"
  by (simp add: strsep_all_eq)


lemma takeWhile_tl_dropWhile_join:
  "x \<in> set s \<Longrightarrow> \<not> P x \<Longrightarrow> \<forall>y. \<not> P y \<longrightarrow> y = c \<Longrightarrow>
     takeWhile P s @ c # tl (dropWhile P s) = s"
  by (induction s) auto

lemma strsep_all_join_aux:
  "c \<noteq> NUL \<Longrightarrow> c_str s \<Longrightarrow> join_with c (strsep_all (Some s) [c]) = s"
proof (induction "length s" arbitrary: s rule: less_induct)
  case less
  have eq: "ith_strsep_loop s [c] =
      (takeWhile (\<lambda>x. x \<noteq> c) s, if c \<in> set s then Some (tl (dropWhile (\<lambda>x. x \<noteq> c) s)) else None)"
    using less.prems by (simp add: strsep_loop_eq)
  show ?case
  proof (cases "c \<in> set s")
    case False
    have "takeWhile (\<lambda>x. x \<noteq> c) s = s"
      using False by (auto simp: takeWhile_eq_all_conv)
    then show ?thesis using eq False by (simp add: strsep_all_eq)
  next
    case True
    let ?r = "tl (dropWhile (\<lambda>x. x \<noteq> c) s)"
    have split: "takeWhile (\<lambda>x. x \<noteq> c) s @ c # ?r = s"
      using takeWhile_tl_dropWhile_join [of c s "\<lambda>x. x \<noteq> c" c] True by simp
    then have "length (takeWhile (\<lambda>x. x \<noteq> c) s @ c # ?r) = length s"
      by (rule arg_cong)
    then have "length ?r < length s"
      by simp
    moreover have "c_str ?r"
      using less.prems(2) by (subst (asm) split [symmetric]) (simp only: c_str_simps)
    ultimately have "join_with c (strsep_all (Some ?r) [c]) = ?r"
      using less by blast
    then show ?thesis using eq True split by (simp add: strsep_all_eq(2) [of s])
  qed
qed

lemma drop_replaced_prefix:
  "length t < siz \<Longrightarrow> siz \<le> length d \<Longrightarrow>
     drop siz (t @ x # drop (Suc (length t)) (take siz d) @ drop siz d) = drop siz d"
proof -
  assume "length t < siz" "siz \<le> length d"
  let ?p = "t @ x # drop (Suc (length t)) (take siz d)"
  have "length ?p = siz"
    using \<open>length t < siz\<close> \<open>siz \<le> length d\<close> by simp
  moreover have "drop siz d = drop (length ?p) (?p @ drop siz d)"
    using append_eq_conv_conj [of ?p "drop siz d" "?p @ drop siz d"] by blast
  ultimately show ?thesis by (metis append.assoc append_Cons)
qed

section \<open>Properties\<close>

text \<open>\<^verbatim>\<open>ith_strlcpy\<close> stays inside the first \<open>siz\<close> cells of its
  destination, leaves there the longest prefix of the source that fits with its terminator, keeps
  every cell from \<open>siz\<close> on, and returns the length of the source.\<close>

theorem strlcpy_bounded:
  assumes "c_str src" "0 < siz" "siz \<le> length dst"
  shows "\<exists>b. ith_strlcpy dst src siz = Some (b, length src)
           \<and> length b = length dst \<and> drop siz b = drop siz dst
           \<and> buf_str b 0 = take (siz - 1) src"
proof -
  let ?t = "take (siz - 1) src"
  let ?b = "?t @ NUL # drop (Suc (length ?t)) (take siz dst) @ drop siz dst"
  have "ith_strlcpy (take siz dst @ drop siz dst) src siz = Some (?b, length src)"
    using assms by (subst strlcpy_eq) (auto simp: Let_def)
  then have "ith_strlcpy dst src siz = Some (?b, length src)"
    by (simp only: append_take_drop_id)
  moreover have "length ?b = length dst"
    using assms by auto
  moreover have "drop siz ?b = drop siz dst"
    using assms by (intro drop_replaced_prefix) auto
  moreover have "buf_str ?b 0 = ?t"
    using c_str_take [OF assms(1), of "siz - 1"] by (intro buf_str_prefix)
  ultimately show ?thesis by blast
qed

theorem strlcpy_bounded_witness:
  "\<exists>b. ith_strlcpy ''......'' ''abcdef'' 4 = Some (b, 6) \<and> length b = 6
         \<and> drop 4 b = ''..'' \<and> buf_str b 0 = ''abc''"
  using strlcpy_bounded [of "''abcdef''" 4 "''......''"] by (simp add: numeral_eq_Suc)

text \<open>\<^verbatim>\<open>ith_strlcat\<close>, given a destination that holds a terminated string
  within its first \<open>siz\<close> cells, stays inside those cells, appends the longest prefix
  of the source that fits with its terminator, and returns the length it tried to make.\<close>

theorem strlcat_bounded:
  assumes "c_str s" "c_str app" "length s < siz" "siz \<le> length dst"
    and "take (Suc (length s)) dst = s @ [NUL]"
  shows "\<exists>b. ith_strlcat dst app siz = Some (b, length s + length app)
           \<and> length b = length dst \<and> drop siz b = drop siz dst
           \<and> buf_str b 0 = s @ take (siz - 1 - length s) app"
proof -
  let ?t = "s @ take (siz - 1 - length s) app"
  let ?b = "?t @ NUL # drop (Suc (length ?t)) (take siz dst) @ drop siz dst"
  have "take (Suc (length s)) (take siz dst) = s @ [NUL]"
    using assms by (simp add: min_def)
  then have "ith_strlcat (take siz dst @ drop siz dst) app siz = Some (?b, length s + length app)"
    using assms by (subst strlcat_eq [of s]) (auto simp: Let_def)
  then have "ith_strlcat dst app siz = Some (?b, length s + length app)"
    by (simp only: append_take_drop_id)
  moreover have "length ?b = length dst"
    using assms by auto
  moreover have "drop siz ?b = drop siz dst"
    using assms by (intro drop_replaced_prefix) auto
  moreover have "buf_str ?b 0 = ?t"
  proof -
    have "c_str ?t" using assms(1) c_str_take [OF assms(2)] by simp
    then show ?thesis by (rule buf_str_prefix)
  qed
  ultimately show ?thesis by blast
qed

theorem strlcat_bounded_witness:
  "\<exists>b. ith_strlcat (''ab'' @ [NUL] @ ''...'') ''cdef'' 5 = Some (b, 6) \<and> length b = 6
         \<and> drop 5 b = ''.'' \<and> buf_str b 0 = ''abcd''"
  using strlcat_bounded [of "''ab''" "''cdef''" 5 "''ab'' @ [NUL] @ ''...''"]
  by (simp add: numeral_eq_Suc)

text \<open>Walking a list with \<^verbatim>\<open>strsep\<close> and one separator loses nothing: the
  tokens joined by the separator are the original string.\<close>

theorem strsep_all_join:
  assumes "sep \<noteq> NUL" "c_str s"
  shows "join_with sep (strsep_all (Some s) [sep]) = s"
  using assms by (rule strsep_all_join_aux)

theorem strsep_all_join_witness:
  "join_with (CHR '','') (strsep_all (Some ''#a,,#b'') '','') = ''#a,,#b''"
  using strsep_all_join [of "CHR '',''" "''#a,,#b''"] by simp

end
