(* ===== verification/Wildcard.thy ===== *)
theory Wildcard
  imports CString "HOL-Library.Sublist"
begin

text \<open>
  The wildcard matchers of \<^verbatim>\<open>source/string.c\<close>: \<^verbatim>\<open>match\<close> for masks with
  \<^verbatim>\<open>*\<close> and \<^verbatim>\<open>?\<close>, and \<^verbatim>\<open>hostmatch\<close>, which adds
  \<^verbatim>\<open>[...]\<close> collators and \<^verbatim>\<open>(...|...)\<close> lists. The global
  \<^verbatim>\<open>matchdepth\<close> is incremented on entry and decremented on every return, so it is
  the nesting depth of the calls and is passed down as \<open>d\<close>; \<open>mx\<close> is the depth limit
  (\<^verbatim>\<open>MAX_MATCH_DEPTH\<close> or \<^verbatim>\<open>MAX_HOSTMATCH_DEPTH\<close>).
\<close>

section \<open>match\<close>

lemma chd_special_nonempty [termination_simp]:
  "chd w = CHR ''*'' \<Longrightarrow> w \<noteq> []" "chd w = CHR ''?'' \<Longrightarrow> w \<noteq> []"
  by auto

fun skip_stars :: "cstring \<Rightarrow> cstring" where
  "skip_stars w = (if chd w = CHR ''*'' then skip_stars (tl w) else w)"

fun skip_quest :: "cstring \<Rightarrow> cstring \<Rightarrow> cstring \<times> cstring" where
  "skip_quest w s =
     (if chd w = CHR ''?'' \<and> chd s \<noteq> NUL then skip_quest (tl w) (tl s) else (w, s))"

declare skip_stars.simps [simp del] skip_quest.simps [simp del]

lemma skip_stars_length: "length (skip_stars w) \<le> length w"
  by (induction w rule: skip_stars.induct) (subst skip_stars.simps, auto)

lemma skip_quest_length:
  "length (fst (skip_quest w s)) \<le> length w \<and> length (snd (skip_quest w s)) \<le> length s"
proof (induction w s rule: skip_quest.induct)
  case (1 w s)
  then show ?case by (subst (1 2) skip_quest.simps) auto
qed

definition MAX_MATCH_DEPTH :: nat where
  "MAX_MATCH_DEPTH = 12"

function
  m_match :: "nat \<Rightarrow> nat \<Rightarrow> cstring \<Rightarrow> cstring \<Rightarrow> bool" and
  m_loop :: "nat \<Rightarrow> nat \<Rightarrow> cstring \<Rightarrow> cstring \<Rightarrow> bool" and
  m_star :: "nat \<Rightarrow> nat \<Rightarrow> cstring \<Rightarrow> cstring \<Rightarrow> bool"
where
  "m_match mx d w s = (if Suc d > mx then False else m_loop mx (Suc d) w s)"
| "m_loop mx d w s =
     (if chd w = NUL then chd s = NUL
      else if chd w = CHR ''*'' then
        (let ws = skip_quest (skip_stars (tl w)) s; w' = fst ws; s' = snd ws
         in if chd w' = NUL then True
            else if chd w' = CHR ''*'' then m_loop mx d w' s'
            else m_star mx d w' s')
      else if chd s = NUL then False
      else if chd w \<noteq> CHR ''?'' \<and> toupper (chd s) \<noteq> toupper (chd w) then False
      else m_loop mx d (tl w) (tl s))"
| "m_star mx d w s =
     (if chd s \<noteq> NUL then
        (if toupper (chd s) = toupper (chd w) then
           (if m_match mx d (tl w) (tl s) then True else m_star mx d w (tl s))
         else m_star mx d w (tl s))
      else False)"
  by pat_completeness auto

lemma toupper_eq_not_NUL: "toupper c = toupper d \<Longrightarrow> c \<noteq> NUL \<Longrightarrow> d \<noteq> NUL"
  by (metis toupper_NUL_iff)

lemma skip_length_less:
  "chd w = CHR ''*'' \<Longrightarrow> length (fst (skip_quest (skip_stars (tl w)) s)) < length w"
  using skip_quest_length [of "skip_stars (tl w)" s] skip_stars_length [of "tl w"]
  by (cases w) auto

lemma length_tl_less_up:
  "toupper (chd s) = toupper (chd w) \<Longrightarrow> chd s \<noteq> NUL \<Longrightarrow> length (tl w) < length w"
  by (metis toupper_eq_not_NUL length_tl_less)

termination m_match
  by (relation "measures
       [\<lambda>x. case x of Inl (mx, d, w, s) \<Rightarrow> length w
                    | Inr (Inl (mx, d, w, s)) \<Rightarrow> length w
                    | Inr (Inr (mx, d, w, s)) \<Rightarrow> length w,
        \<lambda>x. case x of Inl _ \<Rightarrow> 2 | Inr (Inl _) \<Rightarrow> 1 | Inr (Inr _) \<Rightarrow> 0,
        \<lambda>x. case x of Inl (mx, d, w, s) \<Rightarrow> length s
                    | Inr (Inl (mx, d, w, s)) \<Rightarrow> length s
                    | Inr (Inr (mx, d, w, s)) \<Rightarrow> length s]")
    (simp_all add: skip_length_less length_tl_less_up case_prod_beta del: length_tl)

definition match :: "cstring \<Rightarrow> cstring \<Rightarrow> bool" where
  "match wild str =
     (if ith_strcmp wild ''*'' = 0 then True else m_match MAX_MATCH_DEPTH 0 wild str)"

declare m_match.simps [simp del] m_loop.simps [simp del] m_star.simps [simp del]

section \<open>What a mask means\<close>

text \<open>
  The reference semantics of a mask: \<^verbatim>\<open>*\<close> is any sequence, \<^verbatim>\<open>?\<close> any
  one character, and any other character itself, up to the table \<^verbatim>\<open>touppertab\<close>.
\<close>

fun glob :: "cstring \<Rightarrow> cstring \<Rightarrow> bool" where
  "glob [] s = (s = [])"
| "glob (c # w) [] = (c = CHR ''*'' \<and> glob w [])"
| "glob (c # w) (x # s) =
     (if c = CHR ''*'' then glob w (x # s) \<or> glob (c # w) s
      else (c = CHR ''?'' \<or> toupper c = toupper x) \<and> glob w s)"

definition stars :: "cstring \<Rightarrow> nat" where
  "stars w = count_list w (CHR ''*'')"

lemma stars_simps [simp]:
  "stars [] = 0" "stars (c # w) = (if c = CHR ''*'' then Suc (stars w) else stars w)"
  by (simp_all add: stars_def)

declare glob.simps(2,3) [simp del]

lemma glob_literal [simp]:
  "c \<noteq> CHR ''*'' \<Longrightarrow> glob (c # w) s \<longleftrightarrow>
     (\<exists>x t. s = x # t \<and> (c = CHR ''?'' \<or> toupper c = toupper x) \<and> glob w t)"
  by (cases s) (auto simp: glob.simps)

lemma glob_star: "glob (CHR ''*'' # w) s \<longleftrightarrow> (\<exists>t. suffix t s \<and> glob w t)"
  by (induction s) (auto simp: glob.simps suffix_Cons)

lemma glob_star_star: "glob (CHR ''*'' # CHR ''*'' # w) s \<longleftrightarrow> glob (CHR ''*'' # w) s"
  by (auto simp: glob_star dest: suffix_order.trans)

lemma glob_star_quest:
  "glob (CHR ''*'' # CHR ''?'' # w) (x # s) \<longleftrightarrow> glob (CHR ''*'' # w) s"
proof -
  have "glob (CHR ''*'' # CHR ''?'' # w) (x # s) \<longleftrightarrow> (\<exists>y t. suffix (y # t) (x # s) \<and> glob w t)"
    by (auto simp: glob_star)
  also have "\<dots> \<longleftrightarrow> (\<exists>t. suffix t s \<and> glob w t)"
  proof
    assume "\<exists>y t. suffix (y # t) (x # s) \<and> glob w t"
    then show "\<exists>t. suffix t s \<and> glob w t"
      by (auto simp: suffix_Cons dest: suffix_ConsD)
  next
    assume "\<exists>t. suffix t s \<and> glob w t"
    then obtain t p where "s = p @ t" "glob w t" by (auto simp: suffix_def)
    then have "suffix (last (x # p) # t) (x # s)"
      by (metis append_Cons append_butlast_last_id append.assoc append_Nil list.distinct(1) suffix_def)
    with \<open>glob w t\<close> show "\<exists>y t. suffix (y # t) (x # s) \<and> glob w t" by blast
  qed
  finally show ?thesis by (simp add: glob_star)
qed

lemma glob_star_Nil [simp]: "glob [CHR ''*''] s"
  by (auto simp: glob_star)

lemma skip_stars_list [simp]:
  "skip_stars [] = []"
  "skip_stars (c # w) = (if c = CHR ''*'' then skip_stars w else c # w)"
  by (simp_all add: skip_stars.simps [of "[]"] skip_stars.simps [of "c # w"])

lemma skip_quest_list [simp]:
  "skip_quest [] s = ([], s)" "skip_quest w [] = (w, [])"
  "x \<noteq> NUL \<Longrightarrow> skip_quest (c # w) (x # s) = (if c = CHR ''?'' then skip_quest w s else (c # w, x # s))"
  by (simp_all add: skip_quest.simps [of "[]"] skip_quest.simps [of w "[]"] skip_quest.simps [of "c # w"])

lemma skip_stars_glob: "glob (CHR ''*'' # skip_stars w) s \<longleftrightarrow> glob (CHR ''*'' # w) s"
  by (induction w) (auto simp: glob_star_star)

lemma skip_quest_glob:
  "c_str s \<Longrightarrow> glob (CHR ''*'' # fst (skip_quest w s)) (snd (skip_quest w s))
     \<longleftrightarrow> glob (CHR ''*'' # w) s"
proof (induction s arbitrary: w)
  case Nil
  then show ?case by simp
next
  case (Cons x s)
  then show ?case by (cases w) (auto simp: glob_star_quest)
qed

lemma skip_quest_stop:
  "skip_quest w s = (w', s') \<Longrightarrow> c_str s \<Longrightarrow> chd w' = CHR ''?'' \<Longrightarrow> s' = []"
proof (induction s arbitrary: w)
  case Nil
  then show ?case by auto
next
  case (Cons x s)
  then show ?case by (cases w) (auto split: if_splits)
qed

lemma skip_stars_stars: "stars (skip_stars w) \<le> stars w"
  by (induction w) auto

lemma skip_quest_props:
  "c_str w \<Longrightarrow> c_str s \<Longrightarrow> c_str (fst (skip_quest w s)) \<and> c_str (snd (skip_quest w s))
     \<and> stars (fst (skip_quest w s)) = stars w"
proof (induction s arbitrary: w)
  case Nil
  then show ?case by simp
next
  case (Cons x s)
  then show ?case by (cases w) auto
qed

text \<open>What the inner loop looks for: a later place where the next literal matches.\<close>

definition glob_from :: "cstring \<Rightarrow> cstring \<Rightarrow> bool" where
  "glob_from w s \<longleftrightarrow> (\<exists>y t. suffix (y # t) s \<and> toupper y = toupper (chd w) \<and> glob (tl w) t)"

lemma glob_from_list [simp]:
  "\<not> glob_from w []"
  "glob_from w (x # s) \<longleftrightarrow> (toupper x = toupper (chd w) \<and> glob (tl w) s) \<or> glob_from w s"
  by (auto simp: glob_from_def suffix_Cons)

lemma glob_star_literal:
  "c \<noteq> CHR ''*'' \<Longrightarrow> c \<noteq> CHR ''?'' \<or> s = [] \<Longrightarrow>
     glob (CHR ''*'' # c # w) s \<longleftrightarrow> glob_from (c # w) s"
  by (auto simp: glob_star glob_from_def) metis

lemma m_step_star:
  assumes w: "w = CHR ''*'' # v" and cs: "c_str w" "c_str s"
    and w': "w' = fst (skip_quest (skip_stars v) s)" and s': "s' = snd (skip_quest (skip_stars v) s)"
  shows "glob w s \<longleftrightarrow>
      (if chd w' = NUL then True else if chd w' = CHR ''*'' then glob w' s' else glob_from w' s')"
    and "c_str w'" and "c_str s'" and "stars w' < stars w"
proof -
  have "c_str (skip_stars u)" if "c_str u" for u
    using that by (induction u) auto
  then have v: "c_str (skip_stars v)" using cs(1) w by simp
  then show c': "c_str w'" and "c_str s'"
    using skip_quest_props [OF v cs(2)] w' s' by auto
  show "stars w' < stars w"
    using skip_quest_props [OF v cs(2)] skip_stars_stars [of v] w w' by simp
  have g: "glob w s \<longleftrightarrow> glob (CHR ''*'' # w') s'"
    using skip_quest_glob [OF cs(2), of "skip_stars v"] skip_stars_glob [of v s] w w' s' by simp
  have stop: "s' = []" if "chd w' = CHR ''?''"
    using skip_quest_stop [of "skip_stars v" s w' s'] w' s' cs(2) that by simp
  show "glob w s \<longleftrightarrow>
      (if chd w' = NUL then True else if chd w' = CHR ''*'' then glob w' s' else glob_from w' s')"
  proof (cases w')
    case Nil
    then show ?thesis using g by simp
  next
    case (Cons c u)
    then show ?thesis using g c' stop by (auto simp: glob_star_star glob_star_literal)
  qed
qed

lemma m_correct:
  "c_str w \<Longrightarrow> c_str s \<Longrightarrow>
     (m_match mx d w s \<longrightarrow> glob w s) \<and> (Suc d + stars w \<le> mx \<longrightarrow> glob w s \<longrightarrow> m_match mx d w s)"
  "c_str w \<Longrightarrow> c_str s \<Longrightarrow>
     (m_loop mx d w s \<longrightarrow> glob w s) \<and> (d + stars w \<le> mx \<longrightarrow> glob w s \<longrightarrow> m_loop mx d w s)"
  "c_str w \<Longrightarrow> c_str s \<Longrightarrow> chd w \<noteq> NUL \<Longrightarrow>
     (m_star mx d w s \<longrightarrow> glob_from w s)
     \<and> (Suc d + stars (tl w) \<le> mx \<longrightarrow> glob_from w s \<longrightarrow> m_star mx d w s)"
proof (induction mx d w s and mx d w s and mx d w s rule: m_match_m_loop_m_star.induct)
  case (1 mx d w s)
  then show ?case by (auto simp: m_match.simps [of mx d w s])
next
  case (2 mx d w s)
  show ?case
  proof (cases w)
    case Nil
    then show ?thesis using "2.prems"(2) by (auto simp: m_loop.simps [of mx d "[]" s] c_str_chd m_loop.simps [of mx d "[]" "[]"])
  next
    case (Cons c v)
    then have c: "c \<noteq> NUL" using "2.prems" by simp
    show ?thesis
    proof (cases "c = CHR ''*''")
      case False
      have unf: "m_loop mx d w s \<longleftrightarrow> (\<exists>x t. s = x # t
          \<and> (c = CHR ''?'' \<or> toupper x = toupper c) \<and> m_loop mx d v t)"
        using c False Cons "2.prems"(2)
        by (subst m_loop.simps) (cases s; auto)
      show ?thesis
        using "2.IH"(3) "2.prems" Cons c False unfolding unf
        by (cases s) auto
    next
      case True
      define w' where "w' = fst (skip_quest (skip_stars v) s)"
      define s' where "s' = snd (skip_quest (skip_stars v) s)"
      have w: "w = CHR ''*'' # v" using Cons True by simp
      have tlw: "tl w = v" using w by simp
      note st = m_step_star [OF w "2.prems" w'_def s'_def]
      note IH1 = "2.IH"(1) [OF _ _ refl refl refl, unfolded tlw, folded w'_def s'_def]
      note IH2 = "2.IH"(2) [OF _ _ refl refl refl, unfolded tlw, folded w'_def s'_def]
      have unf: "m_loop mx d w s = (if chd w' = NUL then True
           else if chd w' = CHR ''*'' then m_loop mx d w' s' else m_star mx d w' s')"
        unfolding w'_def s'_def w by (subst m_loop.simps) (simp add: Let_def)
      have tl': "stars (tl w') \<le> stars w'" by (cases w') auto
      show ?thesis
      proof (cases "chd w' = NUL")
        case True
        then show ?thesis using unf st(1) by simp
      next
        case nn: False
        show ?thesis
        proof (cases "chd w' = CHR ''*''")
          case True
          have "(m_loop mx d w' s' \<longrightarrow> glob w' s')
              \<and> (d + stars w' \<le> mx \<longrightarrow> glob w' s' \<longrightarrow> m_loop mx d w' s')"
            by (rule IH1) (use w nn True st(2,3) in simp_all)
          moreover have "m_loop mx d w s = m_loop mx d w' s'" "glob w s = glob w' s'"
            using unf st(1) True nn by simp_all
          moreover have "d + stars w \<le> mx \<Longrightarrow> d + stars w' \<le> mx" using st(4) by linarith
          ultimately show ?thesis by blast
        next
          case False
          have "(m_star mx d w' s' \<longrightarrow> glob_from w' s')
              \<and> (Suc d + stars (tl w') \<le> mx \<longrightarrow> glob_from w' s' \<longrightarrow> m_star mx d w' s')"
            by (rule IH2) (use w nn False st(2,3) in simp_all)
          moreover have "m_loop mx d w s = m_star mx d w' s'" "glob w s = glob_from w' s'"
            using unf st(1) False nn by simp_all
          moreover have "d + stars w \<le> mx \<Longrightarrow> Suc d + stars (tl w') \<le> mx"
            using st(4) tl' by linarith
          ultimately show ?thesis by blast
        qed
      qed
    qed
  qed
next
  case (3 mx d w s)
  show ?case
  proof (cases s)
    case Nil
    then show ?thesis by (simp add: m_star.simps [of mx d w "[]"])
  next
    case (Cons x t)
    have x: "x \<noteq> NUL" "c_str t" using "3.prems"(2) Cons by auto
    have unf: "m_star mx d w s \<longleftrightarrow> (toupper x = toupper (chd w) \<and> m_match mx d (tl w) t)
        \<or> m_star mx d w t"
      unfolding Cons using x by (subst m_star.simps) auto
    note IHs = "3.IH" [unfolded Cons list.sel chd_simps]
    have m: "(m_match mx d (tl w) t \<longrightarrow> glob (tl w) t)
        \<and> (Suc d + stars (tl w) \<le> mx \<longrightarrow> glob (tl w) t \<longrightarrow> m_match mx d (tl w) t)"
      if "toupper x = toupper (chd w)"
      by (rule IHs(1)) (use that x c_str_tl [OF "3.prems"(1)] in simp_all)
    have st: "(m_star mx d w t \<longrightarrow> glob_from w t)
        \<and> (Suc d + stars (tl w) \<le> mx \<longrightarrow> glob_from w t \<longrightarrow> m_star mx d w t)"
      if "\<not> (toupper x = toupper (chd w) \<and> m_match mx d (tl w) t)"
    proof (cases "toupper x = toupper (chd w)")
      case True
      show ?thesis by (rule IHs(2)) (use True that x "3.prems" in simp_all)
    next
      case False
      show ?thesis by (rule IHs(3)) (use False that x "3.prems" in simp_all)
    qed
    show ?thesis
      using m st unfolding unf unfolding Cons glob_from_list by blast
  qed
qed

section \<open>hostmatch\<close>

text \<open>
  The outcome of the extended matcher: a match, no match, or a scan that runs past the
  terminator of the mask, which is undefined behaviour.
\<close>

datatype hm_res = Hit | Miss | Overrun

definition isalpha :: "char \<Rightarrow> bool" where
  "isalpha c \<longleftrightarrow> (65 \<le> uchar c \<and> uchar c \<le> 90) \<or> (97 \<le> uchar c \<and> uchar c \<le> 122)"

definition isdigit :: "char \<Rightarrow> bool" where
  "isdigit c \<longleftrightarrow> 48 \<le> uchar c \<and> uchar c \<le> 57"

text \<open>Search for the closing bracket: the suffix that starts at it.\<close>

fun find_close :: "char \<Rightarrow> cstring \<Rightarrow> cstring option" where
  "find_close e s =
     (if chd s = NUL then None
      else if chd s = e then Some s else find_close e (tl s))"

text \<open>
  The scan \<^verbatim>\<open>while (wild != end)\<close> of a collator, with pointers into the same mask
  compared by the length of their suffixes: \<open>Some (Some w)\<close> when the character was found
  (then the mask continues at \<open>w\<close>), \<open>Some None\<close> when the scan stopped at
  \<^verbatim>\<open>end\<close>, \<open>None\<close> when it passed the terminator.
\<close>

fun collate_scan :: "cstring \<Rightarrow> cstring \<Rightarrow> char \<Rightarrow> cstring option option" where
  "collate_scan w e c =
     (if length w = length e then Some None
      else if toupper (chd w) = toupper c then Some (Some (tl e))
      else if w = [] then None
      else collate_scan (tl w) e c)"

definition collate :: "cstring \<Rightarrow> char \<Rightarrow> cstring option option" where
  "collate w c =
     (case find_close (CHR '']'') w of
        None \<Rightarrow> Some None
      | Some e \<Rightarrow>
          let w1 = tl w;
              stage1 =
                (if ith_strncasecmp w1 '':alpha:'' 7 = 0 then
                   (if isalpha c then Some (tl e) else None)
                 else if ith_strncasecmp w1 '':number:'' 8 = 0 then
                   (if isdigit c then Some (tl e) else None)
                 else Some w1)
          in (case stage1 of
                None \<Rightarrow> Some None
              | Some w2 \<Rightarrow>
                  if ith_strncasecmp w2 '':alnum:'' 7 = 0 then
                    (if isalpha c \<or> isdigit c then Some (Some (tl e)) else Some None)
                  else collate_scan w2 e c))"

text \<open>
  The list \<^verbatim>\<open>(a|b|c)\<close>: \<open>w\<close> is the start of the current alternative,
  \<open>ends\<close> the scanning pointer; the result is what is left of the string after the first
  alternative that is a prefix of it.
\<close>

function lister_scan :: "cstring \<Rightarrow> cstring \<Rightarrow> cstring \<Rightarrow> cstring option" where
  "lister_scan w ends s =
     (if chd ends = NUL then None
      else if chd ends = CHR ''|'' \<or> chd ends = CHR '')'' then
        (if ith_strncasecmp w s (int (length w - length ends)) = 0
         then Some (drop (length w - length ends) s)
         else if chd ends = CHR '')'' then None
         else lister_scan (tl ends) (tl ends) s)
      else lister_scan w (tl ends) s)"
  by pat_completeness auto
termination
  by (relation "measure (\<lambda>(w, ends, s). length ends)") (auto simp del: length_tl)

declare find_close.simps [simp del] collate_scan.simps [simp del] lister_scan.simps [simp del]

lemma find_close_Some: "find_close e s = Some t \<Longrightarrow> t \<noteq> [] \<and> length t \<le> length s"
proof (induction s)
  case Nil
  then show ?case by (simp add: find_close.simps)
next
  case (Cons c s)
  then show ?case by (auto simp: find_close.simps [of e "c # s"] split: if_splits)
qed

lemma collate_scan_length:
  "collate_scan w e c = Some (Some v) \<Longrightarrow> v = tl e"
proof (induction w)
  case Nil
  then show ?case by (auto simp: collate_scan.simps [of "[]"] split: if_splits)
next
  case (Cons x w)
  then show ?case by (auto simp: collate_scan.simps [of "x # w"] split: if_splits)
qed

lemma collate_length:
  assumes "collate w c = Some (Some v)"
  shows "length v < length w"
proof -
  obtain e where e: "find_close (CHR '']'') w = Some e"
    using assms by (auto simp: collate_def split: option.splits)
  then have "v = tl e"
    using assms by (auto simp: collate_def Let_def dest: collate_scan_length
        split: option.splits if_splits)
  moreover have "e \<noteq> []" "length e \<le> length w" using find_close_Some [OF e] by auto
  ultimately show ?thesis by (cases e) auto
qed

definition MAX_HOSTMATCH_DEPTH :: nat where
  "MAX_HOSTMATCH_DEPTH = 32"

text \<open>
  The two inner loops after a \<^verbatim>\<open>*\<close>: \<open>hm_star\<close> looks for the next literal and
  matches on behind it, \<open>hm_starb\<close> tries the whole mask (which starts with a bracket)
  at every position.
\<close>

function
  hm_match :: "nat \<Rightarrow> cstring \<Rightarrow> cstring \<Rightarrow> hm_res" and
  hm_loop :: "nat \<Rightarrow> cstring \<Rightarrow> cstring \<Rightarrow> hm_res" and
  hm_star :: "nat \<Rightarrow> cstring \<Rightarrow> cstring \<Rightarrow> hm_res" and
  hm_starb :: "nat \<Rightarrow> cstring \<Rightarrow> cstring \<Rightarrow> hm_res"
where
  "hm_match d w s = (if Suc d > MAX_HOSTMATCH_DEPTH then Miss else hm_loop (Suc d) w s)"
| "hm_loop d w s =
     (if chd w = NUL then (if chd s = NUL then Hit else Miss)
      else if chd w = CHR ''*'' then
        (let ws = skip_quest (skip_stars (tl w)) s; w' = fst ws; s' = snd ws
         in if chd w' = NUL then Hit
            else if chd w' = CHR ''*'' then hm_loop d w' s'
            else if chd w' = CHR ''('' \<or> chd w' = CHR ''['' then hm_starb d w' s'
            else hm_star d w' s')
      else if chd s = NUL then Miss
      else if chd w = CHR ''['' then
        (case collate w (chd s) of
           None \<Rightarrow> Overrun
         | Some None \<Rightarrow> Miss
         | Some (Some w') \<Rightarrow> hm_loop d w' (tl s))
      else if chd w = CHR ''('' then
        (case find_close (CHR '')'') w of
           None \<Rightarrow> Miss
         | Some e \<Rightarrow>
             (case lister_scan (tl w) (tl w) s of
                None \<Rightarrow> Miss
              | Some s' \<Rightarrow> hm_loop d (tl e) s'))
      else if chd w \<noteq> CHR ''?'' \<and> toupper (chd s) \<noteq> toupper (chd w) then Miss
      else hm_loop d (tl w) (tl s))"
| "hm_star d w s =
     (if chd s \<noteq> NUL then
        (if toupper (chd s) = toupper (chd w) then
           (case hm_match d (tl w) (tl s) of
              Hit \<Rightarrow> Hit | Overrun \<Rightarrow> Overrun | Miss \<Rightarrow> hm_star d w (tl s))
         else hm_star d w (tl s))
      else Miss)"
| "hm_starb d w s =
     (if chd s \<noteq> NUL then
        (case hm_match d w s of
           Hit \<Rightarrow> Hit | Overrun \<Rightarrow> Overrun | Miss \<Rightarrow> hm_starb d w (tl s))
      else Miss)"
  by pat_completeness auto

lemma find_close_tl_less: "find_close e w = Some t \<Longrightarrow> length (tl t) < length w"
  using find_close_Some [of e w t] by (cases t) auto

termination hm_match
  by (relation "measures
       [\<lambda>x. case x of Inl (Inl (d, w, s)) \<Rightarrow> length w | Inl (Inr (d, w, s)) \<Rightarrow> length w
                    | Inr (Inl (d, w, s)) \<Rightarrow> length w | Inr (Inr (d, w, s)) \<Rightarrow> length w,
        \<lambda>x. case x of Inl (Inl _) \<Rightarrow> 2 | Inl (Inr _) \<Rightarrow> 1
                    | Inr (Inl _) \<Rightarrow> 0 | Inr (Inr _) \<Rightarrow> 3,
        \<lambda>x. case x of Inl (Inl (d, w, s)) \<Rightarrow> length s | Inl (Inr (d, w, s)) \<Rightarrow> length s
                    | Inr (Inl (d, w, s)) \<Rightarrow> length s | Inr (Inr (d, w, s)) \<Rightarrow> length s]")
    (simp_all add: skip_length_less length_tl_less_up case_prod_beta collate_length
      find_close_tl_less del: length_tl)

definition hostmatch :: "cstring \<Rightarrow> cstring \<Rightarrow> hm_res" where
  "hostmatch wild str = (if ith_strcmp str ''*'' = 0 then Hit else hm_match 0 wild str)"

declare hm_match.simps [simp del] hm_loop.simps [simp del] hm_star.simps [simp del]
  hm_starb.simps [simp del]

text \<open>On a mask without brackets the extended matcher is the plain one.\<close>

definition plain_mask :: "cstring \<Rightarrow> bool" where
  "plain_mask w \<longleftrightarrow> CHR ''['' \<notin> set w \<and> CHR ''('' \<notin> set w"

lemma plain_mask_list [simp]:
  "plain_mask []"
  "plain_mask (c # w) \<longleftrightarrow> c \<noteq> CHR ''['' \<and> c \<noteq> CHR ''('' \<and> plain_mask w"
  by (auto simp: plain_mask_def)

lemma plain_mask_tl: "plain_mask w \<Longrightarrow> plain_mask (tl w)"
  by (cases w) auto

lemma plain_mask_chd:
  "plain_mask w \<Longrightarrow> chd w \<noteq> CHR ''(''" "plain_mask w \<Longrightarrow> chd w \<noteq> CHR ''[''"
  by (cases w; simp)+

lemma plain_mask_skip: "plain_mask w \<Longrightarrow> plain_mask (fst (skip_quest (skip_stars w) s))"
proof -
  assume "plain_mask w"
  then have "plain_mask (skip_stars w)" by (induction w) auto
  moreover have "plain_mask v \<Longrightarrow> plain_mask (fst (skip_quest v s))" for v
  proof (induction v s rule: skip_quest.induct)
    case (1 w s)
    then show ?case by (subst skip_quest.simps) (auto dest: plain_mask_tl)
  qed
  ultimately show ?thesis by blast
qed

definition hit_if :: "bool \<Rightarrow> hm_res" where
  "hit_if b = (if b then Hit else Miss)"

lemma hm_plain:
  "mx = MAX_HOSTMATCH_DEPTH \<Longrightarrow> plain_mask w \<Longrightarrow> hm_match d w s = hit_if (m_match mx d w s)"
  "mx = MAX_HOSTMATCH_DEPTH \<Longrightarrow> plain_mask w \<Longrightarrow> hm_loop d w s = hit_if (m_loop mx d w s)"
  "mx = MAX_HOSTMATCH_DEPTH \<Longrightarrow> plain_mask w \<Longrightarrow> hm_star d w s = hit_if (m_star mx d w s)"
proof (induction mx d w s and mx d w s and mx d w s rule: m_match_m_loop_m_star.induct)
  case (1 mx d w s)
  then show ?case
    by (simp add: hm_match.simps [of d w s] m_match.simps [of MAX_HOSTMATCH_DEPTH d w s] hit_if_def)
next
  case (2 mx d w s)
  define w' where "w' = fst (skip_quest (skip_stars (tl w)) s)"
  define s' where "s' = snd (skip_quest (skip_stars (tl w)) s)"
  have pl': "plain_mask w'"
    using plain_mask_skip [OF plain_mask_tl [OF "2.prems"(2)], of s] w'_def by simp
  note nb = plain_mask_chd [OF "2.prems"(2)] plain_mask_chd [OF pl']
  note IH1 = "2.IH"(1) [OF _ _ refl refl refl, folded w'_def s'_def]
  note IH2 = "2.IH"(2) [OF _ _ refl refl refl, folded w'_def s'_def]
  show ?case
    using IH1 IH2 "2.IH"(3) "2.prems" nb pl' plain_mask_tl [OF "2.prems"(2)]
    unfolding hm_loop.simps [of d w s] m_loop.simps [of mx d w s]
      Let_def w'_def [symmetric] s'_def [symmetric]
    by (auto simp: hit_if_def)
next
  case (3 mx d w s)
  then show ?case
    using plain_mask_tl [OF "3.prems"(2)]
    by (simp add: hm_star.simps [of d w s] m_star.simps [of MAX_HOSTMATCH_DEPTH d w s] hit_if_def)
qed

text \<open>A collator that lists characters: the literal set, up to the case table.\<close>

lemma find_close_append:
  "e \<notin> set xs \<Longrightarrow> c_str xs \<Longrightarrow> e \<noteq> NUL \<Longrightarrow> find_close e (xs @ e # rest) = Some (e # rest)"
  by (induction xs) (auto simp: find_close.simps [of e "x # y" for x y])

lemma collate_scan_set:
  "collate_scan (xs @ e # rest) (e # rest) c =
     (if \<exists>x \<in> set xs. toupper x = toupper c then Some (Some rest) else Some None)"
  by (induction xs) (auto simp: collate_scan.simps [of "x # y" for x y])

lemma match_glob:
  assumes "c_str wild" "c_str str" "stars wild \<le> 11"
  shows "match wild str \<longleftrightarrow> glob wild str"
proof (cases "wild = ''*''")
  case True
  then show ?thesis by (simp add: match_def strcmp_zero_iff)
next
  case False
  then have "ith_strcmp wild ''*'' \<noteq> 0"
    using assms(1) by (simp add: strcmp_zero_iff)
  then show ?thesis
    using m_correct(1) [OF assms(1,2), of MAX_MATCH_DEPTH 0] assms(3)
    by (auto simp: match_def MAX_MATCH_DEPTH_def)
qed

section \<open>Properties\<close>

text \<open>C1: \<^verbatim>\<open>match\<close> decides exactly the mask language, for every mask with at most
  eleven asterisks: neither the depth limit of twelve nor the greedy skipping of
  \<^verbatim>\<open>*\<close> and \<^verbatim>\<open>?\<close> loses or adds a match.\<close>

theorem match_iff_glob:
  assumes "c_str wild" "c_str str" "stars wild \<le> 11"
  shows "match wild str \<longleftrightarrow> glob wild str"
  using match_glob [OF assms] .

theorem match_iff_glob_witness:
  "match ''*.dark?yst.*'' ''irc.darkmyst.org'' \<longleftrightarrow> glob ''*.dark?yst.*'' ''irc.darkmyst.org''"
  using match_iff_glob [of "''*.dark?yst.*''" "''irc.darkmyst.org''"] by simp

text \<open>Whatever the number of asterisks, \<^verbatim>\<open>match\<close> never accepts a string
  outside the mask language: the depth limit can only reject.\<close>

theorem match_sound:
  assumes "c_str wild" "c_str str" "match wild str"
  shows "glob wild str"
proof (cases "wild = ''*''")
  case True
  then show ?thesis by simp
next
  case False
  then show ?thesis
    using m_correct(1) [OF assms(1,2), of MAX_MATCH_DEPTH 0] assms(1,3)
    by (simp add: match_def strcmp_zero_iff)
qed

theorem match_sound_witness: "glob ''*'' ''x''"
  using match_sound [of "''*''" "''x''"] by (simp add: match_def strcmp_zero_iff)

text \<open>C26: on a mask without brackets and with at most 31 asterisks \<^verbatim>\<open>hostmatch\<close>
  decides the same language as \<^verbatim>\<open>match\<close> and never reads past the mask, except that
  the host \<^verbatim>\<open>"*"\<close> is accepted by every mask.\<close>

theorem hostmatch_plain:
  assumes "c_str wild" "c_str str" "plain_mask wild" "stars wild \<le> 31"
  shows "hostmatch wild str = (if str = ''*'' \<or> glob wild str then Hit else Miss)"
proof (cases "str = ''*''")
  case True
  then show ?thesis by (simp add: hostmatch_def strcmp_zero_iff)
next
  case False
  then have "ith_strcmp str ''*'' \<noteq> 0"
    using assms(2) by (simp add: strcmp_zero_iff)
  then show ?thesis
    using m_correct(1) [OF assms(1,2), of MAX_HOSTMATCH_DEPTH 0] assms(4) False
      hm_plain(1) [OF refl assms(3), of 0 str]
    by (auto simp: hostmatch_def hit_if_def MAX_HOSTMATCH_DEPTH_def)
qed

theorem hostmatch_plain_witness:
  "hostmatch ''foo'' ''*'' = (if ''*'' = ''*'' \<or> glob ''foo'' ''*'' then Hit else Miss)"
  using hostmatch_plain [of "''foo''" "''*''"] by simp

text \<open>A letter of a mask matches its other case exactly when it is not one of
  \<^verbatim>\<open>h\<close>, \<^verbatim>\<open>j\<close> and \<^verbatim>\<open>t\<close>: three entries of
  \<^verbatim>\<open>touppertab\<close> are wrong.\<close>

theorem match_letter_case:
  assumes "97 \<le> uchar c" "uchar c \<le> 122"
  shows "match [char_of (uchar c - 32)] [c] \<longleftrightarrow> uchar c \<noteq> 104 \<and> uchar c \<noteq> 106 \<and> uchar c \<noteq> 116"
proof -
  let ?u = "char_of (uchar c - 32) :: char"
  have u: "uchar ?u = uchar c - 32"
    using uchar_less [of c] assms by (simp del: uchar_less)
  have "uchar ?u \<noteq> uchar NUL" "uchar ?u \<noteq> uchar (CHR ''*'')" "uchar ?u \<noteq> uchar (CHR ''?'')"
      "uchar c \<noteq> uchar NUL"
    using assms unfolding u by (auto simp: uchar_def)
  then have ne: "?u \<noteq> NUL" "?u \<noteq> CHR ''*''" "?u \<noteq> CHR ''?''" "c \<noteq> NUL"
    by metis+
  have "match [?u] [c] \<longleftrightarrow> glob [?u] [c]"
    using ne by (intro match_glob) (auto simp: stars_def)
  also have "\<dots> \<longleftrightarrow> uchar (toupper ?u) = uchar (toupper c)"
    using ne by simp
  also have "\<dots> \<longleftrightarrow> uchar c \<noteq> 104 \<and> uchar c \<noteq> 106 \<and> uchar c \<noteq> 116"
    using assms u by (simp add: uchar_toupper del: uchar_inject) linarith
  finally show ?thesis .
qed

theorem match_letter_case_witness:
  "\<not> match [char_of (uchar (CHR ''h'') - 32)] ''h''"
  using match_letter_case [of "CHR ''h''"] by (simp add: uchar_def)

text \<open>The collator \<^verbatim>\<open>[:alpha:]\<close> never matches a letter: after it has accepted
  one, the code goes on to scan the mask for it as a literal set, past the closing bracket and
  past the end of the mask.\<close>

theorem hostmatch_alpha_overrun:
  assumes "isalpha c"
  shows "hostmatch ''[:alpha:]'' [c] = Overrun"
proof -
  have c: "c \<noteq> NUL" "c \<noteq> CHR ''*''"
    using assms by (auto simp: isalpha_def uchar_def)
  have fc: "find_close (CHR '']'') ''[:alpha:]'' = Some '']''"
    by (simp add: find_close.simps)
  have cmp: "ith_strncasecmp '':alpha:]'' '':alpha:'' 7 = 0" "ith_strncasecmp [] '':alnum:'' 7 \<noteq> 0"
    using strncasecmp_zero_iff [of "'':alpha:]''" "'':alpha:''" 7]
      strncasecmp_zero_iff [of "[]" "'':alnum:''" 7] by (simp_all add: same_nocase_def)
  have "collate_scan [] '']'' c = None"
    using c by (simp add: collate_scan.simps [of "[]"])
  then have "collate ''[:alpha:]'' c = None"
    using assms fc cmp by (simp add: collate_def)
  then show ?thesis
    using c by (simp add: hostmatch_def strcmp_zero_iff hm_match.simps hm_loop.simps
        MAX_HOSTMATCH_DEPTH_def)
qed

theorem hostmatch_alpha_overrun_witness: "hostmatch ''[:alpha:]'' ''q'' = Overrun"
  using hostmatch_alpha_overrun [of "CHR ''q''"] by (simp add: isalpha_def uchar_def)

end
