(* ===== verification/HashTable.thy ===== *)
theory HashTable
  imports CString "HOL-Library.Multiset"
begin

text \<open>
  The chained hash tables of \<^verbatim>\<open>source/hash.c\<close>. An entry is the pointer the
  caller stores; \<open>key e\<close> is the memory at \<open>keyoffset\<close> inside the object it points to,
  as it is at the time of the call, and every operation that reads keys takes \<open>key\<close>
  as an argument. A bucket is the list of its \<^verbatim>\<open>struct hashent\<close>s. The comparison
  function that \<^verbatim>\<open>import_symbol\<close> resolves is a field of the table.
\<close>

unbundle bit_operations_syntax

section \<open>The hash function\<close>

definition HASH_FL_NOCASE :: u32 where "HASH_FL_NOCASE = 0x1"
definition HASH_FL_STRING :: u32 where "HASH_FL_STRING = 0x2"
definition HASH_FL_INSERTHEAD :: u32 where "HASH_FL_INSERTHEAD = 0x4"
definition HASH_FL_INSERTTAIL :: u32 where "HASH_FL_INSERTTAIL = 0x8"

type_synonym mix3 = "u32 \<times> u32 \<times> u32"

definition mix_round :: "(u32 \<Rightarrow> u32) \<Rightarrow> (u32 \<Rightarrow> u32) \<Rightarrow> (u32 \<Rightarrow> u32) \<Rightarrow> mix3 \<Rightarrow> mix3" where
  "mix_round f g h abc =
     (case abc of (a, b, c) \<Rightarrow>
        let a = a - b; a = a - c; a = a XOR f c;
            b = b - c; b = b - a; b = b XOR g a;
            c = c - a; c = c - b; c = c XOR h b
        in (a, b, c))"

definition mix :: "mix3 \<Rightarrow> mix3" where
  "mix abc =
     mix_round (drop_bit 3) (push_bit 10) (drop_bit 15)
       (mix_round (drop_bit 12) (push_bit 16) (drop_bit 5)
          (mix_round (drop_bit 13) (push_bit 8) (drop_bit 13) abc))"

text \<open>
  The byte at an offset of a key, through the case table where the table ignores case. Past
  the bytes of the list there is the terminator.
\<close>

definition key_byte :: "bool \<Rightarrow> cstring \<Rightarrow> nat \<Rightarrow> u32" where
  "key_byte nocase k i =
     (let c = (if i < length k then k ! i else NUL)
      in of_nat (uchar (if nocase then tolower c else c)))"

definition hash_word :: "bool \<Rightarrow> cstring \<Rightarrow> nat \<Rightarrow> u32" where
  "hash_word nc k i =
     key_byte nc k i + push_bit 8 (key_byte nc k (i + 1))
       + push_bit 16 (key_byte nc k (i + 2)) + push_bit 24 (key_byte nc k (i + 3))"

text \<open>
  The loop over whole blocks of twelve bytes. As in the code, the second and third word start
  at offsets 5 and 9.
\<close>

fun hash_blocks :: "bool \<Rightarrow> cstring \<Rightarrow> nat \<Rightarrow> mix3 \<Rightarrow> mix3 \<times> cstring \<times> nat" where
  "hash_blocks nc k len abc =
     (if 12 \<le> len then
        (case abc of (a, b, c) \<Rightarrow>
           hash_blocks nc (drop 12 k) (len - 12)
             (mix (a + hash_word nc k 0, b + hash_word nc k 5, c + hash_word nc k 9)))
      else (abc, k, len))"

declare hash_blocks.simps [simp del]

definition hash_tail :: "bool \<Rightarrow> cstring \<Rightarrow> nat \<Rightarrow> mix3 \<Rightarrow> mix3" where
  "hash_tail nc k len abc =
     (case abc of (a, b, c) \<Rightarrow>
        let at = (\<lambda>n i s. if n \<le> len then push_bit s (key_byte nc k i) else 0);
            c = c + at 11 10 24; c = c + at 10 9 16; c = c + at 9 8 8;
            b = b + at 8 7 24; b = b + at 7 6 16; b = b + at 6 5 8; b = b + at 5 4 0;
            b = b + at 4 3 24; b = b + at 3 2 16; b = b + at 2 1 8; b = b + at 1 0 0
        in (a, b, c))"

definition hash_length :: "u32 \<Rightarrow> nat \<Rightarrow> cstring \<Rightarrow> nat" where
  "hash_length flags keylen k =
     (if flags AND HASH_FL_STRING \<noteq> 0 then
        (let len = ith_strlen k mod 2 ^ 32 in if keylen < len then keylen else len)
      else keylen)"

definition hash_bytes :: "bool \<Rightarrow> cstring \<Rightarrow> nat \<Rightarrow> u32" where
  "hash_bytes nc k len =
     (case hash_blocks nc k len (0x9e3779b9, 0x9e3779b9, 0xb33ff00d) of
        (abc, k', len') \<Rightarrow>
          (case abc of (a, b, c) \<Rightarrow>
             (case mix (hash_tail nc k' len' (a, b, c + of_nat len)) of (a', b', c') \<Rightarrow> c')))"

section \<open>The table\<close>

record 'e hashent =
  he_ent :: 'e
  he_hv :: u32

record 'e hashtable =
  ht_size :: u32
  ht_entries :: u32
  ht_table :: "'e hashent list list"
  ht_keylen :: nat
  ht_flags :: u32
  ht_cmp :: "cstring \<Rightarrow> cstring \<Rightarrow> nat \<Rightarrow> int"

definition hash_get_key_hash :: "('e, 'x) hashtable_scheme \<Rightarrow> cstring \<Rightarrow> u32" where
  "hash_get_key_hash t k =
     hash_bytes (ht_flags t AND HASH_FL_NOCASE \<noteq> 0) k (hash_length (ht_flags t) (ht_keylen t) k)
       AND (ht_size t - 1)"

text \<open>
  The doubling loop of \<^verbatim>\<open>create_hash_table\<close>. The two extra conditions make the recursion
  well-founded on every argument; they hold throughout the code's loop (lemma
  \<open>grow_elems_code\<close>).
\<close>

function grow_elems :: "u32 \<Rightarrow> u32 \<Rightarrow> u32" where
  "grow_elems real elems =
     (if real < elems \<and> 0 < real \<and> real < 2 ^ 31 then grow_elems (push_bit 1 real) elems else real)"
  by pat_completeness auto
termination
proof (relation "measure (\<lambda>(r, e). 2 ^ 32 - unat r)")
  fix real elems :: u32
  assume a: "real < elems \<and> 0 < real \<and> real < 2 ^ 31"
  then have "unat real < 2 ^ 31" "0 < unat real" by (simp_all add: word_less_nat_alt unat_gt_0)
  then have "unat (push_bit 1 real) = 2 * unat real"
    by (simp add: push_bit_eq_mult unat_word_ariths)
  with \<open>0 < unat real\<close> \<open>unat real < 2 ^ 31\<close>
  show "((push_bit 1 real, elems), real, elems) \<in> measure (\<lambda>(r, e). 2 ^ 32 - unat r)"
    by simp
qed simp

declare grow_elems.simps [simp del]

definition create_hash_table ::
  "u32 \<Rightarrow> nat \<Rightarrow> u32 \<Rightarrow> (cstring \<Rightarrow> cstring \<Rightarrow> nat \<Rightarrow> int) \<Rightarrow> 'e hashtable option" where
  "create_hash_table elems len flags cmp =
     (if push_bit 31 1 < elems then None
      else
        let real = grow_elems 0x80 elems;
            real = (if elems < real then drop_bit 1 real else real)
        in Some \<lparr>ht_size = real, ht_entries = 0, ht_table = replicate (unat real) [],
                 ht_keylen = len, ht_flags = flags, ht_cmp = cmp\<rparr>)"

primrec free_buckets :: "'e hashent list list \<Rightarrow> 'e hashent list" where
  "free_buckets [] = []"
| "free_buckets (b # bs) = b @ free_buckets bs"

text \<open>What \<^verbatim>\<open>destroy_hash_table\<close> passes to \<^verbatim>\<open>free\<close>, in order.\<close>

definition destroy_hash_table :: "'e hashtable \<Rightarrow> 'e hashent list" where
  "destroy_hash_table t = free_buckets (ht_table t)"

text \<open>
  \<^verbatim>\<open>resize_hash_table\<close> and \<^verbatim>\<open>hash_insert\<close> call each other. The resize takes
  the insertion as a parameter, and the insertion has fuel for the nesting; two levels are
  enough for every reachable table (theorem \<open>hash_insert_total\<close>).
\<close>

primrec reinsert :: "('t \<Rightarrow> 'e \<Rightarrow> 't option) \<Rightarrow> 't \<Rightarrow> 'e hashent list \<Rightarrow> 't option" where
  "reinsert ins t [] = Some t"
| "reinsert ins t (h # hs) =
     (case ins t (he_ent h) of None \<Rightarrow> None | Some t' \<Rightarrow> reinsert ins t' hs)"

definition resize_hash_table ::
  "('e hashtable \<Rightarrow> 'e \<Rightarrow> 'e hashtable option) \<Rightarrow> 'e hashtable \<Rightarrow> u32 \<Rightarrow> 'e hashtable option" where
  "resize_hash_table ins t elems =
     reinsert ins (t\<lparr>ht_size := elems, ht_entries := 0, ht_table := replicate (unat elems) []\<rparr>)
       (concat (ht_table t))"

definition bucket_add :: "('e \<Rightarrow> cstring) \<Rightarrow> 'e hashtable \<Rightarrow> 'e \<Rightarrow> 'e hashtable" where
  "bucket_add key t e =
     (let hash = hash_get_key_hash t (key e);
          hep = \<lparr>he_ent = e, he_hv = hash\<rparr>;
          b = ht_table t ! unat hash
      in t\<lparr>ht_entries := ht_entries t + 1,
           ht_table := (ht_table t)[unat hash :=
             (if ht_flags t AND HASH_FL_INSERTTAIL \<noteq> 0 then b @ [hep] else hep # b)]\<rparr>)"

primrec hash_insert_fuel ::
  "nat \<Rightarrow> ('e \<Rightarrow> cstring) \<Rightarrow> 'e hashtable \<Rightarrow> 'e \<Rightarrow> 'e hashtable option" where
  "hash_insert_fuel 0 key t e = None"
| "hash_insert_fuel (Suc n) key t e =
     (let t' = bucket_add key t e
      in if (ht_size t' * 6) div 5 \<le> ht_entries t'
         then resize_hash_table (hash_insert_fuel n key) t' (ht_size t' * 2)
         else Some t')"

definition hash_insert :: "('e \<Rightarrow> cstring) \<Rightarrow> 'e hashtable \<Rightarrow> 'e \<Rightarrow> 'e hashtable option" where
  "hash_insert key t e = hash_insert_fuel 2 key t e"

fun bucket_remove :: "'e hashent list \<Rightarrow> 'e \<Rightarrow> 'e hashent list option" where
  "bucket_remove [] e = None"
| "bucket_remove (h # hs) e =
     (if he_ent h = e then Some hs else map_option ((#) h) (bucket_remove hs e))"

definition hash_delete :: "('e \<Rightarrow> cstring) \<Rightarrow> 'e hashtable \<Rightarrow> 'e \<Rightarrow> 'e hashtable \<times> int" where
  "hash_delete key t e =
     (let hash = hash_get_key_hash t (key e)
      in case bucket_remove (ht_table t ! unat hash) e of
           None \<Rightarrow> (t, 0)
         | Some b \<Rightarrow> (t\<lparr>ht_entries := ht_entries t - 1,
                        ht_table := (ht_table t)[unat hash := b]\<rparr>, 1))"

fun bucket_find ::
  "(cstring \<Rightarrow> cstring \<Rightarrow> nat \<Rightarrow> int) \<Rightarrow> nat \<Rightarrow> ('e \<Rightarrow> cstring) \<Rightarrow> u32 \<Rightarrow> cstring
     \<Rightarrow> 'e hashent list \<Rightarrow> 'e option" where
  "bucket_find cmp keylen key hash k [] = None"
| "bucket_find cmp keylen key hash k (h # hs) =
     (if he_hv h = hash \<and> cmp (key (he_ent h)) k keylen = 0 then Some (he_ent h)
      else bucket_find cmp keylen key hash k hs)"

definition hash_find :: "('e \<Rightarrow> cstring) \<Rightarrow> 'e hashtable \<Rightarrow> cstring \<Rightarrow> 'e option" where
  "hash_find key t k =
     (let hash = hash_get_key_hash t k
      in bucket_find (ht_cmp t) (ht_keylen t) key hash k (ht_table t ! unat hash))"

section \<open>Sizes\<close>

lemma grow_elems_code:
  "0x80 \<le> real \<Longrightarrow> elems \<le> 2 ^ 31 \<Longrightarrow>
     grow_elems real elems = (if real < elems then grow_elems (push_bit 1 real) elems else real)"
  by (subst grow_elems.simps) (auto simp: word_less_nat_alt word_le_nat_alt)

definition pow2 :: "u32 \<Rightarrow> nat \<Rightarrow> bool" where
  "pow2 w k \<longleftrightarrow> k < 32 \<and> unat w = 2 ^ k"

lemma pow2_double: "pow2 w k \<Longrightarrow> k < 31 \<Longrightarrow> pow2 (w * 2) (Suc k)"
proof -
  assume p: "pow2 w k" "k < 31"
  then have "(2::nat) ^ Suc k \<le> 2 ^ 31" by (intro power_increasing) auto
  then have "unat w * 2 < 2 ^ 32" using p by (simp add: pow2_def)
  then have "unat (w * 2) = unat w * 2" by (simp add: unat_word_ariths)
  then show "pow2 (w * 2) (Suc k)" using p by (simp add: pow2_def)
qed

lemma pow2_half: "pow2 w (Suc k) \<Longrightarrow> pow2 (drop_bit 1 w) k"
  by (simp add: pow2_def drop_bit_eq_div unat_div)

lemma push_bit_1_mult: "push_bit 1 (w :: u32) = w * 2"
  by (simp add: push_bit_eq_mult)

lemma pow2_mask: "pow2 w k \<Longrightarrow> c AND (w - 1) = take_bit k c"
proof -
  assume "pow2 w k"
  then have "of_nat (unat w) = (2 ^ k :: u32)"
    by (simp only: pow2_def of_nat_power of_nat_numeral)
  then have "w = 2 ^ k" by simp
  then show ?thesis by (simp add: take_bit_eq_mask mask_eq_exp_minus_1)
qed

lemma pow2_hash_less: "pow2 (ht_size t) k \<Longrightarrow> unat (hash_get_key_hash t x) < unat (ht_size t)"
  by (simp add: hash_get_key_hash_def pow2_mask unsigned_take_bit_eq) (simp add: pow2_def)

lemma grow_elems_pow2:
  "pow2 real k \<Longrightarrow> elems \<le> 2 ^ 31 \<Longrightarrow> \<exists>k'. pow2 (grow_elems real elems) k' \<and> k \<le> k'"
proof (induction real elems arbitrary: k rule: grow_elems.induct)
  case (1 real elems)
  show ?case
  proof (cases "real < elems \<and> 0 < real \<and> real < 2 ^ 31")
    case True
    then have "unat real < 2 ^ 31" by (simp add: word_less_nat_alt)
    then have "(2::nat) ^ k < 2 ^ 31" using "1.prems"(1) by (simp add: pow2_def)
    then have "k < 31" by (simp only: power_strict_increasing_iff)
    then have "pow2 (push_bit 1 real) (Suc k)"
      using pow2_double [OF "1.prems"(1)] by (simp add: push_bit_1_mult)
    from "1.IH" [OF True this "1.prems"(2)] show ?thesis
      using True by (metis Suc_leD grow_elems.simps)
  next
    case False
    then show ?thesis using "1.prems"(1) by (subst grow_elems.simps) auto
  qed
qed

section \<open>The invariant\<close>

definition ht_ents :: "'e hashtable \<Rightarrow> 'e multiset" where
  "ht_ents t = mset (map he_ent (concat (ht_table t)))"

text \<open>
  A table is well formed when its size is a power of two not above \<open>2 ^ 28\<close>, there are as
  many buckets, \<open>entries\<close> counts the entries and is below the growth limit, and each entry
  is in the bucket of the hash of its key, which it records.
\<close>

definition ht_placed :: "('e \<Rightarrow> cstring) \<Rightarrow> 'e hashtable \<Rightarrow> bool" where
  "ht_placed key t \<longleftrightarrow>
     (\<forall>i < length (ht_table t). \<forall>h \<in> set (ht_table t ! i).
        he_hv h = hash_get_key_hash t (key (he_ent h)) \<and> unat (he_hv h) = i)"

definition ht_wf :: "('e \<Rightarrow> cstring) \<Rightarrow> 'e hashtable \<Rightarrow> bool" where
  "ht_wf key t \<longleftrightarrow>
     (\<exists>k \<le> 28. pow2 (ht_size t) k) \<and> length (ht_table t) = unat (ht_size t)
     \<and> unat (ht_entries t) = length (concat (ht_table t))
     \<and> unat (ht_entries t) < unat (ht_size t) * 6 div 5
     \<and> ht_placed key t"

lemma ht_wf_hash_less: "ht_wf key t \<Longrightarrow> unat (hash_get_key_hash t k) < length (ht_table t)"
  by (auto simp: ht_wf_def pow2_hash_less)

lemma ht_ents_size: "size (ht_ents t) = length (concat (ht_table t))"
  by (simp add: ht_ents_def)

lemma mset_concat_update:
  "i < length bs \<Longrightarrow> mset (concat (bs[i := b])) + mset (bs ! i) = mset (concat bs) + mset b"
  by (induction bs arbitrary: i) (auto split: nat.splits simp: ac_simps)

lemma set_ents: "e \<in># ht_ents t \<longleftrightarrow> (\<exists>b \<in> set (ht_table t). \<exists>h \<in> set b. he_ent h = e)"
  by (auto simp: ht_ents_def)

lemma hash_cong:
  "ht_size t' = ht_size t \<Longrightarrow> ht_keylen t' = ht_keylen t \<Longrightarrow> ht_flags t' = ht_flags t
     \<Longrightarrow> hash_get_key_hash t' k = hash_get_key_hash t k"
  by (simp add: hash_get_key_hash_def)

section \<open>Insertion\<close>

lemma bucket_add_sel [simp]:
  "ht_size (bucket_add key t e) = ht_size t" "ht_keylen (bucket_add key t e) = ht_keylen t"
  "ht_flags (bucket_add key t e) = ht_flags t" "ht_cmp (bucket_add key t e) = ht_cmp t"
  "ht_entries (bucket_add key t e) = ht_entries t + 1"
  "length (ht_table (bucket_add key t e)) = length (ht_table t)"
  by (simp_all add: bucket_add_def Let_def)

lemma bucket_add_hash [simp]:
  "hash_get_key_hash (bucket_add key t e) k = hash_get_key_hash t k"
  by (rule hash_cong) simp_all

lemma bucket_add_mset:
  assumes "unat (hash_get_key_hash t (key e)) < length (ht_table t)"
  shows "mset (concat (ht_table (bucket_add key t e))) =
    add_mset \<lparr>he_ent = e, he_hv = hash_get_key_hash t (key e)\<rparr> (mset (concat (ht_table t)))"
proof -
  let ?i = "unat (hash_get_key_hash t (key e))"
  let ?h = "\<lparr>he_ent = e, he_hv = hash_get_key_hash t (key e)\<rparr>"
  have *: "mset (concat ((ht_table t)[?i := b])) = add_mset ?h (mset (concat (ht_table t)))"
    if "mset b = add_mset ?h (mset (ht_table t ! ?i))" for b
    using mset_concat_update [OF assms, of b] that by simp
  show ?thesis by (auto simp: bucket_add_def Let_def intro!: *)
qed

lemma bucket_add_ents:
  assumes "unat (hash_get_key_hash t (key e)) < length (ht_table t)"
  shows "ht_ents (bucket_add key t e) = add_mset e (ht_ents t)"
  using bucket_add_mset [of t key e, OF assms] by (simp add: ht_ents_def)

lemma ht_placedD:
  "ht_placed key t \<Longrightarrow> i < length (ht_table t) \<Longrightarrow> h \<in> set (ht_table t ! i)
     \<Longrightarrow> he_hv h = hash_get_key_hash t (key (he_ent h)) \<and> unat (he_hv h) = i"
  unfolding ht_placed_def by blast

lemma ht_placed_update:
  assumes "ht_placed key t" "ht_table t' = (ht_table t)[j := b]"
    and "\<And>k. hash_get_key_hash t' k = hash_get_key_hash t k"
    and "\<And>h. h \<in> set b \<Longrightarrow>
      (h \<in> set (ht_table t ! j)) \<or>
      (he_hv h = hash_get_key_hash t (key (he_ent h)) \<and> unat (he_hv h) = j)"
  shows "ht_placed key t'"
  unfolding ht_placed_def assms(3)
proof (intro allI impI ballI)
  fix i h
  assume i: "i < length (ht_table t')" and h: "h \<in> set (ht_table t' ! i)"
  then have l: "i < length (ht_table t)" using assms(2) by simp
  show "he_hv h = hash_get_key_hash t (key (he_ent h)) \<and> unat (he_hv h) = i"
  proof (cases "i = j")
    case True
    then have "h \<in> set b" using h l assms(2) by simp
    then show ?thesis using assms(4) ht_placedD [OF assms(1) l] True by blast
  next
    case False
    then have "h \<in> set (ht_table t ! i)" using h assms(2) by simp
    then show ?thesis by (rule ht_placedD [OF assms(1) l])
  qed
qed

lemma bucket_add_placed:
  assumes "ht_placed key t"
  shows "ht_placed key (bucket_add key t e)"
proof -
  define j where "j = unat (hash_get_key_hash t (key e))"
  define h where "h = \<lparr>he_ent = e, he_hv = hash_get_key_hash t (key e)\<rparr>"
  define b where "b = (if ht_flags t AND HASH_FL_INSERTTAIL \<noteq> 0
    then ht_table t ! j @ [h] else h # ht_table t ! j)"
  have tab: "ht_table (bucket_add key t e) = (ht_table t)[j := b]"
    unfolding bucket_add_def Let_def j_def h_def b_def by simp
  have b: "x \<in> set (ht_table t ! j) \<or> x = h" if "x \<in> set b" for x
    using that unfolding b_def by (simp split: if_splits) blast+
  have "x = h \<Longrightarrow> he_hv x = hash_get_key_hash t (key (he_ent x)) \<and> unat (he_hv x) = j" for x
    unfolding h_def j_def by simp
  then show ?thesis using b by (intro ht_placed_update [OF assms tab bucket_add_hash]) blast
qed

text \<open>The part of the invariant that holds between the insertion and the growth.\<close>

definition ht_pre :: "('e \<Rightarrow> cstring) \<Rightarrow> nat \<Rightarrow> 'e hashtable \<Rightarrow> bool" where
  "ht_pre key k t \<longleftrightarrow>
     pow2 (ht_size t) k \<and> length (ht_table t) = unat (ht_size t)
     \<and> unat (ht_entries t) = length (concat (ht_table t))
     \<and> ht_placed key t"

lemma ht_wf_pre: "ht_wf key t \<longleftrightarrow>
    (\<exists>k \<le> 28. ht_pre key k t) \<and> unat (ht_entries t) < unat (ht_size t) * 6 div 5"
  by (auto simp: ht_wf_def ht_pre_def)

lemma bucket_add_pre:
  assumes t: "ht_pre key k t" and r: "unat (ht_entries t) < 2 ^ 32 - 1"
  shows "ht_pre key k (bucket_add key t e)" "ht_ents (bucket_add key t e) = add_mset e (ht_ents t)"
    and "unat (ht_entries (bucket_add key t e)) = Suc (unat (ht_entries t))"
proof -
  have i: "unat (hash_get_key_hash t (key e)) < length (ht_table t)"
    using t pow2_hash_less [of t k] by (simp add: ht_pre_def)
  show "ht_ents (bucket_add key t e) = add_mset e (ht_ents t)" by (rule bucket_add_ents [of t key e, OF i])
  then have "length (concat (ht_table (bucket_add key t e))) = Suc (length (concat (ht_table t)))"
    by (metis ht_ents_size size_add_mset)
  moreover show "unat (ht_entries (bucket_add key t e)) = Suc (unat (ht_entries t))"
    using r by (simp add: unat_word_ariths)
  ultimately show "ht_pre key k (bucket_add key t e)"
    using t bucket_add_placed [of key t] by (simp add: ht_pre_def)
qed

lemma growth_test:
  assumes "pow2 s k" "k \<le> 29"
  shows "unat (s * 6 div 5) = unat s * 6 div 5" "(s * 6) div 5 \<le> n \<longleftrightarrow> unat s * 6 div 5 \<le> unat n"
proof -
  have "(2::nat) ^ k \<le> 2 ^ 29" using assms by (intro power_increasing) auto
  then have "unat s \<le> 2 ^ 29" using assms by (simp add: pow2_def)
  then have "unat (s * 6) = unat s * 6" by (simp add: unat_word_ariths)
  then show "unat (s * 6 div 5) = unat s * 6 div 5" by (simp add: unat_div)
  then show "(s * 6) div 5 \<le> n \<longleftrightarrow> unat s * 6 div 5 \<le> unat n" by (simp add: word_le_nat_alt)
qed

definition same_params :: "'e hashtable \<Rightarrow> 'e hashtable \<Rightarrow> bool" where
  "same_params t t' \<longleftrightarrow>
     ht_keylen t' = ht_keylen t \<and> ht_flags t' = ht_flags t \<and> ht_cmp t' = ht_cmp t"

lemma same_params_simps [simp]:
  "same_params t t" "same_params t (bucket_add key t e)"
  "same_params t (t\<lparr>ht_size := s, ht_entries := n, ht_table := tb\<rparr>)"
  "same_params t (t\<lparr>ht_entries := n, ht_table := tb\<rparr>)"
  by (simp_all add: same_params_def)

lemma same_params_trans: "same_params t t' \<Longrightarrow> same_params t' t'' \<Longrightarrow> same_params t t''"
  by (simp add: same_params_def)

lemma insert_no_growth:
  assumes "ht_pre key k t" "k \<le> 29" "Suc (unat (ht_entries t)) < unat (ht_size t) * 6 div 5"
  shows "hash_insert_fuel (Suc n) key t e = Some (bucket_add key t e)"
    and "unat (ht_entries t) < 2 ^ 32 - 1"
proof -
  have p: "pow2 (ht_size t) k" using assms(1) by (simp add: ht_pre_def)
  have "(2::nat) ^ k \<le> 2 ^ 29" using assms(2) by (intro power_increasing) auto
  then have "unat (ht_size t) \<le> 2 ^ 29" using p by (simp add: pow2_def)
  then show r: "unat (ht_entries t) < 2 ^ 32 - 1" using assms(3) by simp
  have "unat (ht_entries t + 1) = Suc (unat (ht_entries t))"
    using r by (simp add: unat_word_ariths)
  then show "hash_insert_fuel (Suc n) key t e = Some (bucket_add key t e)"
    using assms(3) by (simp add: growth_test(2) [OF p assms(2)])
qed

lemma reinsert_ok:
  assumes "ht_pre key k t" "k \<le> 29"
    "unat (ht_entries t) + length hs < unat (ht_size t) * 6 div 5"
  shows "\<exists>t'. reinsert (hash_insert_fuel (Suc n) key) t hs = Some t' \<and> ht_pre key k t'
    \<and> ht_ents t' = ht_ents t + mset (map he_ent hs)
    \<and> unat (ht_entries t') = unat (ht_entries t) + length hs \<and> same_params t t'"
  using assms
proof (induction hs arbitrary: t)
  case Nil
  then show ?case by simp
next
  case (Cons h hs)
  have l: "Suc (unat (ht_entries t)) < unat (ht_size t) * 6 div 5" using Cons.prems(3) by simp
  note ng = insert_no_growth [OF Cons.prems(1,2) l]
  note ba = bucket_add_pre [OF Cons.prems(1) ng(2), where e = "he_ent h"]
  from Cons.prems(3) have "unat (ht_entries (bucket_add key t (he_ent h))) + length hs
      < unat (ht_size (bucket_add key t (he_ent h))) * 6 div 5"
    unfolding ba(3) by simp
  from Cons.IH [OF ba(1) Cons.prems(2) this] obtain t' where
    t': "reinsert (hash_insert_fuel (Suc n) key) (bucket_add key t (he_ent h)) hs = Some t'"
      "ht_pre key k t'" "ht_ents t' = ht_ents (bucket_add key t (he_ent h)) + mset (map he_ent hs)"
      "unat (ht_entries t') = unat (ht_entries (bucket_add key t (he_ent h))) + length hs"
      "same_params (bucket_add key t (he_ent h)) t'" by blast
  have "reinsert (hash_insert_fuel (Suc n) key) t (h # hs) = Some t'"
    using t'(1) by (simp only: reinsert.simps ng(1) option.case)
  moreover have "ht_ents t' = ht_ents t + mset (map he_ent (h # hs))"
    using t'(3) ba(2) by simp
  moreover have "unat (ht_entries t') = unat (ht_entries t) + length (h # hs)"
    using t'(4) ba(3) by simp
  moreover have "same_params t t'"
    using t'(5) same_params_trans [of t "bucket_add key t (he_ent h)"] by simp
  ultimately show ?case using t'(2) by blast
qed

lemma empty_table_pre:
  assumes "pow2 s k"
  shows "ht_pre key k (t\<lparr>ht_size := s, ht_entries := 0, ht_table := replicate (unat s) []\<rparr>)"
    and "ht_ents (t\<lparr>ht_size := s, ht_entries := 0, ht_table := replicate (unat s) []\<rparr>) = {#}"
  using assms by (simp_all add: ht_pre_def ht_placed_def ht_ents_def concat_eq_Nil_conv)

lemma resize_ok:
  assumes "pow2 s k" "k \<le> 29" "length (concat (ht_table t)) < unat s * 6 div 5"
  shows "\<exists>t'. resize_hash_table (hash_insert_fuel (Suc n) key) t s = Some t' \<and> ht_pre key k t'
    \<and> ht_ents t' = ht_ents t \<and> unat (ht_entries t') = length (concat (ht_table t))
    \<and> same_params t t'"
proof -
  let ?t0 = "t\<lparr>ht_size := s, ht_entries := 0, ht_table := replicate (unat s) []\<rparr>"
  have "unat (ht_entries ?t0) + length (concat (ht_table t)) < unat (ht_size ?t0) * 6 div 5"
    using assms(3) by simp
  from reinsert_ok [OF empty_table_pre(1) [OF assms(1)] assms(2) this] obtain t' where
    t': "reinsert (hash_insert_fuel (Suc n) key) ?t0 (concat (ht_table t)) = Some t'" "ht_pre key k t'"
      "ht_ents t' = ht_ents ?t0 + mset (map he_ent (concat (ht_table t)))"
      "unat (ht_entries t') = unat (ht_entries ?t0) + length (concat (ht_table t))"
      "same_params ?t0 t'" by blast
  have "ht_ents t' = ht_ents t"
    using t'(3) empty_table_pre(2) [OF assms(1), of t] by (simp add: ht_ents_def)
  moreover have "same_params t t'"
    using same_params_trans [OF _ t'(5)] by simp
  ultimately show ?thesis using t' unfolding resize_hash_table_def by auto
qed

lemma pow2_less_cancel: "pow2 s k \<Longrightarrow> unat s < 2 ^ n \<Longrightarrow> k < n"
  unfolding pow2_def by (metis power_strict_increasing_iff one_less_numeral_iff semiring_norm(76))

lemma hash_insert_ok:
  assumes wf: "ht_wf key t" and r: "unat (ht_entries t) < 2 ^ 28"
  shows "\<exists>t'. hash_insert key t e = Some t' \<and> ht_wf key t'
    \<and> ht_ents t' = add_mset e (ht_ents t) \<and> same_params t t'"
proof -
  obtain k where k: "k \<le> 28" "ht_pre key k t" and l: "unat (ht_entries t) < unat (ht_size t) * 6 div 5"
    using wf by (auto simp: ht_wf_pre)
  have p: "pow2 (ht_size t) k" using k(2) by (simp add: ht_pre_def)
  have r': "unat (ht_entries t) < 2 ^ 32 - 1" using r by simp
  note ba = bucket_add_pre [OF k(2) r', where e = e]
  let ?t = "bucket_add key t e"
  have test: "ht_size ?t * 6 div 5 \<le> ht_entries ?t \<longleftrightarrow>
      unat (ht_size t) * 6 div 5 \<le> Suc (unat (ht_entries t))"
    using growth_test(2) [OF p, of "ht_entries ?t"] k(1) ba(3) by simp
  have step: "hash_insert key t e = (if ht_size ?t * 6 div 5 \<le> ht_entries ?t
      then resize_hash_table (hash_insert_fuel (Suc 0) key) ?t (ht_size t * 2) else Some ?t)"
    by (simp add: hash_insert_def numeral_2_eq_2 Let_def)
  show ?thesis
  proof (cases "ht_size ?t * 6 div 5 \<le> ht_entries ?t")
    case False
    then have "hash_insert key t e = Some ?t" using step by simp
    moreover have "ht_wf key ?t"
      using False ba(1,3) k(1) test by (auto simp: ht_wf_pre)
    ultimately show ?thesis using ba(2) by simp
  next
    case True
    have "unat (ht_size t) < 2 ^ 28" using True r test by simp
    then have k28: "k < 28" by (rule pow2_less_cancel [OF p])
    then have p2: "pow2 (ht_size t * 2) (Suc k)" by (intro pow2_double [OF p]) simp
    have "unat (ht_size t * 2) = 2 * unat (ht_size t)" using p p2 by (simp add: pow2_def)
    moreover have "0 < unat (ht_size t)" using p by (simp add: pow2_def)
    moreover have "length (concat (ht_table ?t)) = Suc (unat (ht_entries t))"
      using ba(1,3) by (simp add: ht_pre_def)
    ultimately have len: "length (concat (ht_table ?t)) < unat (ht_size t * 2) * 6 div 5"
      using l by simp
    have k29: "Suc k \<le> 29" using k28 by simp
    obtain t' where t': "resize_hash_table (hash_insert_fuel (Suc 0) key) ?t (ht_size t * 2) = Some t'"
        "ht_pre key (Suc k) t'" "ht_ents t' = ht_ents ?t"
        "unat (ht_entries t') = length (concat (ht_table ?t))" "same_params ?t t'"
      using resize_ok [OF p2 k29 len] by blast
    have "unat (ht_size t') = unat (ht_size t * 2)"
      using t'(2) p2 by (simp add: ht_pre_def pow2_def)
    moreover have "Suc k \<le> 28" using k28 by simp
    ultimately have "ht_wf key t'" using t'(2,4) len unfolding ht_wf_pre by (metis (no_types))
    moreover have "hash_insert key t e = Some t'" using step True t'(1) by simp
    moreover have "same_params t t'" using same_params_trans [OF _ t'(5)] by simp
    ultimately show ?thesis using t'(3) ba(2) by simp
  qed
qed

section \<open>Deletion and lookup\<close>

lemma bucket_remove_None: "bucket_remove b e = None \<longleftrightarrow> e \<notin> he_ent ` set b"
  by (induction b) auto

lemma bucket_remove_Some:
  "bucket_remove b e = Some b' \<Longrightarrow>
     \<exists>h. he_ent h = e \<and> mset b = add_mset h (mset b') \<and> set b' \<subseteq> set b"
proof (induction b arbitrary: b')
  case (Cons a b)
  show ?case
  proof (cases "he_ent a = e")
    case False
    then obtain z where z: "bucket_remove b e = Some z" "b' = a # z" using Cons.prems by auto
    from Cons.IH [OF z(1)] show ?thesis using z(2) by (auto simp: add_mset_commute)
  qed (use Cons.prems in auto)
qed simp

lemma hash_delete_ok:
  assumes wf: "ht_wf key t"
  shows "ht_wf key (fst (hash_delete key t e))"
    and "ht_ents (fst (hash_delete key t e)) = ht_ents t - {#e#}"
    and "snd (hash_delete key t e) = (if e \<in># ht_ents t then 1 else 0)"
    and "same_params t (fst (hash_delete key t e))"
proof -
  define j where "j = unat (hash_get_key_hash t (key e))"
  have j: "j < length (ht_table t)" using ht_wf_hash_less [OF wf] by (simp add: j_def)
  have pl: "ht_placed key t" using wf by (simp add: ht_wf_def)
  have mem: "e \<in># ht_ents t \<longleftrightarrow> e \<in> he_ent ` set (ht_table t ! j)"
  proof
    assume "e \<in># ht_ents t"
    then obtain i h where i: "i < length (ht_table t)" "h \<in> set (ht_table t ! i)" "he_ent h = e"
      unfolding set_ents by (metis in_set_conv_nth)
    then have "i = j" using ht_placedD [OF pl i(1,2)] by (auto simp: j_def)
    then show "e \<in> he_ent ` set (ht_table t ! j)" using i by blast
  next
    assume "e \<in> he_ent ` set (ht_table t ! j)"
    then show "e \<in># ht_ents t" using j unfolding set_ents by (auto intro: nth_mem)
  qed
  have "ht_wf key (fst (hash_delete key t e))
    \<and> ht_ents (fst (hash_delete key t e)) = ht_ents t - {#e#}
    \<and> snd (hash_delete key t e) = (if e \<in># ht_ents t then 1 else 0)
    \<and> same_params t (fst (hash_delete key t e))"
  proof (cases "bucket_remove (ht_table t ! j) e")
    case None
    then have "e \<notin># ht_ents t" using mem by (simp add: bucket_remove_None)
    then show ?thesis using None wf by (simp add: hash_delete_def j_def [symmetric] diff_single_trivial)
  next
    case (Some b)
    let ?t = "t\<lparr>ht_entries := ht_entries t - 1, ht_table := (ht_table t)[j := b]\<rparr>"
    have del: "hash_delete key t e = (?t, 1)"
      using Some by (simp add: hash_delete_def j_def [symmetric])
    from bucket_remove_Some [OF Some] obtain h where h: "he_ent h = e"
      "mset (ht_table t ! j) = add_mset h (mset b)" "set b \<subseteq> set (ht_table t ! j)" by blast
    have ms: "add_mset h (mset (concat ((ht_table t)[j := b]))) = mset (concat (ht_table t))"
      using mset_concat_update [OF j, of b] h(2) by simp
    have "he_ent h \<in># ht_ents t" using mem h(1) Some by (metis bucket_remove_None option.distinct(1))
    have pl': "ht_placed key ?t"
      by (rule ht_placed_update [OF pl, where j = j and b = b]) (use h(3) in \<open>auto intro: hash_cong\<close>)
    have ents: "ht_ents ?t = ht_ents t - {#e#}"
      using ms h(1) unfolding ht_ents_def by (metis (no_types) add_mset_remove_trivial
          hashtable.select_convs(3) hashtable.surjective hashtable.update_convs(2,3)
          image_mset_add_mset mset_map)
    have len: "length (concat (ht_table t)) = Suc (length (concat ((ht_table t)[j := b])))"
      using arg_cong [OF ms, of size] by simp
    have "unat (ht_entries t) = Suc (length (concat ((ht_table t)[j := b])))"
      using wf len by (simp add: ht_wf_def)
    then have n: "unat (ht_entries t - 1) = length (concat ((ht_table t)[j := b]))"
      by (simp add: unat_sub_if' word_le_nat_alt)
    then have "ht_wf key ?t" using wf pl' len by (auto simp: ht_wf_def)
    then show ?thesis using del ents mem Some bucket_remove_None [of "ht_table t ! j" e] by simp
  qed
  then show "ht_wf key (fst (hash_delete key t e))"
    "ht_ents (fst (hash_delete key t e)) = ht_ents t - {#e#}"
    "snd (hash_delete key t e) = (if e \<in># ht_ents t then 1 else 0)"
    "same_params t (fst (hash_delete key t e))" by blast+
qed

lemma bucket_find_Some:
  "bucket_find cmp n key hash k b = Some e \<Longrightarrow>
     \<exists>h \<in> set b. he_ent h = e \<and> he_hv h = hash \<and> cmp (key e) k n = 0"
  by (induction b) (auto split: if_splits)

lemma bucket_find_None:
  "bucket_find cmp n key hash k b = None \<longleftrightarrow>
     (\<forall>h \<in> set b. he_hv h = hash \<longrightarrow> cmp (key (he_ent h)) k n \<noteq> 0)"
  by (induction b) auto

lemma hash_find_Some:
  assumes wf: "ht_wf key t" and f: "hash_find key t k = Some e"
  shows "e \<in># ht_ents t" "ht_cmp t (key e) k (ht_keylen t) = 0"
proof -
  from bucket_find_Some f obtain h where
    h: "h \<in> set (ht_table t ! unat (hash_get_key_hash t k))" "he_ent h = e"
      "ht_cmp t (key e) k (ht_keylen t) = 0"
    unfolding hash_find_def Let_def by metis
  then show "ht_cmp t (key e) k (ht_keylen t) = 0" by blast
  show "e \<in># ht_ents t"
    using h(1,2) ht_wf_hash_less [OF wf, of k] unfolding set_ents by (metis nth_mem)
qed

lemma hash_find_None:
  assumes wf: "ht_wf key t" and f: "hash_find key t k = None" and e: "e \<in># ht_ents t"
    and same: "hash_get_key_hash t (key e) = hash_get_key_hash t k"
  shows "ht_cmp t (key e) k (ht_keylen t) \<noteq> 0"
proof -
  obtain i h where i: "i < length (ht_table t)" "h \<in> set (ht_table t ! i)" "he_ent h = e"
    using e unfolding set_ents by (metis in_set_conv_nth)
  have "ht_placed key t" using wf by (simp add: ht_wf_def)
  from ht_placedD [OF this i(1,2)] have "he_hv h = hash_get_key_hash t k" "unat (he_hv h) = i"
    using i(3) same by auto
  then show ?thesis
    using f i(2,3) unfolding hash_find_def Let_def bucket_find_None by auto
qed

section \<open>Which keys hash alike\<close>

lemma key_byte_drop: "key_byte nc (drop n k) i = key_byte nc k (n + i)"
  by (auto simp: key_byte_def)

lemma hash_blocks_cong:
  assumes "\<forall>i < len. key_byte nc a i = key_byte nc b i"
    and "12 dvd len \<Longrightarrow> key_byte nc a len = key_byte nc b len"
  shows "\<exists>abc' a' b' len'. hash_blocks nc a len abc = (abc', a', len')
    \<and> hash_blocks nc b len abc = (abc', b', len') \<and> (\<forall>i < len'. key_byte nc a' i = key_byte nc b' i)"
  using assms
proof (induction nc a len abc arbitrary: b rule: hash_blocks.induct)
  case (1 nc a len abc)
  show ?case
  proof (cases "12 \<le> len")
    case True
    obtain x y z where abc: "abc = (x, y, z)" by (cases abc)
    have kb: "key_byte nc a i = key_byte nc b i" if "i \<le> 12" for i
      using that 1(2,3) True by (cases "i < len") (auto dest: le_antisym)
    have w: "hash_word nc a i = hash_word nc b i" if "i \<le> 9" for i
      using that by (simp add: hash_word_def kb)
    have d: "\<forall>i < len - 12. key_byte nc (drop 12 a) i = key_byte nc (drop 12 b) i"
      using 1(2) by (simp add: key_byte_drop)
    have d': "key_byte nc (drop 12 a) (len - 12) = key_byte nc (drop 12 b) (len - 12)"
      if "12 dvd len - 12"
      using that 1(3) True dvd_minus_self [of 12 len] by (simp add: key_byte_drop)
    show ?thesis
      using "1.IH" [OF True abc [symmetric] refl d d'] True
      by (simp add: hash_blocks.simps [of nc _ len] abc w)
  next
    case False
    then show ?thesis using 1(2) by (cases abc) (simp add: hash_blocks.simps [of nc _ len])
  qed
qed

lemma hash_tail_cong:
  assumes "\<forall>i < len. key_byte nc a i = key_byte nc b i"
  shows "hash_tail nc a len abc = hash_tail nc b len abc"
proof -
  have "(if n \<le> len then push_bit s (key_byte nc a i) else 0)
      = (if n \<le> len then push_bit s (key_byte nc b i) else 0)" if "i < n" for n i s :: nat
    using assms that by simp
  then show ?thesis unfolding hash_tail_def Let_def by simp
qed

lemma hash_bytes_cong:
  assumes "\<forall>i < len. key_byte nc a i = key_byte nc b i"
    and "12 dvd len \<Longrightarrow> key_byte nc a len = key_byte nc b len"
  shows "hash_bytes nc a len = hash_bytes nc b len"
proof -
  obtain abc a' b' len' where h:
    "hash_blocks nc a len (0x9e3779b9, 0x9e3779b9, 0xb33ff00d) = (abc, a', len')"
    "hash_blocks nc b len (0x9e3779b9, 0x9e3779b9, 0xb33ff00d) = (abc, b', len')"
    "\<forall>i < len'. key_byte nc a' i = key_byte nc b' i"
    using hash_blocks_cong [OF assms, where abc = "(0x9e3779b9, 0x9e3779b9, 0xb33ff00d)"] by blast
  show ?thesis
    by (simp add: hash_bytes_def h(1,2) hash_tail_cong [OF h(3)] split: prod.splits)
qed

lemma key_byte_nocase:
  "same_nocase a b \<Longrightarrow> key_byte True a i = key_byte True b i"
proof -
  assume s: "same_nocase a b"
  then have l: "length a = length b" unfolding same_nocase_def by (rule map_eq_imp_length_eq)
  show ?thesis
  proof (cases "i < length a")
    case True
    then have "tolower (a ! i) = tolower (b ! i)"
      using s l unfolding same_nocase_def by (metis nth_map)
    then show ?thesis using True l by (simp add: key_byte_def)
  qed (simp add: key_byte_def l)
qed

definition string_hash_len :: "nat \<Rightarrow> cstring \<Rightarrow> nat" where
  "string_hash_len n k = min n (length k)"

lemma hash_length_string:
  "c_str k \<Longrightarrow> n < 2 ^ 32 \<Longrightarrow> length k < 2 ^ 32 \<Longrightarrow> fl AND HASH_FL_STRING \<noteq> 0
     \<Longrightarrow> hash_length fl n k = string_hash_len n k"
  by (simp add: hash_length_def ith_strlen_eq string_hash_len_def Let_def)

text \<open>
  Two strings that agree on their first \<open>n\<close> characters up to case hash alike in a table of key
  length \<open>n\<close>, unless \<open>n\<close> is a multiple of the block length.
\<close>

lemma hash_bytes_nocase:
  assumes s: "same_nocase (take n a) (take n b)" and n: "\<not> 12 dvd n"
  shows "hash_bytes True a (string_hash_len n a) = hash_bytes True b (string_hash_len n b)"
proof -
  have "length (take n a) = length (take n b)"
    using s unfolding same_nocase_def by (rule map_eq_imp_length_eq)
  then have len: "string_hash_len n a = string_hash_len n b"
    by (simp add: string_hash_len_def min.commute)
  have pre: "key_byte True a i = key_byte True b i" if "i < n" for i
  proof -
    have "key_byte True k i = key_byte True (take n k) i" for k
      using that by (simp add: key_byte_def)
    then show ?thesis using key_byte_nocase [OF s, of i] by simp
  qed
  have "string_hash_len n a \<le> n" by (simp add: string_hash_len_def)
  moreover have "string_hash_len n a \<noteq> n" if "12 dvd string_hash_len n a" using that n by auto
  ultimately show ?thesis
    unfolding len [symmetric] by (intro hash_bytes_cong) (auto intro!: pre)
qed

definition memcmp :: "cstring \<Rightarrow> cstring \<Rightarrow> nat \<Rightarrow> int" where
  "memcmp a b n =
     (case filter (\<lambda>i. key_byte False a i \<noteq> key_byte False b i) [0..<n] of
        [] \<Rightarrow> 0
      | i # _ \<Rightarrow> uint (key_byte False a i) - uint (key_byte False b i))"

lemma memcmp_zero_iff: "memcmp a b n = 0 \<longleftrightarrow> (\<forall>i < n. key_byte False a i = key_byte False b i)"
proof (cases "filter (\<lambda>i. key_byte False a i \<noteq> key_byte False b i) [0..<n]")
  case Nil
  then show ?thesis by (auto simp: memcmp_def filter_empty_conv)
next
  case (Cons i js)
  then have "i \<in> set (filter (\<lambda>i. key_byte False a i \<noteq> key_byte False b i) [0..<n])"
    by simp
  then have i: "i < n" "key_byte False a i \<noteq> key_byte False b i" by auto
  then have "memcmp a b n \<noteq> 0" using Cons by (simp add: memcmp_def word_uint_eq_iff)
  then show ?thesis using i by blast
qed

section \<open>The contract of a keyed table\<close>

text \<open>
  What the users of a table rely on: a lookup finds an entry of the table with an equal key if
  there is one, and the entries change as the operations say. \<open>good\<close> are the entries and
  \<open>okey\<close> the keys a caller may pass, \<open>room\<close> the bound below which growth is defined.
\<close>

locale keyed_table =
  fixes inv :: "'t \<Rightarrow> bool" and ents :: "'t \<Rightarrow> 'e multiset"
    and good :: "'e \<Rightarrow> bool" and okey :: "'k \<Rightarrow> bool" and same :: "'e \<Rightarrow> 'k \<Rightarrow> bool"
    and room :: "'t \<Rightarrow> bool" and ins :: "'t \<Rightarrow> 'e \<Rightarrow> 't option"
    and del :: "'t \<Rightarrow> 'e \<Rightarrow> 't" and fnd :: "'t \<Rightarrow> 'k \<Rightarrow> 'e option"
  assumes ins_ok: "inv t \<Longrightarrow> room t \<Longrightarrow> good e \<Longrightarrow>
      \<exists>t'. ins t e = Some t' \<and> inv t' \<and> ents t' = add_mset e (ents t)"
    and del_ok: "inv t \<Longrightarrow> good e \<Longrightarrow> inv (del t e) \<and> ents (del t e) = ents t - {#e#}"
    and fnd_Some: "inv t \<Longrightarrow> okey k \<Longrightarrow> fnd t k = Some e \<Longrightarrow> e \<in># ents t \<and> same e k"
    and fnd_None: "inv t \<Longrightarrow> okey k \<Longrightarrow> fnd t k = None \<Longrightarrow> e \<in># ents t \<Longrightarrow> \<not> same e k"
begin

lemma fnd_iff: "inv t \<Longrightarrow> okey k \<Longrightarrow> (\<exists>e. fnd t k = Some e) \<longleftrightarrow> (\<exists>e \<in># ents t. same e k)"
  by (metis fnd_None fnd_Some not_None_eq)

lemma fnd_ins_new:
  assumes "inv t" "room t" "good e" "okey k" "same e k" "fnd t k = None"
  shows "\<exists>t'. ins t e = Some t' \<and> inv t' \<and> fnd t' k = Some e"
proof -
  obtain t' where t': "ins t e = Some t'" "inv t'" "ents t' = add_mset e (ents t)"
    using ins_ok [OF assms(1-3)] by blast
  obtain e' where e': "fnd t' k = Some e'"
    using fnd_iff [OF t'(2) assms(4)] t'(3) assms(5) by auto
  then have "e' \<in># add_mset e (ents t)" "same e' k"
    using fnd_Some [OF t'(2) assms(4)] t'(3) by auto
  then have "e' = e" using fnd_None [OF assms(1,4,6)] by auto
  then show ?thesis using t' e' by blast
qed

lemma fnd_ins_other:
  assumes "inv t" "room t" "good e" "okey k" "\<not> same e k"
    and "\<And>x y. x \<in># ents t \<Longrightarrow> y \<in># ents t \<Longrightarrow> same x k \<Longrightarrow> same y k \<Longrightarrow> x = y"
  shows "\<exists>t'. ins t e = Some t' \<and> fnd t' k = fnd t k"
proof -
  obtain t' where t': "ins t e = Some t'" "inv t'" "ents t' = add_mset e (ents t)"
    using ins_ok [OF assms(1-3)] by blast
  have "fnd t' k = fnd t k"
  proof (cases "fnd t k")
    case None
    then have "\<not> (\<exists>x \<in># ents t'. same x k)"
      using fnd_None [OF assms(1,4) None] t'(3) assms(5) by auto
    then show ?thesis using fnd_iff [OF t'(2) assms(4)] None by auto
  next
    case (Some x)
    then have x: "x \<in># ents t" "same x k" using fnd_Some [OF assms(1,4)] by auto
    then obtain y where y: "fnd t' k = Some y" "y \<in># ents t'" "same y k"
      using fnd_iff [OF t'(2) assms(4)] fnd_Some [OF t'(2) assms(4)] t'(3) by auto
    then have "y \<in># ents t" using t'(3) assms(5) by auto
    then show ?thesis using assms(6) x y Some by metis
  qed
  then show ?thesis using t'(1) by blast
qed

lemma fnd_del_gone:
  assumes "inv t" "good e" "okey k" "same e k" "count (ents t) e = 1"
    and "\<And>x. x \<in># ents t \<Longrightarrow> same x k \<Longrightarrow> x = e"
  shows "fnd (del t e) k = None"
proof (rule ccontr)
  assume "fnd (del t e) k \<noteq> None"
  then obtain x where x: "fnd (del t e) k = Some x" by blast
  note d = del_ok [OF assms(1,2)]
  have "x \<in># ents t - {#e#}" "same x k" using fnd_Some [of "del t e" k x] d assms(3) x by auto
  moreover from this have "x = e" using assms(6) in_diffD by fastforce
  ultimately have "0 < count (ents t - {#e#}) e" by (simp only: count_greater_zero_iff)
  then show False using assms(5) by simp
qed

end

text \<open>
  A table with fixed parameters whose keys all satisfy \<open>ok\<close>. It meets the contract if keys that
  the comparison function finds equal hash alike.
\<close>

definition table_with ::
  "('e \<Rightarrow> cstring) \<Rightarrow> nat \<Rightarrow> u32 \<Rightarrow> (cstring \<Rightarrow> cstring \<Rightarrow> nat \<Rightarrow> int) \<Rightarrow> (cstring \<Rightarrow> bool)
     \<Rightarrow> 'e hashtable \<Rightarrow> bool"
where
  "table_with key n fl cmp ok t \<longleftrightarrow>
     ht_wf key t \<and> ht_keylen t = n \<and> ht_flags t = fl \<and> ht_cmp t = cmp
     \<and> (\<forall>e \<in># ht_ents t. ok (key e))"

lemma table_contract:
  fixes key :: "'e \<Rightarrow> cstring"
  assumes compat: "\<And>(t :: 'e hashtable) a b. ok a \<Longrightarrow> ok b \<Longrightarrow> cmp a b n = 0 \<Longrightarrow> ht_keylen t = n \<Longrightarrow>
      ht_flags t = fl \<Longrightarrow> hash_get_key_hash t a = hash_get_key_hash t b"
  shows "keyed_table (table_with key n fl cmp ok) ht_ents (\<lambda>e. ok (key e)) ok
    (\<lambda>e k. cmp (key e) k n = 0) (\<lambda>t. unat (ht_entries t) < 2 ^ 28)
    (hash_insert key) (\<lambda>t e. fst (hash_delete key t e)) (hash_find key)"
proof
  fix t :: "'e hashtable" and e
  assume t: "table_with key n fl cmp ok t" and e: "ok (key e)"
  then have wf: "ht_wf key t" by (simp add: table_with_def)
  {
    assume "unat (ht_entries t) < 2 ^ 28"
    from hash_insert_ok [OF wf this, of e] obtain t' where t': "hash_insert key t e = Some t'"
      "ht_wf key t'" "ht_ents t' = add_mset e (ht_ents t)" "same_params t t'" by blast
    then have "table_with key n fl cmp ok t'"
      using t e by (simp add: table_with_def same_params_def)
    with t' show "\<exists>t'. hash_insert key t e = Some t' \<and> table_with key n fl cmp ok t'
        \<and> ht_ents t' = add_mset e (ht_ents t)" by blast
  }
  have "table_with key n fl cmp ok (fst (hash_delete key t e))"
    using t hash_delete_ok [OF wf, of e] by (auto simp: table_with_def same_params_def dest: in_diffD)
  then show "table_with key n fl cmp ok (fst (hash_delete key t e))
      \<and> ht_ents (fst (hash_delete key t e)) = ht_ents t - {#e#}"
    using hash_delete_ok(2) [OF wf] by blast
next
  fix t :: "'e hashtable" and e k
  assume t: "table_with key n fl cmp ok t" and k: "ok k"
  then have wf: "ht_wf key t" by (simp add: table_with_def)
  show "e \<in># ht_ents t \<and> cmp (key e) k n = 0" if "hash_find key t k = Some e"
    using hash_find_Some [OF wf that] t by (simp add: table_with_def)
  show "cmp (key e) k n \<noteq> 0" if f: "hash_find key t k = None" and e: "e \<in># ht_ents t"
  proof
    assume z: "cmp (key e) k n = 0"
    have "ok (key e)" "ht_keylen t = n" "ht_flags t = fl" using t e by (simp_all add: table_with_def)
    then have "hash_get_key_hash t (key e) = hash_get_key_hash t k" using compat k z by blast
    from hash_find_None [OF wf f e this] show False using t z by (simp add: table_with_def)
  qed
qed

text \<open>
  The tables the server makes with a string key of a length that is no multiple of twelve and
  \<^verbatim>\<open>strncasecmp\<close>, for example the command table.
\<close>

definition short_str :: "cstring \<Rightarrow> bool" where
  "short_str k \<longleftrightarrow> c_str k \<and> length k < 2 ^ 32"

definition string_cmp :: "cstring \<Rightarrow> cstring \<Rightarrow> nat \<Rightarrow> int" where
  "string_cmp a b n = ith_strncasecmp a b (int n)"

abbreviation string_table :: "('e \<Rightarrow> cstring) \<Rightarrow> nat \<Rightarrow> 'e hashtable \<Rightarrow> bool" where
  "string_table key n \<equiv> table_with key n (HASH_FL_NOCASE OR HASH_FL_STRING) string_cmp short_str"

lemma nocase_string_hash:
  assumes "same_nocase (take n a) (take n b)" "\<not> 12 dvd n" "n < 2 ^ 32" "short_str a" "short_str b"
    and "ht_keylen t = n" "ht_flags t = HASH_FL_NOCASE OR HASH_FL_STRING"
  shows "hash_get_key_hash t a = hash_get_key_hash t b"
proof -
  have fl: "ht_flags t AND HASH_FL_STRING \<noteq> 0" "ht_flags t AND HASH_FL_NOCASE \<noteq> 0"
    using assms(7) by (simp_all add: HASH_FL_NOCASE_def HASH_FL_STRING_def)
  from hash_bytes_nocase [OF assms(1,2)] show ?thesis
    using assms fl by (simp add: hash_get_key_hash_def hash_length_string short_str_def)
qed

lemma string_hash_compat:
  assumes "\<not> 12 dvd n" "n < 2 ^ 32" "short_str a" "short_str b" "string_cmp a b n = 0"
    and "ht_keylen t = n" "ht_flags t = HASH_FL_NOCASE OR HASH_FL_STRING"
  shows "hash_get_key_hash t a = hash_get_key_hash t b"
proof (rule nocase_string_hash [OF _ assms(1,2,3,4,6,7)])
  show "same_nocase (take n a) (take n b)"
    using assms(3-5) by (simp add: string_cmp_def short_str_def strncasecmp_zero_iff)
qed

definition COMMAND_MAXLEN :: nat where "COMMAND_MAXLEN = 31"

interpretation command_table: keyed_table "string_table key COMMAND_MAXLEN" ht_ents
  "\<lambda>e. short_str (key e)" short_str "\<lambda>e k. string_cmp (key e) k COMMAND_MAXLEN = 0"
  "\<lambda>t. unat (ht_entries t) < 2 ^ 28" "hash_insert key" "\<lambda>t e. fst (hash_delete key t e)"
  "hash_find key" for key
  by (rule table_contract, rule string_hash_compat) (simp_all add: COMMAND_MAXLEN_def)

section \<open>Creation\<close>

lemma grow_elems_bounds:
  assumes "pow2 real k" "elems \<le> 2 ^ 31"
  shows "elems \<le> grow_elems real elems
    \<and> (grow_elems real elems = real \<or> unat (grow_elems real elems) < 2 * unat elems)"
  using assms
proof (induction real elems arbitrary: k rule: grow_elems.induct)
  case (1 real elems)
  show ?case
  proof (cases "real < elems")
    case True
    then have r: "real < elems \<and> 0 < real \<and> real < 2 ^ 31"
      using "1.prems" by (auto simp: pow2_def word_less_nat_alt word_le_nat_alt)
    then have "k < 31"
      using pow2_less_cancel [OF "1.prems"(1), of 31] by (simp add: word_less_nat_alt)
    then have p2: "pow2 (push_bit 1 real) (Suc k)"
      using pow2_double [OF "1.prems"(1)] by (simp add: push_bit_1_mult)
    then have "unat (push_bit 1 real) = 2 * unat real" using "1.prems"(1) by (simp add: pow2_def)
    then have "unat (push_bit 1 real) < 2 * unat elems" using True by (simp add: word_less_nat_alt)
    moreover have g: "grow_elems real elems = grow_elems (push_bit 1 real) elems"
      by (subst grow_elems.simps) (use r in simp)
    ultimately show ?thesis using "1.IH" [OF r p2 "1.prems"(2)] unfolding g by auto
  next
    case False
    then have "grow_elems real elems = real" by (subst grow_elems.simps) simp
    then show ?thesis using False by (simp add: not_less)
  qed
qed

lemma create_ok:
  assumes "elems \<le> 2 ^ 28"
  shows "\<exists>t. create_hash_table elems len flags cmp = Some t \<and> ht_wf key t \<and> ht_ents t = {#}
    \<and> ht_keylen t = len \<and> ht_flags t = flags \<and> ht_cmp t = cmp \<and> unat (ht_entries t) = 0
    \<and> unat (ht_size t) = (if elems < 0x80 then 64 else unat (ht_size t))
    \<and> (0x80 \<le> elems \<longrightarrow> ht_size t \<le> elems \<and> unat elems < 2 * unat (ht_size t))"
proof -
  have e31: "elems \<le> 2 ^ 31" using assms by (simp add: word_le_nat_alt)
  have p7: "pow2 0x80 7" by (simp add: pow2_def)
  obtain k where k: "pow2 (grow_elems 0x80 elems) k" "7 \<le> k" using grow_elems_pow2 [OF p7 e31] by blast
  note b = grow_elems_bounds [OF p7 e31]
  define g where "g = grow_elems 0x80 elems"
  define s where "s = (if elems < g then drop_bit 1 g else g)"
  define t where "t = \<lparr>ht_size = s, ht_entries = 0, ht_table = replicate (unat s) [] :: 'a hashent list list,
      ht_keylen = len, ht_flags = flags, ht_cmp = cmp\<rparr>"
  have "\<not> push_bit 31 1 < elems" using e31 by (simp add: not_less)
  then have c: "create_hash_table elems len flags cmp = Some t"
    by (simp add: create_hash_table_def t_def s_def g_def Let_def)
  have half: "pow2 (drop_bit 1 g) (k - 1)" using pow2_half [of g "k - 1"] k by (simp add: g_def)
  have u: "unat (drop_bit 1 g) * 2 = unat g"
    using half k by (cases k) (simp_all add: pow2_def g_def)
  have small: "s = 64" if "elems < 0x80"
    using that by (simp add: s_def g_def grow_elems.simps)
  have big: "s \<le> elems \<and> unat elems < 2 * unat s" if "0x80 \<le> elems"
  proof -
    have g2: "unat g < 2 * unat elems"
      using b that by (auto simp: g_def word_le_nat_alt)
    show ?thesis
      using b u g2 unfolding s_def g_def [symmetric] by (auto simp: word_le_nat_alt word_less_nat_alt)
  qed
  obtain j where j: "pow2 s j" "j \<le> 28"
  proof (cases "elems < 0x80")
    case True
    then show ?thesis using that [of 6] small by (simp add: pow2_def)
  next
    case False
    then have le: "unat s \<le> 2 ^ 28" using big assms by (simp add: word_le_nat_alt not_less)
    obtain i where i: "pow2 s i" using k half by (metis s_def g_def)
    have "unat s < 2 ^ 29" using le by simp
    then have "i < 29" by (rule pow2_less_cancel [OF i])
    then show ?thesis using that i by simp
  qed
  have "0 < unat s" using j by (simp add: pow2_def)
  then have "0 < unat s * 6 div 5" by simp
  then have "ht_wf key t"
    using j by (auto simp: ht_wf_def t_def ht_placed_def concat_eq_Nil_conv)
  moreover have "ht_ents t = {#}" by (simp add: ht_ents_def t_def)
  ultimately show ?thesis using c small big by (auto simp: t_def not_less)
qed

lemmas hash_eval = hash_bytes_def hash_blocks.simps hash_word_def key_byte_def mix_def
  mix_round_def hash_tail_def uchar_def

section \<open>Properties\<close>

text \<open>C6: insertion into a well-formed table with fewer than \<open>2 ^ 28\<close> entries returns: the
  growth it may start ends after one level, and the result is well formed and holds exactly one
  entry more.\<close>

theorem hash_insert_total:
  assumes "ht_wf key t" "unat (ht_entries t) < 2 ^ 28"
  shows "\<exists>t'. hash_insert key t e = Some t' \<and> ht_wf key t' \<and> ht_ents t' = add_mset e (ht_ents t)"
  using hash_insert_ok [OF assms] by blast

theorem hash_insert_total_witness:
  "\<exists>t t'. create_hash_table 128 31 HASH_FL_STRING memcmp = Some t
     \<and> hash_insert id t ''nick'' = Some t' \<and> ht_ents t' = {#''nick''#}"
proof -
  obtain t :: "cstring hashtable" where t: "create_hash_table 128 31 HASH_FL_STRING memcmp = Some t"
    "ht_wf id t" "ht_ents t = {#}" "unat (ht_entries t) = 0"
    using create_ok [of 128 31 HASH_FL_STRING memcmp id] by (auto simp: word_le_nat_alt)
  show ?thesis using hash_insert_total [OF t(2), of "''nick''"] t by auto
qed

text \<open>Deletion keeps a table well formed, removes one occurrence of the entry and answers
  whether it was there.\<close>

theorem hash_delete_removes:
  assumes "ht_wf key t"
  shows "ht_wf key (fst (hash_delete key t e))
    \<and> ht_ents (fst (hash_delete key t e)) = ht_ents t - {#e#}
    \<and> snd (hash_delete key t e) = (if e \<in># ht_ents t then 1 else 0)"
  using hash_delete_ok [OF assms] by blast

theorem hash_delete_removes_witness:
  "\<exists>t. create_hash_table 2 31 HASH_FL_STRING memcmp = Some t
     \<and> snd (hash_delete id t ''nick'') = 0"
proof -
  obtain t :: "cstring hashtable" where t: "create_hash_table 2 31 HASH_FL_STRING memcmp = Some t"
    "ht_wf id t" "ht_ents t = {#}"
    using create_ok [of 2 31 HASH_FL_STRING memcmp id] by (auto simp: word_le_nat_alt)
  then show ?thesis using hash_delete_removes [OF t(2), of "''nick''"] by auto
qed

text \<open>In a table of commands a new command is found under every spelling of its name, and
  deleting the only command of a name makes the lookup fail.\<close>

theorem command_table_lookup:
  assumes "string_table key COMMAND_MAXLEN t" "unat (ht_entries t) < 2 ^ 28"
    and "short_str (key e)" "short_str k" "string_cmp (key e) k COMMAND_MAXLEN = 0"
    and "hash_find key t k = None"
  shows "\<exists>t'. hash_insert key t e = Some t' \<and> hash_find key t' k = Some e
    \<and> hash_find key (fst (hash_delete key t' e)) k = None"
proof -
  obtain t' where t': "hash_insert key t e = Some t'" "string_table key COMMAND_MAXLEN t'"
    "hash_find key t' k = Some e"
    using command_table.fnd_ins_new [OF assms] by blast
  have ents: "ht_ents t' = add_mset e (ht_ents t)"
    using command_table.ins_ok [OF assms(1-3)] t'(1) by auto
  have none: "x \<in># ht_ents t \<Longrightarrow> string_cmp (key x) k COMMAND_MAXLEN \<noteq> 0" for x
    using command_table.fnd_None [OF assms(1,4,6)] by blast
  then have "e \<notin># ht_ents t" using assms(5) by blast
  then have "count (ht_ents t') e = 1" using ents by (simp add: count_eq_zero_iff)
  moreover have "x = e"
    if "x \<in># ht_ents t'" "string_cmp (key x) k COMMAND_MAXLEN = 0" for x
    using that none ents by auto
  ultimately have "hash_find key (fst (hash_delete key t' e)) k = None"
    using command_table.fnd_del_gone [OF t'(2) assms(3,4,5)] by blast
  then show ?thesis using t' by blast
qed

theorem command_table_lookup_witness:
  "\<exists>t t'. string_table id COMMAND_MAXLEN t \<and> hash_insert id t ''JOIN'' = Some t'
     \<and> hash_find id t' ''join'' = Some ''JOIN''"
proof -
  let ?fl = "HASH_FL_NOCASE OR HASH_FL_STRING"
  obtain t :: "cstring hashtable" where t: "create_hash_table 32 COMMAND_MAXLEN ?fl string_cmp = Some t"
    "ht_wf id t" "ht_ents t = {#}" "ht_keylen t = COMMAND_MAXLEN" "ht_flags t = ?fl"
    "ht_cmp t = string_cmp" "unat (ht_entries t) = 0"
    using create_ok [of 32 COMMAND_MAXLEN ?fl string_cmp id] by (auto simp: word_le_nat_alt)
  then have st: "string_table id COMMAND_MAXLEN t" by (simp add: table_with_def)
  have none: "hash_find id t ''join'' = None"
    using command_table.fnd_Some [OF st, of "''join''"] t(3)
    by (cases "hash_find id t ''join''") (auto simp: short_str_def)
  have same: "string_cmp (id ''JOIN'') ''join'' COMMAND_MAXLEN = 0"
    unfolding string_cmp_def by (subst id_apply, subst strncasecmp_zero_iff)
      (simp_all add: same_nocase_def COMMAND_MAXLEN_def tolower_def tolowertab_def uchar_def)
  show ?thesis
    using command_table_lookup [OF st _ _ _ same none] t(7) st by (auto simp: short_str_def)
qed

text \<open>Creation for up to \<open>2 ^ 28\<close> elements returns an empty well-formed table; its size is the
  largest power of two not above the request, and 64 for every request below 128.\<close>

theorem create_hash_table_size:
  assumes "elems \<le> 2 ^ 28"
  shows "\<exists>t. create_hash_table elems len flags cmp = Some t \<and> ht_wf key t \<and> ht_ents t = {#}
    \<and> (if elems < 0x80 then ht_size t = 64
       else ht_size t \<le> elems \<and> unat elems < 2 * unat (ht_size t))"
  using create_ok [OF assms, of len flags cmp key] by (auto simp: word_unat_eq_iff not_less)

theorem create_hash_table_size_witness:
  "\<exists>t :: cstring hashtable. create_hash_table 32 31 0 memcmp = Some t \<and> ht_size t = 64"
  using create_hash_table_size [of 32 31 0 memcmp id] by (auto simp: word_le_nat_alt)

text \<open>The hash of a raw key of a whole block depends on the byte behind the key: two entries
  whose twelve key bytes are equal under \<^verbatim>\<open>memcmp\<close> hash to different buckets of a table of
  128, so the lookup of one does not find the other.\<close>

theorem hash_reads_past_key:
  "memcmp (replicate 12 NUL @ [CHR 0x01]) (replicate 12 NUL @ [CHR 0x02]) 12 = 0
   \<and> hash_get_key_hash (t\<lparr>ht_size := 128, ht_flags := 0, ht_keylen := 12\<rparr>) (replicate 12 NUL @ [CHR 0x01])
     \<noteq> hash_get_key_hash (t\<lparr>ht_size := 128, ht_flags := 0, ht_keylen := 12\<rparr>) (replicate 12 NUL @ [CHR 0x02])"
proof -
  have unf: "replicate 12 NUL @ [c] = [NUL, NUL, NUL, NUL, NUL, NUL, NUL, NUL, NUL, NUL, NUL, NUL, c]"
    for c by (simp add: numeral_eq_Suc)
  have a: "hash_bytes False (replicate 12 NUL @ [CHR 0x01]) 12 = 0x62aae37d"
    unfolding unf by (simp add: hash_eval cong: let_weak_cong)
  have b: "hash_bytes False (replicate 12 NUL @ [CHR 0x02]) 12 = 0x3e3794d8"
    unfolding unf by (simp add: hash_eval cong: let_weak_cong)
  have "memcmp (replicate 12 NUL @ [CHR 0x01]) (replicate 12 NUL @ [CHR 0x02]) 12 = 0"
    by (auto simp: memcmp_zero_iff key_byte_def nth_append)
  then show ?thesis by (simp add: hash_get_key_hash_def hash_length_def a b)
qed

end
