(* ===== verification/BaseN.thy ===== *)
theory BaseN
  imports CString
begin

text \<open>
  The base 2 to base 64 codecs of \<^verbatim>\<open>source/string.c\<close>. An encoding type is the number of
  bits per digit, 1 to 6. The output is the list of the bytes written, whose length is the count
  the functions return; the error flag of the decoder is whether it set \<^verbatim>\<open>errno\<close>.
  The decoding tables are the initialisers as a C compiler reads them: each lacks one comma,
  so \<^verbatim>\<open>-1 -1\<close> is one entry \<open>-2\<close>, the entries behind it are one place early and the
  last entry is the implicit zero.
\<close>

unbundle bit_operations_syntax

section \<open>Tables\<close>

definition base_emap :: cstring where
  "base_emap = ''0123456789abcdefghijklmnopqrstuv''"

definition base64_emap :: cstring where
  "base64_emap = ''ABCDEFGHIJKLMNOPQRSTUVWXYZabcdefghijklmnopqrstuvwxyz0123456789+/''"

definition base_dmap :: "int list" where
  "base_dmap =
     [-1, -1, -1, -1, -1, -1, -1, -1, -1, -1, -1, -1, -1, -1, -1, -1,
      -1, -1, -1, -1, -1, -1, -1, -1, -1, -1, -1, -1, -1, -1, -1, -1,
      -1, -1, -1, -1, -1, -1, -1, -1, -1, -1, -1, -1, -1, -1, -1, -1,
      0, 1, 2, 3, 4, 5, 6, 7, 8, 9, -1, -1, -1, -1, -1, -1,
      -1, 10, 11, 12, 13, 14, 15, 16, 17, 18, 19, 20, 21, 22, 23, 24,
      25, 26, 27, 28, 29, 30, 31, -1, -1, -1, -1, -1, -1, -1, -1, -1,
      -1, 10, 11, 12, 13, 14, 15, 16, 17, 18, 19, 20, 21, 22, 23, 24,
      25, 26, 27, 28, 29, 30, 31, -2, -1, -1, -1, -1, -1, -1, -1, -1,
      -1, -1, -1, -1, -1, -1, -1, -1, -1, -1, -1, -1, -1, -1, -1, -1,
      -1, -1, -1, -1, -1, -1, -1, -1, -1, -1, -1, -1, -1, -1, -1, -1,
      -1, -1, -1, -1, -1, -1, -1, -1, -1, -1, -1, -1, -1, -1, -1, -1,
      -1, -1, -1, -1, -1, -1, -1, -1, -1, -1, -1, -1, -1, -1, -1, -1,
      -1, -1, -1, -1, -1, -1, -1, -1, -1, -1, -1, -1, -1, -1, -1, -1,
      -1, -1, -1, -1, -1, -1, -1, -1, -1, -1, -1, -1, -1, -1, -1, -1,
      -1, -1, -1, -1, -1, -1, -1, -1, -1, -1, -1, -1, -1, -1, -1, -1,
      -1, -1, -1, -1, -1, -1, -1, -1, -1, -1, -1, -1, -1, -1, -1, 0]"

definition base64_dmap :: "int list" where
  "base64_dmap =
     [-1, -1, -1, -1, -1, -1, -1, -1, -1, -2, -2, -2, -2, -2, -1, -1,
      -1, -1, -1, -1, -1, -1, -1, -1, -1, -1, -1, -1, -1, -1, -1, -1,
      -2, -1, -1, -1, -1, -1, -1, -1, -1, -1, -1, 62, -1, -1, -1, 63,
      52, 53, 54, 55, 56, 57, 58, 59, 60, 61, -1, -1, -1, -2, -1, -1,
      -1, 0, 1, 2, 3, 4, 5, 6, 7, 8, 9, 10, 11, 12, 13, 14,
      15, 16, 17, 18, 19, 20, 21, 22, 23, 24, 25, -1, -1, -1, -1, -1,
      -1, 26, 27, 28, 29, 30, 31, 32, 33, 34, 35, 36, 37, 38, 39, 40,
      41, 42, 43, 44, 45, 46, 47, 48, 49, 50, 51, -1, -1, -1, -1, -1,
      -1, -2, -1, -1, -1, -1, -1, -1, -1, -1, -1, -1, -1, -1, -1, -1,
      -1, -1, -1, -1, -1, -1, -1, -1, -1, -1, -1, -1, -1, -1, -1, -1,
      -1, -1, -1, -1, -1, -1, -1, -1, -1, -1, -1, -1, -1, -1, -1, -1,
      -1, -1, -1, -1, -1, -1, -1, -1, -1, -1, -1, -1, -1, -1, -1, -1,
      -1, -1, -1, -1, -1, -1, -1, -1, -1, -1, -1, -1, -1, -1, -1, -1,
      -1, -1, -1, -1, -1, -1, -1, -1, -1, -1, -1, -1, -1, -1, -1, -1,
      -1, -1, -1, -1, -1, -1, -1, -1, -1, -1, -1, -1, -1, -1, -1, -1,
      -1, -1, -1, -1, -1, -1, -1, -1, -1, -1, -1, -1, -1, -1, -1, 0]"

definition BASE64_ENCODING :: nat where "BASE64_ENCODING = 6"

definition emap :: "nat \<Rightarrow> cstring" where
  "emap t = (if t = BASE64_ENCODING then base64_emap else base_emap)"

definition dmap :: "nat \<Rightarrow> char \<Rightarrow> int" where
  "dmap t c = (if t = BASE64_ENCODING then base64_dmap else base_dmap) ! uchar c"

section \<open>Encoding\<close>

text \<open>The inner loop: the digits that are complete, and what is left of the chunk.\<close>

function enc_emit :: "nat \<Rightarrow> u32 \<Rightarrow> nat \<Rightarrow> cstring \<times> u32 \<times> nat" where
  "enc_emit t chunk bits =
     (if t \<le> bits \<and> 0 < t then
        (let d = emap t ! unat (drop_bit (bits - t) chunk);
             bits' = bits - t;
             (o', c', b') = enc_emit t (chunk AND drop_bit (8 - bits') 0xff) bits'
         in (d # o', c', b'))
      else ([], chunk, bits))"
  by pat_completeness auto
termination by (relation "measure (\<lambda>(t, c, b). b)") auto

declare enc_emit.simps [simp del]

lemma enc_emit_bits:
  "enc_emit t chunk bits = (o', c', b') \<Longrightarrow> b' \<le> bits \<and> (t \<le> bits \<longrightarrow> 0 < t \<longrightarrow> b' < bits)"
  by (induction t chunk bits arbitrary: o' c' b' rule: enc_emit.induct)
    (subst (asm) enc_emit.simps, fastforce simp: Let_def split: if_splits prod.splits)

text \<open>
  The outer loop. The encoding type is positive in every call (1 to 6); with type 0 the code
  would not leave its inner loop.
\<close>

function enc_loop :: "nat \<Rightarrow> cstring \<Rightarrow> u32 \<Rightarrow> nat \<Rightarrow> cstring" where
  "enc_loop t [] chunk bits =
     (if 0 < bits then [emap t ! unat (push_bit (t - bits) chunk)] else [])"
| "enc_loop t (c # src) chunk bits =
     (if bits < t then
        (case enc_emit t (push_bit 8 chunk + of_nat (uchar c)) (bits + 8) of
           (o', chunk', bits') \<Rightarrow> o' @ enc_loop t src chunk' bits')
      else if 0 < t then
        (case enc_emit t chunk bits of (o', chunk', bits') \<Rightarrow> o' @ enc_loop t (c # src) chunk' bits')
      else [])"
  by pat_completeness auto
termination
  by (relation "measures [\<lambda>(t, s, c, b). length s, \<lambda>(t, s, c, b). b]")
    (auto dest: enc_emit_bits [OF sym])

definition str_base_encode :: "nat \<Rightarrow> cstring \<Rightarrow> cstring" where
  "str_base_encode t src = enc_loop t src 0 0"

section \<open>Decoding\<close>

text \<open>
  The error check reads the table at the character after the bad one, since the pointer has
  moved on.
\<close>

fun dec_loop :: "nat \<Rightarrow> cstring \<Rightarrow> u32 \<Rightarrow> nat \<Rightarrow> bool \<Rightarrow> cstring \<times> bool" where
  "dec_loop t [] chunk bits err =
     ((if bits \<noteq> 0 then [char_of (unat chunk mod 256)] else []), err)"
| "dec_loop t (c # src) chunk bits err =
     (if dmap t c < 0 \<or> 2 ^ t \<le> dmap t c then
        dec_loop t src chunk bits (if dmap t (chd src) \<noteq> -2 then True else err)
      else
        (let chunk = push_bit t chunk + word_of_int (dmap t c); bits = bits + t
         in if 8 \<le> bits then
              (case dec_loop t src (chunk XOR push_bit (bits - 8) 0xff) (bits - 8) err of
                 (o', e') \<Rightarrow> (char_of (unat (drop_bit (bits - 8) chunk) mod 256) # o', e'))
            else dec_loop t src chunk bits err))"

definition str_base_decode :: "nat \<Rightarrow> cstring \<Rightarrow> cstring \<times> bool" where
  "str_base_decode t src = dec_loop t src 0 0 False"

section \<open>Digit strings as numbers\<close>

definition val :: "nat \<Rightarrow> nat list \<Rightarrow> nat" where
  "val b ds = foldl (\<lambda>a d. a * b + d) 0 ds"

lemma foldl_val: "foldl (\<lambda>a d. a * b + d) a ds = a * b ^ length ds + val b ds"
proof (induction ds arbitrary: a)
  case Nil
  then show ?case by (simp add: val_def)
next
  case (Cons d ds)
  show ?case using Cons [of "a * b + d"] Cons [of d] by (simp add: val_def algebra_simps)
qed

lemma val_simps [simp]: "val b [] = 0" "val b (d # ds) = d * b ^ length ds + val b ds"
  using foldl_val [of b d ds] by (simp_all add: val_def)

lemma val_append: "val b (xs @ ys) = val b xs * b ^ length ys + val b ys"
  by (induction xs) (simp_all add: power_add algebra_simps)

lemma val_less: "\<forall>d \<in> set ds. d < b \<Longrightarrow> val b ds < b ^ length ds"
proof (induction ds)
  case (Cons d ds)
  then have "d + 1 \<le> b" "val b ds < b ^ length ds" by auto
  moreover from this have "(d + 1) * b ^ length ds \<le> b * b ^ length ds" by (intro mult_le_mono1)
  ultimately show ?case by simp
qed simp

lemma val_inj:
  "length xs = length ys \<Longrightarrow> \<forall>d \<in> set xs. d < b \<Longrightarrow> \<forall>d \<in> set ys. d < b
     \<Longrightarrow> val b xs = val b ys \<Longrightarrow> xs = ys"
proof (induction xs ys rule: list_induct2)
  case (Cons x xs y ys)
  have v: "val b xs < b ^ length ys" "val b ys < b ^ length ys"
    using Cons.prems Cons.hyps val_less [of xs b] val_less [of ys b] by auto
  have e: "x * b ^ length ys + val b xs = y * b ^ length ys + val b ys"
    using Cons.prems(3) Cons.hyps by simp
  have "0 < b ^ length ys" using v(1) by linarith
  then have "x = y" "val b xs = val b ys"
    using arg_cong [OF e, of "\<lambda>n. n div b ^ length ys"] arg_cong [OF e, of "\<lambda>n. n mod b ^ length ys"] v
    by auto
  then show ?case using Cons by simp
qed simp

section \<open>The encoder\<close>

lemma byte_mask:
  assumes "b \<le> 8"
  shows "(w :: u32) AND drop_bit (8 - b) 0xff = take_bit b w"
proof -
  have "\<forall>b \<in> set [0..<9]. drop_bit (8 - b) (0xff :: u32) = mask b" by code_simp
  then have "drop_bit (8 - b) (0xff :: u32) = mask b" using assms by auto
  then show ?thesis by (simp add: take_bit_eq_mask)
qed

lemma enc_emit_value:
  assumes "0 < t" "unat chunk < 2 ^ bits" "bits \<le> 8 + t"
  shows "\<exists>ds c' b'. enc_emit t chunk bits = (map ((!) (emap t)) ds, c', b')
    \<and> (\<forall>d \<in> set ds. d < 2 ^ t) \<and> b' < t \<and> unat c' < 2 ^ b' \<and> t * length ds + b' = bits
    \<and> unat chunk = val (2 ^ t) ds * 2 ^ b' + unat c'"
  using assms
proof (induction t chunk bits rule: enc_emit.induct)
  case (1 t chunk bits)
  show ?case
  proof (cases "t \<le> bits")
    case False
    then show ?thesis using 1(3) by (subst enc_emit.simps) (intro exI [of _ "[]"], auto)
  next
    case True
    define b where "b = bits - t"
    define d where "d = unat (drop_bit b chunk)"
    define c where "c = chunk AND drop_bit (8 - b) 0xff"
    have b8: "b \<le> 8" using 1(4) by (simp add: b_def)
    have bits: "bits = t + b" using True by (simp add: b_def)
    have c: "unat c = unat chunk mod 2 ^ b" by (simp add: c_def byte_mask [OF b8] unat_take_bit_mod)
    have d: "d = unat chunk div 2 ^ b" by (simp add: d_def unat_drop_bit_div)
    have dl: "d < 2 ^ t"
      using 1(3) unfolding d bits by (simp add: less_mult_imp_div_less power_add)
    have cl: "unat c < 2 ^ b" unfolding c by simp
    have cond: "t \<le> bits \<and> 0 < t" using True 1(2) by simp
    have bl: "b \<le> 8 + t" using b8 by simp
    obtain ds c' b' where IH: "enc_emit t c b = (map ((!) (emap t)) ds, c', b')"
      "\<forall>d \<in> set ds. d < 2 ^ t" "b' < t" "unat c' < 2 ^ b'" "t * length ds + b' = b"
      "unat c = val (2 ^ t) ds * 2 ^ b' + unat c'"
      using "1.IH" [OF cond refl refl 1(2)] cl bl unfolding c_def b_def by blast
    have "enc_emit t chunk bits = (map ((!) (emap t)) (d # ds), c', b')"
      using cond IH(1) by (subst enc_emit.simps) (simp add: b_def d_def c_def)
    moreover have "t * length (d # ds) + b' = bits" using IH(5) bits by simp
    moreover have "unat chunk = val (2 ^ t) (d # ds) * 2 ^ b' + unat c'"
    proof -
      have "unat chunk = d * 2 ^ b + unat c" unfolding c d by (simp only: div_mult_mod_eq)
      also have "\<dots> = d * 2 ^ (t * length ds + b') + (val (2 ^ t) ds * 2 ^ b' + unat c')"
        using IH(5,6) by simp
      also have "\<dots> = val (2 ^ t) (d # ds) * 2 ^ b' + unat c'"
        by (simp add: power_add power_mult algebra_simps)
      finally show ?thesis .
    qed
    ultimately show ?thesis using IH(2-4) dl by (intro exI [of _ "d # ds"] exI conjI) auto
  qed
qed

lemma enc_loop_value:
  assumes "0 < t" "t \<le> 6" "bits < t" "unat chunk < 2 ^ bits"
  shows "\<exists>ds p. enc_loop t src chunk bits = map ((!) (emap t)) ds \<and> (\<forall>d \<in> set ds. d < 2 ^ t) \<and> p < t
    \<and> t * length ds = bits + 8 * length src + p
    \<and> val (2 ^ t) ds = (unat chunk * 256 ^ length src + val 256 (map uchar src)) * 2 ^ p"
  using assms(3,4)
proof (induction src arbitrary: chunk bits)
  case Nil
  show ?case
  proof (cases "bits = 0")
    case True
    then show ?thesis using Nil assms by (intro exI [of _ "[]"] exI [of _ 0]) simp
  next
    case False
    have le: "(2::nat) ^ bits * 2 ^ (t - bits) = 2 ^ t"
      using Nil(1) by (simp add: power_add [symmetric])
    have "unat chunk * 2 ^ (t - bits) < 2 ^ bits * 2 ^ (t - bits)" using Nil(2) by simp
    then have lt: "unat chunk * 2 ^ (t - bits) < 2 ^ t" using le by simp
    moreover have "(2::nat) ^ t \<le> 2 ^ 6" using assms(2) by (intro power_increasing) auto
    ultimately have "unat chunk * 2 ^ (t - bits) < 2 ^ 32" by simp
    then have "unat (push_bit (t - bits) chunk) = unat chunk * 2 ^ (t - bits)"
      by (simp add: unat_push_bit)
    then show ?thesis using False Nil lt
      by (intro exI [of _ "[unat (push_bit (t - bits) chunk)]"] exI [of _ "t - bits"]) simp
  qed
next
  case (Cons c src)
  define ch where "ch = push_bit 8 chunk + of_nat (uchar c)"
  have "(2::nat) ^ bits \<le> 2 ^ 6" using Cons(2) assms(2) by (intro power_increasing) auto
  then have "unat chunk < 64" using Cons(3) by simp
  then have "unat chunk * 256 + uchar c < 2 ^ 32" using uchar_less [of c] by (simp del: uchar_less)
  then have ch: "unat ch = unat chunk * 256 + uchar c"
    using uchar_less [of c] by (simp add: ch_def push_bit_eq_mult unat_word_ariths unat_of_nat)
  have "unat chunk + 1 \<le> 2 ^ bits" using Cons(3) by simp
  then have "(unat chunk + 1) * 256 \<le> 2 ^ bits * 256" by (rule mult_le_mono1)
  then have chl: "unat ch < 2 ^ (bits + 8)" using ch uchar_less [of c] by (simp add: power_add del: uchar_less)
  obtain ds c' b' where e: "enc_emit t ch (bits + 8) = (map ((!) (emap t)) ds, c', b')"
    "\<forall>d \<in> set ds. d < 2 ^ t" "b' < t" "unat c' < 2 ^ b'" "t * length ds + b' = bits + 8"
    "unat ch = val (2 ^ t) ds * 2 ^ b' + unat c'"
    using enc_emit_value [OF assms(1) chl] Cons(2) by auto
  obtain ds' p where IH: "enc_loop t src c' b' = map ((!) (emap t)) ds'" "\<forall>d \<in> set ds'. d < 2 ^ t"
    "p < t" "t * length ds' = b' + 8 * length src + p"
    "val (2 ^ t) ds' = (unat c' * 256 ^ length src + val 256 (map uchar src)) * 2 ^ p"
    using Cons.IH [OF e(3,4)] by blast
  have "enc_loop t (c # src) chunk bits = map ((!) (emap t)) (ds @ ds')"
    using Cons(2) e(1) IH(1) by (simp add: ch_def)
  moreover have "t * length (ds @ ds') = bits + 8 * length (c # src) + p"
    using e(5) IH(4) by (simp add: distrib_left)
  moreover have "val (2 ^ t) (ds @ ds')
      = (unat chunk * 256 ^ length (c # src) + val 256 (map uchar (c # src))) * 2 ^ p"
  proof -
    have "val (2 ^ t) (ds @ ds') = val (2 ^ t) ds * 2 ^ (b' + 8 * length src + p) + val (2 ^ t) ds'"
      by (simp add: val_append power_mult [symmetric] IH(4))
    also have "\<dots> = (val (2 ^ t) ds * 2 ^ b' + unat c') * 256 ^ length src * 2 ^ p
        + val 256 (map uchar src) * 2 ^ p"
    proof -
      have "(2::nat) ^ (8 * length src) = 256 ^ length src" by (simp add: power_mult)
      then show ?thesis by (simp add: IH(5) power_add algebra_simps)
    qed
    also have "\<dots> = (unat chunk * 256 + uchar c) * 256 ^ length src * 2 ^ p
        + val 256 (map uchar src) * 2 ^ p"
      using e(6) ch by simp
    finally show ?thesis by (simp add: algebra_simps)
  qed
  ultimately show ?case using e(2) IH(2,3)
    by (intro exI [of _ "ds @ ds'"] exI [of _ p]) auto
qed

section \<open>The decoder\<close>

lemma byte_flip_low: "take_bit b (w XOR push_bit b v) = take_bit b (w :: u32)"
  by (rule bit_eqI) (auto simp: bit_take_bit_iff bit_xor_iff bit_push_bit_iff)

lemma dec_loop_value:
  assumes "0 < t" "t \<le> 6" "\<forall>d \<in> set ds. d < 2 ^ t \<and> dmap t (emap t ! d) = int d" "bits < 8"
  shows "\<exists>bs r c x. dec_loop t (map ((!) (emap t)) ds) chunk bits err
      = (map char_of bs @ (if r \<noteq> 0 then [x] else []), err)
    \<and> (\<forall>y \<in> set bs. y < 256) \<and> bits + t * length ds = 8 * length bs + r \<and> r < 8 \<and> c < 2 ^ r
    \<and> unat chunk mod 2 ^ bits * (2 ^ t) ^ length ds + val (2 ^ t) ds = val 256 bs * 2 ^ r + c"
  using assms(3,4)
proof (induction ds arbitrary: chunk bits)
  case Nil
  then show ?case
    by (intro exI [of _ "[]"] exI [of _ bits] exI [of _ "unat chunk mod 2 ^ bits"]) auto
next
  case (Cons d ds)
  define ch where "ch = push_bit t chunk + word_of_int (int d)"
  define n where "n = bits + t"
  define m where "m = unat chunk mod 2 ^ bits * 2 ^ t + d"
  have d: "d < 2 ^ t" "dmap t (emap t ! d) = int d" using Cons.prems(1) by auto
  have n: "n \<le> 32" "n < 16" using Cons.prems(2) assms(2) by (simp_all add: n_def)
  have m: "unat ch mod 2 ^ n = m"
  proof -
    have "unat ch = (unat chunk * 2 ^ t + d) mod 2 ^ 32"
      by (simp add: ch_def unat_word_ariths unat_push_bit unat_of_nat mod_simps)
    then have "unat ch mod 2 ^ n = (unat chunk * 2 ^ t + d) mod 2 ^ n"
      using n(1) by (simp only: mod_mod_cancel le_imp_power_dvd)
    also have "\<dots> = m"
    proof -
      have "unat chunk * 2 ^ t + d = unat chunk div 2 ^ bits * 2 ^ n + m"
      proof -
        have "unat chunk * 2 ^ t = (unat chunk div 2 ^ bits * 2 ^ bits + unat chunk mod 2 ^ bits) * 2 ^ t"
          by (simp only: div_mult_mod_eq)
        then show ?thesis by (simp only: m_def n_def power_add algebra_simps)
      qed
      moreover have "m < 2 ^ n"
      proof -
        have "unat chunk mod 2 ^ bits + 1 \<le> 2 ^ bits" by (simp add: Suc_leI)
        then have "(unat chunk mod 2 ^ bits + 1) * 2 ^ t \<le> 2 ^ bits * 2 ^ t" by (rule mult_le_mono1)
        then show ?thesis using d(1) by (simp add: m_def n_def power_add)
      qed
      ultimately show ?thesis by simp
    qed
    finally show ?thesis .
  qed
  have ds: "\<forall>d \<in> set ds. d < 2 ^ t \<and> dmap t (emap t ! d) = int d" using Cons.prems(1) by simp
  have step: "dec_loop t (map ((!) (emap t)) (d # ds)) chunk bits err =
      (if 8 \<le> n then
         (case dec_loop t (map ((!) (emap t)) ds) (ch XOR push_bit (n - 8) 0xff) (n - 8) err of
            (o', e') \<Rightarrow> (char_of (unat (drop_bit (n - 8) ch) mod 256) # o', e'))
       else dec_loop t (map ((!) (emap t)) ds) ch n err)"
    using d by (simp add: ch_def n_def Let_def)
  have total: "unat chunk mod 2 ^ bits * (2 ^ t) ^ length (d # ds) + val (2 ^ t) (d # ds)
      = m * (2 ^ t) ^ length ds + val (2 ^ t) ds"
    by (simp add: m_def algebra_simps)
  show ?case
  proof (cases "8 \<le> n")
    case False
    then obtain bs r c x where IH: "dec_loop t (map ((!) (emap t)) ds) ch n err
        = (map char_of bs @ (if r \<noteq> 0 then [x] else []), err)" "\<forall>y \<in> set bs. y < 256"
      "n + t * length ds = 8 * length bs + r" "r < 8" "c < 2 ^ r"
      "unat ch mod 2 ^ n * (2 ^ t) ^ length ds + val (2 ^ t) ds = val 256 bs * 2 ^ r + c"
      using Cons.IH [OF ds, of n ch] by auto
    have "dec_loop t (map ((!) (emap t)) (d # ds)) chunk bits err
        = (map char_of bs @ (if r \<noteq> 0 then [x] else []), err)"
      unfolding step using False IH(1) by simp
    moreover have "bits + t * length (d # ds) = 8 * length bs + r" using IH(3) by (simp add: n_def)
    ultimately show ?thesis using IH(2,4-6) unfolding total m by blast
  next
    case True
    define b where "b = n - 8"
    define y where "y = unat (drop_bit b ch) mod 256"
    have nb: "n = b + 8" and b8: "b < 8" using True n(2) by (simp_all add: b_def)
    have y: "m = y * 2 ^ b + unat ch mod 2 ^ b"
    proof -
      have "unat ch mod 2 ^ n = 2 ^ b * (unat ch div 2 ^ b mod 2 ^ 8) + unat ch mod 2 ^ b"
        unfolding nb power_add by (rule mod_mult2_eq)
      then show ?thesis using m by (simp add: y_def unat_drop_bit_div)
    qed
    obtain bs r c x where IH: "dec_loop t (map ((!) (emap t)) ds) (ch XOR push_bit b 0xff) b err
        = (map char_of bs @ (if r \<noteq> 0 then [x] else []), err)" "\<forall>y \<in> set bs. y < 256"
      "b + t * length ds = 8 * length bs + r" "r < 8" "c < 2 ^ r"
      "unat (ch XOR push_bit b 0xff) mod 2 ^ b * (2 ^ t) ^ length ds + val (2 ^ t) ds
        = val 256 bs * 2 ^ r + c"
      using Cons.IH [OF ds b8, of "ch XOR push_bit b 0xff"] by blast
    have low: "unat (ch XOR push_bit b 0xff) mod 2 ^ b = unat ch mod 2 ^ b"
      unfolding unat_take_bit_mod [symmetric] byte_flip_low ..
    have e: "dec_loop t (map ((!) (emap t)) (d # ds)) chunk bits err
        = (map char_of (y # bs) @ (if r \<noteq> 0 then [x] else []), err)"
      unfolding step using True IH(1) by (simp add: b_def [symmetric] y_def)
    have len: "bits + t * length (d # ds) = 8 * length (y # bs) + r"
      using IH(3) nb by (simp add: n_def)
    have pw: "2 ^ b * (2 ^ t) ^ length ds = 256 ^ length bs * (2::nat) ^ r"
    proof -
      have "(2::nat) ^ b * (2 ^ t) ^ length ds = 2 ^ (b + t * length ds)"
        by (simp add: power_add power_mult)
      also have "\<dots> = (2 ^ 8) ^ length bs * 2 ^ r" unfolding IH(3) by (simp only: power_add power_mult)
      finally show ?thesis by simp
    qed
    have "m * (2 ^ t) ^ length ds + val (2 ^ t) ds
        = y * (2 ^ b * (2 ^ t) ^ length ds) + (val 256 bs * 2 ^ r + c)"
      unfolding y using IH(6) low by (simp add: algebra_simps)
    also have "\<dots> = val 256 (y # bs) * 2 ^ r + c"
      unfolding pw by (simp add: algebra_simps)
    finally have v: "m * (2 ^ t) ^ length ds + val (2 ^ t) ds = val 256 (y # bs) * 2 ^ r + c" .
    have "\<forall>z \<in> set (y # bs). z < 256" using IH(2) by (simp add: y_def)
    then show ?thesis using e len IH(4,5) v unfolding total by blast
  qed
qed

section \<open>The tables fit together\<close>

lemma emap_dmap:
  assumes "0 < t" "t \<le> 6" "d < 2 ^ t"
  shows "dmap t (emap t ! d) = int d"
proof -
  have "\<forall>d \<in> set [0..<64]. base64_dmap ! uchar (base64_emap ! d) = int d"
    by code_simp
  moreover have "\<forall>d \<in> set [0..<32]. base_dmap ! uchar (base_emap ! d) = int d"
    by code_simp
  moreover have "d < 32" if "t \<noteq> 6"
  proof -
    have "(2::nat) ^ t \<le> 2 ^ 5" using that assms(2) by (intro power_increasing) auto
    then show ?thesis using assms(3) by simp
  qed
  ultimately show ?thesis using assms(3)
    by (cases "t = 6") (auto simp: dmap_def emap_def BASE64_ENCODING_def)
qed

lemma base_roundtrip:
  assumes t: "0 < t" "t \<le> 6"
  shows "\<exists>rest. str_base_decode t (str_base_encode t xs) = (xs @ rest, False)
    \<and> length rest = (if t dvd 8 * length xs then 0 else 1)"
proof -
  obtain ds p where e: "str_base_encode t xs = map ((!) (emap t)) ds" "\<forall>d \<in> set ds. d < 2 ^ t"
    "p < t" "t * length ds = 8 * length xs + p" "val (2 ^ t) ds = val 256 (map uchar xs) * 2 ^ p"
    using enc_loop_value [OF t, of 0 0 xs] t by (auto simp: str_base_encode_def)
  have ds: "\<forall>d \<in> set ds. d < 2 ^ t \<and> dmap t (emap t ! d) = int d"
    using e(2) emap_dmap [OF t] by blast
  obtain bs r c x where d: "str_base_decode t (map ((!) (emap t)) ds)
      = (map char_of bs @ (if r \<noteq> 0 then [x] else []), False)" "\<forall>y \<in> set bs. y < 256"
    "t * length ds = 8 * length bs + r" "r < 8" "c < 2 ^ r"
    "val (2 ^ t) ds = val 256 bs * 2 ^ r + c"
    using dec_loop_value [OF t ds, of 0 0 False] unfolding str_base_decode_def by auto
  have len: "length bs = length xs" using d(3,4) e(3,4) t by linarith
  then have r: "r = p" using d(3) e(4) by simp
  have "val 256 bs * 2 ^ p + c = val 256 (map uchar xs) * 2 ^ p" using d(6) e(5) r by simp
  then have "(val 256 bs * 2 ^ p + c) div 2 ^ p = val 256 (map uchar xs)" by simp
  then have "val 256 bs = val 256 (map uchar xs)" using d(5) r by simp
  then have "bs = map uchar xs" using val_inj [of bs "map uchar xs" 256] len d(2) by simp
  then have "map char_of bs = xs" by (simp add: o_def)
  moreover have "t dvd 8 * length xs \<longleftrightarrow> p = 0"
  proof
    assume "t dvd 8 * length xs"
    then have "t dvd p" using e(4) by (metis dvd_add_right_iff dvd_triv_left)
    then show "p = 0" using e(3) by (auto dest: dvd_imp_le)
  next
    assume "p = 0"
    then show "t dvd 8 * length xs" using e(4) by (metis add_0_right dvd_triv_left)
  qed
  ultimately show ?thesis using e(1) d(1) r by simp
qed

section \<open>Properties\<close>

text \<open>C40: decoding an encoded byte string gives the string back, without an error, in every
  base; when the bits do not come out even the decoder adds one byte that was not encoded.\<close>

theorem base_decode_encode:
  assumes "0 < t" "t \<le> 6"
  shows "\<exists>rest. str_base_decode t (str_base_encode t xs) = (xs @ rest, False)
    \<and> length rest = (if t dvd 8 * length xs then 0 else 1)"
  by (rule base_roundtrip [OF assms])

theorem base_decode_encode_witness:
  "\<exists>x. str_base_decode 6 (str_base_encode 6 ''ab'') = (''ab'' @ [x], False)"
proof -
  obtain rest where "str_base_decode 6 (str_base_encode 6 ''ab'') = (''ab'' @ rest, False)"
    "length rest = 1"
    using base_decode_encode [of 6 "''ab''"] by auto
  then show ?thesis by (auto simp: length_Suc_conv)
qed

text \<open>The byte 255 is not skipped by the decoder: in every base it counts as the digit zero,
  since the decoding tables have only 255 initialisers.\<close>

theorem base_decode_byte_255:
  assumes "t \<le> 6"
  shows "dec_loop t (char_of (255::nat) # src) chunk bits err = dec_loop t (hd (emap t) # src) chunk bits err"
proof -
  have "dmap t (char_of (255::nat)) = 0" "dmap t (hd (emap t)) = 0"
    by (simp_all add: dmap_def emap_def base_dmap_def base64_dmap_def base_emap_def base64_emap_def
        uchar_def)
  then show ?thesis by simp
qed

theorem base_decode_byte_255_witness:
  "str_base_decode 4 ''a'' = str_base_decode 4 ''a'' \<and>
   dec_loop 4 [char_of (255::nat)] 0 0 False = dec_loop 4 ''0'' 0 0 False"
  using base_decode_byte_255 [of 4 "[]" 0 0 False] by (simp add: emap_def base_emap_def BASE64_ENCODING_def)

end
