(* ===== verification/Md5.thy ===== *)
theory Md5
  imports Prelude
begin

text \<open>
  The message digest of \<^verbatim>\<open>source/md5.c\<close>. Bytes are 8-bit words, the context is a record
  of the state registers, the two halves of the bit count and the 64-byte buffer. The macros
  \<^verbatim>\<open>FF\<close> to \<^verbatim>\<open>II\<close> are \<open>step\<close> with the round's function; four of them with
  the registers rotating make one \<open>quad\<close>. Input lengths are those of a C
  \<^verbatim>\<open>unsigned int\<close> not within 63 of its maximum, where \<^verbatim>\<open>i + 63\<close> would wrap.
\<close>

unbundle bit_operations_syntax

section \<open>The code\<close>

type_synonym regs = "u32 \<times> u32 \<times> u32 \<times> u32"

record md5_ctx =
  md_state :: regs
  md_count :: "u32 \<times> u32"
  md_buffer :: "u8 list"

definition encode_word :: "u32 \<Rightarrow> u8 list" where
  "encode_word w = [ucast (w AND 0xff), ucast (drop_bit 8 w AND 0xff),
     ucast (drop_bit 16 w AND 0xff), ucast (drop_bit 24 w AND 0xff)]"

definition md5_encode :: "u32 list \<Rightarrow> u8 list" where
  "md5_encode ws = concat (map encode_word ws)"

fun md5_decode :: "u8 list \<Rightarrow> u32 list" where
  "md5_decode (b0 # b1 # b2 # b3 # bs) =
     (ucast b0 OR push_bit 8 (ucast b1) OR push_bit 16 (ucast b2) OR push_bit 24 (ucast b3))
       # md5_decode bs"
| "md5_decode _ = []"

definition PADDING :: "u8 list" where
  "PADDING = 0x80 # replicate 63 0"

definition fun_F :: "u32 \<Rightarrow> u32 \<Rightarrow> u32 \<Rightarrow> u32" where "fun_F x y z = (x AND y) OR (NOT x AND z)"
definition fun_G :: "u32 \<Rightarrow> u32 \<Rightarrow> u32 \<Rightarrow> u32" where "fun_G x y z = (x AND z) OR (y AND NOT z)"
definition fun_H :: "u32 \<Rightarrow> u32 \<Rightarrow> u32 \<Rightarrow> u32" where "fun_H x y z = x XOR y XOR z"
definition fun_I :: "u32 \<Rightarrow> u32 \<Rightarrow> u32 \<Rightarrow> u32" where "fun_I x y z = y XOR (x OR NOT z)"

definition ROTATE_LEFT :: "u32 \<Rightarrow> nat \<Rightarrow> u32" where
  "ROTATE_LEFT x n = push_bit n x OR drop_bit (32 - n) x"

definition step :: "(u32 \<Rightarrow> u32 \<Rightarrow> u32 \<Rightarrow> u32) \<Rightarrow> u32 \<Rightarrow> u32 \<Rightarrow> u32 \<Rightarrow> u32 \<Rightarrow> u32 \<Rightarrow> nat \<Rightarrow> u32 \<Rightarrow> u32" where
  "step f a b c d x s ac = ROTATE_LEFT (a + (f b c d + x + ac)) s + b"

type_synonym shifts = "nat \<times> nat \<times> nat \<times> nat"

definition S1 :: shifts where "S1 = (7, 12, 17, 22)"
definition S2 :: shifts where "S2 = (5, 9, 14, 20)"
definition S3 :: shifts where "S3 = (4, 11, 16, 23)"
definition S4 :: shifts where "S4 = (6, 10, 15, 21)"

definition quad ::
  "(u32 \<Rightarrow> u32 \<Rightarrow> u32 \<Rightarrow> u32) \<Rightarrow> shifts \<Rightarrow> u32 \<times> u32 \<Rightarrow> u32 \<times> u32 \<Rightarrow> u32 \<times> u32 \<Rightarrow> u32 \<times> u32 \<Rightarrow> regs \<Rightarrow> regs"
where
  "quad f sh xk0 xk1 xk2 xk3 s =
     (case (s, sh) of ((a, b, c, d), (s1, s2, s3, s4)) \<Rightarrow>
        let a = step f a b c d (fst xk0) s1 (snd xk0);
            d = step f d a b c (fst xk1) s2 (snd xk1);
            c = step f c d a b (fst xk2) s3 (snd xk2);
            b = step f b c d a (fst xk3) s4 (snd xk3)
        in (a, b, c, d))"

definition md5_transform :: "regs \<Rightarrow> u8 list \<Rightarrow> regs" where
  "md5_transform state block =
     (let x = md5_decode block;
        s = state;
        s = quad fun_F S1 (x ! 0, 0xd76aa478) (x ! 1, 0xe8c7b756) (x ! 2, 0x242070db) (x ! 3, 0xc1bdceee) s;
        s = quad fun_F S1 (x ! 4, 0xf57c0faf) (x ! 5, 0x4787c62a) (x ! 6, 0xa8304613) (x ! 7, 0xfd469501) s;
        s = quad fun_F S1 (x ! 8, 0x698098d8) (x ! 9, 0x8b44f7af) (x ! 10, 0xffff5bb1) (x ! 11, 0x895cd7be) s;
        s = quad fun_F S1 (x ! 12, 0x6b901122) (x ! 13, 0xfd987193) (x ! 14, 0xa679438e) (x ! 15, 0x49b40821) s;
        s = quad fun_G S2 (x ! 1, 0xf61e2562) (x ! 6, 0xc040b340) (x ! 11, 0x265e5a51) (x ! 0, 0xe9b6c7aa) s;
        s = quad fun_G S2 (x ! 5, 0xd62f105d) (x ! 10, 0x2441453) (x ! 15, 0xd8a1e681) (x ! 4, 0xe7d3fbc8) s;
        s = quad fun_G S2 (x ! 9, 0x21e1cde6) (x ! 14, 0xc33707d6) (x ! 3, 0xf4d50d87) (x ! 8, 0x455a14ed) s;
        s = quad fun_G S2 (x ! 13, 0xa9e3e905) (x ! 2, 0xfcefa3f8) (x ! 7, 0x676f02d9) (x ! 12, 0x8d2a4c8a) s;
        s = quad fun_H S3 (x ! 5, 0xfffa3942) (x ! 8, 0x8771f681) (x ! 11, 0x6d9d6122) (x ! 14, 0xfde5380c) s;
        s = quad fun_H S3 (x ! 1, 0xa4beea44) (x ! 4, 0x4bdecfa9) (x ! 7, 0xf6bb4b60) (x ! 10, 0xbebfbc70) s;
        s = quad fun_H S3 (x ! 13, 0x289b7ec6) (x ! 0, 0xeaa127fa) (x ! 3, 0xd4ef3085) (x ! 6, 0x4881d05) s;
        s = quad fun_H S3 (x ! 9, 0xd9d4d039) (x ! 12, 0xe6db99e5) (x ! 15, 0x1fa27cf8) (x ! 2, 0xc4ac5665) s;
        s = quad fun_I S4 (x ! 0, 0xf4292244) (x ! 7, 0x432aff97) (x ! 14, 0xab9423a7) (x ! 5, 0xfc93a039) s;
        s = quad fun_I S4 (x ! 12, 0x655b59c3) (x ! 3, 0x8f0ccc92) (x ! 10, 0xffeff47d) (x ! 1, 0x85845dd1) s;
        s = quad fun_I S4 (x ! 8, 0x6fa87e4f) (x ! 15, 0xfe2ce6e0) (x ! 6, 0xa3014314) (x ! 13, 0x4e0811a1) s;
        s = quad fun_I S4 (x ! 4, 0xf7537e82) (x ! 11, 0xbd3af235) (x ! 2, 0x2ad7d2bb) (x ! 9, 0xeb86d391) s
      in (case (state, s) of ((s0, s1, s2, s3), (a, b, c, d)) \<Rightarrow>
            (s0 + a, s1 + b, s2 + c, s3 + d)))"

definition md5_init :: "u8 list \<Rightarrow> md5_ctx" where
  "md5_init buf =
     \<lparr>md_state = (0x67452301, 0xefcdab89, 0x98badcfe, 0x10325476), md_count = (0, 0),
      md_buffer = buf\<rparr>"

definition blit :: "'a list \<Rightarrow> nat \<Rightarrow> 'a list \<Rightarrow> 'a list" where
  "blit b i xs = take i b @ xs @ drop (i + length xs) b"

function md5_blocks :: "regs \<Rightarrow> u8 list \<Rightarrow> nat \<Rightarrow> regs \<times> nat" where
  "md5_blocks st input i =
     (if i + 63 < length input
      then md5_blocks (md5_transform st (take 64 (drop i input))) input (i + 64)
      else (st, i))"
  by pat_completeness auto
termination by (relation "measure (\<lambda>(st, input, i). length input - i)") auto

declare md5_blocks.simps [simp del]

definition add_count :: "u32 \<times> u32 \<Rightarrow> u32 \<Rightarrow> u32 \<times> u32" where
  "add_count cnt len =
     (let c0 = fst cnt + push_bit 3 len;
          c1 = (if c0 < push_bit 3 len then snd cnt + 1 else snd cnt)
      in (c0, c1 + drop_bit 29 len))"

definition md5_update :: "md5_ctx \<Rightarrow> u8 list \<Rightarrow> md5_ctx" where
  "md5_update context input =
     (let idx = unat (drop_bit 3 (fst (md_count context)) AND 0x3F);
          cnt = add_count (md_count context) (of_nat (length input));
          partLen = 64 - idx
      in if partLen \<le> length input then
           (let buf = blit (md_buffer context) idx (take partLen input);
                (st, i) = md5_blocks (md5_transform (md_state context) buf) input partLen
            in \<lparr>md_state = st, md_count = cnt, md_buffer = blit buf 0 (drop i input)\<rparr>)
         else
           \<lparr>md_state = md_state context, md_count = cnt,
            md_buffer = blit (md_buffer context) idx input\<rparr>)"

definition md5_pad :: "md5_ctx \<Rightarrow> md5_ctx" where
  "md5_pad context =
     (let bits = md5_encode [fst (md_count context), snd (md_count context)];
          idx = unat (drop_bit 3 (fst (md_count context)) AND 0x3f);
          padLen = (if idx < 56 then 56 - idx else 120 - idx)
      in md5_update (md5_update context (take padLen PADDING)) bits)"

definition md5_final :: "md5_ctx \<Rightarrow> u8 list \<times> md5_ctx" where
  "md5_final context =
     (case md_state (md5_pad context) of (a, b, c, d) \<Rightarrow>
        (md5_encode [a, b, c, d],
         \<lparr>md_state = (0, 0, 0, 0), md_count = (0, 0), md_buffer = replicate 64 0\<rparr>))"

definition hex_digits :: cstring where
  "hex_digits = ''0123456789abcdef''"

definition md5_end :: "md5_ctx \<Rightarrow> cstring" where
  "md5_end ctx =
     concat (map (\<lambda>b. [hex_digits ! unat (drop_bit 4 b), hex_digits ! unat (b AND 0x0f)])
       (fst (md5_final ctx)))"

text \<open>
  The file is the list of the chunks that \<^verbatim>\<open>read\<close> delivers; \<open>None\<close> is a failing read or
  open. The contents of the uninitialised context buffer are the parameter \<open>buf\<close>.
\<close>

primrec read_loop :: "md5_ctx \<Rightarrow> u8 list option list \<Rightarrow> md5_ctx option" where
  "read_loop ctx [] = Some ctx"
| "read_loop ctx (r # rs) =
     (case r of None \<Rightarrow> None
      | Some chunk \<Rightarrow> if chunk = [] then Some ctx else read_loop (md5_update ctx chunk) rs)"

definition md5_file :: "u8 list \<Rightarrow> u8 list option list option \<Rightarrow> cstring option" where
  "md5_file buf file =
     (case file of None \<Rightarrow> None
      | Some reads \<Rightarrow> map_option md5_end (read_loop (md5_init buf) reads))"

definition md5_data :: "u8 list \<Rightarrow> u8 list \<Rightarrow> cstring" where
  "md5_data buf data = md5_end (md5_update (md5_init buf) data)"

section \<open>The reference\<close>

text \<open>The step function of the standard, driven by tables.\<close>

definition K_table :: "u32 list" where
  "K_table =
     [0xd76aa478, 0xe8c7b756, 0x242070db, 0xc1bdceee,
      0xf57c0faf, 0x4787c62a, 0xa8304613, 0xfd469501,
      0x698098d8, 0x8b44f7af, 0xffff5bb1, 0x895cd7be,
      0x6b901122, 0xfd987193, 0xa679438e, 0x49b40821,
      0xf61e2562, 0xc040b340, 0x265e5a51, 0xe9b6c7aa,
      0xd62f105d, 0x2441453, 0xd8a1e681, 0xe7d3fbc8,
      0x21e1cde6, 0xc33707d6, 0xf4d50d87, 0x455a14ed,
      0xa9e3e905, 0xfcefa3f8, 0x676f02d9, 0x8d2a4c8a,
      0xfffa3942, 0x8771f681, 0x6d9d6122, 0xfde5380c,
      0xa4beea44, 0x4bdecfa9, 0xf6bb4b60, 0xbebfbc70,
      0x289b7ec6, 0xeaa127fa, 0xd4ef3085, 0x4881d05,
      0xd9d4d039, 0xe6db99e5, 0x1fa27cf8, 0xc4ac5665,
      0xf4292244, 0x432aff97, 0xab9423a7, 0xfc93a039,
      0x655b59c3, 0x8f0ccc92, 0xffeff47d, 0x85845dd1,
      0x6fa87e4f, 0xfe2ce6e0, 0xa3014314, 0x4e0811a1,
      0xf7537e82, 0xbd3af235, 0x2ad7d2bb, 0xeb86d391]"

definition ref_fun :: "nat \<Rightarrow> u32 \<Rightarrow> u32 \<Rightarrow> u32 \<Rightarrow> u32" where
  "ref_fun i = (if i < 16 then fun_F else if i < 32 then fun_G else if i < 48 then fun_H else fun_I)"

definition ref_index :: "nat \<Rightarrow> nat" where
  "ref_index i = (if i < 16 then i else if i < 32 then (5 * i + 1) mod 16
     else if i < 48 then (3 * i + 5) mod 16 else 7 * i mod 16)"

definition ref_shift :: "nat \<Rightarrow> nat" where
  "ref_shift i =
     (if i < 16 then [7, 12, 17, 22] else if i < 32 then [5, 9, 14, 20]
      else if i < 48 then [4, 11, 16, 23] else [6, 10, 15, 21]) ! (i mod 4)"

definition ref_step :: "u32 list \<Rightarrow> regs \<Rightarrow> nat \<Rightarrow> regs" where
  "ref_step x s i =
     (case s of (a, b, c, d) \<Rightarrow>
        (d, b + ROTATE_LEFT (a + ref_fun i b c d + x ! ref_index i + K_table ! i) (ref_shift i), b, c))"

definition ref_transform :: "regs \<Rightarrow> u8 list \<Rightarrow> regs" where
  "ref_transform state block =
     (case (state, foldl (ref_step (md5_decode block)) state [0..<64]) of
        ((s0, s1, s2, s3), (a, b, c, d)) \<Rightarrow> (s0 + a, s1 + b, s2 + c, s3 + d))"

fun ref_blocks :: "regs \<Rightarrow> u8 list \<Rightarrow> regs" where
  "ref_blocks s m = (if length m < 64 then s else ref_blocks (ref_transform s (take 64 m)) (drop 64 m))"

declare ref_blocks.simps [simp del]

definition pad_zeros :: "nat \<Rightarrow> nat" where
  "pad_zeros n = (if n mod 64 < 56 then 55 - n mod 64 else 119 - n mod 64)"

definition ref_digest :: "u8 list \<Rightarrow> u8 list" where
  "ref_digest m =
     (let bits = of_nat (8 * length m) :: u64;
          padded = m @ 0x80 # replicate (pad_zeros (length m)) 0
            @ md5_encode [ucast bits, ucast (drop_bit 32 bits)]
      in case ref_blocks (0x67452301, 0xefcdab89, 0x98badcfe, 0x10325476) padded of
           (a, b, c, d) \<Rightarrow> md5_encode [a, b, c, d])"

section \<open>The transform\<close>

definition ref_shifts :: "nat \<Rightarrow> shifts" where
  "ref_shifts i = (if i < 16 then S1 else if i < 32 then S2 else if i < 48 then S3 else S4)"

lemma ref_step_step:
  "ref_step x (a, b, c, d) i =
     (d, step (ref_fun i) a b c d (x ! ref_index i) (ref_shift i) (K_table ! i), b, c)"
  unfolding ref_step_def step_def prod.case
  by (simp only: add.assoc add.commute [of b])

lemma ref_group:
  assumes "ref_fun (i + 1) = ref_fun i" "ref_fun (i + 2) = ref_fun i" "ref_fun (i + 3) = ref_fun i"
    and "ref_shifts i = (ref_shift i, ref_shift (i + 1), ref_shift (i + 2), ref_shift (i + 3))"
  shows "foldl (ref_step x) s [i, i + 1, i + 2, i + 3] =
    quad (ref_fun i) (ref_shifts i) (x ! ref_index i, K_table ! i)
      (x ! ref_index (i + 1), K_table ! (i + 1)) (x ! ref_index (i + 2), K_table ! (i + 2))
      (x ! ref_index (i + 3), K_table ! (i + 3)) s"
proof -
  obtain a b c d where s: "s = (a, b, c, d)" by (cases s) auto
  show ?thesis
    unfolding s assms(4) quad_def prod.case foldl.simps ref_step_step assms(1-3) fst_conv snd_conv
    by (simp only: Let_def)
qed

lemma ref_group_at:
  assumes "i = 4 * k"
  shows "foldl (ref_step x) s [i, i + 1, i + 2, i + 3] =
    quad (ref_fun i) (ref_shifts i) (x ! ref_index i, K_table ! i)
      (x ! ref_index (i + 1), K_table ! (i + 1)) (x ! ref_index (i + 2), K_table ! (i + 2))
      (x ! ref_index (i + 3), K_table ! (i + 3)) s"
proof -
  have m: "4 * k mod 4 = 0" "(4 * k + 1) mod 4 = 1" "(4 * k + 2) mod 4 = 2" "(4 * k + 3) mod 4 = 3"
    by presburger+
  consider "k < 4" | "4 \<le> k" "k < 8" | "8 \<le> k" "k < 12" | "12 \<le> k" by linarith
  then show ?thesis
  proof cases
    case 1
    then show ?thesis unfolding assms
      by (intro ref_group) (simp_all add: ref_fun_def ref_shift_def ref_shifts_def S1_def m del: add_2_eq_Suc')
  next
    case 2
    then show ?thesis unfolding assms
      by (intro ref_group) (simp_all add: ref_fun_def ref_shift_def ref_shifts_def S2_def m del: add_2_eq_Suc')
  next
    case 3
    then show ?thesis unfolding assms
      by (intro ref_group) (simp_all add: ref_fun_def ref_shift_def ref_shifts_def S3_def m del: add_2_eq_Suc')
  next
    case 4
    then show ?thesis unfolding assms
      by (intro ref_group) (simp_all add: ref_fun_def ref_shift_def ref_shifts_def S4_def m del: add_2_eq_Suc')
  qed
qed

lemma upto_64: "[0..<64] = concat (map (\<lambda>k. [4 * k, 4 * k + 1, 4 * k + 2, 4 * k + 3])
    [0, 1, 2, 3, 4, 5, 6, 7, 8, 9, 10, 11, 12, 13, 14, 15])"
  by (simp add: upt_rec)

lemmas ref_tables = ref_fun_def ref_index_def ref_shifts_def K_table_def

lemma transform_ref: "md5_transform s block = ref_transform s block"
proof -
  have "md5_transform s block =
      (case (s, foldl (ref_step (md5_decode block)) s [0..<64]) of
        ((s0, s1, s2, s3), (a, b, c, d)) \<Rightarrow> (s0 + a, s1 + b, s2 + c, s3 + d))"
    unfolding upto_64 concat.simps list.map foldl_append ref_group_at [OF refl]
    by (cases s) (simp add: ref_tables md5_transform_def Let_def del: add_2_eq_Suc')
  then show ?thesis by (simp only: ref_transform_def)
qed

section \<open>Blocks\<close>

lemma ref_blocks_short: "length m < 64 \<Longrightarrow> ref_blocks s m = s"
  by (simp add: ref_blocks.simps)

lemma ref_blocks_cons:
  "length b = 64 \<Longrightarrow> ref_blocks s (b @ m) = ref_blocks (ref_transform s b) m"
  by (subst ref_blocks.simps) simp

lemma ref_blocks_append:
  "64 dvd length p \<Longrightarrow> ref_blocks s (p @ q) = ref_blocks (ref_blocks s p) q"
proof (induction s p rule: ref_blocks.induct)
  case (1 s p)
  show ?case
  proof (cases "length p < 64")
    case True
    then have "p = []" using 1(2) by (auto dest: dvd_imp_le)
    then show ?thesis by (simp add: ref_blocks_short)
  next
    case False
    have "64 dvd length (drop 64 p)" using 1(2) False by (simp add: dvd_minus_self)
    note IH = 1(1) [OF False this]
    have "ref_blocks s ((take 64 p @ drop 64 p) @ q) = ref_blocks (ref_transform s (take 64 p)) (drop 64 p @ q)"
      using False unfolding append_assoc by (intro ref_blocks_cons) simp
    moreover have "ref_blocks s (take 64 p @ drop 64 p) = ref_blocks (ref_transform s (take 64 p)) (drop 64 p)"
      using False by (intro ref_blocks_cons) simp
    ultimately show ?thesis using IH by simp
  qed
qed

lemma ref_blocks_tail:
  "64 dvd length p \<Longrightarrow> length q < 64 \<Longrightarrow> ref_blocks s (p @ q) = ref_blocks s p"
  by (simp add: ref_blocks_append ref_blocks_short)

lemma md5_blocks_ref:
  "i \<le> length input \<Longrightarrow> \<exists>j. md5_blocks s input i = (ref_blocks s (drop i input), j) \<and> i \<le> j \<and> j \<le> length input
     \<and> length input - j < 64 \<and> 64 dvd j - i"
proof (induction s input i rule: md5_blocks.induct)
  case (1 s input i)
  show ?case
  proof (cases "i + 63 < length input")
    case True
    then obtain j where j: "md5_blocks (md5_transform s (take 64 (drop i input))) input (i + 64) =
        (ref_blocks (md5_transform s (take 64 (drop i input))) (drop (i + 64) input), j)"
      "i + 64 \<le> j" "j \<le> length input" "length input - j < 64" "64 dvd j - (i + 64)"
      using 1 by auto
    have "ref_blocks s (take 64 (drop i input) @ drop 64 (drop i input))
        = ref_blocks (ref_transform s (take 64 (drop i input))) (drop 64 (drop i input))"
      using True by (intro ref_blocks_cons) simp
    moreover have "drop 64 (drop i input) = drop (i + 64) input" by (simp add: add.commute)
    ultimately have r: "ref_blocks (md5_transform s (take 64 (drop i input))) (drop (i + 64) input)
        = ref_blocks s (drop i input)"
      unfolding append_take_drop_id transform_ref by simp
    have "md5_blocks s input i = (ref_blocks s (drop i input), j)"
      using True j(1) r by (subst md5_blocks.simps) simp
    moreover have "64 dvd j - i"
      using j(2,5) dvd_minus_self [of 64 "j - i"] by auto
    ultimately show ?thesis using j(2-4) by auto
  next
    case False
    then have "md5_blocks s input i = (s, i)" by (subst md5_blocks.simps) simp
    then show ?thesis using False 1(2) by (auto simp: ref_blocks_short)
  qed
qed

section \<open>The context represents the message so far\<close>

definition md5_iv :: regs where
  "md5_iv = (0x67452301, 0xefcdab89, 0x98badcfe, 0x10325476)"

definition md5_repr :: "md5_ctx \<Rightarrow> u8 list \<Rightarrow> bool" where
  "md5_repr ctx m \<longleftrightarrow>
     md_state ctx = ref_blocks md5_iv m
     \<and> md_count ctx = (of_nat (8 * length m), of_nat (8 * length m div 2 ^ 32))
     \<and> length (md_buffer ctx) = 64
     \<and> take (length m mod 64) (md_buffer ctx) = drop (64 * (length m div 64)) m"

lemma md5_repr_init: "length buf = 64 \<Longrightarrow> md5_repr (md5_init buf) []"
  by (simp add: md5_repr_def md5_init_def md5_iv_def ref_blocks_short)

lemma div_add_carry: "(a + b) div M = a div M + b div M + (if M \<le> a mod M + b mod M then 1 else 0)"
  if "0 < M" for a b M :: nat
proof -
  have "(x + y) div M = (if M \<le> x + y then 1 else 0)" if "x < M" "y < M" for x y
    using that by (auto simp: le_div_geq)
  then show ?thesis using that by (simp add: div_add1_eq [of a b])
qed

lemma mod_add_carry: "(a + b) mod M < b mod M \<longleftrightarrow> M \<le> a mod M + b mod M" if "0 < M" for a b M :: nat
proof -
  have "(x + y) mod M < y \<longleftrightarrow> M \<le> x + y" if "x < M" "y < M" for x y
    using that by (auto simp: mod_if)
  then have "(a mod M + b mod M) mod M < b mod M \<longleftrightarrow> M \<le> a mod M + b mod M"
    using that by simp
  then show ?thesis by (simp only: mod_add_eq)
qed

lemma add_count_ok:
  assumes "l < 2 ^ 32"
  shows "add_count (of_nat (8 * n), of_nat (8 * n div 2 ^ 32)) (of_nat l)
    = (of_nat (8 * (n + l)), of_nat (8 * (n + l) div 2 ^ 32))"
proof -
  define A where "A = 8 * n"
  define B where "B = 8 * l"
  have AB: "8 * (n + l) = A + B" by (simp add: A_def B_def)
  have push: "push_bit 3 (of_nat l :: u32) = of_nat B"
    by (simp add: push_bit_eq_mult B_def mult.commute)
  have "unat (drop_bit 29 (of_nat l :: u32)) = B div 2 ^ 32"
    using assms by (simp add: unat_drop_bit_div unat_of_nat B_def del: drop_bit_eq_div)
  then have "of_nat (unat (drop_bit 29 (of_nat l :: u32))) = (of_nat (B div 2 ^ 32) :: u32)"
    by (simp only:)
  then have drop: "drop_bit 29 (of_nat l :: u32) = of_nat (B div 2 ^ 32)" by simp
  have carry: "(of_nat (A + B) :: u32) < of_nat B \<longleftrightarrow> 2 ^ 32 \<le> A mod 2 ^ 32 + B mod 2 ^ 32"
    using mod_add_carry [of "2 ^ 32" A B] by (simp add: word_less_nat_alt unat_of_nat del: of_nat_add)
  have hi: "(A + B) div 2 ^ 32 = A div 2 ^ 32 + B div 2 ^ 32
      + (if 2 ^ 32 \<le> A mod 2 ^ 32 + B mod 2 ^ 32 then 1 else 0)"
    by (rule div_add_carry) simp
  show ?thesis
    unfolding AB add_count_def Let_def fst_conv snd_conv push drop A_def [symmetric] hi
    using carry by (auto simp: algebra_simps)
qed

lemma blit_length: "i + length xs \<le> length b \<Longrightarrow> length (blit b i xs) = length b"
  by (simp add: blit_def)

lemma blit_take:
  "i + length xs \<le> length b \<Longrightarrow> take (i + length xs) (blit b i xs) = take i b @ xs"
  by (simp add: blit_def)

lemma md5_repr_idx:
  "md5_repr ctx m \<Longrightarrow> unat (drop_bit 3 (fst (md_count ctx)) AND 0x3F) = length m mod 64"
proof -
  assume r: "md5_repr ctx m"
  have "(0x3F :: u32) = mask 6" by (simp add: mask_eq_exp_minus_1)
  then have "unat (drop_bit 3 (of_nat (8 * length m) :: u32) AND 0x3F)
      = 8 * length m mod 2 ^ 32 div 2 ^ 3 mod 2 ^ 6"
    by (simp only: take_bit_eq_mask [symmetric] unat_take_bit_mod unat_drop_bit_div unat_of_nat) simp
  also have "\<dots> = length m mod 64"
  proof -
    have "8 * length m mod 2 ^ 32 = 8 * (length m mod 2 ^ 29)"
      using mult_mod_right [of 8 "length m" "2 ^ 29"] by simp
    then show ?thesis by (simp add: mod_mod_cancel)
  qed
  finally show ?thesis using r by (simp add: md5_repr_def)
qed

lemma md5_repr_blocks:
  "length m mod 64 = r \<Longrightarrow> ref_blocks s m = ref_blocks s (take (length m - r) m)"
  for m :: "u8 list"
proof -
  assume r: "length m mod 64 = r"
  have "64 dvd length (take (length m - r) m)"
    using r by (simp add: minus_mod_eq_mult_div [symmetric] flip: r)
  moreover have "length (drop (length m - r) m) < 64" using r by simp
  ultimately show ?thesis using ref_blocks_tail by (metis append_take_drop_id)
qed

lemma md5_update_repr:
  assumes r: "md5_repr ctx m" and len: "length input < 2 ^ 32 - 63"
  shows "md5_repr (md5_update ctx input) (m @ input)"
proof -
  define idx where "idx = length m mod 64"
  define q where "q = 64 * (length m div 64)"
  have idx: "unat (drop_bit 3 (fst (md_count ctx)) AND 0x3F) = idx"
    using md5_repr_idx [OF r] by (simp add: idx_def)
  have q: "length m = q + idx" "64 dvd q" "idx < 64" by (simp_all add: q_def idx_def)
  have buf: "length (md_buffer ctx) = 64" "take idx (md_buffer ctx) = drop q m"
    using r by (simp_all add: md5_repr_def idx_def q_def)
  have cnt: "add_count (md_count ctx) (of_nat (length input))
      = (of_nat (8 * length (m @ input)), of_nat (8 * length (m @ input) div 2 ^ 32))"
    using r len add_count_ok [of "length input" "length m"] by (simp add: md5_repr_def)
  have st: "md_state ctx = ref_blocks md5_iv (take q m)"
  proof -
    have "ref_blocks md5_iv (take q m @ drop q m) = ref_blocks md5_iv (take q m)"
      using q by (intro ref_blocks_tail) simp_all
    then show ?thesis using r by (simp add: md5_repr_def)
  qed
  show ?thesis
  proof (cases "64 - idx \<le> length input")
    case False
    then have l: "idx + length input < 64" using q(3) by simp
    have md: "length (m @ input) mod 64 = idx + length input"
      "64 * (length (m @ input) div 64) = q"
      using q l by (auto simp: dvd_def add.assoc)
    have up: "md5_update ctx input = \<lparr>md_state = md_state ctx,
        md_count = add_count (md_count ctx) (of_nat (length input)),
        md_buffer = blit (md_buffer ctx) idx input\<rparr>"
      using False idx by (simp add: md5_update_def Let_def)
    have "ref_blocks md5_iv (take q m @ (drop q m @ input)) = ref_blocks md5_iv (take q m)"
      using q l by (intro ref_blocks_tail) simp_all
    then have "md_state ctx = ref_blocks md5_iv (m @ input)"
      using st by (simp add: append_assoc [symmetric] del: append_assoc)
    moreover have "take (idx + length input) (blit (md_buffer ctx) idx input) = drop q (m @ input)"
      using blit_take [of idx input "md_buffer ctx"] buf l q by simp
    moreover have "length (blit (md_buffer ctx) idx input) = 64"
      using blit_length [of idx input "md_buffer ctx"] buf l by simp
    ultimately show ?thesis unfolding md5_repr_def up md cnt by simp
  next
    case True
    define pl where "pl = 64 - idx"
    define b where "b = blit (md_buffer ctx) idx (take pl input)"
    have pl: "pl \<le> length input" using True by (simp add: pl_def)
    have il: "idx + length (take pl input) = 64" using pl q(3) by (simp add: pl_def)
    then have b: "length b = 64" "b = drop q m @ take pl input"
      using blit_length [of idx "take pl input" "md_buffer ctx"]
        blit_take [of idx "take pl input" "md_buffer ctx"] buf
      by (simp_all add: b_def)
    obtain j where j: "md5_blocks (md5_transform (md_state ctx) b) input pl
        = (ref_blocks (md5_transform (md_state ctx) b) (drop pl input), j)"
      "pl \<le> j" "j \<le> length input" "length input - j < 64" "64 dvd j - pl"
      using md5_blocks_ref [OF pl] by blast
    have up: "md5_update ctx input = \<lparr>md_state = ref_blocks (md5_transform (md_state ctx) b) (drop pl input),
        md_count = add_count (md_count ctx) (of_nat (length input)), md_buffer = blit b 0 (drop j input)\<rparr>"
      using True idx j(1) by (simp add: md5_update_def Let_def b_def pl_def)
    have state: "ref_blocks (md5_transform (md_state ctx) b) (drop pl input)
        = ref_blocks md5_iv (m @ input)"
    proof -
      have "m @ input = take q m @ (b @ drop pl input)"
        by (simp add: b(2) append_assoc [symmetric] del: append_assoc) simp
      then have "ref_blocks md5_iv (m @ input) = ref_blocks (ref_blocks md5_iv (take q m)) (b @ drop pl input)"
        using q by (simp add: ref_blocks_append)
      then show ?thesis using st by (simp add: ref_blocks_cons [OF b(1)] transform_ref)
    qed
    have total: "length (m @ input) = (q + 64 + (j - pl)) + (length input - j)"
      using q(1) j(2,3) il pl by simp
    have dv: "64 dvd q + 64 + (j - pl)" using q(2) j(5) by simp
    have md: "length (m @ input) mod 64 = length input - j"
      "64 * (length (m @ input) div 64) = q + 64 + (j - pl)"
      using total dv j(4) by (auto simp: dvd_def)
    have "take (length input - j) (blit b 0 (drop j input)) = drop j input"
      using blit_take [of 0 "drop j input" b] b(1) j(3,4) by simp
    moreover have "drop (q + 64 + (j - pl)) (m @ input) = drop j input"
    proof -
      have "q + 64 + (j - pl) = length m + j" using q(1) il pl j(2) by simp
      then show ?thesis by simp
    qed
    moreover have "length (blit b 0 (drop j input)) = 64"
      using blit_length [of 0 "drop j input" b] b(1) j(3,4) by simp
    ultimately show ?thesis unfolding md5_repr_def up md cnt using state by simp
  qed
qed

section \<open>Padding and the digest\<close>

lemma padding_take:
  "0 < n \<Longrightarrow> n \<le> 64 \<Longrightarrow> take n PADDING = 0x80 # replicate (n - 1) 0"
  by (cases n) (simp_all add: PADDING_def)

lemma encode_length: "length (md5_encode ws) = 4 * length ws"
  by (induction ws) (simp_all add: md5_encode_def encode_word_def)

lemma count_words:
  "ucast (of_nat n :: u64) = (of_nat n :: u32)"
  "ucast (drop_bit 32 (of_nat n :: u64)) = (of_nat (n div 2 ^ 32) :: u32)"
proof -
  show "ucast (of_nat n :: u64) = (of_nat n :: u32)"
    by (simp add: word_unat_eq_iff unsigned_ucast_eq unat_of_nat take_bit_eq_mod mod_mod_cancel)
  have "n mod 2 ^ 64 div 2 ^ 32 mod 2 ^ 32 = n div 2 ^ 32 mod 2 ^ 32"
    using mod_mult2_eq [of n "2 ^ 32" "2 ^ 32"] by simp
  then show "ucast (drop_bit 32 (of_nat n :: u64)) = (of_nat (n div 2 ^ 32) :: u32)"
    by (simp only: word_unat_eq_iff unsigned_ucast_eq unat_drop_bit_eq unat_of_nat
        drop_bit_eq_div [where 'a = nat] take_bit_eq_mod) simp
qed

lemma md5_final_repr:
  assumes r: "md5_repr ctx m"
  shows "fst (md5_final ctx) = ref_digest m"
proof -
  define idx where "idx = length m mod 64"
  define n where "n = (if idx < 56 then 56 - idx else 120 - idx)"
  define bits where "bits = md5_encode [of_nat (8 * length m), of_nat (8 * length m div 2 ^ 32)]"
  define p where "p = m @ 0x80 # replicate (pad_zeros (length m)) 0"
  have n: "0 < n" "n \<le> 64" by (auto simp: n_def idx_def)
  have z: "n - 1 = pad_zeros (length m)" unfolding n_def pad_zeros_def idx_def by simp
  have p: "m @ take n PADDING = p" using padding_take [OF n] z by (simp add: p_def)
  have "md5_repr (md5_update ctx (take n PADDING)) p"
    using md5_update_repr [OF r, of "take n PADDING"] n by (simp add: p)
  then have "md5_repr (md5_update (md5_update ctx (take n PADDING)) bits) (p @ bits)"
    by (rule md5_update_repr) (simp add: bits_def encode_length)
  moreover have "md5_pad ctx = md5_update (md5_update ctx (take n PADDING)) bits"
    using md5_repr_idx [OF r] r by (simp add: md5_pad_def Let_def n_def idx_def bits_def md5_repr_def)
  ultimately have st: "md_state (md5_pad ctx) = ref_blocks md5_iv (p @ bits)"
    by (simp add: md5_repr_def)
  have "ref_digest m = (case ref_blocks md5_iv (p @ bits) of (a, b, c, d) \<Rightarrow> md5_encode [a, b, c, d])"
    by (simp add: ref_digest_def Let_def count_words p_def bits_def md5_iv_def del: of_nat_mult)
  then show ?thesis by (simp add: md5_final_def st split: prod.splits)
qed

definition hex_of :: "u8 list \<Rightarrow> cstring" where
  "hex_of bs = concat (map (\<lambda>b. [hex_digits ! unat (drop_bit 4 b), hex_digits ! unat (b AND 0x0f)]) bs)"

lemma md5_end_repr: "md5_repr ctx m \<Longrightarrow> md5_end ctx = hex_of (ref_digest m)"
  by (simp add: md5_end_def hex_of_def md5_final_repr)

lemma read_loop_repr:
  "md5_repr ctx m \<Longrightarrow> \<forall>c \<in> set chunks. c \<noteq> [] \<and> length c < 2 ^ 32 - 63
     \<Longrightarrow> \<exists>ctx'. read_loop ctx (map Some chunks @ [Some []]) = Some ctx' \<and> md5_repr ctx' (m @ concat chunks)"
proof (induction chunks arbitrary: ctx m)
  case (Cons c chunks)
  then have "md5_repr (md5_update ctx c) (m @ c)" by (intro md5_update_repr) auto
  from Cons.IH [OF this] Cons.prems(2) show ?case by auto
qed simp

section \<open>Properties\<close>

text \<open>The unrolled transform of the code is the table-driven compression function of the
  standard on every state and block.\<close>

theorem md5_transform_reference: "md5_transform s block = ref_transform s block"
  by (rule transform_ref)

text \<open>\<^verbatim>\<open>md5_update\<close> implements appending to the message: if a context represents the
  bytes read so far, the updated context represents those and the new ones, wherever the block
  boundaries fall.\<close>

theorem md5_update_appends:
  assumes "md5_repr ctx m" "length input < 2 ^ 32 - 63"
  shows "md5_repr (md5_update ctx input) (m @ input)"
  by (rule md5_update_repr [OF assms])

theorem md5_update_appends_witness:
  "md5_repr (md5_update (md5_init (replicate 64 0)) [1, 2, 3]) [1, 2, 3]"
  using md5_update_appends [OF md5_repr_init [of "replicate 64 0"], of "[1, 2, 3]"] by simp

text \<open>C33: \<^verbatim>\<open>md5_data\<close> is the hexadecimal MD5 digest of its input, and \<^verbatim>\<open>md5_file\<close> gives the
  same for a file with these contents, in whatever pieces \<^verbatim>\<open>read\<close> delivers them.\<close>

theorem md5_digest:
  assumes "length buf = 64" "length (concat chunks) < 2 ^ 32 - 63" "\<forall>c \<in> set chunks. c \<noteq> []"
  shows "md5_data buf (concat chunks) = hex_of (ref_digest (concat chunks))
    \<and> md5_file buf (Some (map Some chunks @ [Some []])) = Some (md5_data buf (concat chunks))"
proof -
  have init: "md5_repr (md5_init buf) []" by (rule md5_repr_init [OF assms(1)])
  have data: "md5_data buf (concat chunks) = hex_of (ref_digest (concat chunks))"
    using md5_end_repr [OF md5_update_repr [OF init assms(2)]] by (simp add: md5_data_def)
  have "\<forall>c \<in> set chunks. c \<noteq> [] \<and> length c < 2 ^ 32 - 63"
  proof
    fix c assume "c \<in> set chunks"
    then have "length c \<le> length (concat chunks)" by (induction chunks) auto
    then show "c \<noteq> [] \<and> length c < 2 ^ 32 - 63" using assms(2,3) \<open>c \<in> set chunks\<close> by simp
  qed
  from read_loop_repr [OF init this] data show ?thesis
    by (auto simp: md5_file_def md5_end_repr)
qed

theorem md5_digest_witness:
  "md5_file (replicate 64 0) (Some [Some [97, 98], Some [99], Some []])
     = Some (md5_data (replicate 64 0) [97, 98, 99])"
  using md5_digest [of "replicate 64 0" "[[97, 98], [99]]"] by simp

end
