(* ===== verification/Event.thy ===== *)
theory Event
  imports Prelude "HOL-Library.Multiset"
begin

text \<open>
  The hook system of \<^verbatim>\<open>source/event.c\<close>: events with a list of hooks, called in order,
  that may add and remove hooks of the event while it is being called. A hook function is a
  number (its address); what it does when called is the parameter \<open>beh\<close>, which gives, from
  the function and the event as it is then, the operations on the event the function performs
  and the value it returns. A hook function that calls \<^verbatim>\<open>hook_event\<close> on the event that is
  calling it is not modelled. Each hook node has an address \<open>h_id\<close>; \<open>ev_alloc\<close> is the next
  fresh one. The globals \<^verbatim>\<open>maxhooks\<close> and \<^verbatim>\<open>hookreturns\<close> belong to the event here.
\<close>

unbundle bit_operations_syntax

section \<open>Events and hooks\<close>

definition EVENT_FL_ONEHOOK :: u32 where "EVENT_FL_ONEHOOK = 0x1"
definition EVENT_FL_NORETURN :: u32 where "EVENT_FL_NORETURN = 0x2"
definition EVENT_FL_HOOKONCE :: u32 where "EVENT_FL_HOOKONCE = 0x4"
definition EVENT_FL_CONDITIONAL :: u32 where "EVENT_FL_CONDITIONAL = 0x8"
definition EVENT_FL_CALLING :: u32 where "EVENT_FL_CALLING = 0x10"

definition HOOK_COND_SPASS :: int where "HOOK_COND_SPASS = -2"
definition HOOK_COND_PASS :: int where "HOOK_COND_PASS = -1"
definition HOOK_COND_FAIL :: int where "HOOK_COND_FAIL = 0"
definition HOOK_COND_ALWAYSOK :: int where "HOOK_COND_ALWAYSOK = -4"
definition HOOK_COND_OK :: int where "HOOK_COND_OK = -3"
definition HOOK_COND_NEVEROK :: int where "HOOK_COND_NEVEROK = -2"
definition HOOK_COND_NOTOK :: int where "HOOK_COND_NOTOK = -2"
definition HOOK_COND_NEUTRAL :: int where "HOOK_COND_NEUTRAL = 0"

text \<open>The two hook flags, \<^verbatim>\<open>HOOK_FL_DEFERRED\<close> and \<^verbatim>\<open>HOOK_FL_NEW\<close>, are two fields.\<close>

record hook =
  h_id :: nat
  h_fun :: nat
  h_deferred :: bool
  h_new :: bool

record event =
  ev_numhooks :: int
  ev_flags :: u32
  ev_hooks :: "hook list"
  ev_alloc :: nat
  ev_maxhooks :: int

lemmas event_flags = EVENT_FL_ONEHOOK_def EVENT_FL_NORETURN_def EVENT_FL_HOOKONCE_def
  EVENT_FL_CONDITIONAL_def EVENT_FL_CALLING_def

lemmas hook_conds = HOOK_COND_SPASS_def HOOK_COND_PASS_def HOOK_COND_FAIL_def
  HOOK_COND_ALWAYSOK_def HOOK_COND_OK_def HOOK_COND_NEVEROK_def HOOK_COND_NOTOK_def
  HOOK_COND_NEUTRAL_def

abbreviation has_flag :: "u32 \<Rightarrow> u32 \<Rightarrow> bool" where
  "has_flag fl f \<equiv> fl AND f \<noteq> 0"

definition init_maxhooks :: int where "init_maxhooks = 16"

definition create_event :: "int \<Rightarrow> nat \<Rightarrow> u32 \<Rightarrow> event" where
  "create_event maxhooks alloc flags =
     \<lparr>ev_numhooks = 0, ev_flags = flags, ev_hooks = [], ev_alloc = alloc, ev_maxhooks = maxhooks\<rparr>"

text \<open>\<open>at\<close> is the position to insert at: 0 for the head, \<open>Suc i\<close> after the hook at \<open>i\<close>.\<close>

definition add_hook_really :: "event \<Rightarrow> nat \<Rightarrow> nat \<Rightarrow> event" where
  "add_hook_really ep func at =
     (let hp = \<lparr>h_id = ev_alloc ep, h_fun = func, h_deferred = False,
                h_new = has_flag (ev_flags ep) EVENT_FL_CALLING\<rparr>;
          n = ev_numhooks ep + 1
      in ep\<lparr>ev_hooks := take at (ev_hooks ep) @ hp # drop at (ev_hooks ep),
            ev_alloc := Suc (ev_alloc ep), ev_numhooks := n,
            ev_maxhooks := (if ev_maxhooks ep \<le> n then ev_maxhooks ep * 2 else ev_maxhooks ep)\<rparr>)"

text \<open>The walk of \<^verbatim>\<open>add_hook_after\<close>: stop at the hook looked for or at the last one.\<close>

fun after_pos :: "nat \<Rightarrow> hook list \<Rightarrow> nat" where
  "after_pos f [] = 0"
| "after_pos f (h # hs) = (if h_fun h = f \<or> hs = [] then 1 else Suc (after_pos f hs))"

definition add_hook_after :: "event \<Rightarrow> nat \<Rightarrow> nat option \<Rightarrow> event \<times> int" where
  "add_hook_after ep func after =
     (if ev_numhooks ep \<noteq> 0 \<and> has_flag (ev_flags ep) EVENT_FL_ONEHOOK then (ep, 0)
      else (add_hook_really ep func
              (case after of None \<Rightarrow> length (ev_hooks ep) | Some f \<Rightarrow> after_pos f (ev_hooks ep)), 1))"

fun before_pos :: "nat \<Rightarrow> hook list \<Rightarrow> nat" where
  "before_pos f [] = 0"
| "before_pos f [h] = 1"
| "before_pos f (h # h2 # hs) = (if h_fun h2 = f then 1 else Suc (before_pos f (h2 # hs)))"

definition add_hook_before :: "event \<Rightarrow> nat \<Rightarrow> nat option \<Rightarrow> event \<times> int" where
  "add_hook_before ep func before =
     (if ev_numhooks ep \<noteq> 0 \<and> has_flag (ev_flags ep) EVENT_FL_ONEHOOK then (ep, 0)
      else (add_hook_really ep func
              (case before of None \<Rightarrow> 0
               | Some f \<Rightarrow> (case ev_hooks ep of [] \<Rightarrow> 0
                          | h # _ \<Rightarrow> if h_fun h = f then 0 else before_pos f (ev_hooks ep))), 1))"

definition find_hook :: "event \<Rightarrow> nat \<Rightarrow> hook option" where
  "find_hook ep func = find (\<lambda>h. h_fun h = func) (ev_hooks ep)"

definition defer_hook :: "nat \<Rightarrow> hook list \<Rightarrow> hook list" where
  "defer_hook i hs = map (\<lambda>h. if h_id h = i then h\<lparr>h_deferred := True\<rparr> else h) hs"

definition remove_hook :: "event \<Rightarrow> nat \<Rightarrow> event \<times> int" where
  "remove_hook ep func =
     (case find_hook ep func of
        None \<Rightarrow> (ep, 0)
      | Some hp \<Rightarrow>
          (ep\<lparr>ev_numhooks := ev_numhooks ep - 1,
              ev_hooks := (if has_flag (ev_flags ep) EVENT_FL_CALLING
                           then defer_hook (h_id hp) (ev_hooks ep)
                           else remove1 hp (ev_hooks ep))\<rparr>, 1))"

section \<open>Calling an event\<close>

datatype hop = AddAfter nat "nat option" | AddBefore nat "nat option" | RemoveHook nat

fun run_op :: "hop \<Rightarrow> event \<Rightarrow> event" where
  "run_op (AddAfter f a) ep = fst (add_hook_after ep f a)"
| "run_op (AddBefore f b) ep = fst (add_hook_before ep f b)"
| "run_op (RemoveHook f) ep = fst (remove_hook ep f)"

definition run_ops :: "hop list \<Rightarrow> event \<Rightarrow> event" where
  "run_ops ops ep = fold run_op ops ep"

type_synonym behaviour = "nat \<Rightarrow> event \<Rightarrow> hop list \<times> int"

text \<open>
  The variables of the loop: the event, the values stored in \<^verbatim>\<open>hookreturns\<close> so far, the
  conditional result, the error code (0 for none), \<^verbatim>\<open>needclean\<close>, and whether a value was
  stored outside \<^verbatim>\<open>hookreturns\<close>.
\<close>

record hloop =
  hl_ev :: event
  hl_rets :: "int list"
  hl_returned :: int
  hl_econd :: int
  hl_clean :: bool
  hl_over :: bool

fun hooks_after :: "nat \<Rightarrow> hook list \<Rightarrow> hook list" where
  "hooks_after i [] = []"
| "hooks_after i (h # hs) = (if h_id h = i then hs else hooks_after i hs)"

text \<open>One call: the new loop state and whether the loop goes on.\<close>

definition call_hook :: "behaviour \<Rightarrow> hloop \<Rightarrow> hook \<Rightarrow> hloop \<times> bool" where
  "call_hook beh st hp =
     (let (ops, ret) = beh (h_fun hp) (hl_ev st);
          ep = run_ops ops (hl_ev st);
          st = st\<lparr>hl_ev := ep, hl_rets := hl_rets st @ [ret],
                  hl_over := hl_over st \<or> ev_maxhooks ep \<le> int (length (hl_rets st))\<rparr>;
          cond = has_flag (ev_flags ep) EVENT_FL_CONDITIONAL
      in if cond \<and> ret = HOOK_COND_ALWAYSOK then (st\<lparr>hl_returned := HOOK_COND_SPASS\<rparr>, False)
         else if cond \<and> ret = HOOK_COND_NEVEROK then (st\<lparr>hl_returned := HOOK_COND_FAIL\<rparr>, False)
         else
           (let st = (if \<not> cond then st
                      else if ret = HOOK_COND_NOTOK then st\<lparr>hl_returned := HOOK_COND_FAIL\<rparr>
                      else if ret \<noteq> HOOK_COND_OK \<and> ret \<noteq> HOOK_COND_NEUTRAL
                      then st\<lparr>hl_returned := HOOK_COND_FAIL, hl_econd := ret\<rparr>
                      else st)
            in if has_flag (ev_flags ep) EVENT_FL_HOOKONCE
               then (st\<lparr>hl_ev := ep\<lparr>ev_hooks := defer_hook (h_id hp) (ev_hooks ep)\<rparr>,
                        hl_clean := True\<rparr>, True)
               else (st, True)))"

partial_function (option) hook_loop :: "behaviour \<Rightarrow> hloop \<Rightarrow> hook list \<Rightarrow> hloop option" where
  "hook_loop beh st cur =
     (case cur of
        [] \<Rightarrow> Some st
      | hp # _ \<Rightarrow>
          if h_deferred hp \<or> h_new hp
          then hook_loop beh (st\<lparr>hl_clean := True\<rparr>) (hooks_after (h_id hp) (ev_hooks (hl_ev st)))
          else if snd (call_hook beh st hp)
          then hook_loop beh (fst (call_hook beh st hp))
                 (hooks_after (h_id hp) (ev_hooks (hl_ev (fst (call_hook beh st hp)))))
          else Some (fst (call_hook beh st hp)))"

definition clean_hooks :: "hook list \<Rightarrow> hook list" where
  "clean_hooks hs = map (\<lambda>h. h\<lparr>h_new := False\<rparr>) (filter (\<lambda>h. \<not> h_deferred h) hs)"

datatype hresult = NoReturn | Returns "int list" | Cond int

definition hook_finish :: "hloop \<Rightarrow> hresult \<times> event \<times> bool" where
  "hook_finish st =
     (let ep = hl_ev st; fl = ev_flags ep;
          res = (if has_flag fl EVENT_FL_CONDITIONAL then
                   Cond (if hl_returned st = HOOK_COND_FAIL \<and> hl_econd st \<noteq> 0
                         then hl_econd st else hl_returned st)
                 else if has_flag fl EVENT_FL_NORETURN then NoReturn
                 else Returns (hl_rets st))
      in (res,
          ep\<lparr>ev_flags := fl AND NOT EVENT_FL_CALLING,
             ev_hooks := (if hl_clean st then clean_hooks (ev_hooks ep) else ev_hooks ep)\<rparr>,
          hl_over st))"

definition hook_start :: "event \<Rightarrow> hloop" where
  "hook_start ep =
     \<lparr>hl_ev = ep\<lparr>ev_flags := ev_flags ep OR EVENT_FL_CALLING\<rparr>, hl_rets = [],
      hl_returned = (if has_flag (ev_flags ep) EVENT_FL_NORETURN then 0 else HOOK_COND_PASS), hl_econd = 0, hl_clean = False, hl_over = False\<rparr>"

definition hook_event :: "behaviour \<Rightarrow> event \<Rightarrow> (hresult \<times> event \<times> bool) option" where
  "hook_event beh ep =
     map_option hook_finish (hook_loop beh (hook_start ep) (ev_hooks ep))"

definition destroy_event :: "event \<Rightarrow> hook list" where
  "destroy_event ep = ev_hooks ep"

section \<open>How the list changes under a call\<close>

text \<open>
  While the event is being called, the list only grows by new hooks, and hooks only become
  deferred.
\<close>

inductive evolves :: "hook list \<Rightarrow> hook list \<Rightarrow> bool" where
  evolves_Nil: "evolves [] []"
| evolves_new: "evolves hs hs' \<Longrightarrow> h_new x \<Longrightarrow> evolves hs (x # hs')"
| evolves_keep: "evolves hs hs' \<Longrightarrow> h' = h \<or> h' = h\<lparr>h_deferred := True\<rparr> \<Longrightarrow> evolves (h # hs) (h' # hs')"

inductive_cases evolves_ConsE: "evolves (h # hs) hs'"
inductive_simps evolves_Nil_left: "evolves [] hs'"

lemma evolves_refl: "evolves hs hs"
  by (induction hs) (auto intro: evolves.intros)

lemma evolves_insert: "h_new x \<Longrightarrow> evolves hs (take n hs @ x # drop n hs)"
proof (induction hs arbitrary: n)
  case (Cons h hs)
  then show ?case by (cases n) (auto intro: evolves.intros evolves_refl)
qed (auto intro: evolves.intros)

lemma evolves_defer: "evolves hs (defer_hook i hs)"
  by (induction hs) (auto simp: defer_hook_def intro: evolves.intros)

lemma evolves_trans: "evolves b c \<Longrightarrow> evolves a b \<Longrightarrow> evolves a c"
proof (induction b c arbitrary: a rule: evolves.induct)
  case (evolves_new hs hs' x)
  then show ?case by (auto intro: evolves.intros)
next
  case (evolves_keep hs hs' h' h)
  from evolves_keep.prems evolves_keep.hyps evolves_keep.IH show ?case
    by (cases rule: evolves.cases) (auto intro!: evolves.intros)
qed simp

definition callable :: "hook list \<Rightarrow> nat" where
  "callable hs = length (filter (\<lambda>h. \<not> h_deferred h \<and> \<not> h_new h) hs)"

lemma callable_simps [simp]:
  "callable [] = 0"
  "callable (h # hs) = (if h_deferred h \<or> h_new h then callable hs else Suc (callable hs))"
  by (simp_all add: callable_def)

lemma evolves_callable: "evolves hs hs' \<Longrightarrow> callable hs' \<le> callable hs"
  by (induction rule: evolves.induct) auto

definition ids :: "hook list \<Rightarrow> nat set" where
  "ids hs = h_id ` set hs"

lemma ids_simps [simp]: "ids [] = {}" "ids (h # hs) = insert (h_id h) (ids hs)"
  by (auto simp: ids_def)

lemma evolves_ids: "evolves hs hs' \<Longrightarrow> ids hs \<subseteq> ids hs'"
  by (induction rule: evolves.induct) auto

text \<open>The new hooks have addresses that no hook of the old list has.\<close>

lemma evolves_after:
  "evolves hs hs' \<Longrightarrow> \<forall>x \<in> set hs'. h_id x = i \<longrightarrow> (\<exists>h \<in> set hs. h_id h = i \<and> (h_new x \<longrightarrow> h_new h))
     \<Longrightarrow> (\<exists>h \<in> set hs. h_id h = i \<and> \<not> h_new h) \<Longrightarrow> distinct (map h_id hs) \<Longrightarrow> distinct (map h_id hs')
     \<Longrightarrow> evolves (hooks_after i hs) (hooks_after i hs')"
proof (induction rule: evolves.induct)
  case (evolves_new hs hs' x)
  have "h_id x \<noteq> i"
  proof
    assume "h_id x = i"
    then obtain h where "h \<in> set hs" "h_id h = i" "h_new h" using evolves_new by auto
    moreover obtain h2 where "h2 \<in> set hs" "h_id h2 = i" "\<not> h_new h2" using evolves_new by auto
    ultimately show False using evolves_new.prems(3) by (metis distinct_map inj_onD)
  qed
  then show ?case using evolves_new by auto
next
  case (evolves_keep hs hs' h' h)
  then have id: "h_id h' = h_id h" by auto
  show ?case
  proof (cases "h_id h = i")
    case True
    then show ?thesis using id evolves_keep.hyps by simp
  next
    case False
    have "\<forall>x \<in> set hs'. h_id x = i \<longrightarrow> (\<exists>h \<in> set hs. h_id h = i \<and> (h_new x \<longrightarrow> h_new h))"
      using evolves_keep.prems(1) False by auto
    then show ?thesis using evolves_keep.IH evolves_keep.prems(2-4) False id by auto
  qed
qed simp

section \<open>Operations while calling\<close>

abbreviation calling :: "event \<Rightarrow> bool" where
  "calling ep \<equiv> has_flag (ev_flags ep) EVENT_FL_CALLING"

definition ev_wf :: "event \<Rightarrow> bool" where
  "ev_wf ep \<longleftrightarrow> distinct (map h_id (ev_hooks ep)) \<and> (\<forall>i \<in> ids (ev_hooks ep). i < ev_alloc ep)
     \<and> 0 < ev_maxhooks ep"

lemma insert_at_mset: "mset (take n xs @ x # drop n xs) = add_mset x (mset xs)"
  by (metis append_take_drop_id mset.simps(2) mset_append union_mset_add_mset_right)

lemma insert_at_ids: "ids (take n hs @ x # drop n hs) = insert (h_id x) (ids hs)"
proof -
  have "set (take n hs @ x # drop n hs) = insert x (set hs)"
    using arg_cong [OF insert_at_mset, of set_mset n hs x]
    by (simp only: set_mset_mset set_mset_add_mset_insert)
  then show ?thesis by (simp only: ids_def image_insert)
qed

lemma insert_at_distinct:
  "distinct (map h_id (take n hs @ x # drop n hs)) \<longleftrightarrow> h_id x \<notin> ids hs \<and> distinct (map h_id hs)"
proof -
  have "mset (map h_id (take n hs @ x # drop n hs)) = mset (map h_id (x # hs))"
    by (simp only: mset_map insert_at_mset mset.simps)
  then have "distinct (map h_id (take n hs @ x # drop n hs)) \<longleftrightarrow> distinct (map h_id (x # hs))"
    by (rule mset_eq_imp_distinct_iff)
  then show ?thesis by (auto simp: ids_def)
qed

lemma add_really_wf: "ev_wf ep \<Longrightarrow> ev_wf (add_hook_really ep f at)"
proof -
  assume w: "ev_wf ep"
  then have "ev_alloc ep \<notin> ids (ev_hooks ep)" by (auto simp: ev_wf_def)
  then show ?thesis
    using w unfolding ev_wf_def add_hook_really_def Let_def
    by (simp add: insert_at_ids insert_at_distinct less_Suc_eq del: map_append distinct_append)
qed

text \<open>What one operation, and so any sequence of them, does to an event that is being called.\<close>

definition stays :: "event \<Rightarrow> event \<Rightarrow> bool" where
  "stays ep ep' \<longleftrightarrow>
     evolves (ev_hooks ep) (ev_hooks ep') \<and> ev_flags ep' = ev_flags ep \<and> ev_wf ep'
     \<and> ev_alloc ep \<le> ev_alloc ep' \<and> ev_maxhooks ep \<le> ev_maxhooks ep'
     \<and> (\<forall>x \<in> set (ev_hooks ep'). h_id x < ev_alloc ep \<longrightarrow>
          (\<exists>h \<in> set (ev_hooks ep). h_id h = h_id x \<and> h_new h = h_new x))"

lemma stays_refl: "ev_wf ep \<Longrightarrow> stays ep ep"
  by (auto simp: stays_def evolves_refl)

lemma stays_trans: "stays a b \<Longrightarrow> stays b c \<Longrightarrow> stays a c"
proof -
  assume ab: "stays a b" and bc: "stays b c"
  have "\<exists>h \<in> set (ev_hooks a). h_id h = h_id x \<and> h_new h = h_new x"
    if x: "x \<in> set (ev_hooks c)" and l: "h_id x < ev_alloc a" for x
  proof -
    have "h_id x < ev_alloc b" using ab l by (simp add: stays_def)
    then obtain y where "y \<in> set (ev_hooks b)" "h_id y = h_id x" "h_new y = h_new x"
      using bc x unfolding stays_def by blast
    then show ?thesis using ab l unfolding stays_def by metis
  qed
  then show ?thesis using ab bc evolves_trans by (auto simp: stays_def)
qed

lemma stays_add: "ev_wf ep \<Longrightarrow> calling ep \<Longrightarrow> stays ep (add_hook_really ep f at)"
proof -
  assume w: "ev_wf ep" and c: "calling ep"
  have "set (take at (ev_hooks ep) @ drop at (ev_hooks ep)) = set (ev_hooks ep)" by simp
  then have "x \<in> set (ev_hooks ep)"
    if "x \<in> set (ev_hooks (add_hook_really ep f at))" "h_id x < ev_alloc ep" for x
    using that by (auto simp: add_hook_really_def Let_def dest: in_set_takeD in_set_dropD)
  moreover have "evolves (ev_hooks ep) (ev_hooks (add_hook_really ep f at))"
    using c by (auto simp: add_hook_really_def Let_def intro!: evolves_insert)
  ultimately show ?thesis using add_really_wf [OF w, of f at] w
    by (auto simp: stays_def add_hook_really_def Let_def ev_wf_def)
qed

lemma defer_hook_ids [simp]:
  "map h_id (defer_hook i hs) = map h_id hs" "ids (defer_hook i hs) = ids hs"
proof -
  show "map h_id (defer_hook i hs) = map h_id hs" by (induction hs) (auto simp: defer_hook_def)
  then show "ids (defer_hook i hs) = ids hs" unfolding ids_def by (metis set_map)
qed

lemma stays_defer:
  "ev_wf ep \<Longrightarrow> stays ep (ep\<lparr>ev_numhooks := n, ev_hooks := defer_hook i (ev_hooks ep)\<rparr>)"
  "ev_wf ep \<Longrightarrow> stays ep (ep\<lparr>ev_hooks := defer_hook i (ev_hooks ep)\<rparr>)"
  by (auto simp: stays_def evolves_defer ev_wf_def) (auto simp: defer_hook_def)

lemma stays_op: "ev_wf ep \<Longrightarrow> calling ep \<Longrightarrow> stays ep (run_op op ep)"
  by (cases op)
    (auto simp: add_hook_after_def add_hook_before_def remove_hook_def stays_refl
      intro!: stays_add stays_defer split: option.split)

lemma stays_ops: "ev_wf ep \<Longrightarrow> calling ep \<Longrightarrow> stays ep (run_ops ops ep)"
proof (induction ops arbitrary: ep)
  case Nil
  then show ?case by (simp add: run_ops_def stays_refl)
next
  case (Cons op ops)
  have s: "stays ep (run_op op ep)" by (rule stays_op [OF Cons.prems])
  then have "stays (run_op op ep) (run_ops ops (run_op op ep))"
    using Cons.prems by (intro Cons.IH) (simp_all add: stays_def)
  then show ?case using stays_trans [OF s] by (simp add: run_ops_def)
qed

section \<open>The loop returns\<close>

lemma hooks_after_suffix: "\<exists>pre. hs = pre @ hooks_after i hs"
proof (induction hs)
  case (Cons h hs)
  then obtain pre where "hs = pre @ hooks_after i hs" by blast
  then show ?case by (auto intro: exI [of _ "[h]"] exI [of _ "h # pre"])
qed simp

lemma hooks_after_append:
  "i \<notin> ids pre \<Longrightarrow> h_id h = i \<Longrightarrow> hooks_after i (pre @ h # hs) = hs"
  by (induction pre) auto

lemma stays_after:
  assumes s: "stays ep ep'" and w: "ev_wf ep" and h: "ev_hooks ep = pre @ hp # hs" "\<not> h_new hp"
  shows "callable (hooks_after (h_id hp) (ev_hooks ep')) \<le> callable hs"
proof -
  have d: "distinct (map h_id (ev_hooks ep))" "h_id hp < ev_alloc ep"
    using w h by (auto simp: ev_wf_def ids_def)
  have "evolves (hooks_after (h_id hp) (ev_hooks ep)) (hooks_after (h_id hp) (ev_hooks ep'))"
  proof (rule evolves_after)
    show "evolves (ev_hooks ep) (ev_hooks ep')" using s by (simp add: stays_def)
    show "\<forall>x \<in> set (ev_hooks ep'). h_id x = h_id hp \<longrightarrow>
        (\<exists>h \<in> set (ev_hooks ep). h_id h = h_id hp \<and> (h_new x \<longrightarrow> h_new h))"
      using s d(2) unfolding stays_def by metis
    show "\<exists>h \<in> set (ev_hooks ep). h_id h = h_id hp \<and> \<not> h_new h" using h by auto
    show "distinct (map h_id (ev_hooks ep))" by (rule d(1))
    show "distinct (map h_id (ev_hooks ep'))" using s by (simp add: stays_def ev_wf_def)
  qed
  moreover have "hooks_after (h_id hp) (ev_hooks ep) = hs"
    unfolding h by (rule hooks_after_append) (use d h in \<open>auto simp: ids_def\<close>)
  ultimately show ?thesis using evolves_callable by simp
qed

lemma call_hook_stays:
  assumes "ev_wf (hl_ev st)" "calling (hl_ev st)"
  shows "stays (hl_ev st) (hl_ev (fst (call_hook beh st hp)))"
    and "length (hl_rets (fst (call_hook beh st hp))) = Suc (length (hl_rets st))"
    and "int (Suc (length (hl_rets st))) \<le> ev_maxhooks (hl_ev st) \<Longrightarrow>
      hl_over (fst (call_hook beh st hp)) = hl_over st"
proof -
  obtain ops ret where b: "beh (h_fun hp) (hl_ev st) = (ops, ret)" by fastforce
  have s: "stays (hl_ev st) (run_ops ops (hl_ev st))" by (rule stays_ops [OF assms])
  then have w: "ev_wf (run_ops ops (hl_ev st))" by (simp add: stays_def)
  have d: "stays (hl_ev st) ((run_ops ops (hl_ev st))
      \<lparr>ev_hooks := defer_hook (h_id hp) (ev_hooks (run_ops ops (hl_ev st)))\<rparr>)"
    by (rule stays_trans [OF s stays_defer(2) [OF w]])
  show "stays (hl_ev st) (hl_ev (fst (call_hook beh st hp)))"
    using s d by (simp add: call_hook_def b Let_def)
  show "length (hl_rets (fst (call_hook beh st hp))) = Suc (length (hl_rets st))"
    by (simp add: call_hook_def b Let_def)
  have "ev_maxhooks (hl_ev st) \<le> ev_maxhooks (run_ops ops (hl_ev st))" using s by (simp add: stays_def)
  then show "int (Suc (length (hl_rets st))) \<le> ev_maxhooks (hl_ev st) \<Longrightarrow>
      hl_over (fst (call_hook beh st hp)) = hl_over st"
    by (simp add: call_hook_def b Let_def)
qed

lemma hook_loop_total:
  assumes "ev_wf (hl_ev st)" "calling (hl_ev st)" "ev_hooks (hl_ev st) = pre @ cs"
  shows "\<exists>st'. hook_loop beh st cs = Some st' \<and> stays (hl_ev st) (hl_ev st')
    \<and> length (hl_rets st') \<le> length (hl_rets st) + callable cs
    \<and> (int (length (hl_rets st) + callable cs) \<le> ev_maxhooks (hl_ev st) \<longrightarrow> hl_over st' = hl_over st)"
  using assms
proof (induction cs arbitrary: st pre rule: wf_induct_rule [OF wf_measures [of "[callable, length]"]])
  case (1 cs)
  show ?case
  proof (cases cs)
    case Nil
    then show ?thesis using 1(2) by (subst hook_loop.simps) (simp add: stays_refl)
  next
    case (Cons hp hs)
    show ?thesis
    proof (cases "h_deferred hp \<or> h_new hp")
      case True
      have "hooks_after (h_id hp) (ev_hooks (hl_ev st)) = hs"
        unfolding 1(4) Cons
        by (rule hooks_after_append) (use 1(2,4) Cons in \<open>auto simp: ev_wf_def ids_def\<close>)
      then have step: "hook_loop beh st cs = hook_loop beh (st\<lparr>hl_clean := True\<rparr>) hs"
        using True Cons by (subst hook_loop.simps) simp
      have "(hs, cs) \<in> measures [callable, length]" using Cons True by simp
      from "1.IH" [OF this, of "st\<lparr>hl_clean := True\<rparr>" "pre @ [hp]"] show ?thesis
        using 1(2-4) Cons True by (simp add: step [unfolded Cons])
    next
      case False
      define st1 where "st1 = fst (call_hook beh st hp)"
      define cs1 where "cs1 = hooks_after (h_id hp) (ev_hooks (hl_ev st1))"
      note c = call_hook_stays [OF 1(2,3), of beh hp, folded st1_def]
      have le: "callable cs1 \<le> callable hs"
        unfolding cs1_def
        by (rule stays_after [OF c(1) 1(2)]) (use 1(4) Cons False in auto)
      have cs: "callable cs = Suc (callable hs)" using Cons False by simp
      show ?thesis
      proof (cases "snd (call_hook beh st hp)")
        case False
        then have "hook_loop beh st cs = Some st1"
          using Cons \<open>\<not> (h_deferred hp \<or> h_new hp)\<close>
          by (subst hook_loop.simps) (simp add: st1_def)
        then show ?thesis using c cs by simp
      next
        case True
        then have step: "hook_loop beh st cs = hook_loop beh st1 cs1"
          using Cons False by (subst hook_loop.simps) (simp add: st1_def cs1_def)
        have m: "(cs1, cs) \<in> measures [callable, length]" using le cs by simp
        obtain pre1 where pre1: "ev_hooks (hl_ev st1) = pre1 @ cs1"
          using hooks_after_suffix unfolding cs1_def by blast
        have w: "ev_wf (hl_ev st1)" "calling (hl_ev st1)"
          using c(1) 1(3) by (simp_all add: stays_def)
        from "1.IH" [OF m w pre1] obtain st' where st': "hook_loop beh st1 cs1 = Some st'"
          "stays (hl_ev st1) (hl_ev st')" "length (hl_rets st') \<le> length (hl_rets st1) + callable cs1"
          "int (length (hl_rets st1) + callable cs1) \<le> ev_maxhooks (hl_ev st1) \<longrightarrow>
            hl_over st' = hl_over st1" by blast
        have mx: "ev_maxhooks (hl_ev st) \<le> ev_maxhooks (hl_ev st1)" using c(1) by (simp add: stays_def)
        have "hl_over st' = hl_over st"
          if "int (length (hl_rets st) + callable cs) \<le> ev_maxhooks (hl_ev st)"
        proof -
          have "int (Suc (length (hl_rets st))) \<le> ev_maxhooks (hl_ev st)" using that cs by simp
          then have "hl_over st1 = hl_over st" by (rule c(3))
          moreover have "int (length (hl_rets st1) + callable cs1) \<le> ev_maxhooks (hl_ev st1)"
            using that c(2) le cs mx by simp
          ultimately show ?thesis using st'(4) by simp
        qed
        moreover have "length (hl_rets st') \<le> length (hl_rets st) + callable cs"
          using st'(3) c(2) le cs by simp
        ultimately show ?thesis using step st'(1) stays_trans [OF c(1) st'(2)] by simp
      qed
    qed
  qed
qed

section \<open>The verdict of a conditional event\<close>

text \<open>
  What a conditional event answers when its hooks return \<open>rs\<close> in order: the first
  \<open>ALWAYSOK\<close> (-4) or \<open>NEVEROK\<close> (-2) ends the vote; before it the last value that is not
  \<open>OK\<close> or \<open>NEUTRAL\<close> is the error code.
\<close>

definition stop_ret :: "int \<Rightarrow> bool" where
  "stop_ret r \<longleftrightarrow> r = -4 \<or> r = -2"

definition verdict :: "int list \<Rightarrow> int" where
  "verdict rs =
     (let voted = takeWhile (\<lambda>r. \<not> stop_ret r) rs;
          stopped = dropWhile (\<lambda>r. \<not> stop_ret r) rs;
          errs = filter (\<lambda>r. r \<noteq> -3 \<and> r \<noteq> 0) voted
      in if stopped \<noteq> [] \<and> hd stopped = -4 then -2
         else if errs \<noteq> [] then last errs
         else if stopped \<noteq> [] then 0 else -1)"

fun vote :: "int \<Rightarrow> int \<Rightarrow> int list \<Rightarrow> int" where
  "vote ret ec [] = (if ret = 0 \<and> ec \<noteq> 0 then ec else ret)"
| "vote ret ec (r # rs) =
     (if r = -4 then -2
      else if r = -2 then (if ec \<noteq> 0 then ec else 0)
      else if r \<noteq> -3 \<and> r \<noteq> 0 then vote 0 r rs else vote ret ec rs)"

lemma vote_verdict_aux:
  "(ret = -1 \<and> ec = 0) \<or> (ret = 0 \<and> ec \<noteq> 0) \<Longrightarrow>
     vote ret ec rs =
     (let voted = takeWhile (\<lambda>r. \<not> stop_ret r) rs;
          stopped = dropWhile (\<lambda>r. \<not> stop_ret r) rs;
          errs = filter (\<lambda>r. r \<noteq> -3 \<and> r \<noteq> 0) voted
      in if stopped \<noteq> [] \<and> hd stopped = -4 then -2
         else if errs \<noteq> [] then last errs
         else if ec \<noteq> 0 then ec
         else if stopped \<noteq> [] then 0 else -1)"
  by (induction ret ec rs rule: vote.induct) (auto simp: stop_ret_def Let_def)

lemma vote_verdict: "vote (-1) 0 rs = verdict rs"
  by (subst vote_verdict_aux) (simp_all add: verdict_def Let_def)

definition callable_funs :: "hook list \<Rightarrow> nat list" where
  "callable_funs hs = map h_fun (filter (\<lambda>h. \<not> h_deferred h \<and> \<not> h_new h) hs)"

definition loop_value :: "hloop \<Rightarrow> int" where
  "loop_value st = (if hl_returned st = 0 \<and> hl_econd st \<noteq> 0 then hl_econd st else hl_returned st)"

lemma hooks_after_defer:
  "distinct (map h_id (pre @ h # hs)) \<Longrightarrow> hooks_after (h_id h) (defer_hook (h_id h) (pre @ h # hs)) = hs"
proof (induction pre)
  case Nil
  have "defer_hook (h_id h) hs = hs"
    unfolding defer_hook_def by (rule map_idI) (use Nil in \<open>auto simp: image_iff\<close>)
  then show ?case by (simp add: defer_hook_def)
next
  case (Cons a pre)
  then show ?case by (auto simp: defer_hook_def)
qed

lemma hook_loop_vote:
  assumes "ev_wf (hl_ev st)" "ev_hooks (hl_ev st) = pre @ cs"
    and "has_flag (ev_flags (hl_ev st)) EVENT_FL_CONDITIONAL"
    and "hook_loop (\<lambda>f ep. ([], r f)) st cs = Some st'"
  shows "loop_value st' = vote (hl_returned st) (hl_econd st) (map r (callable_funs cs))
    \<and> ev_flags (hl_ev st') = ev_flags (hl_ev st)"
  using assms
proof (induction cs arbitrary: st pre)
  case Nil
  then show ?case by (subst (asm) hook_loop.simps) (simp add: callable_funs_def loop_value_def)
next
  case (Cons hp hs)
  have d: "distinct (map h_id (pre @ hp # hs))" using Cons.prems(1,2) by (simp add: ev_wf_def)
  then have tl: "hooks_after (h_id hp) (ev_hooks (hl_ev st)) = hs"
    unfolding Cons.prems(2) by (intro hooks_after_append) (auto simp: ids_def)
  show ?case
  proof (cases "h_deferred hp \<or> h_new hp")
    case True
    have "hook_loop (\<lambda>f ep. ([], r f)) (st\<lparr>hl_clean := True\<rparr>) hs = Some st'"
      using Cons.prems(4) True by (subst (asm) hook_loop.simps) (simp add: tl)
    moreover have "callable_funs (hp # hs) = callable_funs hs"
      using True by (auto simp: callable_funs_def)
    ultimately show ?thesis
      using Cons.IH [of "st\<lparr>hl_clean := True\<rparr>" "pre @ [hp]"] Cons.prems(1-3) by simp
  next
    case False
    define st1 where "st1 = fst (call_hook (\<lambda>f ep. ([], r f)) st hp)"
    define go where "go = snd (call_hook (\<lambda>f ep. ([], r f)) st hp)"
    have funs: "callable_funs (hp # hs) = h_fun hp # callable_funs hs"
      using False by (simp add: callable_funs_def)
    have loop: "(if go then hook_loop (\<lambda>f ep. ([], r f)) st1 (hooks_after (h_id hp) (ev_hooks (hl_ev st1)))
        else Some st1) = Some st'"
      using Cons.prems(4) False
      by (subst (asm) hook_loop.simps) (simp add: st1_def go_def split: if_splits)
    have ev1: "ev_wf (hl_ev st1)" "has_flag (ev_flags (hl_ev st1)) EVENT_FL_CONDITIONAL"
        "ev_flags (hl_ev st1) = ev_flags (hl_ev st)"
      using Cons.prems(1,3) by (auto simp: st1_def call_hook_def run_ops_def Let_def ev_wf_def)
    have hs1: "ev_hooks (hl_ev st1) = pre @ hp # hs
        \<or> ev_hooks (hl_ev st1) = defer_hook (h_id hp) (pre @ hp # hs)"
      using Cons.prems(2) by (simp add: st1_def call_hook_def run_ops_def Let_def)
    then have tl1: "hooks_after (h_id hp) (ev_hooks (hl_ev st1)) = hs"
      using hooks_after_defer [OF d] tl Cons.prems(2) by auto
    obtain pre1 where pre1: "ev_hooks (hl_ev st1) = pre1 @ hs"
      using hooks_after_suffix [of "ev_hooks (hl_ev st1)" "h_id hp"] tl1 by auto
    have step: "go \<longleftrightarrow> r (h_fun hp) \<noteq> -4 \<and> r (h_fun hp) \<noteq> -2"
      "r (h_fun hp) = -4 \<Longrightarrow> loop_value st1 = -2"
      "r (h_fun hp) = -2 \<Longrightarrow> loop_value st1 = (if hl_econd st \<noteq> 0 then hl_econd st else 0)"
      "go \<Longrightarrow> (if r (h_fun hp) \<noteq> -3 \<and> r (h_fun hp) \<noteq> 0 then hl_returned st1 = 0 \<and> hl_econd st1 = r (h_fun hp)
         else hl_returned st1 = hl_returned st \<and> hl_econd st1 = hl_econd st)"
      using Cons.prems(3)
      by (auto simp: go_def st1_def call_hook_def run_ops_def Let_def hook_conds loop_value_def)
    show ?thesis
    proof (cases go)
      case True
      then have "hook_loop (\<lambda>f ep. ([], r f)) st1 hs = Some st'" using loop tl1 by simp
      from Cons.IH [OF ev1(1) pre1 ev1(2) this] show ?thesis
        using True step(1,4) ev1(3) unfolding funs by (auto split: if_splits)
    next
      case False
      then have "st' = st1" using loop by simp
      then show ?thesis using False step(1-3) ev1(3) unfolding funs by auto
    qed
  qed
qed

section \<open>Properties\<close>



lemma hook_event_votes:
  assumes "ev_wf ep" "has_flag (ev_flags ep) EVENT_FL_CONDITIONAL"
    and "\<not> has_flag (ev_flags ep) EVENT_FL_NORETURN"
  shows "\<exists>ep' ov. hook_event (\<lambda>f ep. ([], r f)) ep
    = Some (Cond (verdict (map r (callable_funs (ev_hooks ep)))), ep', ov)"
proof -
  let ?st = "hook_start ep"
  have w: "ev_wf (hl_ev ?st)" "calling (hl_ev ?st)" "ev_hooks (hl_ev ?st) = [] @ ev_hooks ep"
    using assms(1) by (simp_all add: hook_start_def ev_wf_def EVENT_FL_CALLING_def)
  have c: "has_flag (ev_flags (hl_ev ?st)) EVENT_FL_CONDITIONAL"
    using assms(2) by (simp add: hook_start_def bit.conj_disj_distrib2 event_flags)
  obtain st' where st': "hook_loop (\<lambda>f ep. ([], r f)) ?st (ev_hooks ep) = Some st'"
    using hook_loop_total [OF w] by blast
  from hook_loop_vote [OF w(1,3) c st'] have
    v: "loop_value st' = verdict (map r (callable_funs (ev_hooks ep)))"
      "ev_flags (hl_ev st') = ev_flags (hl_ev ?st)"
    using assms(3) by (simp_all add: hook_start_def hook_conds vote_verdict)
  then show ?thesis using st' c
    by (auto simp: hook_event_def hook_finish_def Let_def loop_value_def HOOK_COND_FAIL_def)
qed

text \<open>A conditional event whose hooks leave it alone answers with the verdict of the values of
  the hooks that are neither deferred nor new, in order.\<close>

theorem hook_event_verdict:
  assumes "ev_wf ep" "has_flag (ev_flags ep) EVENT_FL_CONDITIONAL"
    and "\<not> has_flag (ev_flags ep) EVENT_FL_NORETURN"
  shows "\<exists>ep' ov. hook_event (\<lambda>f ep. ([], r f)) ep
    = Some (Cond (verdict (map r (callable_funs (ev_hooks ep)))), ep', ov)"
  by (rule hook_event_votes [OF assms])

theorem hook_event_verdict_witness:
  "\<exists>ep' ov. hook_event (\<lambda>f ep. ([], int f)) (fst (add_hook_after (create_event 16 0 EVENT_FL_CONDITIONAL) 473 None))
     = Some (Cond 473, ep', ov)"
  using hook_event_verdict [of "fst (add_hook_after (create_event 16 0 EVENT_FL_CONDITIONAL) 473 None)" int]
  by (simp add: ev_wf_def add_hook_after_def create_event_def add_hook_really_def Let_def event_flags
      callable_funs_def verdict_def stop_ret_def)

definition hooks_counted :: "event \<Rightarrow> bool" where
  "hooks_counted ep \<longleftrightarrow>
     ev_wf ep \<and> \<not> calling ep \<and> ev_numhooks ep = int (length (ev_hooks ep)) \<and> ev_numhooks ep < ev_maxhooks ep"

lemma remove1_length_find:
  "find P xs = Some x \<Longrightarrow> length (remove1 x xs) = length xs - 1 \<and> x \<in> set xs"
proof -
  assume "find P xs = Some x"
  then have "x \<in> set xs" by (induction xs) (auto split: if_splits)
  then show ?thesis by (simp add: length_remove1)
qed

text \<open>Outside a call, adding and removing hooks keeps \<^verbatim>\<open>numhooks\<close> equal to the length of the
  list and below \<^verbatim>\<open>maxhooks\<close>.\<close>

theorem hooks_counted_preserved:
  assumes "hooks_counted ep"
  shows "hooks_counted (fst (add_hook_after ep f a)) \<and> hooks_counted (fst (add_hook_before ep f a))
    \<and> hooks_counted (fst (remove_hook ep f))"
proof -
  have add: "hooks_counted (add_hook_really ep f at)" for at
    using assms add_really_wf [of ep f at]
    by (auto simp: hooks_counted_def add_hook_really_def Let_def)
  have "hooks_counted (fst (remove_hook ep f))"
  proof (cases "find_hook ep f")
    case None
    then show ?thesis using assms by (simp add: remove_hook_def)
  next
    case (Some hp)
    from remove1_length_find [OF Some [unfolded find_hook_def]]
    have l: "length (remove1 hp (ev_hooks ep)) = length (ev_hooks ep) - 1" "hp \<in> set (ev_hooks ep)"
      by auto
    then have "0 < length (ev_hooks ep)" by (cases "ev_hooks ep") auto
    moreover have "distinct (map h_id (remove1 hp (ev_hooks ep)))"
      using assms set_remove1_subset [of hp "ev_hooks ep"]
      by (auto simp: hooks_counted_def ev_wf_def distinct_map intro: inj_on_subset)
    moreover have "ids (remove1 hp (ev_hooks ep)) \<subseteq> ids (ev_hooks ep)"
      using set_remove1_subset [of hp "ev_hooks ep"] by (auto simp: ids_def)
    ultimately show ?thesis using assms Some l
      by (auto simp: remove_hook_def hooks_counted_def ev_wf_def int_ops(6))
  qed
  then show ?thesis using add assms by (auto simp: add_hook_after_def add_hook_before_def)
qed

theorem hooks_counted_preserved_witness:
  "hooks_counted (fst (remove_hook (create_event 16 0 0) 3))"
  using hooks_counted_preserved [of "create_event 16 0 0" 3 None]
  by (simp add: hooks_counted_def create_event_def ev_wf_def)

definition add_front :: "nat \<Rightarrow> nat \<Rightarrow> behaviour" where
  "add_front f g = (\<lambda>h ep. (if h = f \<and> find_hook ep g = None then [AddBefore g None] else [], int h))"

text \<open>A hook that is put in front of the list by a called hook is skipped by the next call of
  the event as well, since the loop that would notice that it is new has already passed it.\<close>

theorem hook_added_in_front_skipped:
  assumes "f \<noteq> g"
  shows "\<exists>ep1 ep2. hook_event (add_front f g) (fst (add_hook_after (create_event 16 0 0) f None))
      = Some (Returns [int f], ep1, False)
    \<and> find_hook ep1 g \<noteq> None
    \<and> hook_event (add_front f g) ep1 = Some (Returns [int f], ep2, False)"
  using assms
  by (simp add: add_front_def create_event_def add_hook_after_def add_hook_before_def
      add_hook_really_def hook_event_def hook_start_def hook_loop.simps call_hook_def find_hook_def
      run_ops_def hook_finish_def Let_def event_flags hook_conds)

theorem hook_added_in_front_skipped_witness:
  "\<exists>ep1 ep2. hook_event (add_front 1 2) (fst (add_hook_after (create_event 16 0 0) 1 None))
      = Some (Returns [1], ep1, False)
    \<and> hook_event (add_front 1 2) ep1 = Some (Returns [1], ep2, False)"
  using hook_added_in_front_skipped [of 1 2] by auto

end
