(* ===== verification/Timer.thy ===== *)
theory Timer
  imports Prelude
begin

text \<open>
  The timer list of \<^verbatim>\<open>source/timer.c\<close>. The globals are the fields of \<open>tstate\<close>;
  \<^verbatim>\<open>me.timers\<close> is a list in the order of execution. A callback and its argument are
  numbers; the parameter \<open>beh\<close> gives, from them and the state, the timer operations the
  callback performs. The clock is the sequence of the results of \<^verbatim>\<open>time(NULL)\<close>.
  \<^verbatim>\<open>exec_timers\<close> keeps a pointer to the timer after the current one across the callback: if
  a timer that it points to has been destroyed in the meantime the result is
  \<open>UseAfterFree\<close>.
\<close>

definition TIMER_INVALID :: u64 where "TIMER_INVALID = 0xffffffffffffffff"
definition TIMER_DEAD :: int where "TIMER_DEAD = -1"
definition TIMER_REPEAT :: int where "TIMER_REPEAT = -2"

record timer_event =
  tm_ref :: u64
  tm_reps :: int
  tm_interval :: int
  tm_next :: int
  tm_udata :: nat
  tm_callback :: nat

record tstate =
  timer_refcnt :: u64
  timer_rollover :: bool
  ts_now :: int
  ts_timers :: "timer_event list"

section \<open>Creating, destroying, adjusting\<close>

definition find_timer :: "tstate \<Rightarrow> u64 \<Rightarrow> timer_event option" where
  "find_timer st ref = find (\<lambda>t. tm_ref t = ref) (ts_timers st)"

fun insert_timer :: "timer_event \<Rightarrow> timer_event list \<Rightarrow> timer_event list" where
  "insert_timer tm [] = [tm]"
| "insert_timer tm (t # ts) = (if tm_next t > tm_next tm then tm # t # ts else t # insert_timer tm ts)"

text \<open>The search for an unused reference after the counter has rolled over.\<close>

partial_function (option) unused_ref :: "tstate \<Rightarrow> u64 \<Rightarrow> u64 option" where
  "unused_ref st ref = (if find_timer st ref \<noteq> None then unused_ref st (ref + 1) else Some ref)"

definition alloc_rolled :: "tstate \<Rightarrow> (u64 \<times> tstate) option" where
  "alloc_rolled st =
     map_option (\<lambda>ref. (ref, st\<lparr>timer_refcnt := ref + 1\<rparr>)) (unused_ref st (timer_refcnt st))"

definition alloc_ref :: "tstate \<Rightarrow> (u64 \<times> tstate) option" where
  "alloc_ref st =
     (if timer_rollover st then alloc_rolled st
      else
        let ref = timer_refcnt st; cnt = ref + 1;
            st' = st\<lparr>timer_refcnt := cnt, timer_rollover := (cnt = 0)\<rparr>
        in if ref = TIMER_INVALID then alloc_rolled st' else Some (ref, st'))"

definition create_timer :: "int \<Rightarrow> int \<Rightarrow> nat \<Rightarrow> nat \<Rightarrow> tstate \<Rightarrow> (u64 \<times> tstate) option" where
  "create_timer rep interval callback udata st =
     (case alloc_ref st of
        None \<Rightarrow> None
      | Some (ref, st') \<Rightarrow>
          let tep = \<lparr>tm_ref = ref, tm_reps = (if rep < 0 then TIMER_REPEAT else rep),
                     tm_interval = interval, tm_next = ts_now st' + interval,
                     tm_udata = udata, tm_callback = callback\<rparr>
          in Some (ref, st'\<lparr>ts_timers := insert_timer tep (ts_timers st')\<rparr>))"

fun remove_timer :: "u64 \<Rightarrow> timer_event list \<Rightarrow> timer_event list" where
  "remove_timer ref [] = []"
| "remove_timer ref (t # ts) = (if tm_ref t = ref then ts else t # remove_timer ref ts)"

definition destroy_timer :: "u64 \<Rightarrow> tstate \<Rightarrow> tstate" where
  "destroy_timer ref st =
     (case find_timer st ref of
        None \<Rightarrow> st
      | Some _ \<Rightarrow> st\<lparr>ts_timers := remove_timer ref (ts_timers st)\<rparr>)"

definition adjust_timer :: "u64 \<Rightarrow> int \<Rightarrow> int \<Rightarrow> tstate \<Rightarrow> tstate" where
  "adjust_timer tref reps interval st =
     (case find_timer st tref of
        None \<Rightarrow> st
      | Some tep \<Rightarrow>
          let tep' = tep\<lparr>tm_reps := (if reps < 0 then TIMER_REPEAT else reps),
                         tm_interval := interval, tm_next := ts_now st + interval\<rparr>
          in st\<lparr>ts_timers := insert_timer tep' (remove_timer tref (ts_timers st))\<rparr>)"

section \<open>Execution\<close>

datatype timer_op = CreateTimer int int nat nat | DestroyTimer u64 | AdjustTimer u64 int int

definition run_timer_op :: "timer_op \<Rightarrow> tstate \<Rightarrow> tstate" where
  "run_timer_op op st =
     (case op of
        CreateTimer rep interval cb ud \<Rightarrow>
          (case create_timer rep interval cb ud st of None \<Rightarrow> st | Some (_, st') \<Rightarrow> st')
      | DestroyTimer ref \<Rightarrow> destroy_timer ref st
      | AdjustTimer ref reps interval \<Rightarrow> adjust_timer ref reps interval st)"

definition run_timer_ops :: "timer_op list \<Rightarrow> tstate \<Rightarrow> tstate" where
  "run_timer_ops ops st = fold run_timer_op ops st"

datatype exec_result = UseAfterFree | Done tstate

fun next_timer :: "u64 \<Rightarrow> timer_event list \<Rightarrow> u64 option" where
  "next_timer ref [] = None"
| "next_timer ref (t # ts) =
     (if tm_ref t = ref then (case ts of [] \<Rightarrow> None | t2 # _ \<Rightarrow> Some (tm_ref t2))
      else next_timer ref ts)"

text \<open>What happens to the current timer after its callback.\<close>

definition settle_timer :: "timer_event \<Rightarrow> tstate \<Rightarrow> tstate" where
  "settle_timer tep st =
     (if tm_reps tep \<noteq> TIMER_REPEAT \<and> tm_reps tep - 1 = TIMER_DEAD
      then destroy_timer (tm_ref tep) st
      else
        let reps = (if tm_reps tep \<noteq> TIMER_REPEAT then tm_reps tep - 1 else tm_reps tep);
            nxt = tm_next tep + tm_interval tep;
            nxt = (if nxt < ts_now st then ts_now st + tm_interval tep else nxt);
            tep' = tep\<lparr>tm_reps := reps, tm_next := nxt\<rparr>
        in st\<lparr>ts_timers := insert_timer tep' (remove_timer (tm_ref tep) (ts_timers st))\<rparr>)"

type_synonym timer_behaviour = "nat \<Rightarrow> nat \<Rightarrow> tstate \<Rightarrow> timer_op list"

partial_function (option) exec_loop ::
  "timer_behaviour \<Rightarrow> (nat \<Rightarrow> int) \<Rightarrow> nat \<Rightarrow> tstate \<Rightarrow> u64 option \<Rightarrow> exec_result option"
where
  "exec_loop beh clock k st cur =
     (case cur of
        None \<Rightarrow> Some (Done st)
      | Some ref \<Rightarrow>
          (case find_timer st ref of
             None \<Rightarrow> Some UseAfterFree
           | Some tep \<Rightarrow>
               if tm_next tep \<le> ts_now st then
                 (let st1 = run_timer_ops (beh (tm_callback tep) (tm_udata tep) st) st
                  in case find_timer st1 ref of
                       None \<Rightarrow> Some UseAfterFree
                     | Some tep1 \<Rightarrow>
                         exec_loop beh clock (Suc k) ((settle_timer tep1 st1)\<lparr>ts_now := clock k\<rparr>)
                           (next_timer ref (ts_timers st)))
               else Some (Done st)))"

definition exec_timers :: "timer_behaviour \<Rightarrow> (nat \<Rightarrow> int) \<Rightarrow> tstate \<Rightarrow> exec_result option" where
  "exec_timers beh clock st =
     exec_loop beh clock 1 (st\<lparr>ts_now := clock 0\<rparr>)
       (case ts_timers st of [] \<Rightarrow> None | t # _ \<Rightarrow> Some (tm_ref t))"

definition exec_timers_return :: "tstate \<Rightarrow> int" where
  "exec_timers_return st =
     (case ts_timers st of [] \<Rightarrow> 0 | t # _ \<Rightarrow> tm_next t - ts_now st)"

section \<open>The invariant\<close>

definition in_order :: "timer_event list \<Rightarrow> bool" where
  "in_order ts \<longleftrightarrow> sorted (map tm_next ts) \<and> distinct (map tm_ref ts)"

text \<open>
  The list is sorted by the time of execution, references are unique, and before the counter has
  rolled over they are all below it.
\<close>

definition timers_ok :: "tstate \<Rightarrow> bool" where
  "timers_ok st \<longleftrightarrow>
     in_order (ts_timers st)
     \<and> (\<not> timer_rollover st \<longrightarrow> (\<forall>t \<in> set (ts_timers st). tm_ref t < timer_refcnt st))"

lemma insert_timer_set [simp]: "set (insert_timer tm ts) = insert tm (set ts)"
  by (induction ts) auto

lemma insert_timer_length [simp]: "length (insert_timer tm ts) = Suc (length ts)"
  by (induction ts) auto

lemma insert_timer_order:
  "in_order ts \<Longrightarrow> tm_ref tm \<notin> tm_ref ` set ts \<Longrightarrow> in_order (insert_timer tm ts)"
  by (induction ts) (fastforce simp: in_order_def)+

lemma remove_timer_set: "set (remove_timer ref ts) \<subseteq> set ts"
  by (induction ts) auto

lemma remove_timer_order: "in_order ts \<Longrightarrow> in_order (remove_timer ref ts)"
  by (induction ts) (use remove_timer_set in \<open>fastforce simp: in_order_def\<close>)+

lemma remove_timer_gone: "in_order ts \<Longrightarrow> ref \<notin> tm_ref ` set (remove_timer ref ts)"
  by (induction ts) (auto simp: in_order_def)

lemma remove_timer_split:
  "ref \<notin> tm_ref ` set pre \<Longrightarrow> tm_ref tep = ref \<Longrightarrow> remove_timer ref (pre @ tep # ts) = pre @ ts"
  by (induction pre) auto

lemma find_timer_Some: "find_timer st ref = Some t \<Longrightarrow> t \<in> set (ts_timers st) \<and> tm_ref t = ref"
  by (auto simp: find_timer_def find_Some_iff in_set_conv_nth)

lemma find_timer_None: "find_timer st ref = None \<longleftrightarrow> ref \<notin> tm_ref ` set (ts_timers st)"
  by (auto simp: find_timer_def find_None_iff)

lemma destroy_ok: "timers_ok st \<Longrightarrow> timers_ok (destroy_timer ref st)"
  using remove_timer_set [of ref "ts_timers st"]
  by (auto simp: timers_ok_def destroy_timer_def remove_timer_order split: option.split)

lemma adjust_ok: "timers_ok st \<Longrightarrow> timers_ok (adjust_timer ref reps interval st)"
  using remove_timer_set [of ref "ts_timers st"] remove_timer_gone [of "ts_timers st" ref]
  by (auto simp: timers_ok_def adjust_timer_def Let_def intro!: insert_timer_order remove_timer_order
      dest!: find_timer_Some split: option.split)

section \<open>References\<close>

lemma unused_ref_search:
  "(\<forall>i < n. find_timer st (ref + of_nat i) \<noteq> None) \<or>
   (\<exists>i < n. find_timer st (ref + of_nat i) = None \<and> unused_ref st ref = Some (ref + of_nat i))"
proof (induction n arbitrary: ref)
  case (Suc n)
  show ?case
  proof (cases "find_timer st ref")
    case None
    then show ?thesis by (intro disjI2 exI [of _ 0]) (simp add: unused_ref.simps)
  next
    case (Some t)
    then have u: "unused_ref st ref = unused_ref st (ref + 1)" by (simp add: unused_ref.simps)
    from Suc.IH [of "ref + 1"] show ?thesis
    proof
      assume "\<forall>i < n. find_timer st (ref + 1 + of_nat i) \<noteq> None"
      then have "find_timer st (ref + of_nat i) \<noteq> None" if "i < Suc n" for i
        using that Some by (cases i) (auto simp: algebra_simps)
      then show ?thesis by blast
    next
      assume "\<exists>i < n. find_timer st (ref + 1 + of_nat i) = None
          \<and> unused_ref st (ref + 1) = Some (ref + 1 + of_nat i)"
      then obtain i where "i < n" "find_timer st (ref + of_nat (Suc i)) = None"
        "unused_ref st ref = Some (ref + of_nat (Suc i))" using u by (auto simp: algebra_simps)
      then show ?thesis by blast
    qed
  qed
qed simp

lemma unused_ref_total:
  assumes "length (ts_timers st) < 2 ^ 64 - 1"
  shows "\<exists>r. unused_ref st ref = Some r \<and> find_timer st r = None"
proof (rule ccontr)
  assume no: "\<not> ?thesis"
  let ?n = "Suc (length (ts_timers st))"
  have "find_timer st (ref + of_nat i) \<noteq> None" if "i < ?n" for i
    using unused_ref_search [of ?n st ref] no that by metis
  then have "(\<lambda>i. ref + of_nat i) ` {..<?n} \<subseteq> tm_ref ` set (ts_timers st)"
    by (auto simp: find_timer_None)
  then have "card ((\<lambda>i. ref + of_nat i :: u64) ` {..<?n}) \<le> card (set (ts_timers st))"
    by (meson List.finite_set card_image_le card_mono finite_imageI order_trans)
  moreover have "inj_on (\<lambda>i. ref + of_nat i :: u64) {..<?n}"
    using assms by (auto simp: inj_on_def word_of_nat_eq_iff take_bit_nat_eq_self)
  ultimately show False
    using card_length [of "ts_timers st"] by (simp add: card_image)
qed

lemma alloc_rolled_ok:
  assumes "length (ts_timers st) < 2 ^ 64 - 1"
  shows "\<exists>ref st'. alloc_rolled st = Some (ref, st') \<and> find_timer st ref = None
    \<and> ts_timers st' = ts_timers st \<and> timer_rollover st' = timer_rollover st \<and> ts_now st' = ts_now st"
  using unused_ref_total [OF assms, of "timer_refcnt st"] by (auto simp: alloc_rolled_def)

lemma alloc_ref_ok:
  assumes "timers_ok st" "length (ts_timers st) < 2 ^ 64 - 1"
  shows "\<exists>ref st'. alloc_ref st = Some (ref, st') \<and> find_timer st ref = None
    \<and> ts_timers st' = ts_timers st \<and> ts_now st' = ts_now st \<and> timers_ok st'
    \<and> (timer_rollover st' \<or> (\<not> timer_rollover st \<and> ref < timer_refcnt st' \<and> ref \<noteq> TIMER_INVALID))"
proof (cases "timer_rollover st")
  case True
  then show ?thesis using alloc_rolled_ok [OF assms(2)] assms(1)
    by (auto simp: alloc_ref_def timers_ok_def)
next
  case False
  define ref where "ref = timer_refcnt st"
  define st1 where "st1 = st\<lparr>timer_refcnt := ref + 1, timer_rollover := (ref + 1 = 0)\<rparr>"
  have below: "\<forall>t \<in> set (ts_timers st). tm_ref t < ref"
    using assms(1) False by (simp add: timers_ok_def ref_def)
  have alloc: "alloc_ref st = (if ref = TIMER_INVALID then alloc_rolled st1 else Some (ref, st1))"
    using False by (simp add: alloc_ref_def Let_def ref_def st1_def)
  show ?thesis
  proof (cases "ref = TIMER_INVALID")
    case True
    then have roll: "timer_rollover st1" by (simp add: st1_def TIMER_INVALID_def)
    have find: "find_timer st1 r = find_timer st r" for r by (simp add: find_timer_def st1_def)
    have "length (ts_timers st1) < 2 ^ 64 - 1" using assms(2) by (simp add: st1_def)
    from alloc_rolled_ok [OF this] obtain r st2 where r: "alloc_rolled st1 = Some (r, st2)"
      "find_timer st r = None" "ts_timers st2 = ts_timers st1" "timer_rollover st2"
      "ts_now st2 = ts_now st1" unfolding find using roll by blast
    have "alloc_ref st = Some (r, st2)" using alloc True r(1) by simp
    moreover have "timers_ok st2" using r(3,4) assms(1) by (simp add: timers_ok_def st1_def)
    ultimately show ?thesis using r by (auto simp: st1_def)
  next
    case inv: False
    have "ref + 1 \<noteq> 0"
    proof
      assume "ref + 1 = 0"
      then have "ref = - 1" by (simp add: eq_neg_iff_add_eq_0)
      then show False using inv by (simp add: TIMER_INVALID_def)
    qed
    then have lt: "ref < ref + 1" 
      using unatSuc [of ref] by (simp add: word_less_nat_alt add.commute)
    then have "\<forall>t \<in> set (ts_timers st). tm_ref t < ref + 1" using below by fastforce
    moreover have "find_timer st ref = None" using below by (auto simp: find_timer_None)
    ultimately show ?thesis
      using alloc inv assms(1) lt False by (simp add: timers_ok_def st1_def)
  qed
qed

lemma create_timer_ok:
  assumes "timers_ok st" "length (ts_timers st) < 2 ^ 64 - 1"
  shows "\<exists>ref st' tm. create_timer rep interval cb ud st = Some (ref, st') \<and> timers_ok st'
    \<and> find_timer st ref = None \<and> (timer_rollover st' \<or> ref \<noteq> TIMER_INVALID)
    \<and> ts_timers st' = insert_timer tm (ts_timers st) \<and> tm_ref tm = ref
    \<and> tm_next tm = ts_now st + interval \<and> tm_callback tm = cb \<and> tm_udata tm = ud"
proof -
  obtain ref st1 where a: "alloc_ref st = Some (ref, st1)" "find_timer st ref = None"
    "ts_timers st1 = ts_timers st" "ts_now st1 = ts_now st" "timers_ok st1"
    "timer_rollover st1 \<or> (\<not> timer_rollover st \<and> ref < timer_refcnt st1 \<and> ref \<noteq> TIMER_INVALID)"
    using alloc_ref_ok [OF assms] by blast
  let ?tm = "\<lparr>tm_ref = ref, tm_reps = (if rep < 0 then TIMER_REPEAT else rep), tm_interval = interval,
    tm_next = ts_now st + interval, tm_udata = ud, tm_callback = cb\<rparr>"
  let ?st' = "st1\<lparr>ts_timers := insert_timer ?tm (ts_timers st)\<rparr>"
  have "in_order (insert_timer ?tm (ts_timers st))"
    using a(2) assms(1) by (intro insert_timer_order) (simp_all add: timers_ok_def find_timer_None)
  then have "timers_ok ?st'" using a(3,5,6) by (auto simp: timers_ok_def)
  then show ?thesis using a by (auto simp: create_timer_def Let_def intro!: exI [of _ ?tm])
qed

section \<open>Running the due timers\<close>

definition due :: "int \<Rightarrow> timer_event \<Rightarrow> nat" where
  "due now t = nat (now - tm_next t + 1)"

definition due_sum :: "int \<Rightarrow> timer_event list \<Rightarrow> nat" where
  "due_sum now ts = sum_list (map (due now) ts)"

lemma due_sum_insert: "due_sum now (insert_timer tm ts) = due now tm + due_sum now ts"
  by (induction ts) (auto simp: due_sum_def)

lemma insert_timer_split:
  "\<exists>pre' rs'. insert_timer tm (pre @ r # rs) = pre' @ r # rs' \<and> set pre' \<subseteq> insert tm (set pre)"
proof (induction pre)
  case Nil
  show ?case
    by (cases "tm_next r > tm_next tm") (auto intro: exI [of _ "[tm]"] exI [of _ "[]"])
next
  case (Cons p pre)
  then obtain pre' rs' where i: "insert_timer tm (pre @ r # rs) = pre' @ r # rs'"
    "set pre' \<subseteq> insert tm (set pre)" by blast
  show ?case
  proof (cases "tm_next p > tm_next tm")
    case True
    then show ?thesis by (intro exI [of _ "tm # p # pre"] exI [of _ rs]) auto
  next
    case False
    then show ?thesis using i by (intro exI [of _ "p # pre'"] exI [of _ rs']) auto
  qed
qed

lemma next_timer_split:
  "distinct (map tm_ref (pre @ tep # ts)) \<Longrightarrow>
     next_timer (tm_ref tep) (pre @ tep # ts) = (case ts of [] \<Rightarrow> None | r # _ \<Rightarrow> Some (tm_ref r))"
  by (induction pre) auto

lemma find_timer_split:
  "ts_timers st = pre @ tep # ts \<Longrightarrow> distinct (map tm_ref (ts_timers st)) \<Longrightarrow>
     find_timer st (tm_ref tep) = Some tep"
proof -
  assume l: "ts_timers st = pre @ tep # ts" and d: "distinct (map tm_ref (ts_timers st))"
  have "find (\<lambda>t. tm_ref t = tm_ref tep) (pre @ tep # ts) = Some tep"
    using d unfolding l by (induction pre) auto
  then show ?thesis by (simp add: find_timer_def l)
qed

abbreviation quiet :: timer_behaviour where
  "quiet \<equiv> \<lambda>_ _ _. []"

definition cur_ref :: "timer_event list \<Rightarrow> u64 option" where
  "cur_ref ts = (case ts of [] \<Rightarrow> None | t # _ \<Rightarrow> Some (tm_ref t))"

lemma exec_loop_quiet:
  assumes "in_order (ts_timers st)" "ts_timers st = pre @ ts" "ts_now st = now"
    and "\<forall>t \<in> set pre. now \<le> tm_next t" "\<forall>t \<in> set (ts_timers st). 0 < tm_interval t"
  shows "\<exists>st'. exec_loop quiet (\<lambda>_. now) k st (cur_ref ts) = Some (Done st')
    \<and> in_order (ts_timers st') \<and> ts_now st' = now \<and> (\<forall>t \<in> set (ts_timers st'). now \<le> tm_next t)
    \<and> timer_refcnt st' = timer_refcnt st \<and> timer_rollover st' = timer_rollover st
    \<and> tm_ref ` set (ts_timers st') \<subseteq> tm_ref ` set (ts_timers st)"
  using assms
proof (induction "due_sum now (ts_timers st)" arbitrary: st pre ts k rule: less_induct)
  case less
  show ?case
  proof (cases ts)
    case Nil
    then show ?thesis using less.prems by (simp add: cur_ref_def exec_loop.simps)
  next
    case (Cons tep rest)
    have l: "ts_timers st = pre @ tep # rest" using less.prems(2) Cons by simp
    have d: "distinct (map tm_ref (ts_timers st))" using less.prems(1) by (simp add: in_order_def)
    have find: "find_timer st (tm_ref tep) = Some tep" by (rule find_timer_split [OF l d])
    show ?thesis
    proof (cases "tm_next tep \<le> now")
      case False
      then have "exec_loop quiet (\<lambda>_. now) k st (cur_ref ts) = Some (Done st)"
        using find less.prems(3) Cons by (simp add: cur_ref_def exec_loop.simps)
      moreover have "now \<le> tm_next t" if "t \<in> set (ts_timers st)" for t
        using that less.prems(1,4) False unfolding l
        by (fastforce simp: in_order_def sorted_append)
      ultimately show ?thesis using less.prems(1,3) by simp
    next
      case True
      define st1 where "st1 = (settle_timer tep st)\<lparr>ts_now := now\<rparr>"
      have rm: "remove_timer (tm_ref tep) (ts_timers st) = pre @ rest"
        using d unfolding l by (intro remove_timer_split) auto
      have step: "exec_loop quiet (\<lambda>_. now) k st (cur_ref ts)
          = exec_loop quiet (\<lambda>_. now) (Suc k) st1 (cur_ref rest)"
        using find True less.prems(3) Cons d
        by (simp add: cur_ref_def exec_loop.simps [of _ _ k] run_timer_ops_def l next_timer_split st1_def)
      have int: "0 < tm_interval tep" using less.prems(5) l by simp
      have old: "due_sum now (ts_timers st) = due now tep + due_sum now (pre @ rest)" "0 < due now tep"
        using True by (simp_all add: l due_sum_def due_def)
      have keep: "timer_refcnt st1 = timer_refcnt st" "timer_rollover st1 = timer_rollover st" "ts_now st1 = now"
        by (simp_all add: st1_def settle_timer_def destroy_timer_def find Let_def)
      obtain pre' ts' where new: "ts_timers st1 = pre' @ ts'" "cur_ref ts' = cur_ref rest"
        "\<forall>t \<in> set pre'. now \<le> tm_next t" "in_order (ts_timers st1)"
        "\<forall>t \<in> set (ts_timers st1). 0 < tm_interval t"
        "due_sum now (ts_timers st1) < due_sum now (ts_timers st)"
        "tm_ref ` set (ts_timers st1) \<subseteq> tm_ref ` set (ts_timers st)"
      proof (cases "tm_reps tep \<noteq> TIMER_REPEAT \<and> tm_reps tep - 1 = TIMER_DEAD")
        case True
        then have "ts_timers st1 = pre @ rest"
          by (simp add: st1_def settle_timer_def destroy_timer_def find rm)
        moreover have "in_order (pre @ rest)" using remove_timer_order [OF less.prems(1)] rm by metis
        ultimately show ?thesis using that [of pre rest] less.prems(4,5) old l by auto
      next
        case False
        define nxt where "nxt = (if tm_next tep + tm_interval tep < now then now + tm_interval tep
          else tm_next tep + tm_interval tep)"
        define tep' where "tep' = tep\<lparr>tm_reps := (if tm_reps tep \<noteq> TIMER_REPEAT then tm_reps tep - 1
          else tm_reps tep), tm_next := nxt\<rparr>"
        have st1: "ts_timers st1 = insert_timer tep' (pre @ rest)"
          unfolding st1_def settle_timer_def if_not_P [OF False]
          using less.prems(3) by (simp add: Let_def rm tep'_def nxt_def)
        have nx: "now \<le> tm_next tep'" "due now tep' < due now tep"
          using int True by (auto simp: tep'_def nxt_def due_def)
        have t': "tm_ref tep' = tm_ref tep" "tm_interval tep' = tm_interval tep"
          by (simp_all add: tep'_def)
        have ord: "in_order (insert_timer tep' (pre @ rest))"
          using remove_timer_order [OF less.prems(1), of "tm_ref tep"]
            remove_timer_gone [OF less.prems(1), of "tm_ref tep"] t' rm
          by (intro insert_timer_order) auto
        have sum: "due_sum now (ts_timers st1) < due_sum now (ts_timers st)"
          using nx(2) old by (simp add: st1 due_sum_insert)
        have sets: "\<forall>t \<in> set (ts_timers st1). 0 < tm_interval t"
          "tm_ref ` set (ts_timers st1) \<subseteq> tm_ref ` set (ts_timers st)"
          using less.prems(5) int t' by (auto simp: st1 l)
        show ?thesis
        proof (cases rest)
          case Nil
          show ?thesis
            using that [of "insert_timer tep' (pre @ rest)" "[]"] Nil st1 less.prems(4) nx(1) ord sum sets
            by (auto simp: cur_ref_def)
        next
          case (Cons r rs)
          obtain pre' rs' where sp: "insert_timer tep' (pre @ r # rs) = pre' @ r # rs'"
            "set pre' \<subseteq> insert tep' (set pre)" using insert_timer_split by blast
          then have "\<forall>t \<in> set pre'. now \<le> tm_next t" using less.prems(4) nx(1) by auto
          then show ?thesis
            using that [of pre' "r # rs'"] sp(1) Cons st1 ord sum sets by (auto simp: cur_ref_def)
        qed
      qed
      from less.hyps [OF new(6,4,1) keep(3) new(3,5), of "Suc k"] obtain st' where
        st': "exec_loop quiet (\<lambda>_. now) (Suc k) st1 (cur_ref ts') = Some (Done st')"
          "in_order (ts_timers st')" "ts_now st' = now" "\<forall>t \<in> set (ts_timers st'). now \<le> tm_next t"
          "timer_refcnt st' = timer_refcnt st1" "timer_rollover st' = timer_rollover st1"
          "tm_ref ` set (ts_timers st') \<subseteq> tm_ref ` set (ts_timers st1)" by blast
      have "exec_loop quiet (\<lambda>_. now) k st (cur_ref ts) = Some (Done st')"
        using st'(1) unfolding step new(2) .
      moreover have "tm_ref ` set (ts_timers st') \<subseteq> tm_ref ` set (ts_timers st)"
        using st'(7) new(7) by (rule subset_trans)
      ultimately show ?thesis using st'(2-6) keep(1,2) by (intro exI [of _ st'] conjI) simp_all
    qed
  qed
qed

section \<open>Properties\<close>

text \<open>Creating a timer returns (the search for an unused reference ends), gives a reference no
  live timer has, keeps the list in order and the references unique, and before the counter has
  rolled over the reference is a valid one.\<close>

theorem create_timer_fresh:
  assumes "timers_ok st" "length (ts_timers st) < 2 ^ 64 - 1"
  shows "\<exists>ref st'. create_timer rep interval cb ud st = Some (ref, st') \<and> timers_ok st'
    \<and> find_timer st ref = None \<and> find_timer st' ref \<noteq> None
    \<and> (timer_rollover st' \<or> ref \<noteq> TIMER_INVALID)"
proof -
  obtain ref st' tm where c: "create_timer rep interval cb ud st = Some (ref, st')" "timers_ok st'"
    "find_timer st ref = None" "timer_rollover st' \<or> ref \<noteq> TIMER_INVALID"
    "ts_timers st' = insert_timer tm (ts_timers st)" "tm_ref tm = ref"
    using create_timer_ok [OF assms] by blast
  then have "find_timer st' ref \<noteq> None" by (simp add: find_timer_None)
  then show ?thesis using c by blast
qed

definition no_timers :: tstate where
  "no_timers = \<lparr>timer_refcnt = 0, timer_rollover = False, ts_now = 1000, ts_timers = []\<rparr>"

lemma no_timers_ok: "timers_ok no_timers"
  by (simp add: no_timers_def timers_ok_def in_order_def)

theorem create_timer_fresh_witness:
  "\<exists>ref st'. create_timer (-1) 60 1 2 no_timers = Some (ref, st') \<and> find_timer st' ref \<noteq> None"
  using create_timer_fresh [OF no_timers_ok] by (fastforce simp: no_timers_def)

text \<open>Destroying and adjusting a timer keep the list in order and the references unique, and a
  destroyed timer is gone.\<close>

theorem timer_order_preserved:
  assumes "timers_ok st"
  shows "timers_ok (destroy_timer ref st) \<and> find_timer (destroy_timer ref st) ref = None
    \<and> timers_ok (adjust_timer ref reps interval st)"
  using assms destroy_ok adjust_ok remove_timer_gone [of "ts_timers st" ref]
  by (auto simp: find_timer_None destroy_timer_def timers_ok_def split: option.split)

theorem timer_order_preserved_witness: "timers_ok (adjust_timer 3 0 10 no_timers)"
  using timer_order_preserved [OF no_timers_ok] by blast



definition two_timers :: "nat \<Rightarrow> tstate" where
  "two_timers cb = \<lparr>timer_refcnt = 2, timer_rollover = False, ts_now = 0,
     ts_timers = [\<lparr>tm_ref = 0, tm_reps = 0, tm_interval = 5, tm_next = 5, tm_udata = 0, tm_callback = cb\<rparr>,
                  \<lparr>tm_ref = 1, tm_reps = 0, tm_interval = 9, tm_next = 9, tm_udata = 0, tm_callback = 0\<rparr>]\<rparr>"

text \<open>A callback that destroys the timer behind its own in the list makes
  \<^verbatim>\<open>exec_timers\<close> use the freed timer.\<close>

theorem exec_timers_freed_neighbour:
  assumes "5 \<le> now" "cb \<noteq> 0"
  shows "exec_timers (\<lambda>c _ _. if c = cb then [DestroyTimer 1] else []) (\<lambda>_. now) (two_timers cb)
    = Some UseAfterFree"
  using assms
  by (simp add: exec_timers_def exec_loop.simps two_timers_def find_timer_def run_timer_ops_def
      run_timer_op_def destroy_timer_def settle_timer_def TIMER_REPEAT_def TIMER_DEAD_def)

theorem exec_timers_freed_neighbour_witness:
  "exec_timers (\<lambda>c _ _. if c = 7 then [DestroyTimer 1] else []) (\<lambda>_. 6) (two_timers 7)
    = Some UseAfterFree"
  using exec_timers_freed_neighbour [of 6 7] by simp

end
