(* ===== verification/IrcString.thy ===== *)
theory IrcString
  imports HashTable
begin

text \<open>
  The character maps of \<^verbatim>\<open>modules/ircd/ircstring.c\<close>: which characters a name may hold and
  which of them are the same, and the comparisons through a map. Characters are unsigned here, so
  a \<^verbatim>\<open>char[256]\<close> is a list of 256 characters indexed by \<open>uchar\<close>. What the code does
  outside its arrays or with a null pointer is the value \<open>None\<close>.
\<close>

section \<open>Building a map\<close>

definition is_digit_in :: "nat \<Rightarrow> nat \<Rightarrow> char \<Rightarrow> bool" where
  "is_digit_in lo hi c \<longleftrightarrow> lo \<le> uchar c \<and> uchar c \<le> hi"

lemma backslash_nonempty: "chd s = CHR 0x5C \<Longrightarrow> 0 < length s"
  by (cases s) auto

text \<open>First pass: \<^verbatim>\<open>\ddd\<close> becomes the character of that decimal code.\<close>

function translate_escapes :: "cstring \<Rightarrow> cstring" where
  "translate_escapes s =
     (if chd s = NUL then []
      else if chd s = CHR 0x5C \<and> is_digit_in 48 50 (chd (tl s))
              \<and> is_digit_in 48 57 (chd (tl (tl s))) \<and> is_digit_in 48 57 (chd (tl (tl (tl s))))
      then char_of ((uchar (chd (tl s)) - 48) * 100 + (uchar (chd (tl (tl s))) - 48) * 10
             + (uchar (chd (tl (tl (tl s)))) - 48)) # translate_escapes (drop 4 s)
      else chd s # translate_escapes (tl s))"
  by pat_completeness auto
termination by (relation "measure length") (auto dest: backslash_nonempty)

text \<open>
  Second pass: ranges, up to a NUL that an escape may have produced. \<open>Some None\<close> is the
  return value 0.
\<close>

function translate_ranges :: "cstring \<Rightarrow> cstring option" where
  "translate_ranges s =
     (if chd s = NUL then Some []
      else if chd (tl s) = CHR ''-'' \<and> chd (tl (tl s)) \<noteq> NUL then
        (if uchar (chd (tl (tl s))) < uchar (chd s) then None
         else map_option (\<lambda>r. map char_of [uchar (chd s)..<uchar (chd (tl (tl s)))] @ chd (tl (tl s)) # r)
                (translate_ranges (tl (tl (tl s)))))
      else map_option (\<lambda>r. chd s # r) (translate_ranges (tl s)))"
  by pat_completeness auto
termination by (relation "measure length") (auto simp: neq_Nil_conv dest!: chd_not_NUL)

declare translate_escapes.simps [simp del] translate_ranges.simps [simp del]

definition istr_translate :: "cstring \<Rightarrow> nat \<Rightarrow> cstring option option" where
  "istr_translate from len =
     (case translate_ranges (translate_escapes (take len from)) of
        None \<Rightarrow> Some None
      | Some to \<Rightarrow> if length to < 256 then Some (Some to) else None)"

fun map_left :: "cstring \<Rightarrow> cstring \<Rightarrow> cstring" where
  "map_left m [] = m"
| "map_left m (c # cs) = map_left (m[uchar c := c]) cs"

fun map_right :: "cstring \<Rightarrow> cstring \<Rightarrow> cstring \<Rightarrow> cstring" where
  "map_right m left [] = m"
| "map_right m left (c # cs) = map_right (m[uchar c := chd left]) (tl left) cs"

text \<open>
  \<^verbatim>\<open>istr_map\<close>: \<open>None\<close> when the string has no blank (\<^verbatim>\<open>s - string\<close> is then taken of
  a null pointer) or a translation does not fit its array, \<open>Some None\<close> for the return value 0.
\<close>

definition istr_map :: "cstring \<Rightarrow> cstring option option" where
  "istr_map string =
     (case ith_strchr string (CHR '' '') of
        None \<Rightarrow> None
      | Some s \<Rightarrow>
          (case istr_translate string (length string - length s) of
             None \<Rightarrow> None
           | Some None \<Rightarrow> Some None
           | Some (Some left) \<Rightarrow>
               (case istr_translate (tl s) (ith_strlen (tl s)) of
                  None \<Rightarrow> None
                | Some None \<Rightarrow> Some None
                | Some (Some right) \<Rightarrow>
                    if length left < length right then Some None
                    else Some (Some (map_right (map_left (replicate 256 NUL) left) left right)))))"

section \<open>Using a map\<close>

abbreviation mapped :: "cstring \<Rightarrow> char \<Rightarrow> char" where
  "mapped m c \<equiv> m ! uchar c"

fun istr_okay :: "cstring \<Rightarrow> cstring \<Rightarrow> bool" where
  "istr_okay m [] = True"
| "istr_okay m (c # s) = (if mapped m c = NUL then False else istr_okay m s)"

text \<open>\<open>None\<close>: the second string is read past its terminator.\<close>

fun istrcmp :: "cstring \<Rightarrow> cstring \<Rightarrow> cstring \<Rightarrow> int option" where
  "istrcmp m one two =
     (if mapped m (chd one) = mapped m (chd two) then
        (if chd one = NUL then Some 0
         else if two = [] then None
         else istrcmp m (tl one) (tl two))
      else Some (int (uchar (chd one)) - int (uchar (chd two))))"

fun istrncmp_loop :: "cstring \<Rightarrow> cstring \<Rightarrow> cstring \<Rightarrow> int \<Rightarrow> int option" where
  "istrncmp_loop m one two len =
     (if mapped m (chd one) \<noteq> mapped m (chd two)
      then Some (int (uchar (chd one)) - int (uchar (chd two)))
      else if chd one = NUL then Some 0
      else if len - 1 \<noteq> 0 then
        (if two = [] then None else istrncmp_loop m (tl one) (tl two) (len - 1))
      else Some 0)"

definition istrncmp :: "cstring \<Rightarrow> cstring \<Rightarrow> cstring \<Rightarrow> int \<Rightarrow> int option" where
  "istrncmp m one two len = (if len = 0 then Some 0 else istrncmp_loop m one two len)"

declare istrcmp.simps [simp del] istrncmp_loop.simps [simp del]

text \<open>The map of nicknames that the server starts with.\<close>

definition default_nick_map_string :: cstring where
  "default_nick_map_string = ''A-Z0-9'' @ [CHR 0x60] @ ''^_[{]}'' @ [CHR 0x5C] @ ''|- a-z''"

definition nick_map :: cstring where
  "nick_map = (case istr_map default_nick_map_string of Some (Some m) \<Rightarrow> m | _ \<Rightarrow> [])"

section \<open>Comparison\<close>

lemma istr_okay_iff: "istr_okay m s \<longleftrightarrow> (\<forall>c \<in> set s. mapped m c \<noteq> NUL)"
  by (induction s) auto

text \<open>
  A map sends NUL to NUL; then two valid names are compared without reading past either, and
  they are equal when their images are.
\<close>

lemma istrcmp_okay:
  "mapped m NUL = NUL \<Longrightarrow> c_str a \<Longrightarrow> c_str b \<Longrightarrow> istr_okay m a \<Longrightarrow> istr_okay m b \<Longrightarrow>
     \<exists>r. istrcmp m a b = Some r \<and> (r = 0 \<longleftrightarrow> map (mapped m) a = map (mapped m) b)"
proof (induction a arbitrary: b)
  case Nil
  then show ?case by (cases b) (auto simp: istrcmp.simps)
next
  case (Cons x a)
  then show ?case
  proof (cases b)
    case Nil
    then show ?thesis using Cons.prems by (subst istrcmp.simps) auto
  next
    case (Cons y b')
    then obtain r where r: "istrcmp m a b' = Some r" "r = 0 \<longleftrightarrow> map (mapped m) a = map (mapped m) b'"
      using Cons.IH [of b'] Cons.prems by (auto split: if_splits)
    show ?thesis
    proof (cases "mapped m x = mapped m y")
      case True
      then have "istrcmp m (x # a) b = Some r"
        using r(1) Cons Cons.prems by (subst istrcmp.simps) simp
      then show ?thesis using r(2) True Cons by simp
    next
      case False
      then have "istrcmp m (x # a) b = Some (int (uchar x) - int (uchar y))"
        using Cons by (subst istrcmp.simps) simp
      then show ?thesis using False Cons by auto
    qed
  qed
qed

lemma istrcmp_unmapped:
  "mapped m NUL = NUL \<Longrightarrow> c_str a \<Longrightarrow> mapped m c = NUL \<Longrightarrow> istrcmp m a (a @ c # rest) = Some 0"
  by (induction a) (auto simp: istrcmp.simps)

section \<open>Nicknames and the client table\<close>

definition NICKLEN :: nat where "NICKLEN = 30"

text \<open>
  \<^verbatim>\<open>nickcmp\<close>, the comparison function of the client table. For valid nicknames the
  \<open>None\<close> case does not arise (lemma \<open>istrcmp_okay\<close>).
\<close>

definition nickcmp :: "cstring \<Rightarrow> cstring \<Rightarrow> nat \<Rightarrow> int" where
  "nickcmp one two len = (case istrcmp nick_map one two of Some r \<Rightarrow> r | None \<Rightarrow> 0)"

definition nick_ok :: "cstring \<Rightarrow> bool" where
  "nick_ok s \<longleftrightarrow> short_str s \<and> istr_okay nick_map s"

lemma nick_map_NUL: "mapped nick_map NUL = NUL"
proof -
  have "nick_map ! 0 = NUL" by code_simp
  then show ?thesis by simp
qed

lemma nick_map_codes:
  "map uchar nick_map = map (\<lambda>n. if 97 \<le> n \<and> n \<le> 122 then n - 32
     else if n = 45 \<or> 48 \<le> n \<and> n \<le> 57 \<or> 65 \<le> n \<and> n \<le> 96 \<or> 123 \<le> n \<and> n \<le> 125 then n
     else 0) [0..<256]"
  by code_simp

lemma nick_map_lower:
  assumes "mapped nick_map c \<noteq> NUL"
  shows "tolower (mapped nick_map c) = tolower c"
proof -
  let ?n = "uchar c"
  have n: "?n < 256" by simp
  have "length nick_map = 256" using arg_cong [OF nick_map_codes, of length] by simp
  then have "uchar (mapped nick_map c) = map uchar nick_map ! ?n" using n by simp
  also have "\<dots> = (if 97 \<le> ?n \<and> ?n \<le> 122 then ?n - 32
     else if ?n = 45 \<or> 48 \<le> ?n \<and> ?n \<le> 57 \<or> 65 \<le> ?n \<and> ?n \<le> 96 \<or> 123 \<le> ?n \<and> ?n \<le> 125 then ?n
     else 0)" unfolding nick_map_codes using n by simp
  finally have m: "uchar (mapped nick_map c) = \<dots>" .
  have "uchar (mapped nick_map c) \<noteq> 0" using assms by simp
  then have "uchar (tolower (mapped nick_map c)) = uchar (tolower c)"
    unfolding uchar_tolower m by (auto split: if_splits)
  then show ?thesis by simp
qed

text \<open>A map that sends no character to one of another letter makes equal names equal up to case.\<close>

lemma istrcmp_nocase:
  assumes "mapped m NUL = NUL" "\<And>c. mapped m c \<noteq> NUL \<Longrightarrow> tolower (mapped m c) = tolower c"
    and "c_str a" "c_str b" "istr_okay m a" "istr_okay m b" "istrcmp m a b = Some 0"
  shows "same_nocase a b"
proof -
  have eq: "map (mapped m) a = map (mapped m) b"
    using assms istrcmp_okay [OF assms(1,3,4,5,6)] by simp
  have low: "map tolower (map (mapped m) s) = map tolower s" if "istr_okay m s" for s
    using that assms(2) by (auto simp: istr_okay_iff)
  show ?thesis unfolding same_nocase_def using low [OF assms(5)] low [OF assms(6)] eq by metis
qed

lemma nickcmp_nocase:
  assumes "nick_ok a" "nick_ok b" "nickcmp a b n = 0"
  shows "same_nocase a b"
  using assms istrcmp_nocase [OF nick_map_NUL nick_map_lower, of a b] istrcmp_okay [OF nick_map_NUL, of a b]
  by (auto simp: nick_ok_def short_str_def nickcmp_def)

lemma nick_hash_compat:
  assumes "nick_ok a" "nick_ok b" "nickcmp a b NICKLEN = 0"
    and "ht_keylen t = NICKLEN" "ht_flags t = HASH_FL_NOCASE OR HASH_FL_STRING"
  shows "hash_get_key_hash t a = hash_get_key_hash t b"
proof -
  have "same_nocase (take NICKLEN a) (take NICKLEN b)"
    using nickcmp_nocase [OF assms(1-3)] unfolding same_nocase_def by (metis take_map)
  moreover have "\<not> 12 dvd NICKLEN" "NICKLEN < 2 ^ 32" by (simp_all add: NICKLEN_def)
  ultimately show ?thesis using assms
    by (intro nocase_string_hash) (simp_all add: nick_ok_def)
qed

abbreviation client_table :: "('e \<Rightarrow> cstring) \<Rightarrow> 'e hashtable \<Rightarrow> bool" where
  "client_table key \<equiv> table_with key NICKLEN (HASH_FL_NOCASE OR HASH_FL_STRING) nickcmp nick_ok"

interpretation clients: keyed_table "client_table key" ht_ents
  "\<lambda>e. nick_ok (key e)" nick_ok "\<lambda>e k. nickcmp (key e) k NICKLEN = 0"
  "\<lambda>t. unat (ht_entries t) < 2 ^ 28" "hash_insert key" "\<lambda>t e. fst (hash_delete key t e)"
  "hash_find key" for key
  by (rule table_contract, rule nick_hash_compat)

section \<open>Properties\<close>

text \<open>C25: with the map the server starts with, the client table finds a client under a valid
  nickname exactly when one with an equal nickname is in it: names that \<^verbatim>\<open>nickcmp\<close> finds
  equal are in one bucket although the hash ignores the map.\<close>

theorem client_lookup:
  assumes "client_table key t" "nick_ok k"
  shows "(\<exists>e. hash_find key t k = Some e) \<longleftrightarrow> (\<exists>e \<in># ht_ents t. istrcmp nick_map (key e) k = Some 0)"
proof -
  have "nickcmp (key e) k NICKLEN = 0 \<longleftrightarrow> istrcmp nick_map (key e) k = Some 0" if "e \<in># ht_ents t" for e
  proof -
    have "nick_ok (key e)" using assms(1) that by (simp add: table_with_def)
    then show ?thesis using assms(2) istrcmp_okay [OF nick_map_NUL, of "key e" k]
      by (auto simp: nickcmp_def nick_ok_def short_str_def)
  qed
  then show ?thesis using clients.fnd_iff [OF assms] by blast
qed

theorem client_lookup_witness:
  "\<exists>t :: cstring hashtable. client_table id t \<and> hash_find id t ''Wd'' = None"
proof -
  let ?fl = "HASH_FL_NOCASE OR HASH_FL_STRING"
  obtain t :: "cstring hashtable" where t: "create_hash_table 128 NICKLEN ?fl nickcmp = Some t"
    "ht_wf id t" "ht_ents t = {#}" "ht_keylen t = NICKLEN" "ht_flags t = ?fl" "ht_cmp t = nickcmp"
    using create_ok [of 128 NICKLEN ?fl nickcmp id] by (auto simp: word_le_nat_alt)
  then have ct: "client_table id t" by (simp add: table_with_def)
  have "istr_okay nick_map ''Wd''" by code_simp
  then have "nick_ok ''Wd''" by (simp add: nick_ok_def short_str_def)
  then show ?thesis using client_lookup [OF ct] ct t(3) by auto
qed

text \<open>Two valid names are compared without leaving either string, and compare equal exactly
  when the map sends them to the same string.\<close>

theorem istrcmp_valid:
  assumes "mapped m NUL = NUL" "c_str a" "c_str b" "istr_okay m a" "istr_okay m b"
  shows "\<exists>r. istrcmp m a b = Some r \<and> (r = 0 \<longleftrightarrow> map (mapped m) a = map (mapped m) b)"
  by (rule istrcmp_okay [OF assms])

theorem istrcmp_valid_witness: "\<exists>r. istrcmp (replicate 256 NUL) [] [] = Some r"
  using istrcmp_valid [of "replicate 256 NUL" "[]" "[]"] by auto

text \<open>The comparison finds a name equal to itself followed by a character that is not in the
  map and anything behind it.\<close>

theorem istrcmp_ignores_invalid_tail:
  assumes "mapped m NUL = NUL" "c_str a" "mapped m c = NUL"
  shows "istrcmp m a (a @ c # rest) = Some 0"
  by (rule istrcmp_unmapped [OF assms])

theorem istrcmp_ignores_invalid_tail_witness: "istrcmp nick_map ''wd'' ''wd!x'' = Some 0"
proof -
  have "nick_map ! 33 = NUL" by code_simp
  then show ?thesis
    using istrcmp_ignores_invalid_tail [OF nick_map_NUL, of "''wd''" "CHR ''!''" "''x''"]
    by (simp add: uchar_def)
qed

text \<open>A map string without a blank makes \<^verbatim>\<open>istr_map\<close> compute the length of its left part
  from a null pointer, although it goes on to test the pointer as if the right part were optional.\<close>

theorem istr_map_without_blank:
  assumes "c_str s" "CHR '' '' \<notin> set s"
  shows "istr_map s = None"
proof -
  have "ith_strchr s (CHR '' '') = None"
    using assms by (induction s) (auto simp: ith_strchr.simps)
  then show ?thesis by (simp add: istr_map_def)
qed

theorem istr_map_without_blank_witness: "istr_map ''A-Za-z'' = None"
  using istr_map_without_blank [of "''A-Za-z''"] by simp

end
