(* ===== verification/DnsName.thy ===== *)
theory DnsName
  imports Prelude
begin

unbundle bit_operations_syntax

text \<open>
  Domain names in DNS messages: \<^verbatim>\<open>modules/dns/res_comp.c\<close>. A message is the list of the
  bytes of the memory that starts at \<^verbatim>\<open>msg\<close>, a pointer into it is an offset, and the end
  of the message \<^verbatim>\<open>eom\<close> is an offset that may lie before the end of that memory. \<open>None\<close>
  is an access outside the memory, \<open>Some None\<close> the return value -1.
\<close>

section \<open>The operations\<close>

definition INDIR_MASK :: nat where "INDIR_MASK = 0xc0"
definition DNS_MAX_SEGLEN :: nat where "DNS_MAX_SEGLEN = 63"

text \<open>The inner loop of \<^verbatim>\<open>dn_expand\<close>: \<open>n\<close> bytes of a label, escaping dots.\<close>

fun copy_label :: "char list \<Rightarrow> nat \<Rightarrow> nat \<Rightarrow> nat \<Rightarrow> nat \<Rightarrow> cstring \<Rightarrow> (nat \<times> cstring) option option" where
  "copy_label mem eom sz 0 cp out = Some (Some (cp, out))"
| "copy_label mem eom sz (Suc n) cp out =
     (case buf_get mem cp of
        None \<Rightarrow> None
      | Some c \<Rightarrow>
          if c = CHR ''.'' \<and> length out + n + 2 \<ge> sz then Some None
          else (let out' = (if c = CHR ''.'' then out @ [CHR 0x5C, c] else out @ [c]) in
            if length out' > sz then None
            else if cp + 1 \<ge> eom then Some None
            else copy_label mem eom sz n (cp + 1) out'))"

definition dn_pointer :: "nat \<Rightarrow> char \<Rightarrow> nat" where
  "dn_pointer n b = push_bit 8 (n AND 0x3f) OR uchar b"

lemma copy_label_advances:
  "copy_label mem eom sz n cp out = Some (Some (cp', out')) \<Longrightarrow> cp' = cp + n \<and> (0 < n \<longrightarrow> cp' < eom)"
proof (induction mem eom sz n cp out rule: copy_label.induct)
  case (2 mem eom sz n cp out)
  then show ?case by (cases n) (auto simp: Let_def split: option.splits if_splits)
qed simp

function expand_loop :: "char list \<Rightarrow> nat \<Rightarrow> nat \<Rightarrow> nat \<Rightarrow> nat \<Rightarrow> cstring \<Rightarrow> int \<Rightarrow> nat
    \<Rightarrow> (int \<times> cstring) option option" where
  "expand_loop mem eom sz cp0 cp out len checked =
     (case buf_get mem cp of
        None \<Rightarrow> None
      | Some b \<Rightarrow>
          if b = NUL then
            (if length out < sz
             then Some (Some (if len < 0 then int (cp + 1) - int cp0 else len, out)) else None)
          else if uchar b AND INDIR_MASK = 0 then
            (if out \<noteq> [] \<and> length out \<ge> sz then Some None
             else let out1 = (if out \<noteq> [] then out @ [CHR ''.''] else out) in
               if length out1 + uchar b \<ge> sz then Some None
               else (case copy_label mem eom sz (uchar b) (cp + 1) out1 of
                       None \<Rightarrow> None
                     | Some None \<Rightarrow> Some None
                     | Some (Some (cp', out')) \<Rightarrow>
                         expand_loop mem eom sz cp0 cp' out' len (checked + (uchar b + 1))))
          else if uchar b AND INDIR_MASK = INDIR_MASK then
            (case buf_get mem (cp + 1) of
               None \<Rightarrow> None
             | Some b2 \<Rightarrow>
                 (let len' = (if len < 0 then int (cp + 1) - int cp0 + 1 else len);
                      target = dn_pointer (uchar b) b2 in
                  if target \<ge> eom then Some None
                  else if checked + 2 \<ge> eom then Some None
                  else expand_loop mem eom sz cp0 target out len' (checked + 2)))
          else Some None)"
  by pat_completeness auto
termination
proof (relation "measures [\<lambda>(mem, eom, sz, cp0, cp, out, len, checked). eom - checked,
    \<lambda>(mem, eom, sz, cp0, cp, out, len, checked). eom - cp]", goal_cases)
  case (2 mem eom sz cp0 cp out len checked b out1 o2 p cp' out')
  then have "cp' = cp + 1 + uchar b" "cp' < eom"
    using copy_label_advances [of mem eom sz "uchar b" "cp + 1" out1 cp' out'] by simp_all
  then show ?case by auto
qed auto

definition dn_expand :: "char list \<Rightarrow> nat \<Rightarrow> nat \<Rightarrow> nat \<Rightarrow> (int \<times> cstring) option option" where
  "dn_expand mem eom cp0 sz = expand_loop mem eom sz cp0 cp0 [] (- 1) 0"

text \<open>\<^verbatim>\<open>dn_skipname\<close>: \<open>Some None\<close> is -1.\<close>

function skip_loop :: "char list \<Rightarrow> nat \<Rightarrow> nat \<Rightarrow> nat option option" where
  "skip_loop mem eom cp =
     (if cp < eom then
        (case buf_get mem cp of
           None \<Rightarrow> None
         | Some b \<Rightarrow>
             if b = NUL then Some (Some (cp + 1))
             else if uchar b AND INDIR_MASK = 0 then skip_loop mem eom (cp + 1 + uchar b)
             else if uchar b AND INDIR_MASK = INDIR_MASK then Some (Some (cp + 2))
             else Some None)
      else Some (Some cp))"
  by pat_completeness auto
termination by (relation "measure (\<lambda>(mem, eom, cp). eom - cp)") auto

definition dn_skipname :: "char list \<Rightarrow> nat \<Rightarrow> nat \<Rightarrow> nat option option" where
  "dn_skipname mem cp0 eom = map_option (map_option (\<lambda>cp. cp - cp0)) (skip_loop mem eom cp0)"


text \<open>
  \<^verbatim>\<open>dn_find\<close>. One entry of the pointer list gives a hit, a miss, or the end of the search.
  Following pointers may not end, so the search of an entry is a partial function.
\<close>

datatype find_result = Hit | Miss | Bad

fun find_label :: "char list \<Rightarrow> nat \<Rightarrow> cstring \<Rightarrow> nat \<Rightarrow> (cstring \<times> nat) option option" where
  "find_label mem 0 dn cp = Some (Some (dn, cp))"
| "find_label mem (Suc n) dn cp =
     (if chd dn = CHR ''.'' then Some None
      else let dn1 = (if chd dn = CHR 0x5C then tl dn else dn) in
        case buf_get mem cp of
          None \<Rightarrow> None
        | Some b \<Rightarrow> if chd dn1 \<noteq> b then Some None
                   else if dn1 = [] then None
                   else find_label mem n (tl dn1) (cp + 1))"

partial_function (option) find_name :: "char list \<Rightarrow> cstring \<Rightarrow> nat \<Rightarrow> find_result option" where
  "find_name mem dn cp =
     (case buf_get mem cp of
        None \<Rightarrow> None
      | Some b \<Rightarrow>
          if b = NUL then Some (if chd dn = NUL then Hit else Miss)
          else if uchar b AND INDIR_MASK = 0 then
            (case find_label mem (uchar b) dn (cp + 1) of
               None \<Rightarrow> None
             | Some None \<Rightarrow> Some Miss
             | Some (Some (dn', cp')) \<Rightarrow>
                 if chd dn' = NUL then
                   (case buf_get mem cp' of
                      None \<Rightarrow> None
                    | Some b' \<Rightarrow> Some (if b' = NUL then Hit else Miss))
                 else if chd dn' = CHR ''.'' then find_name mem (tl dn') cp'
                 else Some Miss)
          else if uchar b AND INDIR_MASK = INDIR_MASK then
            (case buf_get mem (cp + 1) of
               None \<Rightarrow> None
             | Some b2 \<Rightarrow> find_name mem dn (dn_pointer (uchar b) b2))
          else Some Bad)"

fun dn_find :: "char list \<Rightarrow> cstring \<Rightarrow> nat list \<Rightarrow> int option" where
  "dn_find mem dn [] = Some (- 1)"
| "dn_find mem dn (sp # ptrs) =
     (case find_name mem dn sp of
        None \<Rightarrow> None
      | Some Hit \<Rightarrow> Some (int sp)
      | Some Bad \<Rightarrow> Some (- 1)
      | Some Miss \<Rightarrow> dn_find mem dn ptrs)"

text \<open>
  \<^verbatim>\<open>dn_comp\<close>. \<open>comp_label\<close> is its inner loop: the memory, and unless the
  label does not fit, the offset behind the label, the last character read and the rest of the
  name. A \<open>dn_ptrs\<close> is \<open>None\<close> when names are not compressed, otherwise the number
  of entries of the pointer list at the start of the call (the ones that are searched) and the size
  of the caller's array, \<open>None\<close> when new names are not added to it.
\<close>

function comp_label :: "char list \<Rightarrow> nat \<Rightarrow> nat \<Rightarrow> char \<Rightarrow> cstring
    \<Rightarrow> (char list \<times> (nat \<times> char \<times> cstring) option) option" where
  "comp_label mem eob cp c dn =
     (if c = CHR ''.'' then Some (mem, Some (cp, chd dn, tl dn))
      else let c1 = (if c = CHR 0x5C then chd dn else c); dn1 = (if c = CHR 0x5C then tl dn else dn) in
        if c = CHR 0x5C \<and> c1 = NUL then Some (mem, Some (cp, NUL, dn1))
        else if cp \<ge> eob then Some (mem, None)
        else (case buf_put mem cp c1 of
                None \<Rightarrow> None
              | Some mem' \<Rightarrow>
                  if chd dn1 = NUL then Some (mem', Some (cp + 1, NUL, tl dn1))
                  else comp_label mem' eob (cp + 1) (chd dn1) (tl dn1)))"
  by pat_completeness auto
termination
proof (relation "measure (\<lambda>(mem, eob, cp, c, dn). length dn)", goal_cases)
  case (2 mem eob cp c dn)
  then show ?case by (cases dn; cases "tl dn") (auto split: if_splits)
qed simp

declare comp_label.simps [simp del]

type_synonym dn_ptrs = "(nat \<times> nat option) option"

definition comp_fail :: "dn_ptrs \<Rightarrow> char list \<Rightarrow> nat list \<Rightarrow> (int \<times> char list \<times> nat list) option" where
  "comp_fail opt mem ptrs = Some (- 1, mem, case opt of None \<Rightarrow> ptrs | Some (n, _) \<Rightarrow> take n ptrs)"

definition comp_finish :: "dn_ptrs \<Rightarrow> char list \<Rightarrow> nat list \<Rightarrow> nat \<Rightarrow> nat \<Rightarrow> nat
    \<Rightarrow> (int \<times> char list \<times> nat list) option" where
  "comp_finish opt mem ptrs cp0 cp eob =
     (if cp \<ge> eob then comp_fail opt mem ptrs
      else map_option (\<lambda>m. (int (cp + 1) - int cp0, m, ptrs)) (buf_put mem cp NUL))"

definition save_ptr :: "dn_ptrs \<Rightarrow> nat list \<Rightarrow> nat \<Rightarrow> nat list" where
  "save_ptr opt ptrs cp =
     (case opt of Some (_, Some cap) \<Rightarrow> if length ptrs + 2 < cap then ptrs @ [cp] else ptrs | _ \<Rightarrow> ptrs)"

definition find_ptr :: "dn_ptrs \<Rightarrow> char list \<Rightarrow> cstring \<Rightarrow> nat list \<Rightarrow> int option" where
  "find_ptr opt mem dn ptrs =
     (case opt of None \<Rightarrow> Some (- 1) | Some (n, _) \<Rightarrow> dn_find mem dn (take n ptrs))"

lemma comp_label_shorter:
  "comp_label mem eob cp c dn = Some (mem', Some (cp', c', dn')) \<Longrightarrow> c' \<noteq> NUL \<Longrightarrow> length dn' < length dn"
proof (induction mem eob cp c dn rule: comp_label.induct)
  case (1 mem eob cp c dn)
  let ?c1 = "if c = CHR 0x5C then chd dn else c" and ?d = "if c = CHR 0x5C then tl dn else dn"
  have d: "length ?d \<le> length dn" by simp
  show ?case
  proof (cases "c = CHR ''.''")
    case True
    then show ?thesis using 1(2,3) by (subst (asm) comp_label.simps) (cases dn, auto)
  next
    case False
    show ?thesis
    proof (cases "(c = CHR 0x5C \<and> ?c1 = NUL) \<or> cp \<ge> eob \<or> length mem \<le> cp \<or> chd ?d = NUL")
      case True
      then show ?thesis using 1(2,3) False
        by (subst (asm) comp_label.simps) (auto simp: Let_def buf_put_def split: if_splits option.splits)
    next
      case 2: False
      then have "comp_label (mem[cp := ?c1]) eob (cp + 1) (chd ?d) (tl ?d) = Some (mem', Some (cp', c', dn'))"
        using 1(2) False by (subst (asm) comp_label.simps) (auto simp: Let_def split: if_splits)
      then have "length dn' < length (tl ?d)"
        using 1(1) [OF False refl refl _ _ _ _ _ 1(3), of "mem[cp := ?c1]"] 2 by simp
      then show ?thesis using d by simp
    qed
  qed
qed

function comp_loop :: "char list \<Rightarrow> dn_ptrs \<Rightarrow> nat list \<Rightarrow> nat \<Rightarrow> nat \<Rightarrow> nat \<Rightarrow> char \<Rightarrow> cstring
    \<Rightarrow> (int \<times> char list \<times> nat list) option" where
  "comp_loop mem opt ptrs cp0 cp eob c dn =
     (if c = NUL then comp_finish opt mem ptrs cp0 cp eob
      else (case find_ptr opt mem (c # dn) ptrs of
        None \<Rightarrow> None
      | Some l \<Rightarrow>
          if l \<ge> 0 then
            (if cp + 1 \<ge> eob then Some (- 1, mem, ptrs)
             else (case buf_put mem cp (char_of (drop_bit 8 (nat l) OR INDIR_MASK)) of
               None \<Rightarrow> None
             | Some m1 \<Rightarrow> map_option (\<lambda>m2. (int (cp + 2) - int cp0, m2, ptrs))
                            (buf_put m1 (cp + 1) (char_of (nat l mod 256)))))
          else (case comp_label mem eob (cp + 1) c dn of
            None \<Rightarrow> None
          | Some (m1, None) \<Rightarrow> comp_fail opt m1 (save_ptr opt ptrs cp)
          | Some (m1, Some (cp', c', dn')) \<Rightarrow>
              (let l = cp' - cp - 1 in
               if l = 0 \<and> c' = NUL then comp_finish opt m1 (save_ptr opt ptrs cp) cp0 (cp' - 1) eob
               else if l = 0 \<or> l > DNS_MAX_SEGLEN then comp_fail opt m1 (save_ptr opt ptrs cp)
               else (case buf_put m1 cp (char_of l) of
                 None \<Rightarrow> None
               | Some m2 \<Rightarrow> comp_loop m2 opt (save_ptr opt ptrs cp) cp0 cp' eob c' dn')))))"
  by pat_completeness auto
termination
proof (relation "measure (\<lambda>(mem, opt, ptrs, cp0, cp, eob, c, dn). if c = NUL then 0 else Suc (length dn))",
    goal_cases)
  case (2 mem opt ptrs cp0 cp eob c dn)
  then show ?case by (auto dest!: comp_label_shorter)
qed simp

definition dn_comp :: "char list \<Rightarrow> cstring \<Rightarrow> nat \<Rightarrow> nat \<Rightarrow> nat option option \<Rightarrow> nat list
    \<Rightarrow> (int \<times> char list \<times> nat list) option" where
  "dn_comp mem exp_dn comp_dn len opt ptrs =
     comp_loop mem (map_option (\<lambda>cap. (length ptrs, cap)) opt) ptrs comp_dn comp_dn (comp_dn + len)
       (chd exp_dn) (tl exp_dn)"

declare expand_loop.simps [simp del] skip_loop.simps [simp del]
  comp_loop.simps [simp del]

section \<open>Bits of a length byte\<close>

lemma and_push_mask: "(n::nat) AND push_bit 6 (mask 2) = push_bit 6 (take_bit 2 (drop_bit 6 n))"
  by (rule bit_eqI) (auto simp: bit_simps)

lemma and_indir: "(n::nat) AND INDIR_MASK = 64 * ((n div 64) mod 4)"
proof -
  have "push_bit 6 (mask 2) = (192::nat)" by (simp add: push_bit_eq_mult mask_eq_exp_minus_1)
  then show ?thesis
    using and_push_mask [of n] by (simp add: INDIR_MASK_def push_bit_eq_mult take_bit_eq_mod drop_bit_eq_div)
qed

lemma and_low6: "(n::nat) AND 63 = n mod 64"
proof -
  have "(63::nat) = mask 6" by (simp add: mask_eq_exp_minus_1)
  then show ?thesis by (simp only: take_bit_eq_mask [symmetric]) (simp add: take_bit_eq_mod)
qed

lemma push_or: "b < 2 ^ k \<Longrightarrow> push_bit k (a::nat) OR b = a * 2 ^ k + b"
proof -
  assume b: "b < 2 ^ k"
  have "push_bit k a AND b = push_bit k a AND take_bit k b" using b by (simp add: take_bit_nat_eq_self)
  also have "\<dots> = 0" by (rule bit_eqI) (auto simp: bit_simps)
  finally show ?thesis by (simp add: disjunctive_add_eq_or [symmetric] push_bit_eq_mult)
qed

lemma or_indir: "(a::nat) < 64 \<Longrightarrow> a OR INDIR_MASK = a + 192"
  using push_or [of a 6 3] by (simp add: INDIR_MASK_def push_bit_eq_mult or.commute)

lemma label_byte: "uchar b AND INDIR_MASK = 0 \<longleftrightarrow> uchar b < 64"
  unfolding and_indir using uchar_less [of b] by (auto simp: div_eq_0_iff simp del: uchar_less)

lemma pointer_byte: "uchar b AND INDIR_MASK = INDIR_MASK \<longleftrightarrow> 192 \<le> uchar b"
proof -
  have "uchar b div 64 < 4" using uchar_less [of b] by (simp add: div_less_iff_less_mult del: uchar_less)
  then show ?thesis unfolding and_indir by (auto simp: INDIR_MASK_def)
qed

lemma dn_pointer_eq: "dn_pointer n b = (n mod 64) * 256 + uchar b"
  using push_or [of "uchar b" 8 "n mod 64"] by (simp add: dn_pointer_def and_low6)

lemma pointer_target:
  "192 \<le> uchar b \<Longrightarrow> dn_pointer (uchar b) b2 = (uchar b - 192) * 256 + uchar b2"
  using uchar_less [of b] mod_less [of "uchar b - 192" 64]
  by (simp add: dn_pointer_eq mod_if le_mod_geq del: uchar_less mod_less)

lemmas length_byte = label_byte pointer_byte dn_pointer_eq

section \<open>What a message says\<close>

text \<open>
  The specification: the labels that start at an offset of a message, the offset behind the name,
  and how much of the message reading it takes (as \<^verbatim>\<open>dn_expand\<close> counts it in
  \<^verbatim>\<open>checked\<close>).
\<close>

inductive name_at :: "char list \<Rightarrow> nat \<Rightarrow> nat \<Rightarrow> cstring list \<Rightarrow> nat \<Rightarrow> bool" for mem where
  root: "cp < length mem \<Longrightarrow> mem ! cp = NUL \<Longrightarrow> name_at mem cp (cp + 1) [] 0"
| label: "cp < length mem \<Longrightarrow> uchar (mem ! cp) = Suc n \<Longrightarrow> n < 63 \<Longrightarrow>
    name_at mem (cp + 2 + n) e ls k \<Longrightarrow>
    name_at mem cp e (take (Suc n) (drop (cp + 1) mem) # ls) (n + 2 + k)"
| pointer: "cp + 1 < length mem \<Longrightarrow> 192 \<le> uchar (mem ! cp) \<Longrightarrow>
    name_at mem ((uchar (mem ! cp) - 192) * 256 + uchar (mem ! (cp + 1))) e ls k \<Longrightarrow>
    name_at mem cp (cp + 2) ls (k + 2)"

inductive_cases name_atE: "name_at mem cp e ls k"

lemma name_at_less: "name_at mem cp e ls k \<Longrightarrow> cp < length mem"
  by (cases rule: name_at.cases) auto

lemma name_at_root: "name_at mem cp e ls k \<Longrightarrow> mem ! cp = NUL \<Longrightarrow> ls = []"
  by (cases rule: name_at.cases) auto

lemma name_at_end: "name_at mem cp e ls k \<Longrightarrow> cp < e \<and> e \<le> length mem"
  by (induction rule: name_at.induct) auto

lemma name_at_mono: "name_at mem cp e ls k \<Longrightarrow> name_at (mem @ more) cp e ls k"
proof (induction rule: name_at.induct)
  case (root cp)
  then show ?case using name_at.root [of cp "mem @ more"] by (simp add: nth_append)
next
  case (label cp n e ls k)
  have "take (Suc n) (drop (cp + 1) (mem @ more)) = take (Suc n) (drop (cp + 1) mem)"
    using name_at_less [OF label(4)] by simp
  moreover have "name_at (mem @ more) cp e (take (Suc n) (drop (cp + 1) (mem @ more)) # ls) (n + 2 + k)"
    using label by (intro name_at.label) (simp_all add: nth_append)
  ultimately show ?case by metis
next
  case (pointer cp e ls k)
  then show ?case using name_at.pointer [of cp "mem @ more" e ls k] by (simp add: nth_append)
qed

lemma name_at_take:
  "name_at (take i mem) cp e ls k \<Longrightarrow> take i mem = take i mem' \<Longrightarrow> i \<le> i' \<Longrightarrow> name_at (take i' mem') cp e ls k"
  using name_at_mono [of "take i mem" cp e ls k "drop i (take i' mem')"]
  by (metis append_take_drop_id min.absorb1 take_take)

text \<open>The name as text: labels separated by dots, a dot inside a label behind a backslash.\<close>

fun esc :: "cstring \<Rightarrow> cstring" where
  "esc [] = []"
| "esc (c # s) = (if c = CHR ''.'' then CHR 0x5C # c # esc s else c # esc s)"

fun present :: "cstring list \<Rightarrow> cstring" where
  "present [] = []"
| "present [l] = esc l"
| "present (l # l' # ls) = esc l @ CHR ''.'' # present (l' # ls)"

definition good_label :: "cstring \<Rightarrow> bool" where
  "good_label l \<longleftrightarrow> l \<noteq> [] \<and> length l \<le> DNS_MAX_SEGLEN \<and> c_str l \<and> CHR 0x5C \<notin> set l"

fun wire :: "cstring list \<Rightarrow> cstring" where
  "wire [] = [NUL]"
| "wire (l # ls) = char_of (length l) # l @ wire ls"

abbreviation rest_of :: "cstring list \<Rightarrow> cstring" where
  "rest_of ls \<equiv> (if ls = [] then [] else CHR ''.'' # present ls)"

lemma present_Cons: "present (l # ls) = esc l @ rest_of ls"
  by (cases ls) auto

lemma esc_Nil_iff [simp]: "esc l = [] \<longleftrightarrow> l = []"
  by (cases l) auto

lemma chd_esc: "c_str l \<Longrightarrow> l \<noteq> [] \<Longrightarrow> chd (esc l @ r) \<noteq> NUL \<and> chd (esc l @ r) \<noteq> CHR ''.''"
  by (cases l) auto

lemma chd_present: "good_label l \<Longrightarrow> chd (present (l # ls)) \<noteq> NUL"
  using chd_esc [of l "rest_of ls"] by (simp add: present_Cons good_label_def)

lemma length_esc_ge: "length l \<le> length (esc l)"
  by (induction l) auto

lemma length_wire_pos [simp]: "0 < length (wire ls)"
  by (cases ls) auto

section \<open>Reading a name\<close>

lemma copy_label_safe:
  "eom < length mem \<Longrightarrow> cp \<le> eom \<Longrightarrow> length out + n < sz \<Longrightarrow>
     \<exists>r. copy_label mem eom sz n cp out = Some r \<and>
       (\<forall>cp' out'. r = Some (cp', out') \<longrightarrow> length out' < sz)"
proof (induction n arbitrary: cp out)
  case (Suc n)
  show ?case
    using Suc.prems Suc.IH [of "cp + 1" "out @ [CHR 0x5C, mem ! cp]"] Suc.IH [of "cp + 1" "out @ [mem ! cp]"]
    by (auto simp: buf_get_def Let_def not_le)
qed simp

lemma expand_loop_safe:
  "eom < length mem \<Longrightarrow> cp < eom \<Longrightarrow> length out < sz \<Longrightarrow>
     \<exists>r. expand_loop mem eom sz cp0 cp out len checked = Some r \<and>
       (\<forall>l name. r = Some (l, name) \<longrightarrow> length name < sz)"
proof (induction mem eom sz cp0 cp out len checked rule: expand_loop.induct)
  case (1 mem eom sz cp0 cp out len checked)
  let ?b = "mem ! cp" and ?o = "if out \<noteq> [] then out @ [CHR ''.''] else out"
  have get: "buf_get mem cp = Some ?b" "buf_get mem (cp + 1) = Some (mem ! (cp + 1))"
    using 1(3,4) by (auto simp: buf_get_def)
  show ?case
  proof (cases "?b \<noteq> NUL \<and> uchar ?b AND INDIR_MASK = 0 \<and> \<not> (out \<noteq> [] \<and> length out \<ge> sz)
      \<and> \<not> length ?o + uchar ?b \<ge> sz")
    case True
    then obtain r where r: "copy_label mem eom sz (uchar ?b) (cp + 1) ?o = Some r"
      "\<And>cp' out'. r = Some (cp', out') \<Longrightarrow> length out' < sz"
      using copy_label_safe [of eom mem "cp + 1" ?o "uchar ?b" sz] 1(3,4) by auto
    show ?thesis
    proof (cases r)
      case None
      then show ?thesis using True get r by (subst expand_loop.simps) (simp add: Let_def)
    next
      case (Some p)
      obtain cp' out' where p: "p = (cp', out')" by (cases p)
      have "cp' < eom" using copy_label_advances [of mem eom sz "uchar ?b" "cp + 1" ?o cp' out'] r Some p True
        by simp
      have "\<exists>r'. expand_loop mem eom sz cp0 cp' out' len (checked + (uchar ?b + 1)) = Some r' \<and>
          (\<forall>l name. r' = Some (l, name) \<longrightarrow> length name < sz)"
        by (rule 1(1) [OF get(1) _ _ _ refl _ r(1) Some p [symmetric] 1(3) \<open>cp' < eom\<close>])
          (use True r(2) Some p in simp_all)
      then obtain r' where r': "expand_loop mem eom sz cp0 cp' out' len (checked + (uchar ?b + 1)) = Some r'"
        "\<forall>l name. r' = Some (l, name) \<longrightarrow> length name < sz" by blast
      then have "expand_loop mem eom sz cp0 cp out len checked = Some r'"
        using True get r Some p by (subst expand_loop.simps) (auto simp: Let_def)
      then show ?thesis using r'(2) by blast
    qed
  next
    case no_label: False
    let ?t = "dn_pointer (uchar ?b) (mem ! (cp + 1))"
    show ?thesis
    proof (cases "?b \<noteq> NUL \<and> uchar ?b AND INDIR_MASK \<noteq> 0 \<and> uchar ?b AND INDIR_MASK = INDIR_MASK
        \<and> \<not> ?t \<ge> eom \<and> \<not> checked + 2 \<ge> eom")
      case True
      let ?len = "if len < 0 then int (cp + 1) - int cp0 + 1 else len"
      have "\<exists>r'. expand_loop mem eom sz cp0 ?t out ?len (checked + 2) = Some r' \<and>
          (\<forall>l name. r' = Some (l, name) \<longrightarrow> length name < sz)"
        by (rule 1(2) [OF get(1) _ _ _ get(2) refl refl _ _ 1(3) _ 1(5)]) (use True in simp_all)
      then obtain r' where r': "expand_loop mem eom sz cp0 ?t out ?len (checked + 2) = Some r'"
        "\<forall>l name. r' = Some (l, name) \<longrightarrow> length name < sz" by blast
      then have "expand_loop mem eom sz cp0 cp out len checked = Some r'"
        using True get by (subst expand_loop.simps) (simp add: Let_def)
      then show ?thesis using r'(2) by blast
    next
      case False
      then show ?thesis using no_label get 1(5)
        by (subst expand_loop.simps) (auto simp: Let_def)
    qed
  qed
qed

lemma copy_label_bytes:
  "cp + n < eom \<Longrightarrow> cp + n \<le> length mem \<Longrightarrow> length out + length (esc (take n (drop cp mem))) < sz \<Longrightarrow>
     copy_label mem eom sz n cp out = Some (Some (cp + n, out @ esc (take n (drop cp mem))))"
proof (induction n arbitrary: cp out)
  case (Suc n)
  then have lab: "take (Suc n) (drop cp mem) = mem ! cp # take n (drop (cp + 1) mem)"
    by (simp add: take_Suc_conv_app_nth Cons_nth_drop_Suc [symmetric])
  have "n \<le> length (esc (take n (drop (cp + 1) mem)))"
    using length_esc_ge [of "take n (drop (cp + 1) mem)"] Suc.prems by simp
  then show ?case
    using Suc.prems Suc.IH [of "cp + 1" "out @ [CHR 0x5C, mem ! cp]"] Suc.IH [of "cp + 1" "out @ [mem ! cp]"]
    unfolding lab by (auto simp: buf_get_def Let_def not_le)
qed simp

text \<open>A name that fits is expanded to its text, and the offset behind it is found.\<close>

lemma expand_name:
  "name_at (take eom mem) cp e ls k \<Longrightarrow> eom \<le> length mem \<Longrightarrow> checked + k < eom \<Longrightarrow>
     length out + length (if out = [] \<or> ls = [] then present ls else CHR ''.'' # present ls) < sz \<Longrightarrow>
     (len < 0 \<longrightarrow> cp0 \<le> cp) \<Longrightarrow>
     expand_loop mem eom sz cp0 cp out len checked =
       Some (Some (if len < 0 then int e - int cp0 else len,
         out @ (if out = [] \<or> ls = [] then present ls else CHR ''.'' # present ls)))"
proof (induction arbitrary: out len checked rule: name_at.induct)
  case (root cp)
  then have "buf_get mem cp = Some NUL" by (auto simp: buf_get_def)
  then show ?case using root by (subst expand_loop.simps) (auto simp: not_le)
next
  case (label cp n e ls k)
  let ?b = "mem ! cp" and ?o = "if out \<noteq> [] then out @ [CHR ''.''] else out"
  let ?lab = "take (Suc n) (drop (cp + 1) mem)"
  have m: "cp < length mem" "uchar ?b = Suc n" "cp + 2 + n < eom" "buf_get mem cp = Some ?b"
    using label name_at_less [OF label(4)] by (auto simp: buf_get_def)
  have lab: "take (Suc n) (drop (cp + 1) (take eom mem)) = ?lab"
    using m by (simp add: drop_take)
  have nb: "?b \<noteq> NUL" "uchar ?b AND INDIR_MASK = 0"
    using m(2) label(3) label_byte [of ?b] by auto
  have len_lab: "length ?lab = Suc n" using m label(6) by simp
  have fits: "length ?o + length (esc ?lab @ rest_of ls) < sz"
    using label(8) unfolding lab present_Cons by (auto split: if_splits)
  then have "copy_label mem eom sz (Suc n) (cp + 1) ?o = Some (Some (cp + 2 + n, ?o @ esc ?lab))"
    using copy_label_bytes [of "cp + 1" "Suc n" eom mem ?o sz] m label(6) by simp
  moreover have "length ?o + Suc n < sz" using fits length_esc_ge [of ?lab] len_lab by simp
  ultimately have "expand_loop mem eom sz cp0 cp out len checked =
      expand_loop mem eom sz cp0 (cp + 2 + n) (?o @ esc ?lab) len (checked + (n + 2))"
    using m nb by (subst expand_loop.simps) (auto simp: Let_def)
  moreover have "?o @ esc ?lab \<noteq> []" using len_lab by auto
  ultimately show ?case
    using label.IH [of "checked + (n + 2)" "?o @ esc ?lab" len] label(6,7,9) fits
    unfolding lab present_Cons by (auto simp: ac_simps)
next
  case (pointer cp e ls k)
  let ?b = "mem ! cp" and ?b2 = "mem ! (cp + 1)"
  have m: "buf_get mem cp = Some ?b" "buf_get mem (cp + 1) = Some ?b2" "take eom mem ! cp = ?b"
    "take eom mem ! (cp + 1) = ?b2"
    using pointer(1) by (auto simp: buf_get_def)
  have nb: "?b \<noteq> NUL" "uchar ?b AND INDIR_MASK \<noteq> 0" "uchar ?b AND INDIR_MASK = INDIR_MASK"
    using pointer(2) m(3) uchar_eq_0 [of ?b] by (simp_all add: label_byte pointer_byte del: uchar_eq_0)
  have t: "dn_pointer (uchar ?b) ?b2 = (uchar ?b - 192) * 256 + uchar ?b2"
    using pointer_target [of ?b ?b2] pointer(2) m(3) by simp
  have "(uchar ?b - 192) * 256 + uchar ?b2 < eom"
    using name_at_less [OF pointer(3)] m by simp
  then have "expand_loop mem eom sz cp0 cp out len checked =
      expand_loop mem eom sz cp0 ((uchar ?b - 192) * 256 + uchar ?b2) out
        (if len < 0 then int (cp + 1) - int cp0 + 1 else len) (checked + 2)"
    using m nb t pointer.prems(2) by (subst expand_loop.simps) (simp add: Let_def)
  then show ?case
    using pointer.IH [of "checked + 2" out "if len < 0 then int (cp + 1) - int cp0 + 1 else len"]
      pointer.prems m by (auto simp: ac_simps)
qed

lemma skip_name:
  "name_at (take eom mem) cp e ls k \<Longrightarrow> eom \<le> length mem \<Longrightarrow> skip_loop mem eom cp = Some (Some e)"
proof (induction rule: name_at.induct)
  case (root cp)
  then show ?case by (subst skip_loop.simps) (auto simp: buf_get_def)
next
  case (label cp n e ls k)
  then have "skip_loop mem eom cp = skip_loop mem eom (cp + 2 + n)"
    using label_byte [of "mem ! cp"] uchar_eq_0 [of "mem ! cp"]
    by (subst skip_loop.simps) (auto simp: buf_get_def simp del: uchar_eq_0)
  then show ?case using label by simp
next
  case (pointer cp e ls k)
  then show ?case
    using label_byte [of "mem ! cp"] pointer_byte [of "mem ! cp"] uchar_eq_0 [of "mem ! cp"]
    by (subst skip_loop.simps) (auto simp: buf_get_def simp del: uchar_eq_0)
qed

section \<open>Searching the names written so far\<close>

lemma find_label_split:
  "c_str (take n (drop cp mem)) \<Longrightarrow> cp + n \<le> length mem \<Longrightarrow> c_str lab \<Longrightarrow> CHR 0x5C \<notin> set lab \<Longrightarrow>
     rest = [] \<or> chd rest = CHR ''.'' \<Longrightarrow>
     find_label mem n (esc lab @ rest) cp =
       Some (if n \<le> length lab \<and> take n (drop cp mem) = take n lab
             then Some (esc (drop n lab) @ rest, cp + n) else None)"
proof (induction n arbitrary: lab cp)
  case (Suc n)
  have hd: "take (Suc n) (drop cp mem) = mem ! cp # take n (drop (cp + 1) mem)"
    using Suc.prems(2) by (simp add: take_Suc_conv_app_nth Cons_nth_drop_Suc [symmetric])
  have b: "mem ! cp \<noteq> NUL" "buf_get mem cp = Some (mem ! cp)"
    using Suc.prems(1,2) unfolding hd by (auto simp: buf_get_def)
  show ?case
  proof (cases lab)
    case Nil
    then show ?thesis using Suc.prems(5) b by auto
  next
    case (Cons x lab')
    then show ?thesis
      using Suc.IH [of "cp + 1" lab'] Suc.prems b unfolding hd by (auto simp: Let_def)
  qed
qed simp

definition no_nul :: "cstring list \<Rightarrow> bool" where
  "no_nul ls \<longleftrightarrow> (\<forall>l \<in> set ls. c_str l)"

lemma find_name_decides:
  "name_at mem cp e ls' k \<Longrightarrow> no_nul ls' \<Longrightarrow> ls \<noteq> [] \<Longrightarrow> (\<forall>l \<in> set ls. good_label l) \<Longrightarrow>
     \<exists>r. find_name mem (present ls) cp = Some r \<and> r \<noteq> Bad \<and> (r = Hit \<longrightarrow> ls' = ls)"
proof (induction arbitrary: ls rule: name_at.induct)
  case (root cp)
  then obtain l ls2 where "ls = l # ls2" by (cases ls) auto
  then show ?case using root chd_present [of l ls2]
    by (subst find_name.simps) (auto simp: buf_get_def)
next
  case (label cp n e ls' k)
  obtain l ls2 where ls: "ls = l # ls2" using label.prems(2) by (cases ls) auto
  have gl: "good_label l" "\<forall>l \<in> set ls2. good_label l" using label.prems ls by auto
  let ?b = "mem ! cp" and ?lab = "take (Suc n) (drop (cp + 1) mem)" and ?dn = "drop (Suc n) l"
  have m: "buf_get mem cp = Some ?b" "?b \<noteq> NUL" "uchar ?b AND INDIR_MASK = 0"
    "buf_get mem (cp + 2 + n) = Some (mem ! (cp + 2 + n))" "cp + 1 + Suc n < length mem"
    using label(1-4) label_byte [of ?b] name_at_less [OF label(4)] uchar_eq_0 [of ?b]
    by (auto simp: buf_get_def simp del: uchar_eq_0)
  have fl: "find_label mem (uchar ?b) (present ls) (cp + 1) =
      Some (if Suc n \<le> length l \<and> ?lab = take (Suc n) l
            then Some (esc ?dn @ rest_of ls2, cp + 2 + n) else None)"
    using label.prems(1) gl m(5) find_label_split [of "Suc n" "cp + 1" mem l "rest_of ls2"]
    unfolding label(2) ls present_Cons by (auto simp: no_nul_def good_label_def simp del: find_label.simps)
  have len_lab: "length ?lab = Suc n" using m(5) by simp
  show ?case
  proof (cases "(Suc n \<le> length l \<and> ?lab = take (Suc n) l) \<and> ?dn = []")
    case False
    then have "chd (esc ?dn @ rest_of ls2) \<notin> {NUL, CHR ''.''} \<or> \<not> (Suc n \<le> length l \<and> ?lab = take (Suc n) l)"
      using gl(1) chd_esc [of ?dn "rest_of ls2"] c_str_drop [of l "Suc n"] by (auto simp: good_label_def)
    then have "find_name mem (present ls) cp = Some Miss"
      using m fl by (subst find_name.simps) auto
    then show ?thesis by simp
  next
    case True
    then have labl: "?lab = l" by simp
    have step: "find_name mem (present ls) cp =
        (if ls2 = [] then Some (if mem ! (cp + 2 + n) = NUL then Hit else Miss)
         else find_name mem (present ls2) (cp + 2 + n))"
      using m fl True by (subst find_name.simps) auto
    show ?thesis
    proof (cases "ls2 = []")
      case True
      then show ?thesis using name_at_root [OF label(4)] labl step ls by auto
    next
      case False
      then show ?thesis
        using label.IH [of ls2] label.prems gl labl step ls by (auto simp: no_nul_def)
    qed
  qed
next
  case (pointer cp e ls' k)
  let ?b = "mem ! cp"
  have nb: "?b \<noteq> NUL" "uchar ?b AND INDIR_MASK \<noteq> 0" "uchar ?b AND INDIR_MASK = INDIR_MASK"
    "buf_get mem cp = Some ?b" "buf_get mem (cp + 1) = Some (mem ! (cp + 1))"
    using pointer(1,2) uchar_eq_0 [of ?b]
    by (auto simp: label_byte pointer_byte buf_get_def simp del: uchar_eq_0)
  have "find_name mem (present ls) cp = find_name mem (present ls) ((uchar ?b - 192) * 256 + uchar (mem ! (cp + 1)))"
    using nb pointer_target [OF pointer(2)] by (subst find_name.simps) simp
  then show ?case using pointer.IH [of ls] pointer.prems by simp
qed

definition ptr_ok :: "char list \<Rightarrow> nat \<Rightarrow> nat \<Rightarrow> bool" where
  "ptr_ok mem b p \<longleftrightarrow> (\<exists>e ls k. name_at (take b mem) p e ls k \<and> no_nul ls \<and> k < b)"

lemma dn_find_ok:
  "(\<forall>p \<in> set ps. ptr_ok mem b p) \<Longrightarrow> ls \<noteq> [] \<Longrightarrow> (\<forall>l \<in> set ls. good_label l) \<Longrightarrow>
     \<exists>l. dn_find mem (present ls) ps = Some l \<and>
       (0 \<le> l \<longrightarrow> (\<exists>e k. name_at (take b mem) (nat l) e ls k \<and> k < b))"
proof (induction ps)
  case (Cons p ps)
  obtain e ls' k where n: "name_at (take b mem) p e ls' k" "no_nul ls'" "k < b"
    using Cons.prems(1) by (auto simp: ptr_ok_def)
  have "name_at mem p e ls' k" using name_at_mono [OF n(1), of "drop b mem"] by simp
  then obtain r where r: "find_name mem (present ls) p = Some r" "r \<noteq> Bad" "r = Hit \<longrightarrow> ls' = ls"
    using find_name_decides n(2) Cons.prems(2,3) by blast
  show ?case
  proof (cases r)
    case Hit
    then show ?thesis using r n by auto
  next
    case Miss
    then show ?thesis using r Cons by simp
  qed (use r in simp)
qed simp

section \<open>Writing a name\<close>

lemma comp_label_writes:
  "c # dn = esc lab @ rest \<Longrightarrow> rest = [] \<or> chd rest = CHR ''.'' \<Longrightarrow> c_str lab \<Longrightarrow> CHR 0x5C \<notin> set lab \<Longrightarrow>
     cp + length lab \<le> eob \<Longrightarrow> eob \<le> length mem \<Longrightarrow>
     comp_label mem eob cp c dn =
       Some (put_bytes mem cp lab, Some (cp + length lab, chd (tl rest), tl (tl rest)))"
proof (induction lab arbitrary: mem cp c dn)
  case Nil
  then show ?case by (subst comp_label.simps) auto
next
  case (Cons x lab)
  let ?d = "esc lab @ rest"
  have cd: "(if c = CHR 0x5C then chd dn else c) = x" "(if c = CHR 0x5C then tl dn else dn) = ?d"
    "c \<noteq> CHR ''.''" "x \<noteq> NUL" "\<not> cp \<ge> eob" "cp < length mem"
    using Cons.prems by (auto split: if_splits)
  have nul: "chd ?d = NUL \<longleftrightarrow> lab = [] \<and> rest = []"
    using chd_esc [of lab rest] Cons.prems(2,3) by (cases "lab = []") auto
  have step: "comp_label mem eob cp c dn =
      (if chd ?d = NUL then Some (mem[cp := x], Some (cp + 1, NUL, tl ?d))
       else comp_label (mem[cp := x]) eob (cp + 1) (chd ?d) (tl ?d))"
    using cd by (subst comp_label.simps) (simp add: Let_def)
  show ?case
  proof (cases "chd ?d = NUL")
    case True
    then show ?thesis using step nul put_bytes_snoc [of cp mem x "[]"] cd(6) by simp
  next
    case False
    then have "chd ?d # tl ?d = ?d" by (cases ?d) auto
    then show ?thesis
      using False step Cons.IH [of "chd ?d" "tl ?d" "cp + 1" "mem[cp := x]"] Cons.prems
        put_bytes_snoc [of cp mem x lab] cd(6) by simp
  qed
qed

abbreviation searched :: "dn_ptrs \<Rightarrow> nat list \<Rightarrow> nat list" where
  "searched opt ptrs \<equiv> (case opt of None \<Rightarrow> [] | Some (n, _) \<Rightarrow> take n ptrs)"

definition opt_ok :: "dn_ptrs \<Rightarrow> nat list \<Rightarrow> bool" where
  "opt_ok opt ptrs \<longleftrightarrow> (case opt of None \<Rightarrow> True | Some (n, _) \<Rightarrow> n \<le> length ptrs)"

lemma save_ptr_props:
  assumes "opt_ok opt ptrs"
  shows "opt_ok opt (save_ptr opt ptrs cp)" "searched opt (save_ptr opt ptrs cp) = searched opt ptrs"
    "\<exists>new. save_ptr opt ptrs cp = ptrs @ new \<and> set new \<subseteq> {cp}"
  using assms by (auto simp: opt_ok_def save_ptr_def split: option.splits)

lemma ptr_ok_cong:
  "take b mem' = take b mem \<Longrightarrow> ptr_ok mem' b p = ptr_ok mem b p"
  by (simp add: ptr_ok_def)

lemma find_ptr_ok:
  assumes "\<forall>p \<in> set (searched opt ptrs). ptr_ok mem b p" "ls \<noteq> []" "\<forall>l \<in> set ls. good_label l"
  shows "\<exists>l. find_ptr opt mem (present ls) ptrs = Some l \<and>
    (0 \<le> l \<longrightarrow> (\<exists>e k. name_at (take b mem) (nat l) e ls k \<and> k < b))"
  using assms dn_find_ok [of "searched opt ptrs" mem b ls]
  by (cases opt) (auto simp: find_ptr_def)

lemma uchar_low_pointer: "p < 0x4000 \<Longrightarrow> uchar (char_of (drop_bit 8 p OR INDIR_MASK)) = p div 256 + 192"
proof -
  assume "p < 0x4000"
  then have "p div 256 < 64" by (simp add: div_less_iff_less_mult)
  then show ?thesis using or_indir [of "p div 256"] by (simp add: drop_bit_eq_div)
qed

lemma comp_pointer_ok:
  assumes "name_at (take b mem) p e ls k" "p < 0x4000" "b \<le> cp" "cp + 2 \<le> length mem"
  shows "name_at (take (cp + 2) (mem[cp := char_of (drop_bit 8 p OR INDIR_MASK), cp + 1 := char_of (p mod 256)]))
    cp (cp + 2) ls (k + 2)"
proof -
  let ?m = "mem[cp := char_of (drop_bit 8 p OR INDIR_MASK), cp + 1 := char_of (p mod 256)]"
  let ?t = "take (cp + 2) ?m"
  have t: "?t ! cp = char_of (drop_bit 8 p OR INDIR_MASK)" "?t ! (cp + 1) = char_of (p mod 256)"
    "length ?t = cp + 2"
    using assms(4) by simp_all
  have "name_at ?t p e ls k" using assms by (intro name_at_take [OF assms(1)]) auto
  moreover have "(uchar (?t ! cp) - 192) * 256 + uchar (?t ! (cp + 1)) = p"
    using uchar_low_pointer [OF assms(2)] unfolding t by simp
  ultimately show ?thesis
    using uchar_low_pointer [OF assms(2)] t by (intro name_at.pointer) simp_all
qed

lemma comp_label_ok:
  assumes "name_at (take i mem) (cp + 1 + length l) e ls k" "good_label l"
    "take (cp + 1 + length l) mem = take (cp + 1 + length l) (put_bytes m cp (char_of (length l) # l))"
    "cp + 1 + length l \<le> length m" "length mem = length m"
  shows "name_at (take i mem) cp e (l # ls) (length l + 1 + k)"
proof -
  have L: "1 \<le> length l" "length l \<le> 63" "length l mod 256 = length l"
    using assms(2) by (auto simp: good_label_def DNS_MAX_SEGLEN_def Suc_le_eq)
  have i: "cp + 1 + length l < i" using name_at_less [OF assms(1)] by simp
  have "take (1 + length l) (drop cp mem) = drop cp (take (cp + 1 + length l) mem)"
    by (simp add: drop_take)
  also have "\<dots> = char_of (length l) # l"
    unfolding assms(3) using assms(4) by (simp add: put_bytes_def)
  finally have d: "take (1 + length l) (drop cp mem) = char_of (length l) # l" .
  then have c: "take i mem ! cp = char_of (length l)"
    using i by (cases "drop cp mem") (auto simp: nth_via_drop)
  have "take (length l) (drop (cp + 1) mem) = l"
    using d by (cases "drop cp mem") (auto simp: drop_Suc tl_drop [symmetric] drop_eq_Nil)
  moreover have "take (length l) (drop (cp + 1) (take i mem)) = take (length l) (drop (cp + 1) mem)"
    using i by (simp add: drop_take)
  moreover obtain n where "length l = Suc n" using L(1) by (cases "length l") auto
  ultimately show ?thesis
    using name_at.label [of cp "take i mem" n e ls k] assms(1,4,5) L c i by simp
qed

lemma length_wire_Cons: "l \<noteq> [] \<Longrightarrow> 3 \<le> length (wire (l # ls))"
  by (cases l; cases ls) auto

lemma comp_loop_names:
  assumes "\<forall>l \<in> set ls. good_label l" "\<forall>p \<in> set (searched opt ptrs). ptr_ok mem cp0 p"
    "opt_ok opt ptrs" "cp0 \<le> cp" "cp0 \<le> 0x4000" "cp + length (wire ls) \<le> eob" "eob \<le> length mem"
  shows "\<exists>e mem' k new.
    comp_loop mem opt ptrs cp0 cp eob (chd (present ls)) (tl (present ls)) = Some (int e - int cp0, mem', ptrs @ new)
    \<and> e \<le> cp + length (wire ls) \<and> length mem' = length mem \<and> take cp mem' = take cp mem
    \<and> name_at (take e mem') cp e ls k \<and> k + cp < cp0 + e \<and> (\<forall>p \<in> set new. ptr_ok mem' e p)"
  using assms
proof (induction ls arbitrary: mem ptrs cp)
  case Nil
  let ?m = "mem[cp := NUL]"
  have "comp_loop mem opt ptrs cp0 cp eob NUL [] = Some (int (cp + 1) - int cp0, ?m, ptrs @ [])"
    using Nil.prems by (subst comp_loop.simps) (simp add: comp_finish_def)
  moreover have "name_at (take (cp + 1) ?m) cp (cp + 1) [] 0"
    using Nil.prems by (intro name_at.root) simp_all
  ultimately show ?case
    by (intro exI [of _ "cp + 1"] exI [of _ ?m] exI [of _ 0] exI [of _ "[]"]) (use Nil.prems in auto)
next
  case (Cons l ls)
  let ?s = "present (l # ls)"
  have gl: "good_label l" "c_str l" "CHR 0x5C \<notin> set l" "l \<noteq> []" "length l \<le> DNS_MAX_SEGLEN"
    using Cons.prems(1) by (auto simp: good_label_def)
  have s: "chd ?s # tl ?s = ?s" "chd ?s \<noteq> NUL" using chd_present [OF gl(1), of ls] by (cases ?s, auto)+
  obtain f where f: "find_ptr opt mem ?s ptrs = Some f"
    "0 \<le> f \<longrightarrow> (\<exists>e k. name_at (take cp0 mem) (nat f) e (l # ls) k \<and> k < cp0)"
    using find_ptr_ok [of ptrs opt mem cp0 "l # ls"] Cons.prems(1,2) by auto
  show ?case
  proof (cases "0 \<le> f")
    case True
    then obtain e k where n: "name_at (take cp0 mem) (nat f) e (l # ls) k" "k < cp0" using f(2) by auto
    let ?m = "mem[cp := char_of (drop_bit 8 (nat f) OR INDIR_MASK), cp + 1 := char_of (nat f mod 256)]"
    have p: "nat f < 0x4000" "cp + 2 < eob"
      using name_at_less [OF n(1)] Cons.prems(5,6) length_wire_Cons [OF gl(4), of ls] by auto
    have "comp_loop mem opt ptrs cp0 cp eob (chd ?s) (tl ?s) = Some (int (cp + 2) - int cp0, ?m, ptrs @ [])"
      using True f(1) s p Cons.prems(7) by (subst comp_loop.simps) simp
    moreover have "name_at (take (cp + 2) ?m) cp (cp + 2) (l # ls) (k + 2)"
      using comp_pointer_ok [OF n(1) p(1) Cons.prems(4)] p(2) Cons.prems(7) by simp
    ultimately show ?thesis
      by (intro exI [of _ "cp + 2"] exI [of _ ?m] exI [of _ "k + 2"] exI [of _ "[]"])
        (use n(2) gl(4) in \<open>auto simp: Suc_le_eq\<close>)
  next
    case False
    let ?cp = "cp + 1 + length l" and ?m = "put_bytes mem cp (char_of (length l) # l)"
    let ?ptrs = "save_ptr opt ptrs cp"
    have room: "?cp + length (wire ls) \<le> eob" using Cons.prems(6) by simp
    have "comp_label mem eob (cp + 1) (chd ?s) (tl ?s) =
        Some (put_bytes mem (cp + 1) l, Some (?cp, chd (tl (rest_of ls)), tl (tl (rest_of ls))))"
      using s room Cons.prems(7) gl by (intro comp_label_writes) (simp_all add: present_Cons)
    moreover have "tl (rest_of ls) = present ls" by simp
    moreover have "(put_bytes mem (cp + 1) l)[cp := char_of (length l)] = ?m"
      using room Cons.prems(7) by (intro put_bytes_cons) simp
    moreover have "cp < length (put_bytes mem (cp + 1) l)"
      using room Cons.prems(7) by (subst put_bytes_props) simp_all
    ultimately have step: "comp_loop mem opt ptrs cp0 cp eob (chd ?s) (tl ?s) =
        comp_loop ?m opt ?ptrs cp0 ?cp eob (chd (present ls)) (tl (present ls))"
      using False f(1) s gl by (subst comp_loop.simps) (simp add: Let_def)
    have m: "length ?m = length mem" "take cp ?m = take cp mem" "take cp0 ?m = take cp0 mem"
      using room Cons.prems(4,7) put_bytes_props [of cp "char_of (length l) # l" mem] by simp_all
    obtain new0 where new0: "?ptrs = ptrs @ new0" "set new0 \<subseteq> {cp}"
      using save_ptr_props(3) [OF Cons.prems(3)] by blast
    obtain e mem' k new where ih:
      "comp_loop ?m opt ?ptrs cp0 ?cp eob (chd (present ls)) (tl (present ls)) = Some (int e - int cp0, mem', ?ptrs @ new)"
      "e \<le> ?cp + length (wire ls)" "length mem' = length ?m" "take ?cp mem' = take ?cp ?m"
      "name_at (take e mem') ?cp e ls k" "k + ?cp < cp0 + e" "\<forall>p \<in> set new. ptr_ok mem' e p"
      using Cons.IH [of ?ptrs ?m ?cp] Cons.prems room m save_ptr_props(1,2) [OF Cons.prems(3)] ptr_ok_cong [OF m(3)]
      by auto
    have nm: "name_at (take e mem') cp e (l # ls) (length l + 1 + k)"
      using comp_label_ok [OF ih(5) gl(1) ih(4)] room Cons.prems(7) ih(3) m(1) by simp
    have "ptr_ok mem' e cp"
      unfolding ptr_ok_def using nm ih(6) Cons.prems(1,4)
      by (intro exI [of _ e] exI [of _ "l # ls"] exI [of _ "length l + 1 + k"])
        (auto simp: no_nul_def good_label_def)
    moreover have "take cp mem' = take cp mem"
      using ih(4) m(2) by (metis le_add1 min.absorb1 take_take add.assoc)
    ultimately show ?thesis
      using step ih m(1) nm new0
      by (intro exI [of _ e] exI [of _ mem'] exI [of _ "length l + 1 + k"] exI [of _ "new0 @ new"]) auto
  qed
qed

section \<open>Writing a name stays inside its space\<close>

lemma comp_label_safe:
  "eob \<le> length mem \<Longrightarrow>
     \<exists>m res. comp_label mem eob cp c dn = Some (m, res) \<and> length m = length mem \<and>
       (\<forall>cp' c' dn'. res = Some (cp', c', dn') \<longrightarrow> cp' = cp \<or> cp < cp' \<and> cp' \<le> eob)"
proof (induction mem eob cp c dn rule: comp_label.induct)
  case (1 mem eob cp c dn)
  let ?c1 = "if c = CHR 0x5C then chd dn else c" and ?d = "if c = CHR 0x5C then tl dn else dn"
  show ?case
  proof (cases "c = CHR ''.'' \<or> (c = CHR 0x5C \<and> ?c1 = NUL) \<or> cp \<ge> eob \<or> chd ?d = NUL")
    case True
    then show ?thesis using 1(2) by (subst comp_label.simps) (auto simp: Let_def buf_put_def)
  next
    case False
    then have "buf_put mem cp ?c1 = Some (mem[cp := ?c1])" using 1(2) by (auto simp: buf_put_def)
    note ih = 1(1) [OF _ refl refl _ _ this]
    have "comp_label mem eob cp c dn = comp_label (mem[cp := ?c1]) eob (cp + 1) (chd ?d) (tl ?d)"
      using False 1(2) by (subst comp_label.simps) (auto simp: Let_def buf_put_def)
    then show ?thesis using ih False 1(2) by fastforce
  qed
qed

lemma comp_loop_safe:
  "eob \<le> length mem \<Longrightarrow> cp0 \<le> cp \<Longrightarrow> cp \<le> eob \<Longrightarrow>
     \<exists>rc m ps. comp_loop mem None ptrs cp0 cp eob c dn = Some (rc, m, ps) \<and> length m = length mem \<and>
       - 1 \<le> rc \<and> rc \<le> int eob - int cp0"
proof (induction mem "None :: dn_ptrs" ptrs cp0 cp eob c dn rule: comp_loop.induct)
  case (1 mem ptrs cp0 cp eob c dn)
  obtain m res where lab: "comp_label mem eob (cp + 1) c dn = Some (m, res)" "length m = length mem"
    "\<And>cp' c' dn'. res = Some (cp', c', dn') \<Longrightarrow> cp' = cp + 1 \<or> cp + 1 < cp' \<and> cp' \<le> eob"
    using comp_label_safe [OF 1(2), of "cp + 1" c dn] by blast
  show ?case
  proof (cases "c = NUL \<or> res = None \<or> fst (the res) = cp + 1 \<or> fst (the res) - cp - 1 > DNS_MAX_SEGLEN")
    case True
    then show ?thesis
      using 1(2-) lab
      by (subst comp_loop.simps)
        (auto simp: comp_finish_def comp_fail_def find_ptr_def save_ptr_def buf_put_def Let_def split: option.splits)
  next
    case False
    then obtain cp' c' dn' where r: "res = Some (cp', c', dn')" "c \<noteq> NUL" "cp' \<noteq> cp + 1" "\<not> cp' - cp - 1 > DNS_MAX_SEGLEN"
      by (cases res) auto
    then have cp': "cp + 1 < cp'" "cp' \<le> eob" using lab(3) by auto
    let ?m = "m[cp := char_of (cp' - cp - 1)]"
    have put: "buf_put m cp (char_of (cp' - cp - 1)) = Some ?m" using cp' 1(2) lab(2) by (simp add: buf_put_def)
    have "comp_loop mem None ptrs cp0 cp eob c dn = comp_loop ?m None (save_ptr None ptrs cp) cp0 cp' eob c' dn'"
      using r cp' lab(1) put by (subst comp_loop.simps) (simp add: find_ptr_def Let_def)
    then show ?thesis
      using 1(1) [OF r(2) _ _ lab(1) [unfolded r(1)] refl refl refl refl refl _ _ put] r cp' lab(2) 1(2-)
      by (simp add: find_ptr_def)
  qed
qed

lemma dn_comp_safe:
  assumes "comp_dn + len \<le> length mem"
  shows "\<exists>rc m ps. dn_comp mem exp_dn comp_dn len None ptrs = Some (rc, m, ps) \<and> length m = length mem \<and>
    - 1 \<le> rc \<and> rc \<le> int len"
  using comp_loop_safe [OF assms, of comp_dn comp_dn ptrs "chd exp_dn" "tl exp_dn"] by (simp add: dn_comp_def)

section \<open>Properties\<close>

text \<open>C32: when at least one byte behind the message can be read, expanding a name returns whatever
  the message holds: it ends (pointer loops included), reads nothing behind that byte, and the text
  and its terminator fit the buffer.\<close>

theorem dn_expand_bounded:
  assumes "eom < length mem" "cp0 < eom" "0 < sz"
  shows "\<exists>r. dn_expand mem eom cp0 sz = Some r \<and> (\<forall>l name. r = Some (l, name) \<longrightarrow> length name < sz)"
  unfolding dn_expand_def using assms by (intro expand_loop_safe) auto

theorem dn_expand_bounded_witness:
  "\<exists>r. dn_expand (map char_of [0xC0, 0, 7::nat]) 2 0 1025 = Some r"
  using dn_expand_bounded [of 2 "map char_of [0xC0, 0, 7::nat]" 0 1025] by auto

text \<open>C27: a name of good labels is written inside the room given, compressed or not, the bytes in
  front of it are kept, and reading it back gives the name and the size that was returned. Every
  pointer saved in the list again leads to a name, so the list can be used for the next name.\<close>

theorem dn_comp_expand:
  assumes "\<forall>l \<in> set ls. good_label l" "\<forall>p \<in> set ptrs. ptr_ok mem cp0 p"
    "cp0 \<le> 0x4000" "length (wire ls) \<le> len" "cp0 + len \<le> length mem"
  shows "\<exists>r mem' new. dn_comp mem (present ls) cp0 len opt ptrs = Some (int r, mem', ptrs @ new)
    \<and> r \<le> length (wire ls) \<and> length mem' = length mem \<and> take cp0 mem' = take cp0 mem
    \<and> (\<forall>p \<in> set new. ptr_ok mem' (cp0 + r) p)
    \<and> (\<forall>sz. length (present ls) < sz \<longrightarrow>
         dn_expand mem' (cp0 + r) cp0 sz = Some (Some (int r, present ls)))
    \<and> dn_skipname mem' cp0 (cp0 + r) = Some (Some r)"
proof -
  obtain e mem' k new where c:
    "dn_comp mem (present ls) cp0 len opt ptrs = Some (int e - int cp0, mem', ptrs @ new)"
    "e \<le> cp0 + length (wire ls)" "length mem' = length mem" "take cp0 mem' = take cp0 mem"
    "name_at (take e mem') cp0 e ls k" "k + cp0 < cp0 + e" "\<forall>p \<in> set new. ptr_ok mem' e p"
    unfolding dn_comp_def
    using comp_loop_names [OF assms(1) _ _ le_refl assms(3), of ptrs
        "map_option (\<lambda>cap. (length ptrs, cap)) opt" mem "cp0 + len"] assms(2,4,5) by (cases opt) (auto simp: opt_ok_def)
  have e: "cp0 < e" "e \<le> length mem'" using name_at_end [OF c(5)] by auto
  moreover have "dn_expand mem' e cp0 sz = Some (Some (int e - int cp0, present ls))"
    if "length (present ls) < sz" for sz
    using expand_name [OF c(5) e(2), of 0 "[]" sz "- 1" cp0] c(6) that by (simp add: dn_expand_def)
  moreover have "dn_skipname mem' cp0 e = Some (Some (e - cp0))"
    using skip_name [OF c(5) e(2)] by (simp add: dn_skipname_def)
  ultimately show ?thesis
    using c by (intro exI [of _ "e - cp0"] exI [of _ mem'] exI [of _ new]) (auto simp: of_nat_diff)
qed

theorem dn_comp_expand_witness:
  "\<exists>r mem' new. dn_comp (replicate 20 NUL) ''wd.irc'' 2 18 (Some (Some 8)) [] = Some (int r, mem', [] @ new)"
  using dn_comp_expand [of "[''wd'', ''irc'']" "[]" "replicate 20 NUL" 2 18 "Some (Some 8)"]
  by (auto simp: good_label_def DNS_MAX_SEGLEN_def)

text \<open>Without that spare byte, expanding a name at the last byte of a message reads behind the
  message when the byte starts a pointer.\<close>

theorem dn_expand_reads_past_end:
  assumes "mem \<noteq> []" "192 \<le> uchar (last mem)"
  shows "dn_expand mem (length mem) (length mem - 1) sz = None"
proof -
  have "last mem \<noteq> NUL" using assms(2) by auto
  moreover have "buf_get mem (length mem - 1) = Some (last mem)"
    using assms(1) by (simp add: buf_get_def last_conv_nth)
  ultimately show ?thesis
    unfolding dn_expand_def using assms
    by (subst expand_loop.simps) (simp add: label_byte pointer_byte buf_get_def)
qed

theorem dn_expand_reads_past_end_witness: "dn_expand [CHR 0xC0] 1 0 1025 = None"
  using dn_expand_reads_past_end [of "[CHR 0xC0]" 1025] by (simp add: uchar_def)

text \<open>A backslash in a label is not escaped, so it is lost when the text is written again.\<close>

lemma dn_backslash_lost:
  "dn_expand (CHR 0x03 # ''a'' @ CHR 0x5C # ''b'' @ [NUL, NUL]) 5 0 1025 = Some (Some (5, ''a'' @ CHR 0x5C # ''b''))"
  "dn_comp (replicate 5 NUL) (''a'' @ CHR 0x5C # ''b'') 0 5 None [] = Some (4, CHR 0x02 # ''ab'' @ [NUL, NUL], [])"
  by code_simp+

text \<open>Two dots at the end of a name are accepted like one.\<close>

lemma dn_two_trailing_dots:
  "dn_comp (replicate 3 NUL) ''a..'' 0 3 None [] = Some (3, CHR 0x01 # ''a'' @ [NUL], [])"
  by code_simp

end
