(* ===== verification/Conf.thy ===== *)
theory Conf
  imports CString
begin

text \<open>
  The configuration reader of \<^verbatim>\<open>source/conf.c\<close>: the pass that removes comments, the
  expansion of quoted text, the parser that builds the tree and the searches in the tree. The
  functions that only read the text work on the list of the characters before the terminator;
  a pointer into it is a suffix. The contents of the files are a parameter.
\<close>

section \<open>Results\<close>

text \<open>
  \<open>Fail\<close> is the null result after a logged error. \<open>Undef\<close> is an access outside the text
  or to memory that has been freed, and \<open>Deep\<close> that files include each other deeper than the
  number of levels the reader was given (the code would go on until its stack is used up).
\<close>

datatype 'a outcome = Ok 'a | Fail | Undef | Deep

fun bind_ok :: "'a outcome \<Rightarrow> ('a \<Rightarrow> 'b outcome) \<Rightarrow> 'b outcome" where
  "bind_ok (Ok x) f = f x"
| "bind_ok Fail f = Fail"
| "bind_ok Undef f = Undef"
| "bind_ok Deep f = Deep"

lemma bind_ok_cong [fundef_cong]:
  "x = y \<Longrightarrow> (\<And>z. y = Ok z \<Longrightarrow> f z = g z) \<Longrightarrow> bind_ok x f = bind_ok y g"
  by (cases y) auto

lemma bind_ok_eq_Ok: "bind_ok x f = Ok z \<longleftrightarrow> (\<exists>y. x = Ok y \<and> f y = Ok z)"
  by (cases x) auto

definition cons_all :: "cstring \<Rightarrow> cstring outcome \<Rightarrow> cstring outcome" where
  "cons_all s r = bind_ok r (\<lambda>t. Ok (s @ t))"

lemma cons_all_simps [simp]:
  "cons_all s (Ok t) = Ok (s @ t)" "cons_all s Fail = Fail" "cons_all s Undef = Undef"
  by (simp_all add: cons_all_def)

definition NEWLINE :: char where "NEWLINE = CHR 0x0A"
definition BACKSLASH :: char where "BACKSLASH = CHR 0x5C"
definition QUOTE :: char where "QUOTE = CHR 0x22"

lemmas conf_chars = NEWLINE_def BACKSLASH_def QUOTE_def

section \<open>Comments\<close>

function conf_preparse :: "cstring \<Rightarrow> bool \<Rightarrow> bool \<Rightarrow> cstring outcome" where
  "conf_preparse s instring incomment =
     (case s of
        [] \<Rightarrow> if instring \<or> incomment then Fail else Ok []
      | c # r \<Rightarrow>
          if c = QUOTE then
            (if incomment then conf_preparse r instring incomment
             else cons_all [c] (conf_preparse r (\<not> instring) incomment))
          else if c = BACKSLASH then
            (if incomment then conf_preparse r instring incomment
             else if r = [] then Undef
             else cons_all [c, hd r] (conf_preparse (tl r) instring incomment))
          else if c = CHR ''#'' then
            (if incomment then conf_preparse r instring incomment
             else if instring then cons_all [c] (conf_preparse r instring incomment)
             else conf_preparse (dropWhile (\<lambda>c. c \<noteq> NEWLINE) r) instring incomment)
          else if c = CHR ''/'' then
            (if incomment then conf_preparse r instring incomment
             else if chd r = CHR ''/'' \<and> \<not> instring then
               conf_preparse (dropWhile (\<lambda>c. c \<noteq> NEWLINE) r) instring incomment
             else if chd r = CHR ''*'' \<and> \<not> instring then conf_preparse (tl r) instring True
             else cons_all [c] (conf_preparse r instring incomment))
          else if c = NEWLINE then cons_all [c] (conf_preparse r instring incomment)
          else if \<not> incomment then cons_all [c] (conf_preparse r instring incomment)
          else if c = CHR ''*'' then
            (if chd r = CHR ''/'' then conf_preparse (tl r) instring False
             else conf_preparse r instring incomment)
          else conf_preparse r instring incomment)"
  by pat_completeness auto
termination
  by (relation "measure (\<lambda>(s, i, c). length s)") (auto simp: less_Suc_eq_le)

section \<open>Quoted text\<close>

definition expand_escape :: "char \<Rightarrow> char" where
  "expand_escape c =
     (if c = CHR ''a'' then CHR 0x07 else if c = CHR ''b'' then CHR 0x08
      else if c = CHR ''f'' then CHR 0x0C else if c = CHR ''n'' then CHR 0x0A
      else if c = CHR ''r'' then CHR 0x0D else if c = CHR ''t'' then CHR 0x09
      else if c = CHR ''v'' then CHR 0x0B else c)"

text \<open>The flag tells whether the scan is inside a quoted part.\<close>

function expand_from :: "bool \<Rightarrow> cstring \<Rightarrow> cstring" where
  "expand_from q s =
     (case s of
        [] \<Rightarrow> []
      | c # r \<Rightarrow>
          if q then
            (if c = BACKSLASH then
               (if r = [] then [BACKSLASH] else expand_escape (hd r) # expand_from True (tl r))
             else if c = QUOTE then expand_from False r
             else c # expand_from True r)
          else if c = QUOTE then expand_from True r
          else if isspace c then
            (if dropWhile isspace r = [] then [] else CHR '' '' # expand_from False (dropWhile isspace r))
          else c # expand_from False r)"
  by pat_completeness auto
termination
  by (relation "measure (\<lambda>(q, s). length s)") (auto simp: less_Suc_eq_le)

definition conf_expand_text :: "cstring \<Rightarrow> cstring" where
  "conf_expand_text str = expand_from False str"

declare conf_preparse.simps [simp del] expand_from.simps [simp del]

section \<open>The tree\<close>

text \<open>
  An entry of type \<^verbatim>\<open>CONF_TYPE_DATA\<close> has a name and a string, one of type
  \<^verbatim>\<open>CONF_TYPE_LIST\<close> a name, possibly a string, and the entries of its list.
\<close>

datatype conf_entry =
    Conf_Data cstring cstring
  | Conf_List cstring "cstring option" "conf_entry list"

fun ce_name :: "conf_entry \<Rightarrow> cstring" where
  "ce_name (Conf_Data n v) = n"
| "ce_name (Conf_List n v l) = n"

fun ce_string :: "conf_entry \<Rightarrow> cstring option" where
  "ce_string (Conf_Data n v) = Some v"
| "ce_string (Conf_List n v l) = v"

definition CONF_TYPE_LIST :: int where "CONF_TYPE_LIST = 1"
definition CONF_TYPE_DATA :: int where "CONF_TYPE_DATA = 2"

fun ce_type :: "conf_entry \<Rightarrow> int" where
  "ce_type (Conf_Data n v) = CONF_TYPE_DATA"
| "ce_type (Conf_List n v l) = CONF_TYPE_LIST"

section \<open>The parser\<close>

abbreviation skip_ws :: "cstring \<Rightarrow> cstring" where
  "skip_ws \<equiv> dropWhile isspace"

abbreviation word_char :: "char \<Rightarrow> bool" where
  "word_char c \<equiv> \<not> isspace c \<and> c \<noteq> CHR ''{'' \<and> c \<noteq> CHR '';''"

text \<open>The name of an entry and the text behind it.\<close>

definition entry_name :: "cstring \<Rightarrow> (cstring \<times> cstring) option" where
  "entry_name str =
     (if chd str \<noteq> QUOTE \<and> chd str \<noteq> CHR ''{'' then
        (let rest = dropWhile word_char str in
         if rest = [] then None
         else if chd (skip_ws rest) = CHR '';'' then Some ([], str)
         else Some (takeWhile word_char str, skip_ws rest))
      else Some ([], str))"

text \<open>
  The scan for the end of the value. The inner loop starts on the opening quote itself, so it
  ends there: the result is the suffix at the first semicolon or brace.
\<close>

function quoted_end :: "cstring \<Rightarrow> cstring outcome" where
  "quoted_end s =
     (case s of
        [] \<Rightarrow> Ok []
      | c # r \<Rightarrow> if c = BACKSLASH then (if r = [] then Undef else quoted_end (tl r))
                 else if c = QUOTE then Ok r
                 else quoted_end r)"
  by pat_completeness auto
termination by (relation "measure length") (auto simp: less_Suc_eq_le)

declare quoted_end.simps [simp del]

lemma quoted_end_QUOTE: "quoted_end (QUOTE # r) = Ok r"
  by (simp add: quoted_end.simps conf_chars)

function value_end :: "cstring \<Rightarrow> cstring outcome" where
  "value_end str =
     (case str of
        [] \<Rightarrow> Fail
      | c # r \<Rightarrow>
          if c = CHR '';'' \<or> c = CHR ''{'' then Ok str
          else if c = QUOTE then
            bind_ok (quoted_end str) (\<lambda>str'. if str' = [] then Fail else value_end str')
          else value_end r)"
  by pat_completeness auto
termination by (relation "measure length") (auto simp: quoted_end_QUOTE)

declare value_end.simps [simp del]

text \<open>
  The scan for the brace that closes a section. When a quote in the section is not closed, the
  inner loop stops at the terminator and the outer loop steps over it.
\<close>

function section_quote :: "cstring \<Rightarrow> cstring" where
  "section_quote s =
     (case s of
        [] \<Rightarrow> []
      | c # r \<Rightarrow> if c = BACKSLASH \<and> chd r \<noteq> NUL then section_quote (tl r)
                 else if c = QUOTE then s
                 else section_quote r)"
  by pat_completeness auto
termination by (relation "measure length") (auto simp: less_Suc_eq_le)

declare section_quote.simps [simp del]

lemma section_quote_length: "length (section_quote s) \<le> length s"
proof (induction s rule: section_quote.induct)
  case (1 s)
  then show ?case
    by (subst section_quote.simps) (auto split: list.splits)
qed

text \<open>The result is the suffix behind the closing brace.\<close>

function section_end :: "nat \<Rightarrow> cstring \<Rightarrow> cstring outcome" where
  "section_end depth str =
     (case str of
        [] \<Rightarrow> Fail
      | c # r \<Rightarrow>
          if c = QUOTE then
            (let str' = section_quote r in if str' = [] then Undef else section_end depth (tl str'))
          else if c = CHR ''{'' then section_end (depth + 1) r
          else if c = CHR ''}'' then
            (if depth - 1 = 0 then Ok r else section_end (depth - 1) r)
          else section_end depth r)"
  by pat_completeness auto
termination
proof (relation "measure (\<lambda>(d, s). length s)", goal_cases)
  case (2 depth str c r str')
  then show ?case using section_quote_length [of r] by simp
qed auto

declare section_end.simps [simp del]

lemma entry_name_length: "entry_name str = Some (name, s) \<Longrightarrow> length s \<le> length str"
  using order.trans [OF dropWhile_length_le dropWhile_length_le, of isspace word_char str]
  by (auto simp: entry_name_def Let_def simp del: dropWhile_length_le split: if_splits)

lemma value_end_list [simp]:
  "value_end [] = Fail"
  "value_end (c # r) = (if c = CHR '';'' \<or> c = CHR ''{'' then Ok (c # r) else value_end r)"
proof -
  show nil: "value_end [] = Fail" by (simp add: value_end.simps)
  show "value_end (c # r) = (if c = CHR '';'' \<or> c = CHR ''{'' then Ok (c # r) else value_end r)"
    using nil by (subst value_end.simps) (cases r; auto simp: quoted_end_QUOTE)
qed

lemma value_end_eq:
  "value_end str = (case dropWhile (\<lambda>c. c \<noteq> CHR '';'' \<and> c \<noteq> CHR ''{'') str of [] \<Rightarrow> Fail | c # r \<Rightarrow> Ok (c # r))"
  by (induction str) auto

lemma value_end_Ok: "value_end str = Ok t \<Longrightarrow> t \<noteq> [] \<and> (chd t = CHR '';'' \<or> chd t = CHR ''{'') \<and> length t \<le> length str"
proof -
  assume a: "value_end str = Ok t"
  then have t: "dropWhile (\<lambda>c. c \<noteq> CHR '';'' \<and> c \<noteq> CHR ''{'') str = t" "t \<noteq> []"
    by (auto simp: value_end_eq split: list.splits)
  then have "\<not> (chd t \<noteq> CHR '';'' \<and> chd t \<noteq> CHR ''{'')"
    using hd_dropWhile [of "\<lambda>c. c \<noteq> CHR '';'' \<and> c \<noteq> CHR ''{''" str] by (cases t) auto
  then show ?thesis using t dropWhile_length_le by blast
qed

lemma section_end_length: "section_end d str = Ok t \<Longrightarrow> length t < length str"
proof (induction d str rule: section_end.induct)
  case (1 depth str)
  show ?case
  proof (cases str)
    case Nil
    then show ?thesis using "1.prems" by (simp add: section_end.simps)
  next
    case (Cons c r)
    show ?thesis
    proof (cases "c = QUOTE")
      case True
      then have "section_quote r \<noteq> []" "section_end depth (tl (section_quote r)) = Ok t"
        using "1.prems" Cons by (subst (asm) section_end.simps, simp add: Let_def split: if_splits)+
      then show ?thesis using "1.IH"(1) [OF Cons True refl] section_quote_length [of r] Cons by simp
    next
      case False
      then show ?thesis using "1.prems" "1.IH"(2-4) [OF Cons False] Cons
        by (subst (asm) section_end.simps) (fastforce split: if_splits)
    qed
  qed
qed

lemma entry_shorter:
  assumes "entry_name (skip_ws input) = Some (word, s)" "value_end s = Ok t"
  shows "length (tl t) < length input"
proof -
  have "length s \<le> length input"
    using order.trans [OF entry_name_length [OF assms(1)] dropWhile_length_le] .
  then show ?thesis using value_end_Ok [OF assms(2)] by (cases t) auto
qed

lemma section_shorter:
  assumes "entry_name (skip_ws input) = Some (word, s)" "value_end s = Ok t" "section_end 1 (tl t) = Ok rest"
  shows "length (tl (skip_ws rest)) < length input"
proof -
  have "length (tl (skip_ws rest)) \<le> length rest"
    using dropWhile_length_le [of isspace rest] by (simp del: dropWhile_length_le)
  then show ?thesis using entry_shorter [OF assms(1,2)] section_end_length [OF assms(3)] by simp
qed

function conf_parse :: "(cstring \<Rightarrow> cstring option) \<Rightarrow> nat \<Rightarrow> cstring \<Rightarrow> conf_entry list
    \<Rightarrow> conf_entry list outcome" where
  "conf_parse files levels input list =
     (let str = skip_ws input in
      if str = [] then Ok list
      else (case entry_name str of
        None \<Rightarrow> Fail
      | Some (word, s) \<Rightarrow>
          bind_ok (value_end s) (\<lambda>str.
            let val = conf_expand_text (take (length s - length str) s) in
            if chd str = CHR '';'' then
              (let name = (if val = [] then [] else word); string = (if val = [] then word else val) in
               if name = ''$INCLUDE'' then
                 (case levels of
                    0 \<Rightarrow> Deep
                  | Suc deeper \<Rightarrow>
                      (case files string of
                         None \<Rightarrow> Fail
                       | Some oldstr \<Rightarrow>
                           bind_ok (conf_preparse oldstr False False) (\<lambda>stuff.
                           bind_ok (conf_parse files deeper stuff []) (\<lambda>inclist.
                             conf_parse files levels (tl str) (list @ inclist)))))
               else conf_parse files levels (tl str) (list @ [Conf_Data name string]))
            else
              bind_ok (section_end 1 (tl str)) (\<lambda>rest.
              bind_ok (conf_parse files levels (take (length (tl str) - length rest - 1) (tl str)) []) (\<lambda>sub.
                if chd (skip_ws rest) = CHR '';'' then
                  conf_parse files levels (tl (skip_ws rest))
                    (list @ [Conf_List word (if val = [] then None else Some val) sub])
                else Undef)))))"
  by pat_completeness auto
termination
proof (relation "measures [\<lambda>(files, levels, input, list). levels, \<lambda>(files, levels, input, list). length input]",
    goal_cases)
  case (3 files levels input list str p word s str2)
  then show ?case using entry_shorter [of input word s str2] by simp
next
  case (4 files levels input list str p word s str2)
  then show ?case using entry_shorter [of input word s str2] by simp
next
  case (5 files levels input list str p word s str2 val rest)
  then show ?case using entry_shorter [of input word s str2] by simp
next
  case (6 files levels input list str p word s str2 val rest)
  then show ?case using section_shorter [of input word s str2 rest] by simp
qed auto

definition read_conf :: "(cstring \<Rightarrow> cstring option) \<Rightarrow> nat \<Rightarrow> cstring \<Rightarrow> conf_entry list outcome" where
  "read_conf files levels file =
     (case files file of
        None \<Rightarrow> Fail
      | Some oldstr \<Rightarrow> bind_ok (conf_preparse oldstr False False) (\<lambda>stuff. conf_parse files levels stuff []))"

declare conf_parse.simps [simp del]

section \<open>Printing a tree\<close>

text \<open>A text for every tree whose names are plain words and whose strings hold no semicolon or brace.\<close>

fun esc_quoted :: "cstring \<Rightarrow> cstring" where
  "esc_quoted [] = []"
| "esc_quoted (c # s) = (if c = QUOTE \<or> c = BACKSLASH then BACKSLASH # c # esc_quoted s else c # esc_quoted s)"

definition quoted :: "cstring \<Rightarrow> cstring" where
  "quoted v = QUOTE # esc_quoted v @ [QUOTE]"

fun print_entry :: "conf_entry \<Rightarrow> cstring" where
  "print_entry (Conf_Data n v) = n @ CHR '' '' # quoted v @ '';''"
| "print_entry (Conf_List n v l) =
     n @ CHR '' '' # (case v of None \<Rightarrow> [] | Some v \<Rightarrow> quoted v) @ CHR ''{'' # concat (map print_entry l) @ ''};''"

abbreviation print_conf :: "conf_entry list \<Rightarrow> cstring" where
  "print_conf l \<equiv> concat (map print_entry l)"

abbreviation plain_char :: "char \<Rightarrow> bool" where
  "plain_char c \<equiv> word_char c \<and> c \<notin> {QUOTE, BACKSLASH, CHR ''#'', CHR ''/'', CHR ''}''}"

definition good_name :: "cstring \<Rightarrow> bool" where
  "good_name n \<longleftrightarrow> (\<forall>c \<in> set n. plain_char c) \<and> n \<noteq> ''$INCLUDE''"

definition good_string :: "cstring \<Rightarrow> bool" where
  "good_string v \<longleftrightarrow> v \<noteq> [] \<and> (\<forall>c \<in> set v. c \<noteq> CHR '';'' \<and> c \<noteq> CHR ''{'')"

fun good_entry :: "conf_entry \<Rightarrow> bool" where
  "good_entry (Conf_Data n v) \<longleftrightarrow> good_name n \<and> good_string v"
| "good_entry (Conf_List n v l) \<longleftrightarrow>
     good_name n \<and> (case v of None \<Rightarrow> True | Some v \<Rightarrow> good_string v) \<and> list_all good_entry l"

section \<open>Reading it back\<close>

lemma cons_all_append: "cons_all s (cons_all t r) = cons_all (s @ t) r"
  by (cases r) (simp_all add: cons_all_def)

lemma cons_all_Nil [simp]: "cons_all [] r = r"
  by (cases r) (simp_all add: cons_all_def)

text \<open>The first pass keeps plain words and quoted text as they are.\<close>

lemma preparse_plain_char:
  "c \<notin> {QUOTE, BACKSLASH, CHR ''#'', CHR ''/''} \<Longrightarrow>
     conf_preparse (c # r) False False = cons_all [c] (conf_preparse r False False)"
  by (subst conf_preparse.simps) simp

lemma preparse_plain:
  "(\<forall>c \<in> set n. c \<notin> {QUOTE, BACKSLASH, CHR ''#'', CHR ''/''}) \<Longrightarrow>
     conf_preparse (n @ t) False False = cons_all n (conf_preparse t False False)"
  by (induction n) (simp_all add: preparse_plain_char cons_all_append)

lemma preparse_in_string:
  "conf_preparse (esc_quoted v @ t) True False = cons_all (esc_quoted v) (conf_preparse t True False)"
proof (induction v)
  case (Cons c v)
  then show ?case
    by (subst esc_quoted.simps, subst conf_preparse.simps)
      (auto simp: conf_chars cons_all_append conf_preparse.simps [of "CHR 0x22 # _"] conf_preparse.simps [of "CHR 0x5C # _"])
qed simp

lemma preparse_quoted:
  "conf_preparse (quoted v @ t) False False = cons_all (quoted v) (conf_preparse t False False)"
proof -
  have "conf_preparse (QUOTE # s) q False = cons_all [QUOTE] (conf_preparse s (\<not> q) False)" for s q
    by (subst conf_preparse.simps) simp
  then show ?thesis by (simp add: quoted_def preparse_in_string cons_all_append)
qed

lemma preparse_name:
  "good_name n \<Longrightarrow> conf_preparse (n @ t) False False = cons_all n (conf_preparse t False False)"
  by (rule preparse_plain) (auto simp: good_name_def)

lemma preparse_sep:
  "c \<in> {CHR '' '', CHR '';'', CHR ''{'', CHR ''}''} \<Longrightarrow>
     conf_preparse (c # r) False False = cons_all [c] (conf_preparse r False False)"
  by (rule preparse_plain_char) (auto simp: conf_chars)

lemmas preparse_parts = preparse_name preparse_sep preparse_quoted cons_all_append

lemma preparse_entry:
  "good_entry e \<Longrightarrow> conf_preparse (print_entry e @ t) False False = cons_all (print_entry e) (conf_preparse t False False)"
proof (induction e arbitrary: t)
  case (Conf_Data n v)
  have "good_name n" using Conf_Data by simp
  then show ?case
    by (simp add: preparse_parts)
next
  case (Conf_List n v l)
  have n: "good_name n" using Conf_List by simp
  have l: "conf_preparse (print_conf l @ t) False False = cons_all (print_conf l) (conf_preparse t False False)" for t
    using Conf_List
  proof (induction l arbitrary: t)
    case (Cons e l)
    then show ?case by (simp add: cons_all_append)
  qed simp
  show ?case
    using n l by (cases v) (simp_all add: preparse_parts)
qed

lemma preparse_print:
  "list_all good_entry l \<Longrightarrow> conf_preparse (print_conf l) False False = Ok (print_conf l)"
proof (induction l)
  case Nil
  show ?case by (simp add: conf_preparse.simps)
next
  case (Cons e l)
  then show ?case by (simp add: preparse_entry)
qed

text \<open>Expansion undoes the quoting, and the scans step over it.\<close>

lemma expand_quoted_from: "expand_from True (esc_quoted v @ QUOTE # r) = v @ expand_from False r"
proof (induction v)
  case Nil
  show ?case by (subst expand_from.simps) (simp add: conf_chars)
next
  case (Cons c v)
  then show ?case
    by (subst esc_quoted.simps, subst expand_from.simps) (auto simp: conf_chars expand_escape_def)
qed

lemma expand_quoted: "conf_expand_text (quoted v) = v"
proof -
  have "conf_expand_text (quoted v) = expand_from True (esc_quoted v @ QUOTE # [])"
    unfolding conf_expand_text_def quoted_def by (subst expand_from.simps) simp
  then show ?thesis using expand_quoted_from [of v "[]"] by (simp add: expand_from.simps)
qed

lemma value_end_skip:
  "(\<forall>c \<in> set q. c \<noteq> CHR '';'' \<and> c \<noteq> CHR ''{'') \<Longrightarrow> value_end (q @ r) = value_end r"
  by (induction q) auto

lemma set_esc_quoted: "set (esc_quoted v) \<subseteq> insert BACKSLASH (set v)"
  by (induction v) auto

lemma value_end_quoted: "good_string v \<Longrightarrow> value_end (quoted v @ r) = value_end r"
  using set_esc_quoted [of v] by (intro value_end_skip) (auto simp: quoted_def good_string_def conf_chars)

lemma section_quote_esc: "section_quote (esc_quoted v @ QUOTE # r) = QUOTE # r"
proof (induction v)
  case Nil
  show ?case by (subst section_quote.simps) (simp add: conf_chars)
next
  case (Cons c v)
  then show ?case
    by (subst esc_quoted.simps, subst section_quote.simps) (auto simp: conf_chars)
qed

lemma section_end_plain:
  "(\<forall>c \<in> set n. c \<notin> {QUOTE, CHR ''{'', CHR ''}''}) \<Longrightarrow> section_end d (n @ t) = section_end d t"
proof (induction n)
  case (Cons c n)
  then show ?case by (subst append_Cons, subst section_end.simps) simp
qed simp

lemma section_end_quoted: "section_end d (quoted v @ t) = section_end d t"
  unfolding quoted_def by (subst append_Cons, subst section_end.simps) (simp add: section_quote_esc)

lemma section_end_char:
  "section_end d (CHR ''{'' # t) = section_end (d + 1) t"
  "section_end d (CHR ''}'' # t) = (if d - 1 = 0 then Ok t else section_end (d - 1) t)"
  "section_end d (CHR '' '' # t) = section_end d t" "section_end d (CHR '';'' # t) = section_end d t"
  by (subst section_end.simps, simp add: conf_chars)+

lemma section_end_entry:
  "good_entry e \<Longrightarrow> 0 < d \<Longrightarrow> section_end d (print_entry e @ t) = section_end d t"
proof (induction e arbitrary: t d)
  case (Conf_Data n v)
  then have "\<forall>c \<in> set n. c \<notin> {QUOTE, CHR ''{'', CHR ''}''}" by (auto simp: good_name_def)
  then show ?case by (simp add: section_end_plain section_end_quoted section_end_char)
next
  case (Conf_List n v l)
  then have n: "\<forall>c \<in> set n. c \<notin> {QUOTE, CHR ''{'', CHR ''}''}" by (auto simp: good_name_def)
  have l: "section_end (d + 1) (print_conf l @ t) = section_end (d + 1) t" for t
    using Conf_List
  proof (induction l arbitrary: t)
    case (Cons e l)
    then show ?case by simp
  qed simp
  show ?case
    using n l Conf_List.prems(2)
    by (cases v) (simp_all add: section_end_plain section_end_quoted section_end_char)
qed

lemma section_end_print:
  "list_all good_entry l \<Longrightarrow> 0 < d \<Longrightarrow> section_end d (print_conf l @ t) = section_end d t"
  by (induction l) (simp_all add: section_end_entry)

lemma isspace_seps [simp]: "isspace (CHR '' '')" "\<not> isspace (CHR '';'')" "\<not> isspace (CHR ''{'')"
  by (simp_all add: isspace_def uchar_def)

text \<open>The name in front of a value or a section.\<close>

lemma entry_name_good:
  assumes "good_name n" "chd s = QUOTE \<or> chd s = CHR ''{''"
  shows "entry_name (skip_ws (n @ CHR '' '' # s)) = Some (n, s)"
proof (cases n)
  case Nil
  have "skip_ws s = s" "isspace (CHR '' '')" using assms(2) by (cases s; auto simp: isspace_def conf_chars uchar_def)+
  then show ?thesis using Nil assms(2) by (auto simp: entry_name_def)
next
  case (Cons c n')
  have w: "\<forall>c \<in> set n. word_char c" "plain_char c" using assms(1) Cons by (auto simp: good_name_def)
  have sp: "isspace (CHR '' '')" "skip_ws s = s" "chd s \<noteq> CHR '';''"
    using assms(2) by (cases s; auto simp: isspace_def conf_chars uchar_def)+
  have "dropWhile word_char (n @ CHR '' '' # s) = CHR '' '' # s"
    "takeWhile word_char (n @ CHR '' '' # s) = n"
    using w(1) sp(1) by (simp_all add: dropWhile_append3 takeWhile_append)
  then show ?thesis using Cons w(2) sp by (auto simp: entry_name_def Let_def)
qed

definition value_text :: "cstring option \<Rightarrow> cstring" where
  "value_text v = (case v of None \<Rightarrow> [] | Some v \<Rightarrow> quoted v)"

lemma value_text_end:
  "(case v of None \<Rightarrow> True | Some v \<Rightarrow> good_string v) \<Longrightarrow> value_end (value_text v @ r) = value_end r"
  by (cases v) (simp_all add: value_text_def value_end_quoted)

lemma value_text_expand: "conf_expand_text (value_text v) = (case v of None \<Rightarrow> [] | Some v \<Rightarrow> v)"
  by (cases v) (simp_all add: value_text_def expand_quoted, simp add: conf_expand_text_def expand_from.simps)

lemma parse_step:
  assumes "good_name n" "case v of None \<Rightarrow> True | Some v \<Rightarrow> good_string v"
    "c = CHR ''{'' \<or> c = CHR '';'' \<and> v \<noteq> None"
  shows "skip_ws (n @ CHR '' '' # value_text v @ c # t) \<noteq> []"
    "entry_name (skip_ws (n @ CHR '' '' # value_text v @ c # t)) = Some (n, value_text v @ c # t)"
    "value_end (value_text v @ c # t) = Ok (c # t)"
proof -
  show e: "entry_name (skip_ws (n @ CHR '' '' # value_text v @ c # t)) = Some (n, value_text v @ c # t)"
    using assms(3) by (intro entry_name_good [OF assms(1)]) (cases v; auto simp: value_text_def quoted_def)
  show "value_end (value_text v @ c # t) = Ok (c # t)"
    using value_text_end [OF assms(2)] assms(3) by auto
  show "skip_ws (n @ CHR '' '' # value_text v @ c # t) \<noteq> []"
  proof -
    have "\<not> isspace c" using assms(3) by (auto simp: isspace_def uchar_def)
    then show ?thesis by auto
  qed
qed

lemma parse_data:
  assumes "good_name n" "good_string v"
  shows "conf_parse files lev (print_entry (Conf_Data n v) @ t) acc = conf_parse files lev t (acc @ [Conf_Data n v])"
  using parse_step [of n "Some v" "CHR '';''" t] assms value_text_expand [of "Some v"]
  by (subst conf_parse.simps) (simp add: Let_def value_text_def good_name_def good_string_def)

lemma parse_list:
  assumes "good_entry (Conf_List n v l)"
    "conf_parse files lev (print_conf l) [] = Ok l"
  shows "conf_parse files lev (print_entry (Conf_List n v l) @ t) acc =
    conf_parse files lev t (acc @ [Conf_List n v l])"
proof -
  let ?rest = "print_conf l @ ''};'' @ t"
  have p: "print_entry (Conf_List n v l) @ t = n @ CHR '' '' # value_text v @ CHR ''{'' # ?rest"
    by (simp add: value_text_def)
  have s: "section_end 1 ?rest = Ok (CHR '';'' # t)"
    using assms(1) section_end_print [of l 1 "CHR ''}'' # CHR '';'' # t"] by (simp add: section_end_char)
  show ?thesis
    using parse_step [of n v "CHR ''{''" ?rest] assms value_text_expand [of v] s
    unfolding p by (subst conf_parse.simps) (cases v; simp add: Let_def good_string_def)
qed

lemma parse_entry:
  "good_entry e \<Longrightarrow> conf_parse files lev (print_entry e @ t) acc = conf_parse files lev t (acc @ [e])"
proof (induction e arbitrary: t acc)
  case (Conf_Data n v)
  then show ?case using parse_data by simp
next
  case (Conf_List n v l)
  have "conf_parse files lev (print_conf l) acc = Ok (acc @ l)" for acc
    using Conf_List
  proof (induction l arbitrary: acc)
    case Nil
    show ?case by (simp add: conf_parse.simps)
  next
    case (Cons e l)
    then show ?case by simp
  qed
  then show ?case using parse_list [OF Conf_List.prems] by simp
qed

lemma parse_print: "list_all good_entry l \<Longrightarrow> conf_parse files lev (print_conf l) acc = Ok (acc @ l)"
proof (induction l arbitrary: acc)
  case Nil
  show ?case by (simp add: conf_parse.simps)
next
  case (Cons e l)
  then show ?case by (simp add: parse_entry)
qed

section \<open>Searching the tree\<close>

text \<open>
  \<open>None\<close> is the comparison of a null string: an entry that matches by name and type is compared
  with the wanted data although a list entry need not have a string.
\<close>

function conf_find :: "cstring \<Rightarrow> cstring option \<Rightarrow> int \<Rightarrow> conf_entry list \<Rightarrow> int \<Rightarrow> conf_entry option option" where
  "conf_find name data type list maxdepth =
     (if maxdepth < 1 then Some None
      else case list of
        [] \<Rightarrow> Some None
      | cep # rest \<Rightarrow>
          if ith_strcasecmp (ce_name cep) name = 0 \<and> (ce_type cep = type \<or> type = 0) then
            (case data of
               None \<Rightarrow> Some (Some cep)
             | Some d \<Rightarrow>
                 (case ce_string cep of
                    None \<Rightarrow> None
                  | Some s \<Rightarrow> if ith_strcasecmp s d = 0 then Some (Some cep)
                              else conf_find name data type rest maxdepth))
          else (case cep of
                  Conf_Data n v \<Rightarrow> conf_find name data type rest maxdepth
                | Conf_List n v l \<Rightarrow>
                    (case conf_find name data type l (maxdepth - 1) of
                       None \<Rightarrow> None
                     | Some (Some e) \<Rightarrow> Some (Some e)
                     | Some None \<Rightarrow> conf_find name data type rest maxdepth)))"
  by pat_completeness auto
termination
  by (relation "measure (\<lambda>(name, data, type, list, maxdepth). size_list size list)") auto

text \<open>\<open>last\<close> is what follows the given entry in its list, \<open>None\<close> for the null pointer.\<close>

definition conf_find_next :: "cstring \<Rightarrow> cstring option \<Rightarrow> int \<Rightarrow> conf_entry list option \<Rightarrow> conf_entry list \<Rightarrow> int
    \<Rightarrow> conf_entry option option" where
  "conf_find_next name data type lst list maxdepth =
     conf_find name data type (case lst of None \<Rightarrow> list | Some rest \<Rightarrow> rest) maxdepth"

definition conf_find_list :: "cstring \<Rightarrow> conf_entry list \<Rightarrow> int \<Rightarrow> conf_entry list option" where
  "conf_find_list name list maxdepth =
     (case conf_find name None CONF_TYPE_LIST list maxdepth of
        Some (Some (Conf_List n v l)) \<Rightarrow> Some l
      | _ \<Rightarrow> None)"

definition conf_find_entry :: "cstring \<Rightarrow> conf_entry list \<Rightarrow> int \<Rightarrow> cstring option" where
  "conf_find_entry name list maxdepth =
     (case conf_find name None CONF_TYPE_DATA list maxdepth of
        Some (Some e) \<Rightarrow> ce_string e
      | _ \<Rightarrow> None)"

text \<open>
  The two functions that start behind a given list or string. That pointer is the position of its
  entry in the list; when it is not in the list nothing is found.
\<close>

fun list_next_loop :: "cstring \<Rightarrow> nat option \<Rightarrow> conf_entry list \<Rightarrow> int \<Rightarrow> conf_entry list option" where
  "list_next_loop name lst [] maxdepth = None"
| "list_next_loop name (Some 0) (cep # rest) maxdepth = list_next_loop name None rest maxdepth"
| "list_next_loop name (Some (Suc i)) (cep # rest) maxdepth = list_next_loop name (Some i) rest maxdepth"
| "list_next_loop name None (Conf_Data n v # rest) maxdepth = list_next_loop name None rest maxdepth"
| "list_next_loop name None (Conf_List n v l # rest) maxdepth =
     (if ith_strcasecmp n name = 0 then Some l
      else case conf_find_list name l (maxdepth - 1) of
             Some clp \<Rightarrow> Some clp
           | None \<Rightarrow> list_next_loop name None rest maxdepth)"

definition conf_find_list_next :: "cstring \<Rightarrow> nat option \<Rightarrow> conf_entry list \<Rightarrow> int \<Rightarrow> conf_entry list option" where
  "conf_find_list_next name lst list maxdepth =
     (if maxdepth < 1 then None else list_next_loop name lst list maxdepth)"

fun entry_next_loop :: "cstring \<Rightarrow> nat option \<Rightarrow> conf_entry list \<Rightarrow> int \<Rightarrow> cstring option" where
  "entry_next_loop name lst [] maxdepth = None"
| "entry_next_loop name (Some 0) (cep # rest) maxdepth = entry_next_loop name None rest maxdepth"
| "entry_next_loop name (Some (Suc i)) (cep # rest) maxdepth = entry_next_loop name (Some i) rest maxdepth"
| "entry_next_loop name None (Conf_Data n v # rest) maxdepth =
     (if ith_strcasecmp n name = 0 then Some v else entry_next_loop name None rest maxdepth)"
| "entry_next_loop name None (Conf_List n v l # rest) maxdepth =
     (case conf_find_entry name l (maxdepth - 1) of
        Some s \<Rightarrow> Some s
      | None \<Rightarrow> entry_next_loop name None rest maxdepth)"

definition conf_find_entry_next :: "cstring \<Rightarrow> nat option \<Rightarrow> conf_entry list \<Rightarrow> int \<Rightarrow> cstring option" where
  "conf_find_entry_next name lst list maxdepth =
     (if maxdepth < 1 then None else entry_next_loop name lst list maxdepth)"

declare conf_find.simps [simp del]

text \<open>The entries of a tree down to a depth, each before the entries of its own list.\<close>

fun preorder :: "nat \<Rightarrow> conf_entry list \<Rightarrow> conf_entry list" where
  "preorder 0 l = []"
| "preorder (Suc d) [] = []"
| "preorder (Suc d) (Conf_Data n v # rest) = Conf_Data n v # preorder (Suc d) rest"
| "preorder (Suc d) (Conf_List n v l # rest) = Conf_List n v l # preorder d l @ preorder (Suc d) rest"

definition entry_matches :: "cstring \<Rightarrow> int \<Rightarrow> conf_entry \<Rightarrow> bool" where
  "entry_matches name type e \<longleftrightarrow>
     ith_strcasecmp (ce_name e) name = 0 \<and> (ce_type e = type \<or> type = 0)"

lemma find_append: "find P (xs @ ys) = (case find P xs of None \<Rightarrow> find P ys | Some x \<Rightarrow> Some x)"
  by (induction xs) auto

lemma conf_find_preorder:
  "conf_find name None type l (int d) = Some (find (entry_matches name type) (preorder d l))"
proof (induction d l rule: preorder.induct)
  case (1 l)
  show ?case by (subst conf_find.simps) simp
next
  case (2 d)
  show ?case by (subst conf_find.simps) simp
next
  case (3 d n v rest)
  then show ?case by (subst conf_find.simps) (auto simp: entry_matches_def [of _ _ "Conf_Data n v"])
next
  case (4 d n v l rest)
  then show ?case
    by (subst conf_find.simps)
      (auto simp: entry_matches_def [of _ _ "Conf_List n v l"] find_append split: option.splits)
qed

lemma conf_find_type:
  "conf_find name None type l (int d) = Some (Some e) \<Longrightarrow> type \<noteq> 0 \<Longrightarrow> ce_type e = type"
  by (auto simp: conf_find_preorder find_Some_iff entry_matches_def)

lemma ce_type_LIST: "ce_type e = CONF_TYPE_LIST \<Longrightarrow> \<exists>n v l. e = Conf_List n v l"
  by (cases e) (auto simp: CONF_TYPE_LIST_def CONF_TYPE_DATA_def)

lemma conf_find_list_eq:
  "conf_find_list name l (int d) =
     (case find (entry_matches name CONF_TYPE_LIST) (preorder d l) of
        Some (Conf_List n v l) \<Rightarrow> Some l | _ \<Rightarrow> None)"
  by (simp add: conf_find_list_def conf_find_preorder split: option.splits)

lemma find_list_type:
  "find (entry_matches name CONF_TYPE_LIST) l = Some e \<Longrightarrow> \<exists>n v l. e = Conf_List n v l"
  by (intro ce_type_LIST) (auto simp: find_Some_iff entry_matches_def CONF_TYPE_LIST_def)

lemma conf_find_list_Cons:
  "conf_find_list name [] (int (Suc d)) = None"
  "conf_find_list name (Conf_Data n v # rest) (int (Suc d)) = conf_find_list name rest (int (Suc d))"
  "conf_find_list name (Conf_List n w l # rest) (int (Suc d)) =
     (if ith_strcasecmp n name = 0 then Some l
      else case conf_find_list name l (int d) of
             Some clp \<Rightarrow> Some clp
           | None \<Rightarrow> conf_find_list name rest (int (Suc d)))"
  unfolding conf_find_list_eq
  using find_list_type [of name "preorder d l"]
  by (auto simp: entry_matches_def [of _ _ "Conf_Data n v"] entry_matches_def [of _ _ "Conf_List n w l"]
      CONF_TYPE_LIST_def CONF_TYPE_DATA_def find_append split: option.splits)

text \<open>Going on behind a list of the same level is a search of the rest.\<close>

lemma list_next_None: "list_next_loop name None l (int (Suc d)) = conf_find_list name l (int (Suc d))"
proof (induction l)
  case (Cons e l)
  have eq: "int (Suc d) - 1 = int d" by simp
  show ?case using Cons
    by (cases e) (auto simp: conf_find_list_Cons eq simp del: of_nat_Suc split: option.splits)
qed (simp add: conf_find_list_Cons del: of_nat_Suc)

lemma list_next_Some:
  "list_next_loop name (Some i) l (int (Suc d)) = conf_find_list name (drop (Suc i) l) (int (Suc d))"
proof (induction l arbitrary: i)
  case (Cons e l)
  then show ?case by (cases i) (simp_all add: list_next_None del: of_nat_Suc)
qed (simp add: conf_find_list_Cons del: of_nat_Suc)

section \<open>Properties\<close>

text \<open>C34: a file that holds the printed form of a tree of plain names and strings without semicolon
  or brace is read back as that tree: comments, quoting, escapes, names, nested sections.\<close>

theorem read_conf_print:
  assumes "list_all good_entry l" "files file = Some (print_conf l)"
  shows "read_conf files levels file = Ok l"
  using assms preparse_print [OF assms(1)] parse_print [OF assms(1), of files levels "[]"]
  by (simp add: read_conf_def)

theorem read_conf_print_witness:
  "read_conf (\<lambda>f. Some (print_conf [Conf_List ''listen'' (Some ''a#b'') [Conf_Data ''port'' ''6667'']])) 0 ''x''
     = Ok [Conf_List ''listen'' (Some ''a#b'') [Conf_Data ''port'' ''6667'']]"
  by (rule read_conf_print) (simp_all add: good_name_def good_string_def isspace_def uchar_def conf_chars)

text \<open>A search by name and type returns the first matching entry in the order of the file,
  among the entries down to the given depth.\<close>

theorem conf_find_first:
  "conf_find name None type l (int d) = Some (find (entry_matches name type) (preorder d l))"
  by (rule conf_find_preorder)

text \<open>Quotes do not protect a semicolon or a brace in a value: the scan ends at the first one
  wherever it stands, because the loop that should skip a quoted part starts on the opening quote.\<close>

theorem value_ends_in_quotes:
  assumes "\<forall>c \<in> set v. c \<noteq> CHR '';'' \<and> c \<noteq> CHR ''{''"
  shows "value_end (QUOTE # v @ CHR '';'' # t) = Ok (CHR '';'' # t)"
  using value_end_skip [of "QUOTE # v"] assms by (simp add: conf_chars)

theorem value_ends_in_quotes_witness:
  "value_end (QUOTE # ''a'' @ CHR '';'' # ''b'' @ [QUOTE, CHR '';'']) = Ok (CHR '';'' # ''b'' @ [QUOTE, CHR '';''])"
  using value_ends_in_quotes [of "''a''" "''b'' @ [QUOTE, CHR '';'']"] by simp

text \<open>When the semicolon after a section is missing, the reader uses the entry of the section
  after freeing it: the entry is already in the list that is then destroyed.\<close>

theorem missing_semicolon_frees_twice:
  assumes "good_entry (Conf_List n v l)" "chd (skip_ws t) \<noteq> CHR '';''"
  shows "conf_parse files levels (n @ CHR '' '' # value_text v @ CHR ''{'' # print_conf l @ CHR ''}'' # t) acc = Undef"
proof -
  let ?rest = "print_conf l @ CHR ''}'' # t"
  have g: "good_name n" "case v of None \<Rightarrow> True | Some v \<Rightarrow> good_string v" "list_all good_entry l"
    using assms(1) by simp_all
  have "section_end 1 ?rest = Ok t"
    using section_end_print [OF g(3), of 1 "CHR ''}'' # t"] by (simp add: section_end_char)
  then show ?thesis
    using parse_step [of n v "CHR ''{''" ?rest] g parse_print [OF g(3), of files levels "[]"] assms(2)
    by (subst conf_parse.simps) (simp add: Let_def)
qed

theorem missing_semicolon_frees_twice_witness: "conf_parse (\<lambda>_. None) 0 ''log {}'' [] = Undef"
proof -
  have "conf_parse (\<lambda>_. None) 0 (''log'' @ CHR '' '' # value_text None @ CHR ''{'' # print_conf [] @ CHR ''}'' # []) [] = Undef"
    by (rule missing_semicolon_frees_twice) (simp_all add: good_name_def isspace_def uchar_def conf_chars)
  then show ?thesis by (simp add: value_text_def)
qed

text \<open>A search for a list by its string compares the null string of an earlier list of that name.\<close>

lemma conf_find_null_string:
  "conf_find ''operator'' (Some ''wd'') CONF_TYPE_LIST [Conf_List ''operator'' None []] 1 = None"
  by code_simp

end
