(* ===== verification/Format.thy ===== *)
theory Format
  imports CString
begin

unbundle bit_operations_syntax

text \<open>
  The formatted output of \<^verbatim>\<open>source/string.c\<close> (\<^verbatim>\<open>ith_vsnprintf\<close> and
  the functions that call it), which the rest of the program uses instead of the C library's. The
  arguments are the values that \<^verbatim>\<open>va_arg\<close> fetches; \<^verbatim>\<open>unsigned long\<close> has
  64 bits. \<open>None\<close> is a write outside the buffer, a missing or ill-typed argument or a format
  read past its end; \<open>Some None\<close> is the call of the C library's \<^verbatim>\<open>vsnprintf\<close>
  for a conversion this function does not know.
\<close>

section \<open>The code\<close>

datatype farg = FStr "cstring option" | FNum u64 | FChr char

definition otoa_tab :: cstring where "otoa_tab = ''01234567''"
definition itoa_tab :: cstring where "itoa_tab = ''0123456789''"
definition xtoa_tab :: cstring where "xtoa_tab = ''0123456789abcdef''"
definition nullstring :: cstring where "nullstring = ''(null)''"

text \<open>The digits that the \<^verbatim>\<open>do\<close> loop puts in front of the end of \<^verbatim>\<open>num\<close>.\<close>

function num_digits :: "cstring \<Rightarrow> nat \<Rightarrow> nat \<Rightarrow> cstring \<Rightarrow> cstring" where
  "num_digits tab base i64 s =
     (if base < 2 then s
      else let s' = tab ! (i64 mod base) # s; i' = i64 div base in
        if i' \<noteq> 0 then num_digits tab base i' s' else s')"
  by pat_completeness auto
termination by (relation "measure (\<lambda>(tab, m, i, s). i)") (auto intro!: div_less_dividend gr0I)

declare num_digits.simps [simp del]

text \<open>
  The characters of a number under a conversion character. A number whose top bit is set is
  printed with a minus sign and the difference of the top bit and itself.
\<close>

definition SIGN_BIT :: u64 where "SIGN_BIT = 9223372036854775808"

definition num_chars :: "char \<Rightarrow> u64 \<Rightarrow> cstring" where
  "num_chars c i64 =
     (if tolower c = CHR ''o'' then num_digits otoa_tab 8 (unat i64) []
      else if tolower c = CHR ''x'' \<or> c = CHR ''p'' then
        (if c = CHR ''p'' then ''0x'' else []) @ num_digits xtoa_tab 16 (unat i64) []
      else if tolower c \<noteq> CHR ''u'' \<and> i64 AND SIGN_BIT \<noteq> 0 then
        CHR ''-'' # num_digits itoa_tab 10 (unat (SIGN_BIT - (i64 AND SIGN_BIT))) []
      else num_digits itoa_tab 10 (unat i64) [])"

text \<open>One conversion: the characters, the rest of the format and the rest of the arguments.\<close>

definition conv_number :: "cstring \<Rightarrow> farg list \<Rightarrow> (cstring \<times> cstring \<times> farg list) option option" where
  "conv_number format args =
     (case args of
        FNum i # rest \<Rightarrow>
          if format = [] then None else Some (Some (num_chars (chd format) i, tl format, rest))
      | _ \<Rightarrow> None)"

definition conversion :: "cstring \<Rightarrow> farg list \<Rightarrow> (cstring \<times> cstring \<times> farg list) option option" where
  "conversion format args =
     (let c = chd format in
      if c = CHR ''s'' then
        (case args of
           FStr s # rest \<Rightarrow> Some (Some (case s of None \<Rightarrow> nullstring | Some s \<Rightarrow> s, tl format, rest))
         | _ \<Rightarrow> None)
      else if c = CHR ''q'' \<or> c = CHR ''l'' then
        conv_number (tl (if chd (tl format) = CHR ''l'' then tl format else format)) args
      else if c \<in> set ''dDioOpuUxX'' then conv_number format args
      else if c = CHR ''c'' then
        (case args of FChr x # rest \<Rightarrow> Some (Some ([x], tl format, rest)) | _ \<Rightarrow> None)
      else if c = CHR ''%'' then Some (Some (''%'', tl format, args))
      else Some None)"

fun put_chars :: "char list \<Rightarrow> nat \<Rightarrow> nat \<Rightarrow> cstring \<Rightarrow> (char list \<times> nat) option" where
  "put_chars buf len sz [] = Some (buf, len)"
| "put_chars buf len sz (c # s) =
     (if len < sz then
        (case buf_put buf len c of None \<Rightarrow> None | Some buf' \<Rightarrow> put_chars buf' (len + 1) sz s)
      else Some (buf, len))"

lemma conversion_shorter:
  "conversion format args = Some (Some (s, format', args')) \<Longrightarrow> format' = tl format \<or> length format' < length format"
  by (cases format; cases "tl format")
    (auto simp: conversion_def conv_number_def Let_def split: if_splits list.splits farg.splits)

function vsn_loop :: "char list \<Rightarrow> nat \<Rightarrow> nat \<Rightarrow> cstring \<Rightarrow> farg list \<Rightarrow> (char list \<times> nat) option option" where
  "vsn_loop buf len sz format args =
     (if chd format = NUL \<or> \<not> len < sz then Some (Some (buf, len))
      else if chd format = CHR ''%'' then
        (case conversion (tl format) args of
           None \<Rightarrow> None
         | Some None \<Rightarrow> Some None
         | Some (Some (s, format', args')) \<Rightarrow>
             (case put_chars buf len sz s of
                None \<Rightarrow> None
              | Some (buf', len') \<Rightarrow> vsn_loop buf' len' sz format' args'))
      else (case buf_put buf len (chd format) of
              None \<Rightarrow> None
            | Some buf' \<Rightarrow> vsn_loop buf' (len + 1) sz (tl format) args))"
  by pat_completeness auto
termination
proof (relation "measure (\<lambda>(buf, len, sz, format, args). length format)", goal_cases)
  case (2 buf len sz format args a p s q format' args')
  then show ?case using conversion_shorter [of "tl format" args s format' args'] by (cases format) auto
qed auto

declare vsn_loop.simps [simp del]

definition ith_vsnprintf :: "char list \<Rightarrow> nat \<Rightarrow> cstring \<Rightarrow> farg list \<Rightarrow> (char list \<times> nat) option option" where
  "ith_vsnprintf str sz format args =
     (case vsn_loop str 0 (if sz = 0 then 0x7fffffff else sz) format args of
        None \<Rightarrow> None
      | Some None \<Rightarrow> Some None
      | Some (Some (buf, len)) \<Rightarrow> map_option (\<lambda>b. Some (b, len)) (buf_put buf len NUL))"

definition ith_snprintf :: "char list \<Rightarrow> nat \<Rightarrow> cstring \<Rightarrow> farg list \<Rightarrow> (char list \<times> nat) option option" where
  "ith_snprintf str sz format args = ith_vsnprintf str sz format args"

definition ith_sprintf :: "char list \<Rightarrow> cstring \<Rightarrow> farg list \<Rightarrow> (char list \<times> nat) option option" where
  "ith_sprintf str format args = ith_vsnprintf str 0 format args"

definition ith_vsprintf :: "char list \<Rightarrow> cstring \<Rightarrow> farg list \<Rightarrow> (char list \<times> nat) option option" where
  "ith_vsprintf str format args = ith_vsnprintf str 0 format args"

section \<open>The text a format stands for\<close>

function render :: "cstring \<Rightarrow> farg list \<Rightarrow> cstring option" where
  "render format args =
     (if chd format = NUL then Some []
      else if chd format = CHR ''%'' then
        (case conversion (tl format) args of
           Some (Some (s, format', args')) \<Rightarrow> map_option (\<lambda>r. s @ r) (render format' args')
         | _ \<Rightarrow> None)
      else map_option (\<lambda>r. chd format # r) (render (tl format) args))"
  by pat_completeness auto
termination
proof (relation "measure (\<lambda>(format, args). length format)", goal_cases)
  case (2 format args a p s q format' args')
  then show ?case using conversion_shorter [of "tl format" args s format' args'] by (cases format) auto
qed auto

declare render.simps [simp del]

lemma put_chars_eq:
  "len \<le> sz \<Longrightarrow> len \<le> length buf \<Longrightarrow>
     put_chars buf len sz s =
       (let n = min sz (len + length s) in
        if n \<le> length buf then Some (put_bytes buf len (take (n - len) s), n) else None)"
proof (induction s arbitrary: buf len)
  case (Cons c s)
  show ?case
  proof (cases "len < sz \<and> len < length buf")
    case False
    then show ?thesis using Cons.prems by (auto simp: Let_def buf_put_def min_def)
  next
    case True
    then have "min sz (len + length (c # s)) - len = Suc (min sz (len + 1 + length s) - (len + 1))"
      by auto
    then show ?thesis
      using True Cons.IH [of "len + 1" "buf[len := c]"] put_bytes_snoc [of len buf c]
      by (simp add: Let_def)
  qed
qed (auto simp: Let_def)

lemma put_bytes_twice:
  "len + length a \<le> length buf \<Longrightarrow> len' = len + length a \<Longrightarrow>
     put_bytes (put_bytes buf len a) len' b = put_bytes buf len (a @ b)"
  by (auto simp: put_bytes_def ac_simps)

lemma vsn_loop_render:
  "render format args = Some out \<Longrightarrow> len \<le> sz \<Longrightarrow> len \<le> length buf \<Longrightarrow>
     vsn_loop buf len sz format args =
       (let n = min sz (len + length out) in
        if n \<le> length buf then Some (Some (put_bytes buf len (take (n - len) out), n)) else None)"
proof (induction format args arbitrary: out buf len rule: render.induct)
  case (1 format args)
  show ?case
  proof (cases "chd format = NUL \<or> len = sz")
    case True
    then show ?thesis using "1.prems"
      by (subst vsn_loop.simps) (auto simp: Let_def render.simps [of format args])
  next
    case go: False
    then have lt: "len < sz" "chd format \<noteq> NUL" using "1.prems"(2) by auto
    show ?thesis
    proof (cases "chd format = CHR ''%''")
      case True
      then obtain s f a r where c: "conversion (tl format) args = Some (Some (s, f, a))"
        "render f a = Some r" "out = s @ r"
        using "1.prems"(1) lt(2) by (subst (asm) render.simps) (auto split: option.splits)
      let ?m = "min sz (len + length s)"
      have IH: "vsn_loop (put_bytes buf len (take (?m - len) s)) ?m sz f a =
          (let n = min sz (?m + length r) in
           if n \<le> length buf then Some (Some (put_bytes (put_bytes buf len (take (?m - len) s)) ?m (take (n - ?m) r), n))
           else None)" if "?m \<le> length buf"
        using "1.IH"(1) [OF lt(2) True c(1) refl refl refl c(2), of ?m "put_bytes buf len (take (?m - len) s)"] that
          put_bytes_props(1) [of len "take (?m - len) s" buf] "1.prems"(2) by (simp add: Let_def)
      have step: "vsn_loop buf len sz format args =
          (if ?m \<le> length buf then vsn_loop (put_bytes buf len (take (?m - len) s)) ?m sz f a else None)"
        using lt True c(1) put_chars_eq [OF "1.prems"(2,3)] by (subst vsn_loop.simps) (simp add: Let_def)
      then show ?thesis
      proof (cases "len + length s \<le> sz")
        case fits: True
        then have m: "?m = len + length s" by simp
        show ?thesis
        proof (cases "?m \<le> length buf")
          case True
          then show ?thesis
            using IH step fits put_bytes_twice [of len s buf ?m] c(3)
            by (auto simp: Let_def m min_def add.assoc)
        next
          case False
          then show ?thesis using step c(3) by (auto simp: Let_def)
        qed
      next
        case False
        then have m: "?m = sz" by simp
        then show ?thesis using IH step False c(3) "1.prems"(2) by (auto simp: Let_def)
      qed
    next
      case False
      let ?c = "chd format"
      obtain r where r: "render (tl format) args = Some r" "out = ?c # r"
        using "1.prems"(1) lt(2) False by (subst (asm) render.simps) (auto split: option.splits)
      show ?thesis
      proof (cases "len < length buf")
        case True
        have step: "vsn_loop buf len sz format args = vsn_loop (buf[len := ?c]) (len + 1) sz (tl format) args"
          using lt False True by (subst vsn_loop.simps) simp
        have "min sz (len + length out) - len = Suc (min sz (len + 1 + length r) - (len + 1))"
          using lt(1) r(2) by auto
        then show ?thesis
          using "1.IH"(2) [OF lt(2) False r(1), of "len + 1" "buf[len := ?c]"] True lt(1) r(2) put_bytes_snoc [of len buf ?c]
          unfolding step by (simp add: Let_def)
      next
        case False
        then have "vsn_loop buf len sz format args = None"
          using lt \<open>?c \<noteq> CHR ''%''\<close> by (subst vsn_loop.simps) (simp add: buf_put_def)
        then show ?thesis using False lt(1) r(2) by (simp add: Let_def)
      qed
    qed
  qed
qed

section \<open>Properties\<close>

lemma vsnprintf_eq:
  assumes "render format args = Some out"
  shows "ith_vsnprintf buf sz format args =
    (let n = min (if sz = 0 then 0x7fffffff else sz) (length out) in
     if n < length buf then Some (Some (put_bytes buf 0 (take n out @ [NUL]), n)) else None)"
proof -
  let ?n = "min (if sz = 0 then 0x7fffffff else sz) (length out)"
  have "list_update (put_bytes buf 0 (take ?n out)) ?n NUL = put_bytes buf 0 (take ?n out @ [NUL])" if "?n < length buf"
    using that by (simp add: put_bytes_def list_update_append upd_conv_take_nth_drop Cons_nth_drop_Suc [symmetric])
  moreover have "length (put_bytes buf 0 (take ?n out)) = length buf" if "?n \<le> length buf"
    using that by (intro put_bytes_props(1)) simp
  ultimately show ?thesis
    using vsn_loop_render [OF assms, of 0 "if sz = 0 then 0x7fffffff else sz" buf]
    by (auto simp: ith_vsnprintf_def Let_def buf_put_def)
qed

text \<open>C38: formatting writes the text the format stands for, cut after the size given, and the
  terminator behind it; so it needs one cell more than the size when the text is cut.\<close>

theorem vsnprintf_render:
  assumes "render format args = Some out"
  shows "ith_vsnprintf buf sz format args =
    (let n = min (if sz = 0 then 0x7fffffff else sz) (length out) in
     if n < length buf then Some (Some (put_bytes buf 0 (take n out @ [NUL]), n)) else None)"
  by (rule vsnprintf_eq [OF assms])

theorem vsnprintf_render_witness:
  "ith_vsnprintf (replicate 8 (CHR ''x'')) 8 ''%s=%d'' [FStr (Some ''ab''), FNum 42] =
     Some (Some (put_bytes (replicate 8 (CHR ''x'')) 0 (''ab=42'' @ [NUL]), 5))"
proof -
  have "render ''%s=%d'' [FStr (Some ''ab''), FNum 42] = Some ''ab=42''" by code_simp
  then show ?thesis using vsnprintf_render [of "''%s=%d''" _ "''ab=42''" "replicate 8 (CHR ''x'')" 8] by simp
qed

text \<open>In a buffer of exactly the size that is passed, as every caller has it, a text of at least
  that size writes its terminator one cell behind the buffer.\<close>

theorem snprintf_overflow:
  assumes "render format args = Some out" "0 < sz" "sz \<le> length out" "length buf = sz"
  shows "ith_snprintf buf sz format args = None"
  using vsnprintf_eq [OF assms(1), of buf sz] assms(2-4) by (simp add: ith_snprintf_def Let_def min_def)

theorem snprintf_overflow_witness: "ith_snprintf (replicate 2 NUL) 2 ''abc'' [] = None"
proof -
  have "render ''abc'' [] = Some ''abc''" by code_simp
  then show ?thesis using snprintf_overflow [of "''abc''" "[]" "''abc''" 2 "replicate 2 NUL"] by simp
qed

text \<open>Every number with the top bit set is printed as minus zero.\<close>

lemma negative_number: "num_chars (CHR ''d'') (- 5) = ''-0''" "num_chars (CHR ''d'') (- 123) = ''-0''"
  by code_simp+

end
