(* ===== verification/Convert.thy ===== *)
theory Convert
  imports Format "HOL-Library.Signed_Division"
begin

text \<open>
  The conversions of \<^verbatim>\<open>source/string.c\<close> between strings and integers, booleans and
  lengths of time, and the address masks (\<^verbatim>\<open>ipmatch\<close>, with
  \<^verbatim>\<open>get_address_type\<close> of \<^verbatim>\<open>source/socket.c\<close>). The C library's
  \<^verbatim>\<open>strtol\<close> and \<^verbatim>\<open>atoi\<close> are modelled for a 64-bit \<^verbatim>\<open>long\<close>;
  \<^verbatim>\<open>inet_pton\<close> is a parameter. INET6 is defined.
\<close>

section \<open>Integers\<close>

definition digit_val :: "char \<Rightarrow> nat option" where
  "digit_val c =
     (let n = uchar c in
      if 48 \<le> n \<and> n \<le> 57 then Some (n - 48)
      else if 97 \<le> n \<and> n \<le> 122 then Some (n - 87)
      else if 65 \<le> n \<and> n \<le> 90 then Some (n - 55)
      else None)"

fun scan_digits :: "nat \<Rightarrow> cstring \<Rightarrow> nat \<Rightarrow> nat" where
  "scan_digits base [] acc = acc"
| "scan_digits base (c # s) acc =
     (case digit_val c of
        Some d \<Rightarrow> if d < base then scan_digits base s (acc * base + d) else acc
      | None \<Rightarrow> acc)"

definition is_digit :: "nat \<Rightarrow> char \<Rightarrow> bool" where
  "is_digit base c = (case digit_val c of Some d \<Rightarrow> d < base | None \<Rightarrow> False)"

definition auto_base :: "cstring \<Rightarrow> nat \<times> cstring" where
  "auto_base s =
     (if chd s = CHR ''0'' \<and> tolower (chd (tl s)) = CHR ''x'' \<and> is_digit 16 (chd (tl (tl s))) then (16, tl (tl s))
      else if chd s = CHR ''0'' then (8, s)
      else (10, s))"

text \<open>The value and whether it is out of range. A base of 0 is told by the prefix.\<close>

definition strtol :: "cstring \<Rightarrow> nat \<Rightarrow> int \<times> bool" where
  "strtol str base =
     (let s = dropWhile isspace str;
          neg = (chd s = CHR ''-'');
          s = (if neg \<or> chd s = CHR ''+'' then tl s else s);
          (b, s) = (if base = 0 then auto_base s else (base, s));
          v = (if neg then - int (scan_digits b s 0) else int (scan_digits b s 0)) in
      if v > 9223372036854775807 then (9223372036854775807, True)
      else if v < - 9223372036854775808 then (- 9223372036854775808, True)
      else (v, False))"

definition str_conv_int :: "cstring option \<Rightarrow> int \<Rightarrow> int" where
  "str_conv_int str def =
     (case str of
        None \<Rightarrow> def
      | Some s \<Rightarrow> (case strtol s 0 of (ret, erange) \<Rightarrow> if erange then def else i32 ret))"

definition int_conv_str :: "int \<Rightarrow> cstring" where
  "int_conv_str number =
     (if number < 0 then CHR ''-'' # num_digits itoa_tab 10 (nat (- number)) []
      else num_digits itoa_tab 10 (nat number) [])"

definition atoi :: "cstring \<Rightarrow> int" where
  "atoi s = i32 (fst (strtol s 10))"

definition str_conv_bool :: "cstring option \<Rightarrow> bool \<Rightarrow> bool" where
  "str_conv_bool str def =
     (case str of
        None \<Rightarrow> def
      | Some s \<Rightarrow>
          if ith_strcasecmp s ''yes'' = 0 \<or> ith_strcasecmp s ''on'' = 0 \<or> atoi s \<noteq> 0 then True
          else if ith_strcasecmp s ''no'' = 0 \<or> ith_strcasecmp s ''off'' = 0 \<or> \<not> atoi s \<noteq> 0 then False
          else def)"

definition bool_conv_str :: "bool \<Rightarrow> cstring \<Rightarrow> cstring \<Rightarrow> cstring" where
  "bool_conv_str val pos neg = (if val then pos else neg)"

section \<open>Lengths of time\<close>

text \<open>
  One unit of \<^verbatim>\<open>str_conv_time\<close>: the part before the letter times the unit's
  seconds, the rest, and the letter's position. An \<open>int\<close> product out of range is \<open>None\<close>.
\<close>

definition int_mult :: "int \<Rightarrow> int \<Rightarrow> int option" where
  "int_mult a b = (if - 2147483648 \<le> a * b \<and> a * b \<le> 2147483647 then Some (a * b) else None)"

definition time_part :: "cstring \<Rightarrow> char \<Rightarrow> int \<Rightarrow> (int \<times> cstring) option" where
  "time_part s letter unit =
     (case ith_strchr s letter of
        None \<Rightarrow> Some (0, s)
      | Some s2 \<Rightarrow>
          map_option (\<lambda>v. (v, tl s2)) (int_mult (str_conv_int (Some (take (length s - length s2) s)) 0) unit))"

definition str_conv_time :: "cstring option \<Rightarrow> int \<Rightarrow> int option" where
  "str_conv_time str def =
     (case str of
        None \<Rightarrow> Some def
      | Some s \<Rightarrow>
          (case time_part s (CHR ''d'') 86400 of None \<Rightarrow> None | Some (d, s) \<Rightarrow>
          (case time_part s (CHR ''h'') 3600 of None \<Rightarrow> None | Some (h, s) \<Rightarrow>
          (case time_part s (CHR ''m'') 60 of None \<Rightarrow> None | Some (m, s) \<Rightarrow>
             Some (d + h + m + str_conv_int (Some s) 0)))))"

text \<open>
  The letters found are overwritten with terminators, so the caller's string is afterwards cut at
  the first of them.
\<close>

definition str_conv_time_cut :: "cstring \<Rightarrow> cstring" where
  "str_conv_time_cut s =
     (let cut = (\<lambda>l (s, n). case ith_strchr s l of
                   None \<Rightarrow> (s, n)
                 | Some s2 \<Rightarrow> (tl s2, case n of None \<Rightarrow> Some (length s - length s2) | Some k \<Rightarrow> Some k)) in
      case snd (cut (CHR ''m'') (cut (CHR ''h'') (cut (CHR ''d'') (s, None)))) of
        None \<Rightarrow> s
      | Some n \<Rightarrow> take n s)"

text \<open>\<^verbatim>\<open>time_conv_str\<close> (here \<^verbatim>\<open>sprintf\<close> is the C library's).\<close>

definition time_conv_str :: "int \<Rightarrow> cstring" where
  "time_conv_str itime =
     (let d = i32 (itime sdiv 86400); itime = itime smod 86400;
          h = i32 (itime sdiv 3600); itime = itime smod 3600;
          m = i32 (itime sdiv 60); itime = itime smod 60;
          s = i32 itime;
          rbuf = (if d \<noteq> 0 then int_conv_str d @ ''d'' else [])
               @ (if h \<noteq> 0 then int_conv_str h @ ''h'' else [])
               @ (if m \<noteq> 0 then int_conv_str m @ ''m'' else [])
               @ (if s \<noteq> 0 then int_conv_str s @ ''s'' else []) in
      if rbuf = [] then ''0s'' else rbuf)"

section \<open>Address masks\<close>

datatype family = INET | INET6 | UNSPEC

type_synonym pton = "family \<Rightarrow> cstring \<Rightarrow> u8 list option"

definition IPADDR_MAXLEN :: nat where "IPADDR_MAXLEN = 39"
definition IPADDR_SIZE :: nat where "IPADDR_SIZE = 16"

definition get_address_type :: "pton \<Rightarrow> cstring \<Rightarrow> family" where
  "get_address_type inet_pton addr =
     (if (case ith_strchr addr (CHR '':'') of None \<Rightarrow> False | Some s \<Rightarrow> ith_strchr (tl s) (CHR '':'') \<noteq> None)
      then (if inet_pton INET6 addr \<noteq> None then INET6 else UNSPEC)
      else if inet_pton INET addr \<noteq> None then INET else UNSPEC)"

function set_mask :: "nat \<Rightarrow> u8 list \<Rightarrow> u8 list" where
  "set_mask i bitmask =
     (if i > 0 then
        set_mask (i - (if i mod 8 \<noteq> 0 then i mod 8 else 8))
          (bitmask[(i - 1) div 8 := push_bit (if i mod 8 \<noteq> 0 then 8 - i mod 8 else 0) 0xff])
      else bitmask)"
  by pat_completeness auto
termination by (relation "measure fst") auto

declare set_mask.simps [simp del]

definition mask_bits :: "family \<Rightarrow> int \<Rightarrow> nat" where
  "mask_bits family imask =
     (let most = (if family = INET6 then 128 else 32) in
      if imask \<le> 0 then most else if imask > int most then most else nat imask)"

definition wild_addr :: "cstring \<Rightarrow> cstring" where
  "wild_addr wild =
     (case ith_strchr wild (CHR ''/'') of
        None \<Rightarrow> take IPADDR_MAXLEN wild
      | Some m \<Rightarrow> if IPADDR_MAXLEN > length wild - length m then take (length wild - length m) wild
                  else take IPADDR_MAXLEN wild)"

definition ipmatch :: "pton \<Rightarrow> cstring \<Rightarrow> cstring \<Rightarrow> bool" where
  "ipmatch inet_pton wild str =
     (let addr = wild_addr wild; family = get_address_type inet_pton addr in
      if family = UNSPEC then False
      else
        let bitmask =
              (case ith_strchr wild (CHR ''/'') of
                 None \<Rightarrow> replicate IPADDR_SIZE 0xff
               | Some m \<Rightarrow> set_mask (mask_bits family (str_conv_int (Some (tl m)) 0)) (replicate IPADDR_SIZE 0)) in
        (case inet_pton family addr of
           None \<Rightarrow> False
         | Some bwild \<Rightarrow>
             (case inet_pton family str of
                None \<Rightarrow> False
              | Some bstr \<Rightarrow>
                  list_all (\<lambda>i. bwild ! i AND bitmask ! i = bstr ! i AND bitmask ! i)
                    [0..<if family = INET6 then 16 else 4])))"

section \<open>Decimal numbers\<close>

abbreviation dec :: "nat \<Rightarrow> cstring" where
  "dec n \<equiv> num_digits itoa_tab 10 n []"

lemma num_digits_append: "num_digits tab b n (s @ t) = num_digits tab b n s @ t"
proof (induction tab b n s rule: num_digits.induct)
  case (1 tab b n s)
  show ?case
  proof (cases "b < 2 \<or> n div b = 0")
    case True
    then show ?thesis by (subst (1 2) num_digits.simps) (auto simp: Let_def)
  next
    case False
    then show ?thesis using "1.IH" [OF _ refl refl] by (subst (1 2) num_digits.simps) (auto simp: Let_def)
  qed
qed

lemma dec_step: "dec n = (if n < 10 then [itoa_tab ! n] else dec (n div 10) @ [itoa_tab ! (n mod 10)])"
  using num_digits_append [of itoa_tab 10 "n div 10" "[]" "[itoa_tab ! (n mod 10)]"]
  by (subst num_digits.simps) (auto simp: Let_def)

lemma less_10_cases: "(d::nat) < 10 \<Longrightarrow> d \<in> {0, 1, 2, 3, 4, 5, 6, 7, 8, 9}"
  by auto

lemma digit_val_itoa: "d < 10 \<Longrightarrow> digit_val (itoa_tab ! d) = Some d"
  using less_10_cases [of d] by (auto simp: digit_val_def itoa_tab_def uchar_def numeral_eq_Suc)

lemma itoa_in: "d < 10 \<Longrightarrow> itoa_tab ! d \<in> set ''0123456789''"
  using less_10_cases [of d] by (auto simp: itoa_tab_def)

lemma scan_dec: "scan_digits 10 (dec n @ r) acc = scan_digits 10 r (acc * 10 ^ length (dec n) + n)"
proof (induction n arbitrary: r acc rule: less_induct)
  case (less n)
  show ?case
  proof (cases "n < 10")
    case True
    then show ?thesis by (subst (1 2) dec_step) (simp add: digit_val_itoa)
  next
    case False
    have "scan_digits 10 (dec n @ r) acc = scan_digits 10 (dec (n div 10) @ itoa_tab ! (n mod 10) # r) acc"
      using False by (subst dec_step) simp
    also have "\<dots> = scan_digits 10 r ((acc * 10 ^ length (dec (n div 10)) + n div 10) * 10 + n mod 10)"
      using False less [of "n div 10"] by (simp add: digit_val_itoa)
    also have "(acc * 10 ^ length (dec (n div 10)) + n div 10) * 10 + n mod 10 = acc * 10 ^ length (dec n) + n"
      using False by (subst (2) dec_step) (simp add: algebra_simps)
    finally show ?thesis .
  qed
qed

lemma set_dec: "set (dec n) \<subseteq> set ''0123456789''"
proof (induction n rule: less_induct)
  case (less n)
  show ?case
  proof (cases "n < 10")
    case True
    then show ?thesis using itoa_in by (subst dec_step) auto
  next
    case False
    then show ?thesis using less [of "n div 10"] itoa_in [of "n mod 10"] by (subst dec_step) auto
  qed
qed

lemma dec_first: "0 < n \<Longrightarrow> \<exists>c s. dec n = c # s \<and> c \<in> set ''123456789''"
proof (induction n rule: less_induct)
  case (less n)
  show ?case
  proof (cases "n < 10")
    case True
    then show ?thesis using less.prems less_10_cases [of n] by (subst dec_step) (auto simp: itoa_tab_def)
  next
    case False
    then obtain c s where "dec (n div 10) = c # s" "c \<in> set ''123456789''"
      using less.IH [of "n div 10"] by (auto simp: div_greater_zero_iff)
    then show ?thesis using False by (subst dec_step) auto
  qed
qed

lemma scan_stop: "\<not> is_digit b (chd r) \<Longrightarrow> scan_digits b r acc = acc"
  by (cases r) (auto simp: is_digit_def split: option.splits)

lemma str_conv_int_dec:
  assumes "int n < 2147483648" "r = [] \<or> r = ''s''"
  shows "str_conv_int (Some (dec n @ r)) def = int n"
proof -
  have r: "\<not> is_digit 10 (chd r)" using assms(2) by (auto simp: is_digit_def digit_val_def uchar_def)
  have "strtol (dec n @ r) 0 = (int n, False)"
  proof (cases "n = 0")
    case True
    then have "dec n = ''0''" by (subst dec_step) (simp add: itoa_tab_def)
    then show ?thesis using assms(2) True by (elim disjE; simp; code_simp)
  next
    case False
    then obtain c s where c: "dec n = c # s" "c \<in> set ''123456789''" using dec_first by blast
    then have "\<not> isspace c" "c \<noteq> CHR ''-''" "c \<noteq> CHR ''+''" "c \<noteq> CHR ''0''"
      by (auto simp: isspace_def uchar_def)
    then have "strtol (dec n @ r) 0 =
        (let v = int (scan_digits 10 (dec n @ r) 0) in
         if v > 9223372036854775807 then (9223372036854775807, True)
         else if v < - 9223372036854775808 then (- 9223372036854775808, True) else (v, False))"
      unfolding c(1) strtol_def auto_base_def by (simp add: Let_def)
    also have "scan_digits 10 (dec n @ r) 0 = n" using r by (simp add: scan_dec scan_stop)
    finally show ?thesis using assms(1) by (simp add: Let_def)
  qed
  then show ?thesis using assms(1) by (simp add: str_conv_int_def i32_id)
qed

section \<open>Lengths of time, there and back\<close>

definition unit_str :: "nat \<Rightarrow> char \<Rightarrow> cstring" where
  "unit_str n l = (if n = 0 then [] else dec n @ [l])"

lemma c_str_dec: "c_str (dec n)"
  using set_dec [of n] by (auto simp: c_str_def)

lemma c_str_unit [simp]: "l \<noteq> NUL \<Longrightarrow> c_str (unit_str n l)"
  by (simp add: unit_str_def c_str_dec)

lemma letter_not_in_unit: "l \<notin> set ''0123456789'' \<Longrightarrow> l \<noteq> l' \<Longrightarrow> l \<notin> set (unit_str n l')"
  using set_dec [of n] by (auto simp: unit_str_def)

lemma time_part_unit:
  assumes "l \<in> set ''dhm''" "c_str p" "l \<notin> set p" "int n * u < 2147483648" "0 < u"
  shows "time_part (unit_str n l @ p) l u = Some (int n * u, p)"
proof -
  have l: "l \<notin> set ''0123456789''" "l \<noteq> NUL" using assms(1) by auto
  show ?thesis
  proof (cases "n = 0")
    case True
    then show ?thesis using assms l by (simp add: time_part_def unit_str_def strchr_split)
  next
    case False
    have nl: "\<forall>c \<in> set (dec n). c \<noteq> l" using set_dec [of n] l(1) by auto
    have "c_str (dec n @ l # p)" using c_str_dec assms(2) l(2) by simp
    then have chr: "ith_strchr (dec n @ l # p) l = Some (l # p)"
      using nl l(2) by (simp add: strchr_split dropWhile_append)
    have "int n * 1 \<le> int n * u" using assms(5) by (intro mult_left_mono) auto
    then have n: "str_conv_int (Some (dec n)) 0 = int n"
      using str_conv_int_dec [of n "[]" 0] assms(4) by simp
    have "0 \<le> int n * u" using assms(5) by simp
    then have "int_mult (int n) u = Some (int n * u)" using assms(4) by (simp add: int_mult_def)
    then show ?thesis using False chr n by (simp add: time_part_def unit_str_def)
  qed
qed

lemma str_conv_int_seconds: "int n < 2147483648 \<Longrightarrow> str_conv_int (Some (unit_str n (CHR ''s''))) 0 = int n"
proof (cases "n = 0")
  case True
  have "strtol [] 0 = (0, False)" by code_simp
  then show ?thesis using True by (simp add: unit_str_def str_conv_int_def i32_def)
next
  case False
  assume "int n < 2147483648"
  then show ?thesis using False str_conv_int_dec [of n "''s''" 0] by (simp add: unit_str_def)
qed

lemma time_conv_str_nat:
  assumes "int t < 2147483648"
  shows "time_conv_str (int t) =
    (let r = unit_str (t div 86400) (CHR ''d'') @ unit_str (t mod 86400 div 3600) (CHR ''h'')
           @ unit_str (t mod 86400 mod 3600 div 60) (CHR ''m'') @ unit_str (t mod 86400 mod 3600 mod 60) (CHR ''s'')
     in if r = [] then ''0s'' else r)"
proof -
  have sd: "int a sdiv int b = int (a div b)" "int a smod int b = int (a mod b)" for a b
    by (simp_all add: signed_divide_int_def signed_modulo_int_def zdiv_int zmod_int sgn_if minus_mult_div_eq_mod mult.commute)
  have i: "i32 (int a) = int a" if "a \<le> t" for a using that assms by (simp add: i32_id)
  have ics: "(if int n \<noteq> 0 then int_conv_str (int n) @ [l] else []) = unit_str n l" for n l
    by (simp add: int_conv_str_def unit_str_def)
  have le: "t div 86400 \<le> t" "t mod 86400 div 3600 \<le> t" "t mod 86400 mod 3600 div 60 \<le> t"
    "t mod 86400 mod 3600 mod 60 \<le> t"
    by (meson div_le_dividend mod_less_eq_dividend order.trans)+
  have sdn: "int a sdiv 86400 = int (a div 86400)" "int a smod 86400 = int (a mod 86400)"
    "int a sdiv 3600 = int (a div 3600)" "int a smod 3600 = int (a mod 3600)"
    "int a sdiv 60 = int (a div 60)" "int a smod 60 = int (a mod 60)" for a
    using sd [of a 86400] sd [of a 3600] sd [of a 60] by (simp_all only: of_nat_numeral)
  show ?thesis
    by (simp only: time_conv_str_def Let_def sdn i [OF le(1)] i [OF le(2)] i [OF le(3)] i [OF le(4)] ics)
qed

lemma str_conv_time_units:
  assumes "int d * 86400 + int h * 3600 + int m * 60 + int s = t" "t < 2147483648"
  shows "str_conv_time (Some
    (let r = unit_str d (CHR ''d'') @ unit_str h (CHR ''h'') @ unit_str m (CHR ''m'') @ unit_str s (CHR ''s'')
     in if r = [] then ''0s'' else r)) def = Some t"
proof -
  let ?S = "unit_str s (CHR ''s'')"
  let ?M = "unit_str m (CHR ''m'') @ ?S" let ?H = "unit_str h (CHR ''h'') @ ?M"
  let ?D = "unit_str d (CHR ''d'') @ ?H"
  show ?thesis
  proof (cases "?D = []")
    case True
    have "str_conv_time (Some ''0s'') def = Some 0" by code_simp
    moreover have "t = 0" using True assms(1) by (auto simp: unit_str_def split: if_splits)
    ultimately show ?thesis using True by (simp add: Let_def)
  next
    case False
    have c: "c_str ?S" "c_str ?M" "c_str ?H" by simp_all
    have "time_part ?D (CHR ''d'') 86400 = Some (int d * 86400, ?H)"
      using assms by (intro time_part_unit c) (auto simp: letter_not_in_unit)
    moreover have "time_part ?H (CHR ''h'') 3600 = Some (int h * 3600, ?M)"
      using assms by (intro time_part_unit c) (auto simp: letter_not_in_unit)
    moreover have "time_part ?M (CHR ''m'') 60 = Some (int m * 60, ?S)"
      using assms by (intro time_part_unit c) (auto simp: letter_not_in_unit)
    moreover have "str_conv_int (Some ?S) 0 = int s"
      using assms by (intro str_conv_int_seconds) auto
    ultimately show ?thesis using False assms(1) by (auto simp: str_conv_time_def Let_def)
  qed
qed

lemma time_roundtrip:
  assumes "int t < 2147483648"
  shows "str_conv_time (Some (time_conv_str (int t))) def = Some (int t)"
proof -
  let ?d = "t div 86400" and ?h = "t mod 86400 div 3600" and ?m = "t mod 86400 mod 3600 div 60"
    and ?s = "t mod 86400 mod 3600 mod 60"
  have "?d * 86400 + (?h * 3600 + (?m * 60 + ?s)) = t" by simp
  then have "?d * 86400 + ?h * 3600 + ?m * 60 + ?s = t" by (simp only: add.assoc)
  from arg_cong [OF this, of int]
  have "int ?d * 86400 + int ?h * 3600 + int ?m * 60 + int ?s = int t"
    unfolding of_nat_add of_nat_mult of_nat_numeral .
  from str_conv_time_units [OF this assms, of def] show ?thesis
    unfolding time_conv_str_nat [OF assms] .
qed

text \<open>The string is cut by the conversion: converting it a second time gives the first part alone.\<close>

lemma str_conv_time_twice:
  "str_conv_time (Some ''1h30m'') 0 = Some 5400"
  "str_conv_time (Some (str_conv_time_cut ''1h30m'')) 0 = Some 1"
  by code_simp+

text \<open>An upper-case letter is not a unit.\<close>

lemma str_conv_time_upper: "str_conv_time (Some ''1H'') 0 = Some 1"
  by code_simp

section \<open>Masks as prefixes\<close>

lemma set_mask_step:
  assumes "0 < i"
  shows "set_mask i bm =
    (if i mod 8 = 0 then set_mask (8 * (i div 8 - 1)) (bm[i div 8 - 1 := 0xff])
     else set_mask (8 * (i div 8)) (bm[i div 8 := push_bit (8 - i mod 8) 0xff]))"
proof -
  define q r where "q = i div 8" and "r = i mod 8"
  have i: "i = 8 * q + r" "r < 8" by (simp_all add: q_def r_def)
  have "(i - 1) div 8 = (if r = 0 then q - 1 else q)"
    using i assms by (cases q; cases r) auto
  moreover have "i - (if r \<noteq> 0 then r else 8) = (if r = 0 then 8 * (q - 1) else 8 * q)"
    using i by auto
  ultimately show ?thesis
    using assms unfolding q_def r_def by (subst set_mask.simps) simp
qed

lemma set_mask_nth:
  "i \<le> 8 * length bm \<Longrightarrow> j < length bm \<Longrightarrow>
     set_mask i bm ! j =
       (if 8 * j < i then (if 8 * j + 8 \<le> i then 0xff else push_bit (8 - i mod 8) 0xff) else bm ! j)"
proof (induction i arbitrary: bm rule: less_induct)
  case (less i)
  define q r where "q = i div 8" and "r = i mod 8"
  have i: "i = 8 * q + r" "r < 8" by (simp_all add: q_def r_def)
  show ?case
  proof (cases "i = 0")
    case True
    then show ?thesis by (simp add: set_mask.simps)
  next
    case False
    show ?thesis
    proof (cases "r = 0")
      case True
      then have q: "0 < q" "i mod 8 = 0" "i div 8 = q" using i False by auto
      then have "set_mask i bm ! j = set_mask (8 * (q - 1)) (bm[q - 1 := 0xff]) ! j"
        using set_mask_step [of i bm] False by simp
      then show ?thesis
        using less.IH [of "8 * (q - 1)" "bm[q - 1 := 0xff]"] less.prems i True q(1)
        by (auto simp: nth_list_update)
    next
      case r: False
      then have q: "i mod 8 = r" "i div 8 = q" using i by auto
      then have "set_mask i bm ! j = set_mask (8 * q) (bm[q := push_bit (8 - r) 0xff]) ! j"
        using set_mask_step [of i bm] False r by simp
      note step = this less.IH [of "8 * q" "bm[q := push_bit (8 - r) 0xff]"]
      consider (lt) "8 * j + 8 \<le> 8 * q" "j < q" | (eq) "j = q" | (gt) "8 * q + 8 \<le> 8 * j" "q < j"
        by linarith
      then show ?thesis using step less.prems i r q(1) by cases auto
    qed
  qed
qed

text \<open>Bit \<open>i\<close> of an address, counted from its first byte's top bit.\<close>

definition addr_bit :: "u8 list \<Rightarrow> nat \<Rightarrow> bool" where
  "addr_bit a i = bit (a ! (i div 8)) (7 - i mod 8)"

lemma masked_eq_iff:
  "(x :: u8) AND m = y AND m \<longleftrightarrow> (\<forall>b < 8. bit m b \<longrightarrow> (bit x b \<longleftrightarrow> bit y b))"
proof -
  have "n < 8" if "bit m n" for n using bit_imp_le_length [OF that] by simp
  then show ?thesis by (auto simp: bit_eq_iff bit_and_iff)
qed

lemma mask_byte_bit:
  assumes "b < 8"
  shows "bit (if 8 * j < k then (if 8 * j + 8 \<le> k then 0xff else push_bit (8 - k mod 8) 0xff) else 0 :: u8) b
    \<longleftrightarrow> 8 * j + (7 - b) < k"
proof -
  have ff: "(0xff :: u8) = - 1" by simp
  define q r where "q = k div 8" and "r = k mod 8"
  have k: "k = 8 * q + r" "r < 8" by (simp_all add: q_def r_def)
  consider (lt) "8 * j + 8 \<le> 8 * q" "j < q" | (eq) "j = q" | (gt) "8 * q + 8 \<le> 8 * j" "q < j"
    by linarith
  then show ?thesis
    using assms k(2) unfolding ff r_def [symmetric] by cases (auto simp: bit_simps k(1))
qed

lemma masked_prefix:
  assumes "\<And>j. j < n \<Longrightarrow> m ! j =
      (if 8 * j < k then (if 8 * j + 8 \<le> k then 0xff else push_bit (8 - k mod 8) 0xff) else 0 :: u8)"
    and "k \<le> 8 * n"
  shows "list_all (\<lambda>j. a ! j AND m ! j = b ! j AND m ! j) [0..<n] \<longleftrightarrow> (\<forall>i < k. addr_bit a i = addr_bit b i)"
proof -
  have "list_all (\<lambda>j. a ! j AND m ! j = b ! j AND m ! j) [0..<n] \<longleftrightarrow>
      (\<forall>j < n. \<forall>c < 8. 8 * j + (7 - c) < k \<longrightarrow> bit (a ! j) c = bit (b ! j) c)"
    by (auto simp: list_all_iff masked_eq_iff assms(1) mask_byte_bit simp del: push_bit_numeral)
  also have "\<dots> \<longleftrightarrow> (\<forall>i < k. addr_bit a i = addr_bit b i)"
  proof
    assume *: "\<forall>j < n. \<forall>c < 8. 8 * j + (7 - c) < k \<longrightarrow> bit (a ! j) c = bit (b ! j) c"
    show "\<forall>i < k. addr_bit a i = addr_bit b i"
    proof (intro allI impI)
    fix i assume i: "i < k"
    have "i div 8 < n" "8 * (i div 8) + (7 - (7 - i mod 8)) = i"
      using i assms(2) by (auto simp: div_less_iff_less_mult)
    then show "addr_bit a i = addr_bit b i"
      using *[rule_format, of "i div 8" "7 - i mod 8"] i by (simp add: addr_bit_def)
    qed
  next
    assume *: "\<forall>i < k. addr_bit a i = addr_bit b i"
    show "\<forall>j < n. \<forall>c < 8. 8 * j + (7 - c) < k \<longrightarrow> bit (a ! j) c = bit (b ! j) c"
    proof (intro allI impI)
    fix j c :: nat
    assume j: "j < n" "c < 8" "8 * j + (7 - c) < k"
    have "(8 * j + (7 - c)) mod 8 = 7 - c"
      using mod_mult_self4 [of 8 j "7 - c"] mod_less [of "7 - c" 8] by linarith
    then have "(8 * j + (7 - c)) div 8 = j" "7 - (8 * j + (7 - c)) mod 8 = c" using j(2) by auto
    then show "bit (a ! j) c = bit (b ! j) c" using * j(3) unfolding addr_bit_def by metis
    qed
  qed
  finally show ?thesis .
qed

definition wild_bits :: "family \<Rightarrow> cstring \<Rightarrow> nat" where
  "wild_bits family wild =
     (case ith_strchr wild (CHR ''/'') of
        None \<Rightarrow> if family = INET6 then 128 else 32
      | Some m \<Rightarrow> mask_bits family (str_conv_int (Some (tl m)) 0))"

lemma ipmatch_bits:
  assumes "get_address_type pton (wild_addr wild) = family" "family \<noteq> UNSPEC"
    "pton family (wild_addr wild) = Some a" "pton family str = Some b"
  shows "ipmatch pton wild str \<longleftrightarrow> (\<forall>i < wild_bits family wild. addr_bit a i = addr_bit b i)"
proof -
  let ?n = "if family = INET6 then 16 else 4 :: nat" and ?k = "wild_bits family wild"
  let ?m = "case ith_strchr wild (CHR ''/'') of
      None \<Rightarrow> replicate IPADDR_SIZE 0xff
    | Some m \<Rightarrow> set_mask (mask_bits family (str_conv_int (Some (tl m)) 0)) (replicate IPADDR_SIZE 0)"
  have k: "?k \<le> 8 * ?n" by (auto simp: wild_bits_def mask_bits_def Let_def split: option.splits)
  have "?m ! j = (if 8 * j < ?k then (if 8 * j + 8 \<le> ?k then 0xff else push_bit (8 - ?k mod 8) 0xff) else 0)"
    if "j < ?n" for j
  proof (cases "ith_strchr wild (CHR ''/'')")
    case None
    have "j < 16" "8 * j + 8 \<le> 8 * ?n" "8 * ?n = (if family = INET6 then 128 else 32)" using that by (auto split: if_splits)
    then show ?thesis using None by (auto simp: wild_bits_def IPADDR_SIZE_def)
  next
    case (Some m)
    have "j < 16" "?n \<le> 16" using that by (auto split: if_splits)
    then have "j < length (replicate IPADDR_SIZE (0 :: u8))" "?k \<le> 8 * length (replicate IPADDR_SIZE (0 :: u8))"
      using k by (simp_all add: IPADDR_SIZE_def)
    from set_mask_nth [OF this(2,1)] show ?thesis using Some \<open>j < 16\<close> by (simp add: wild_bits_def IPADDR_SIZE_def)
  qed
  note eq = masked_prefix [OF this k, of a b]
  have "ipmatch pton wild str = list_all (\<lambda>j. a ! j AND ?m ! j = b ! j AND ?m ! j) [0..<?n]"
    using assms(2) unfolding ipmatch_def Let_def assms(1) by (simp only: assms(3,4) option.case if_False)
  then show ?thesis using eq by (rule trans)
qed

section \<open>Properties\<close>

text \<open>A length of time from zero to the largest \<open>int\<close> printed as days, hours, minutes and
  seconds converts back to itself.\<close>

theorem time_conv_roundtrip:
  assumes "0 \<le> t" "t < 2147483648"
  shows "str_conv_time (Some (time_conv_str t)) def = Some t"
  using time_roundtrip [of "nat t" def] assms by simp

theorem time_conv_roundtrip_witness: "str_conv_time (Some (time_conv_str 93784)) 0 = Some 93784"
  by (rule time_conv_roundtrip) simp_all

text \<open>An address matches a mask exactly when both are addresses of one family and the first bits,
  as many as the mask says (all of them without a mask), are the same.\<close>

theorem ipmatch_prefix:
  assumes "get_address_type pton (wild_addr wild) = family" "family \<noteq> UNSPEC"
    "pton family (wild_addr wild) = Some a" "pton family str = Some b"
  shows "ipmatch pton wild str \<longleftrightarrow> (\<forall>i < wild_bits family wild. addr_bit a i = addr_bit b i)"
  by (rule ipmatch_bits [OF assms])

text \<open>An \<^verbatim>\<open>inet_pton\<close> that knows two addresses.\<close>

definition two_addresses :: pton where
  "two_addresses family s =
     (if family = INET \<and> s = ''10.1.2.3'' then Some [10, 1, 2, 3]
      else if family = INET \<and> s = ''10.1.0.0'' then Some [10, 1, 0, 0] else None)"

theorem ipmatch_prefix_witness: "ipmatch two_addresses ''10.1.0.0/16'' ''10.1.2.3''"
proof -
  have a: "wild_addr ''10.1.0.0/16'' = ''10.1.0.0''" "get_address_type two_addresses ''10.1.0.0'' = INET"
    "wild_bits INET ''10.1.0.0/16'' = 16"
    by code_simp+
  have "addr_bit [10, 1, 0, 0] i = addr_bit [10, 1, 2, 3] i" if "i < 16" for i
  proof -
    have "i div 8 = 0 \<or> i div 8 = 1" using that by auto
    then show ?thesis by (auto simp: addr_bit_def)
  qed
  then show ?thesis
    using ipmatch_prefix [of two_addresses "''10.1.0.0/16''" INET "[10, 1, 0, 0]" "''10.1.2.3''"] a
    by (simp add: two_addresses_def)
qed

text \<open>The default of the conversion to a boolean is used for the null pointer only: any string
  that is not a boolean word counts as no.\<close>

theorem str_conv_bool_ignores_default:
  "str_conv_bool (Some s) def =
     (ith_strcasecmp s ''yes'' = 0 \<or> ith_strcasecmp s ''on'' = 0 \<or> atoi s \<noteq> 0)"
  by (auto simp: str_conv_bool_def)

end
