(* ===== verification/DnsPacket.thy ===== *)
theory DnsPacket
  imports DnsName CBuffer
begin

text \<open>
  Resource records: \<^verbatim>\<open>extract_rrs\<close> of \<^verbatim>\<open>modules/dns/packet.c\<close>. The packet is the memory of
  the receive buffer, of which the first \<^verbatim>\<open>plen\<close> bytes were received. \<open>None\<close> is a read
  outside the buffer, a write outside an array or the use of a null pointer. INET6 is defined, and
  integers are little-endian in memory.
\<close>

section \<open>Constants and records\<close>

definition DNS_MAX_PACKET_SIZE :: nat where "DNS_MAX_PACKET_SIZE = 512"
definition DNS_MAX_NAMELEN :: nat where "DNS_MAX_NAMELEN = 1024"
definition DNS_HEADER_LEN :: nat where "DNS_HEADER_LEN = 12"
definition DNS_C_IN :: nat where "DNS_C_IN = 1"
definition DNS_T_A :: nat where "DNS_T_A = 1"
definition DNS_T_NS :: nat where "DNS_T_NS = 2"
definition DNS_T_CNAME :: nat where "DNS_T_CNAME = 5"
definition DNS_T_SOA :: nat where "DNS_T_SOA = 6"
definition DNS_T_WKS :: nat where "DNS_T_WKS = 11"
definition DNS_T_PTR :: nat where "DNS_T_PTR = 12"
definition DNS_T_HINFO :: nat where "DNS_T_HINFO = 13"
definition DNS_T_MINFO :: nat where "DNS_T_MINFO = 14"
definition DNS_T_MX :: nat where "DNS_T_MX = 15"
definition DNS_T_AAAA :: nat where "DNS_T_AAAA = 28"

lemmas dns_types = DNS_T_A_def DNS_T_NS_def DNS_T_CNAME_def DNS_T_SOA_def DNS_T_WKS_def DNS_T_PTR_def
  DNS_T_HINFO_def DNS_T_MINFO_def DNS_T_MX_def DNS_T_AAAA_def

text \<open>
  The union of the answer data. An address is kept as the bytes that \<^verbatim>\<open>inet_ntop\<close> is given.
\<close>

datatype rdata =
    NoData
  | Txt "char list"
  | Addr "char list"
  | Name cstring
  | Soa cstring cstring nat nat nat nat nat
  | Hinfo cstring cstring
  | Minfo cstring cstring
  | Mx nat cstring
  | Wks "char list" char "char list"

record dns_rr =
  rr_name :: cstring
  rr_type :: nat
  rr_class :: nat
  rr_ttl :: nat
  rr_rdata :: rdata

section \<open>Reading\<close>

definition get_bytes :: "char list \<Rightarrow> nat \<Rightarrow> nat \<Rightarrow> char list option" where
  "get_bytes pkt i n = (if i + n \<le> length pkt then Some (take n (drop i pkt)) else None)"

text \<open>A number in network byte order, as \<^verbatim>\<open>memcpy\<close> and \<^verbatim>\<open>ntohs\<close> or \<^verbatim>\<open>ntohl\<close> read it.\<close>

definition net_value :: "char list \<Rightarrow> nat" where
  "net_value bs = foldl (\<lambda>n b. n * 256 + uchar b) 0 bs"

definition get_net :: "char list \<Rightarrow> nat \<Rightarrow> nat \<Rightarrow> nat option" where
  "get_net pkt i n = map_option net_value (get_bytes pkt i n)"

text \<open>
  A name at an offset: \<open>Some None\<close> when \<^verbatim>\<open>dn_expand\<close> returns less than one.
\<close>

definition get_name :: "char list \<Rightarrow> nat \<Rightarrow> nat \<Rightarrow> (nat \<times> cstring) option option" where
  "get_name pkt plen i =
     (case dn_expand pkt plen i (DNS_MAX_NAMELEN + 1) of
        None \<Rightarrow> None
      | Some None \<Rightarrow> Some None
      | Some (Some (rc, name)) \<Rightarrow> if rc < 1 then Some None else Some (Some (nat rc, name)))"

text \<open>The C string at an offset, cut to the size of the array it is copied to, and its length.\<close>

definition get_cstr :: "char list \<Rightarrow> nat \<Rightarrow> (nat \<times> cstring) option" where
  "get_cstr pkt i =
     (if i < length pkt \<and> NUL \<in> set (drop i pkt)
      then Some (length (buf_str pkt i), take DNS_MAX_NAMELEN (buf_str pkt i)) else None)"

text \<open>The answer data: \<open>Some None\<close> when a name in it cannot be expanded.\<close>

definition get_rdata :: "char list \<Rightarrow> nat \<Rightarrow> nat \<Rightarrow> nat \<Rightarrow> nat \<Rightarrow> nat \<Rightarrow> rdata option option" where
  "get_rdata pkt plen type class rdata rdlen =
     (case get_bytes pkt rdata rdlen of
        None \<Rightarrow> None
      | Some txt \<Rightarrow>
          if type = DNS_T_A \<and> class = DNS_C_IN then map_option (\<lambda>b. Some (Addr b)) (get_bytes pkt rdata 4)
          else if type = DNS_T_AAAA \<and> class = DNS_C_IN then map_option (\<lambda>b. Some (Addr b)) (get_bytes pkt rdata 16)
          else if type = DNS_T_NS \<or> type = DNS_T_CNAME \<or> type = DNS_T_PTR then
            map_option (map_option (\<lambda>(rc, n). Name n)) (get_name pkt plen rdata)
          else if type = DNS_T_SOA then
            (case get_name pkt plen rdata of
               None \<Rightarrow> None
             | Some None \<Rightarrow> Some None
             | Some (Some (rc, mname)) \<Rightarrow>
                 (case get_name pkt plen (rdata + rc) of
                    None \<Rightarrow> None
                  | Some None \<Rightarrow> Some None
                  | Some (Some (rc2, rname)) \<Rightarrow>
                      (case get_bytes pkt (rdata + rc + rc2) 20 of
                         None \<Rightarrow> None
                       | Some b \<Rightarrow>
                           Some (Some (Soa mname rname (net_value (take 4 b)) (net_value (take 4 (drop 4 b)))
                             (net_value (take 4 (drop 8 b))) (net_value (take 4 (drop 12 b)))
                             (net_value (take 4 (drop 16 b))))))))
          else if type = DNS_T_HINFO then
            (case get_cstr pkt rdata of
               None \<Rightarrow> None
             | Some (sidx, cpu) \<Rightarrow>
                 (case get_cstr pkt (rdata + sidx + 1) of
                    None \<Rightarrow> None
                  | Some (sidx2, os) \<Rightarrow> Some (Some (Hinfo cpu os))))
          else if type = DNS_T_MINFO then
            (case get_name pkt plen rdata of
               None \<Rightarrow> None
             | Some None \<Rightarrow> Some None
             | Some (Some (rc, rmailbx)) \<Rightarrow>
                 map_option (map_option (\<lambda>(rc2, emailbx). Minfo rmailbx emailbx)) (get_name pkt plen (rdata + rc)))
          else if type = DNS_T_MX then
            (case get_net pkt rdata 2 of
               None \<Rightarrow> None
             | Some preference \<Rightarrow>
                 map_option (map_option (\<lambda>(rc, exchange). Mx preference exchange)) (get_name pkt plen (rdata + 2)))
          else if type = DNS_T_WKS \<and> class = DNS_C_IN then
            (if rdlen < 5 \<or> rdlen - 5 > 8192 then None
             else (case get_bytes pkt rdata 5 of
                     None \<Rightarrow> None
                   | Some b \<Rightarrow>
                       map_option (\<lambda>m. Some (Wks (take 4 b) (b ! 4) (m @ replicate (8192 - (rdlen - 5)) NUL)))
                         (get_bytes pkt (rdata + 5) (rdlen - 5))))
          else Some (Some (Txt txt)))"

text \<open>One record: the index behind it, and the record unless a name in it cannot be expanded.\<close>

definition get_rr :: "char list \<Rightarrow> nat \<Rightarrow> nat \<Rightarrow> (nat \<times> dns_rr option) option" where
  "get_rr pkt plen pidx =
     (case get_name pkt plen pidx of
        None \<Rightarrow> None
      | Some None \<Rightarrow> Some (pidx, None)
      | Some (Some (rc, name)) \<Rightarrow>
          let i = pidx + rc in
          (case get_net pkt i 2 of None \<Rightarrow> None | Some type \<Rightarrow>
          (case get_net pkt (i + 2) 2 of None \<Rightarrow> None | Some class \<Rightarrow>
          (case get_net pkt (i + 4) 4 of None \<Rightarrow> None | Some ttl \<Rightarrow>
          (case get_net pkt (i + 8) 2 of None \<Rightarrow> None | Some rdlen \<Rightarrow>
             let rr = \<lparr>rr_name = name, rr_type = type, rr_class = class, rr_ttl = ttl, rr_rdata = NoData\<rparr> in
             if rdlen = 0 then Some (i + 10, Some rr)
             else (case get_rdata pkt plen type class (i + 10) rdlen of
                     None \<Rightarrow> None
                   | Some None \<Rightarrow> Some (i + 10 + rdlen, None)
                   | Some (Some d) \<Rightarrow> Some (i + 10 + rdlen, Some (rr\<lparr>rr_rdata := d\<rparr>))))))))"

text \<open>The records found so far stay in the list when a later one cannot be read.\<close>

fun extract_rrs :: "char list \<Rightarrow> nat \<Rightarrow> nat \<Rightarrow> nat \<Rightarrow> (nat \<times> dns_rr list) option" where
  "extract_rrs pkt plen pidx 0 = Some (pidx, [])"
| "extract_rrs pkt plen pidx (Suc count) =
     (case get_rr pkt plen pidx of
        None \<Rightarrow> None
      | Some (pidx', None) \<Rightarrow> Some (pidx', [])
      | Some (pidx', Some rr) \<Rightarrow>
          map_option (\<lambda>(i, rrs). (i, rr # rrs)) (extract_rrs pkt plen pidx' count))"

section \<open>Writing records\<close>

definition net16 :: "nat \<Rightarrow> char list" where
  "net16 n = [char_of (n div 256), char_of n]"

definition net32 :: "nat \<Rightarrow> char list" where
  "net32 n = [char_of (n div 16777216), char_of (n div 65536), char_of (n div 256), char_of n]"

lemma net_value_net16: "n < 65536 \<Longrightarrow> net_value (net16 n) = n"
proof -
  assume "n < 65536"
  then have "n div 256 < 256" by (simp add: div_less_iff_less_mult)
  then show ?thesis by (simp add: net_value_def net16_def)
qed

lemma net_value_net32: "n < 4294967296 \<Longrightarrow> net_value (net32 n) = n"
proof -
  assume "n < 4294967296"
  then have "n div 16777216 < 256" by (simp add: div_less_iff_less_mult)
  moreover have "((n div 16777216 * 256 + n div 65536 mod 256) * 256 + n div 256 mod 256) * 256 + n mod 256 = n"
  proof -
    have "n div 16777216 = n div 65536 div 256" "n div 65536 = n div 256 div 256"
      by (simp_all add: div_mult2_eq [symmetric])
    then show ?thesis by (metis div_mult_mod_eq)
  qed
  ultimately show ?thesis by (simp add: net_value_def net32_def)
qed

text \<open>A record of labels, type, class, time to live and data, as a server writes it.\<close>

type_synonym raw_rr = "cstring list \<times> nat \<times> nat \<times> nat \<times> char list"

fun put_rr :: "raw_rr \<Rightarrow> char list" where
  "put_rr (ls, type, class, ttl, txt) =
     wire ls @ net16 type @ net16 class @ net32 ttl @ net16 (length txt) @ txt"

fun raw_ok :: "raw_rr \<Rightarrow> bool" where
  "raw_ok (ls, type, class, ttl, txt) \<longleftrightarrow>
     (\<forall>l \<in> set ls. good_label l) \<and> length (present ls) \<le> DNS_MAX_NAMELEN \<and>
     type < 65536 \<and> class < 65536 \<and> ttl < 4294967296 \<and> length txt < 65536 \<and>
     type \<notin> {DNS_T_A, DNS_T_NS, DNS_T_CNAME, DNS_T_SOA, DNS_T_WKS, DNS_T_PTR, DNS_T_HINFO, DNS_T_MINFO,
       DNS_T_MX, DNS_T_AAAA}"

fun cooked :: "raw_rr \<Rightarrow> dns_rr" where
  "cooked (ls, type, class, ttl, txt) =
     \<lparr>rr_name = present ls, rr_type = type, rr_class = class, rr_ttl = ttl,
      rr_rdata = (if txt = [] then NoData else Txt txt)\<rparr>"

lemma name_at_wire:
  "(\<forall>l \<in> set ls. good_label l) \<Longrightarrow>
     name_at (pre @ wire ls @ post) (length pre) (length pre + length (wire ls)) ls (length (wire ls) - 1)"
proof (induction ls arbitrary: pre)
  case Nil
  then show ?case using name_at.root [of "length pre" "pre @ NUL # post"] by simp
next
  case (Cons l ls)
  let ?m = "pre @ wire (l # ls) @ post"
  have l: "good_label l" using Cons.prems by simp
  then obtain n where n: "length l = Suc n" "n < 63"
    by (cases l) (auto simp: good_label_def DNS_MAX_SEGLEN_def)
  have "name_at ?m (length pre + 2 + n) (length pre + length (wire (l # ls))) ls (length (wire ls) - 1)"
    using Cons.IH [of "pre @ char_of (length l) # l"] Cons.prems n by (simp add: add.assoc)
  from name_at.label [OF _ _ n(2) this] have
    "name_at ?m (length pre) (length pre + length (wire (l # ls)))
      (take (Suc n) (drop (length pre + 1) ?m) # ls) (n + 2 + (length (wire ls) - 1))"
    using n by (simp add: nth_append)
  moreover have "take (Suc n) (drop (length pre + 1) ?m) = l" using n by simp
  moreover have "n + 2 + (length (wire ls) - 1) = length (wire (l # ls)) - 1"
    using n length_wire_pos [of ls] by (simp del: length_wire_pos)
  ultimately show ?case by simp
qed

lemma get_name_wire:
  assumes "\<forall>l \<in> set ls. good_label l" "length (present ls) \<le> DNS_MAX_NAMELEN"
    "length pre + length (wire ls) \<le> plen" "plen \<le> length pkt" "pkt = pre @ wire ls @ post"
  shows "get_name pkt plen (length pre) = Some (Some (length (wire ls), present ls))"
proof -
  have w: "0 < length (wire ls)" by (rule length_wire_pos)
  have "take plen pkt = pre @ wire ls @ take (plen - (length pre + length (wire ls))) post"
    using assms(3,5) by simp
  then have "name_at (take plen pkt) (length pre) (length pre + length (wire ls)) ls (length (wire ls) - 1)"
    using name_at_wire [OF assms(1)] by metis
  note expand_name [OF this assms(4), of 0 "[]" "DNS_MAX_NAMELEN + 1" "- 1" "length pre"]
  moreover have "0 + (length (wire ls) - 1) < plen" using assms(3) w by linarith
  ultimately have "dn_expand pkt plen (length pre) (DNS_MAX_NAMELEN + 1) = Some (Some (int (length (wire ls)), present ls))"
    using assms(2) by (simp add: dn_expand_def)
  then show ?thesis using w by (simp add: get_name_def)
qed

lemma get_net_at:
  "pkt = pre @ b @ post \<Longrightarrow> i = length pre \<Longrightarrow> n = length b \<Longrightarrow> get_net pkt i n = Some (net_value b)"
  by (simp add: get_net_def get_bytes_def)

lemma get_rr_put:
  assumes "raw_ok r" "pkt = pre @ put_rr r @ post" "length pre + length (put_rr r) \<le> plen" "plen \<le> length pkt"
  shows "get_rr pkt plen (length pre) = Some (length pre + length (put_rr r), Some (cooked r))"
proof -
  obtain ls type cl ttl dat where r: "r = (ls, type, cl, ttl, dat)" by (cases r)
  note ok = assms(1) [unfolded r raw_ok.simps]
  let ?w = "wire ls" let ?i = "length pre + length ?w"
  have len: "length (net16 a) = 2" "length (net32 a) = 4" for a by (simp_all add: net16_def net32_def)
  have pkt: "pkt = pre @ ?w @ net16 type @ net16 cl @ net32 ttl @ net16 (length dat) @ dat @ post"
    using assms(2) by (simp add: r)
  have name: "get_name pkt plen (length pre) = Some (Some (length ?w, present ls))"
    using ok assms(3,4) by (intro get_name_wire [OF _ _ _ _ pkt]) (auto simp: r)
  have "get_net pkt ?i 2 = Some (net_value (net16 type))"
    by (rule get_net_at [of _ "pre @ ?w" _ "net16 cl @ net32 ttl @ net16 (length dat) @ dat @ post"])
      (simp_all only: pkt append_assoc length_append len)
  moreover have "get_net pkt (?i + 2) 2 = Some (net_value (net16 cl))"
    by (rule get_net_at [of _ "pre @ ?w @ net16 type" _ "net32 ttl @ net16 (length dat) @ dat @ post"])
      (simp_all only: pkt append_assoc length_append len add.assoc)
  moreover have "get_net pkt (?i + 4) 4 = Some (net_value (net32 ttl))"
    by (rule get_net_at [of _ "pre @ ?w @ net16 type @ net16 cl" _ "net16 (length dat) @ dat @ post"])
      (simp_all add: pkt len)
  moreover have "get_net pkt (?i + 8) 2 = Some (net_value (net16 (length dat)))"
    by (rule get_net_at [of _ "pre @ ?w @ net16 type @ net16 cl @ net32 ttl" _ "dat @ post"])
      (simp_all add: pkt len)
  ultimately have nums: "get_net pkt ?i 2 = Some type" "get_net pkt (?i + 2) 2 = Some cl"
    "get_net pkt (?i + 4) 4 = Some ttl" "get_net pkt (?i + 8) 2 = Some (length dat)"
    using ok by (simp_all only: net_value_net16 net_value_net32)
  have "get_bytes pkt (?i + 10) (length dat) = Some dat"
    using pkt by (simp add: get_bytes_def len)
  then have data: "get_rdata pkt plen type cl (?i + 10) (length dat) = Some (Some (Txt dat))"
    using ok by (simp add: get_rdata_def)
  show ?thesis
    using name nums data by (simp add: get_rr_def Let_def r len)
qed

lemma extract_put:
  "list_all raw_ok rs \<Longrightarrow> pkt = pre @ concat (map put_rr rs) @ post \<Longrightarrow>
     length pre + length (concat (map put_rr rs)) \<le> plen \<Longrightarrow> plen \<le> length pkt \<Longrightarrow>
     extract_rrs pkt plen (length pre) (length rs) =
       Some (length pre + length (concat (map put_rr rs)), map cooked rs)"
proof (induction rs arbitrary: pre)
  case (Cons r rs)
  have "get_rr pkt plen (length pre) = Some (length pre + length (put_rr r), Some (cooked r))"
    using Cons.prems by (intro get_rr_put) simp_all
  then show ?case using Cons.IH [of "pre @ put_rr r"] Cons.prems by (simp add: add.assoc)
qed simp

section \<open>Properties\<close>

text \<open>The records that a server writes one after the other, of types whose data is kept as it
  is, are extracted in order with their names, types, classes, times and data.\<close>

theorem extract_rrs_written:
  assumes "list_all raw_ok rs" "pkt = pre @ concat (map put_rr rs) @ post"
    "length pre + length (concat (map put_rr rs)) \<le> plen" "plen \<le> length pkt"
  shows "extract_rrs pkt plen (length pre) (length rs) =
    Some (length pre + length (concat (map put_rr rs)), map cooked rs)"
  by (rule extract_put [OF assms])

theorem extract_rrs_written_witness:
  "extract_rrs (put_rr ([''wd''], 16, 1, 60, ''hello'')) 19 0 1 = Some (19, [cooked ([''wd''], 16, 1, 60, ''hello'')])"
  using extract_rrs_written [of "[([''wd''], 16, 1, 60, ''hello'')]" "put_rr ([''wd''], 16, 1, 60, ''hello'')" "[]" "[]" 19]
  by (simp add: good_label_def DNS_MAX_SEGLEN_def DNS_MAX_NAMELEN_def dns_types net16_def net32_def)

text \<open>The data of a record is copied by the length field alone: when it says more than the buffer
  holds behind the field, the parser reads behind the buffer.\<close>

theorem rdata_reads_past_buffer:
  assumes "length pkt < rdata + rdlen"
  shows "get_rdata pkt plen type class rdata rdlen = None"
  using assms by (simp add: get_rdata_def get_bytes_def)

theorem rdata_reads_past_buffer_witness: "get_rdata (replicate 512 NUL) 60 16 1 50 65535 = None"
  by (rule rdata_reads_past_buffer) simp

end
