(* ===== verification/DnsLookup.thy ===== *)
theory DnsLookup
  imports DnsPacket Convert Conf
begin

text \<open>
  The lookups of the DNS module: \<^verbatim>\<open>lookup.c\<close>, \<^verbatim>\<open>dns_lookup_send\<close>,
  \<^verbatim>\<open>dns_packet_parse\<close> and \<^verbatim>\<open>dns_lookup_finish\<close> of \<^verbatim>\<open>packet.c\<close> and the timer
  of \<^verbatim>\<open>dns.c\<close>. A lookup is a reference into a store, so that the use of one that has been
  freed is visible: it gives \<open>None\<close>, as does a failed assertion. The callbacks of a lookup are
  recorded when they are called and do not call back into the module. The timer of a lookup is the
  time it is due. INET6 is defined.
\<close>

section \<open>State\<close>

type_synonym u16 = "16 word"

text \<open>The three list bits of the flags, of which \<^verbatim>\<open>dns_lookup_move\<close> sets at most one.\<close>

datatype dns_list = Waiting | Pending | Cached | Nowhere

record dns_lookup_t =
  lk_hooks :: "nat list"
  lk_class :: nat
  lk_type :: nat
  lk_data :: cstring
  lk_an :: "dns_rr list"
  lk_ns :: "dns_rr list"
  lk_ad :: "dns_rr list"
  lk_on :: dns_list
  lk_again :: bool
  lk_failed :: bool
  lk_timeout :: bool
  lk_nxdomain :: bool
  lk_id :: u16
  lk_last :: int
  lk_ttl :: nat
  lk_retry :: nat
  lk_timer :: "int option"

record dns_state =
  d_store :: "nat \<Rightarrow> dns_lookup_t option"
  d_fresh :: nat
  d_wlist :: "nat list"
  d_alist :: "nat list"
  d_cache :: "nat list"
  d_acount :: int
  d_count :: int
  d_max :: int
  d_cache_max :: int
  d_retries :: nat
  d_retry_times :: "int list"
  d_idn :: u16
  d_failure :: bool
  d_expire :: nat
  d_now :: int
  d_calls :: "(nat \<times> nat) list"
  d_sent :: "char list list"

definition put_lookup :: "dns_state \<Rightarrow> nat \<Rightarrow> dns_lookup_t \<Rightarrow> dns_state" where
  "put_lookup st r lk = st\<lparr>d_store := (d_store st)(r := Some lk)\<rparr>"

section \<open>The lists\<close>

definition tq_remove :: "nat \<Rightarrow> nat list \<Rightarrow> nat list option" where
  "tq_remove r q = (if r \<in> set q then Some (remove1 r q) else None)"

definition detach :: "dns_state \<Rightarrow> nat \<Rightarrow> dns_list \<Rightarrow> dns_state option" where
  "detach st r from =
     (case from of
        Waiting \<Rightarrow> map_option (\<lambda>q. st\<lparr>d_wlist := q\<rparr>) (tq_remove r (d_wlist st))
      | Pending \<Rightarrow>
          map_option (\<lambda>q. st\<lparr>d_alist := q, d_acount := d_acount st - 1\<rparr>) (tq_remove r (d_alist st))
      | Cached \<Rightarrow>
          map_option (\<lambda>q. st\<lparr>d_cache := q, d_count := d_count st - 1\<rparr>) (tq_remove r (d_cache st))
      | Nowhere \<Rightarrow> Some st)"

definition tq_insert :: "bool \<Rightarrow> nat \<Rightarrow> nat list \<Rightarrow> nat list" where
  "tq_insert head r q = (if head \<or> q = [] then r # q else q @ [r])"

definition attach :: "dns_state \<Rightarrow> nat \<Rightarrow> dns_list \<Rightarrow> bool \<Rightarrow> dns_state" where
  "attach st r to head =
     (case to of
        Waiting \<Rightarrow> st\<lparr>d_wlist := tq_insert head r (d_wlist st)\<rparr>
      | Pending \<Rightarrow> st\<lparr>d_acount := d_acount st + 1, d_alist := tq_insert head r (d_alist st)\<rparr>
      | Cached \<Rightarrow> st\<lparr>d_count := d_count st + 1, d_cache := tq_insert head r (d_cache st)\<rparr>
      | Nowhere \<Rightarrow> st)"

definition dns_lookup_move :: "dns_state \<Rightarrow> nat \<Rightarrow> dns_list \<Rightarrow> bool \<Rightarrow> dns_state option" where
  "dns_lookup_move st r list head =
     (case d_store st r of
        None \<Rightarrow> None
      | Some lk \<Rightarrow>
          (case detach st r (lk_on lk) of
             None \<Rightarrow> None
           | Some st1 \<Rightarrow> Some (attach (put_lookup st1 r (lk\<lparr>lk_on := list\<rparr>)) r list head)))"

definition destroy_dns_lookup :: "dns_state \<Rightarrow> nat \<Rightarrow> dns_state option" where
  "destroy_dns_lookup st r =
     map_option (\<lambda>st'. st'\<lparr>d_store := (d_store st')(r := None)\<rparr>) (dns_lookup_move st r Nowhere False)"

section \<open>Finishing\<close>

definition min_ttl :: "dns_state \<Rightarrow> dns_lookup_t \<Rightarrow> nat option" where
  "min_ttl st lk =
     (let m = foldl min (d_expire st) (map rr_ttl (lk_an lk)) in
      case lk_ns lk of
        drp # _ \<Rightarrow>
          if lk_an lk = [] \<and> rr_type drp = DNS_T_SOA then
            (case rr_rdata drp of Soa _ _ _ _ _ _ minimum \<Rightarrow> Some (min m minimum) | _ \<Rightarrow> None)
          else Some m
      | [] \<Rightarrow> Some m)"

text \<open>Room in the cache: the last entry goes when the cache is full.\<close>

definition make_room :: "dns_state \<Rightarrow> dns_state option" where
  "make_room st =
     (if d_count st = d_cache_max st \<and> d_count st > 0 then
        (if d_cache st = [] then None else destroy_dns_lookup st (last (d_cache st)))
      else Some st)"

definition dns_lookup_finish :: "dns_state \<Rightarrow> nat \<Rightarrow> dns_state option" where
  "dns_lookup_finish st r =
     (case d_store st r of
        None \<Rightarrow> None
      | Some lk \<Rightarrow>
          (case min_ttl st lk of
             None \<Rightarrow> None
           | Some minttl \<Rightarrow>
               let st1 = (put_lookup st r (lk\<lparr>lk_last := d_now st, lk_ttl := minttl\<rparr>))
                           \<lparr>d_calls := d_calls st @ map (\<lambda>h. (h, r)) (lk_hooks lk)\<rparr>;
                   st2 = (if minttl \<noteq> 0 \<and> (d_failure st \<or> \<not> lk_failed lk) then
                            (case make_room st1 of
                               None \<Rightarrow> None
                             | Some s \<Rightarrow> if d_cache_max st > 0 then dns_lookup_move s r Cached True else Some s)
                          else Some st1) in
               (case st2 of
                  None \<Rightarrow> None
                | Some s \<Rightarrow>
                    (case d_store s r of
                       None \<Rightarrow> None
                     | Some lk' \<Rightarrow>
                         if lk_on lk' \<noteq> Cached then destroy_dns_lookup s r
                         else Some (put_lookup s r (lk'\<lparr>lk_timer := Some (d_now s + int (lk_ttl lk'))\<rparr>))))))"

section \<open>Sending\<close>

text \<open>\<^verbatim>\<open>sscanf\<close> with \<^verbatim>\<open>"%d.%d.%d.%d"\<close>; a number that is not there stays uninitialised.\<close>

definition scan_d :: "cstring \<Rightarrow> (int \<times> cstring) option" where
  "scan_d str =
     (let s = dropWhile isspace str;
          neg = (chd s = CHR ''-'');
          s = (if neg \<or> chd s = CHR ''+'' then tl s else s);
          v = int (scan_digits 10 s 0) in
      if is_digit 10 (chd s) then Some (i32 (if neg then - v else v), dropWhile (is_digit 10) s) else None)"

definition scan_dot :: "cstring \<Rightarrow> cstring option" where
  "scan_dot s = (if chd s = CHR ''.'' then Some (tl s) else None)"

definition ptr_name4 :: "cstring \<Rightarrow> cstring option" where
  "ptr_name4 data =
     Option.bind (scan_d data) (\<lambda>(c3, s).
     Option.bind (Option.bind (scan_dot s) scan_d) (\<lambda>(c2, s).
     Option.bind (Option.bind (scan_dot s) scan_d) (\<lambda>(c1, s).
     Option.bind (Option.bind (scan_dot s) scan_d) (\<lambda>(c0, s).
       render ''%d.%d.%d.%d.in-addr.arpa''
         [FNum (word_of_int c0), FNum (word_of_int c1), FNum (word_of_int c2), FNum (word_of_int c3)]))))"

definition ptr_name6 :: "u8 list \<Rightarrow> cstring \<Rightarrow> cstring" where
  "ptr_name6 i6a zone =
     concat (map (\<lambda>b. num_chars (CHR ''x'') (ucast (b AND 0xf)) @ ''.''
                      @ num_chars (CHR ''x'') (ucast (drop_bit 4 b AND 0xf)) @ ''.'') (rev i6a)) @ zone"

text \<open>The name to ask for, and the lookup with its flags; no name when the address is not one.\<close>

definition query_name :: "pton \<Rightarrow> dns_lookup_t \<Rightarrow> (cstring option \<times> dns_lookup_t) option" where
  "query_name inet_pton lk =
     (if lk_class lk = DNS_C_IN \<and> lk_type lk = DNS_T_PTR then
        (if ith_strchr (lk_data lk) (CHR '':'') \<noteq> None then
           (case inet_pton INET6 (lk_data lk) of
              None \<Rightarrow> Some (None, lk)
            | Some i6a \<Rightarrow>
                if lk_failed lk \<and> lk_again lk then
                  Some (Some (ptr_name6 i6a ''ip6.int''), lk\<lparr>lk_failed := False, lk_again := False\<rparr>)
                else Some (Some (ptr_name6 i6a ''ip6.arpa''), lk))
         else map_option (\<lambda>n. (Some n, lk)) (ptr_name4 (lk_data lk)))
      else Some (Some (take DNS_MAX_NAMELEN (lk_data lk)), lk))"

definition query_packet :: "dns_lookup_t \<Rightarrow> cstring \<Rightarrow> char list option" where
  "query_packet lk name =
     (let hdr = net16 (unat (lk_id lk)) @ [char_of (1::nat), NUL] @ net16 1 @ replicate 6 NUL;
          pkt = hdr @ replicate (DNS_MAX_PACKET_SIZE + DNS_MAX_NAMELEN - 12) NUL in
      case dn_comp pkt name 12 DNS_MAX_NAMELEN None [] of
        None \<Rightarrow> None
      | Some (rc, pkt', ptrs) \<Rightarrow>
          (let plen = nat (12 + rc) in
           if plen + 4 \<le> length pkt'
           then Some (take (plen + 4) (put_bytes pkt' plen (net16 (lk_type lk) @ net16 (lk_class lk))))
           else None))"

text \<open>
  \<open>socket_write\<close> tells whether the whole packet is taken. The result is the state and the
  return value.
\<close>

definition dns_lookup_send :: "pton \<Rightarrow> (char list \<Rightarrow> bool) \<Rightarrow> dns_state \<Rightarrow> (dns_state \<times> bool) option" where
  "dns_lookup_send inet_pton socket_write st =
     (if d_acount st = d_max st \<or> d_wlist st = [] then Some (st, False)
      else let r = hd (d_wlist st) in
        (case dns_lookup_move st r Pending False of
           None \<Rightarrow> None
         | Some st1 \<Rightarrow>
             (case d_store st1 r of
                None \<Rightarrow> None
              | Some lk \<Rightarrow>
                  (case query_name inet_pton lk of
                     None \<Rightarrow> None
                   | Some (None, lk1) \<Rightarrow>
                       map_option (\<lambda>s. (s, True)) (dns_lookup_finish (put_lookup st1 r (lk1\<lparr>lk_failed := True\<rparr>)) r)
                   | Some (Some name, lk1) \<Rightarrow>
                       (case query_packet lk1 name of
                          None \<Rightarrow> None
                        | Some pkt \<Rightarrow>
                            if length pkt > DNS_MAX_PACKET_SIZE then
                              map_option (\<lambda>s. (s, True))
                                (dns_lookup_finish (put_lookup st1 r (lk1\<lparr>lk_failed := True\<rparr>)) r)
                            else if \<not> socket_write pkt then
                              map_option (\<lambda>s. (s, False)) (dns_lookup_move (put_lookup st1 r lk1) r Waiting True)
                            else if lk_retry lk1 > d_retries st1 then None
                            else Some ((put_lookup st1 r
                                   (lk1\<lparr>lk_timer := Some (d_now st1 + d_retry_times st1 ! lk_retry lk1)\<rparr>))
                                     \<lparr>d_sent := d_sent st1 @ [pkt]\<rparr>, True))))))"

text \<open>
  The loop around it: one call more for every lookup that waits, so it is written with the option
  monad and shown to return below.
\<close>

partial_function (option) dns_send_all :: "pton \<Rightarrow> (char list \<Rightarrow> bool) \<Rightarrow> dns_state \<Rightarrow> dns_state option" where
  "dns_send_all inet_pton socket_write st =
     (case dns_lookup_send inet_pton socket_write st of
        None \<Rightarrow> None
      | Some (st', sent) \<Rightarrow> if sent then dns_send_all inet_pton socket_write st' else Some st')"

section \<open>Asking and cancelling\<close>

text \<open>\<open>Some None\<close> is the null pointer: there is no such lookup.\<close>

fun find_in :: "dns_state \<Rightarrow> nat \<Rightarrow> nat \<Rightarrow> cstring \<Rightarrow> nat list \<Rightarrow> nat option option" where
  "find_in st class type data [] = Some None"
| "find_in st class type data (r # q) =
     (case d_store st r of
        None \<Rightarrow> None
      | Some lk \<Rightarrow>
          if lk_class lk = class \<and> lk_type lk = type \<and> ith_strcasecmp data (lk_data lk) = 0 then Some (Some r)
          else find_in st class type data q)"

definition find_dns_lookup :: "dns_state \<Rightarrow> nat \<Rightarrow> nat \<Rightarrow> cstring \<Rightarrow> nat option option" where
  "find_dns_lookup st class type data =
     find_in st class type data (d_cache st @ d_alist st @ d_wlist st)"

definition new_lookup :: "dns_state \<Rightarrow> nat \<Rightarrow> nat \<Rightarrow> cstring \<Rightarrow> nat \<Rightarrow> dns_lookup_t" where
  "new_lookup st class type data callback =
     \<lparr>lk_hooks = [callback], lk_class = class, lk_type = type, lk_data = take DNS_MAX_NAMELEN data,
      lk_an = [], lk_ns = [], lk_ad = [], lk_on = Nowhere, lk_again = False, lk_failed = False,
      lk_timeout = False, lk_nxdomain = False, lk_id = d_idn st, lk_last = d_now st, lk_ttl = 0,
      lk_retry = d_retries st, lk_timer = None\<rparr>"

definition dns_lookup :: "pton \<Rightarrow> (char list \<Rightarrow> bool) \<Rightarrow> nat \<Rightarrow> nat \<Rightarrow> cstring \<Rightarrow> nat \<Rightarrow> dns_state
    \<Rightarrow> (dns_state \<times> nat option) option" where
  "dns_lookup inet_pton socket_write class type data callback st =
     (if length data > DNS_MAX_NAMELEN then Some (st, None)
      else (case find_dns_lookup st class type data of
        None \<Rightarrow> None
      | Some (Some r) \<Rightarrow>
          (case d_store st r of
             None \<Rightarrow> None
           | Some lk \<Rightarrow>
               if lk_on lk = Cached then
                 map_option (\<lambda>q. (st\<lparr>d_cache := r # q, d_calls := d_calls st @ [(callback, r)]\<rparr>, Some r))
                   (tq_remove r (d_cache st))
               else Some (put_lookup st r (lk\<lparr>lk_hooks := lk_hooks lk @ [callback]\<rparr>), Some r))
      | Some None \<Rightarrow>
          (let r = d_fresh st;
               st1 = (put_lookup st r (new_lookup st class type data callback))
                       \<lparr>d_fresh := Suc r, d_idn := d_idn st + 1\<rparr> in
           (case dns_lookup_move st1 r Waiting False of
              None \<Rightarrow> None
            | Some st2 \<Rightarrow> map_option (\<lambda>(s, _). (s, Some r)) (dns_lookup_send inet_pton socket_write st2)))))"

text \<open>The walk along a list; the next entry is read before the step on an entry may free it.\<close>

fun walk :: "(nat \<Rightarrow> dns_state \<Rightarrow> dns_state option) \<Rightarrow> nat list \<Rightarrow> dns_state \<Rightarrow> dns_state option" where
  "walk step [] st = Some st"
| "walk step (r # q) st = (case step r st of None \<Rightarrow> None | Some st' \<Rightarrow> walk step q st')"

definition unhook :: "nat \<Rightarrow> nat \<Rightarrow> dns_state \<Rightarrow> dns_state option" where
  "unhook callback r st =
     map_option (\<lambda>lk. put_lookup st r (lk\<lparr>lk_hooks := remove1 callback (lk_hooks lk)\<rparr>)) (d_store st r)"

definition unhook_destroy :: "nat \<Rightarrow> nat \<Rightarrow> dns_state \<Rightarrow> dns_state option" where
  "unhook_destroy callback r st =
     (case unhook callback r st of
        None \<Rightarrow> None
      | Some st1 \<Rightarrow>
          (case d_store st1 r of
             None \<Rightarrow> None
           | Some lk \<Rightarrow> if lk_hooks lk = [] then destroy_dns_lookup st1 r else Some st1))"

definition dns_lookup_cancel :: "nat \<Rightarrow> dns_state \<Rightarrow> dns_state option" where
  "dns_lookup_cancel callback st =
     (case walk (unhook callback) (d_alist st) st of
        None \<Rightarrow> None
      | Some st1 \<Rightarrow> walk (unhook_destroy callback) (d_wlist st1) st1)"

section \<open>The timer\<close>

definition timer_expired :: "nat \<Rightarrow> dns_state \<Rightarrow> dns_state option" where
  "timer_expired r st =
     (case d_store st r of
        None \<Rightarrow> None
      | Some lk \<Rightarrow>
          if lk_retry lk > d_retries st then None
          else if lk_retry lk = 0 then
            dns_lookup_finish (put_lookup st r (lk\<lparr>lk_timer := None, lk_timeout := True, lk_failed := True\<rparr>)) r
          else dns_lookup_move (put_lookup st r (lk\<lparr>lk_timer := None, lk_retry := lk_retry lk - 1\<rparr>)) r Waiting True)"

definition dns_timer_hook :: "pton \<Rightarrow> (char list \<Rightarrow> bool) \<Rightarrow> nat \<Rightarrow> dns_state \<Rightarrow> dns_state option" where
  "dns_timer_hook inet_pton socket_write r st =
     (case d_store st r of
        None \<Rightarrow> None
      | Some lk \<Rightarrow>
          if lk_on lk = Cached then destroy_dns_lookup (put_lookup st r (lk\<lparr>lk_timer := None\<rparr>)) r
          else (case timer_expired r st of
                  None \<Rightarrow> None
                | Some st1 \<Rightarrow> dns_send_all inet_pton socket_write st1))"

section \<open>Answers\<close>

definition find_id :: "dns_state \<Rightarrow> (dns_lookup_t \<Rightarrow> bool) \<Rightarrow> nat list \<Rightarrow> nat option" where
  "find_id st p q = find (\<lambda>r. case d_store st r of Some lk \<Rightarrow> p lk | None \<Rightarrow> False) q"

text \<open>The lookup an answer belongs to: a late one may be for a lookup that waits to be sent again.\<close>

definition answered :: "dns_state \<Rightarrow> u16 \<Rightarrow> nat option" where
  "answered st i =
     (case find_id st (\<lambda>lk. lk_id lk = i) (d_alist st) of
        Some r \<Rightarrow> Some r
      | None \<Rightarrow> find_id st (\<lambda>lk. lk_id lk = i \<and> lk_retry lk < d_retries st) (d_wlist st))"

definition fail_lookup :: "dns_state \<Rightarrow> nat \<Rightarrow> dns_lookup_t \<Rightarrow> dns_state option" where
  "fail_lookup st r lk = dns_lookup_finish (put_lookup st r (lk\<lparr>lk_failed := True\<rparr>)) r"

definition DNS_R_OK :: nat where "DNS_R_OK = 0"
definition DNS_R_NXDOMAIN :: nat where "DNS_R_NXDOMAIN = 3"

text \<open>
  The comparison of the end of a name starts in front of the array when the name has fewer than
  eight characters.
\<close>

definition ends_in_arpa :: "cstring \<Rightarrow> bool option" where
  "ends_in_arpa name =
     (if length name < 8 then None
      else Some (ith_strcasecmp (drop (length name - 8) name) ''ip6.arpa'' = 0))"

text \<open>The three sections, put in front of the records the lookup has.\<close>

definition take_sections :: "char list \<Rightarrow> nat \<Rightarrow> nat \<Rightarrow> bool \<Rightarrow> dns_lookup_t \<Rightarrow> dns_lookup_t option" where
  "take_sections pkt plen pidx nx lk =
     (case extract_rrs pkt plen pidx (net_value (take 2 (drop 6 pkt))) of
        None \<Rightarrow> None
      | Some (i, an) \<Rightarrow>
     (case extract_rrs pkt plen i (net_value (take 2 (drop 8 pkt))) of
        None \<Rightarrow> None
      | Some (i2, ns) \<Rightarrow>
     (case extract_rrs pkt plen i2 (net_value (take 2 (drop 10 pkt))) of
        None \<Rightarrow> None
      | Some (i3, ad) \<Rightarrow>
          (let bad = nx \<or> an @ lk_an lk = [] in
           Some (lk\<lparr>lk_an := an @ lk_an lk, lk_ns := ns @ lk_ns lk, lk_ad := ad @ lk_ad lk,
                    lk_nxdomain := lk_nxdomain lk \<or> bad, lk_failed := lk_failed lk \<or> bad\<rparr>)))))"

definition parse_answer :: "char list \<Rightarrow> nat \<Rightarrow> nat \<Rightarrow> dns_lookup_t \<Rightarrow> dns_state \<Rightarrow> dns_state option" where
  "parse_answer pkt plen r lk st =
     (case get_name pkt plen 12 of
        None \<Rightarrow> None
      | Some None \<Rightarrow> Some st
      | Some (Some (rc, name)) \<Rightarrow>
     (case get_net pkt (12 + rc) 2 of None \<Rightarrow> None | Some type \<Rightarrow>
     (case get_net pkt (12 + rc + 2) 2 of None \<Rightarrow> None | Some class \<Rightarrow>
        let rcode = uchar (pkt ! 3) mod 16;
            arpa = (if rcode = DNS_R_NXDOMAIN \<and> class = DNS_C_IN \<and> type = DNS_T_PTR
                    then ends_in_arpa name else Some False) in
        if rcode \<noteq> DNS_R_OK \<and> rcode \<noteq> DNS_R_NXDOMAIN then fail_lookup st r lk
        else (case arpa of
                None \<Rightarrow> None
              | Some True \<Rightarrow>
                  dns_lookup_move (put_lookup st r (lk\<lparr>lk_failed := True, lk_again := True\<rparr>)) r Waiting True
              | Some False \<Rightarrow>
                  (case take_sections pkt plen (12 + rc + 4) (rcode = DNS_R_NXDOMAIN) lk of
                     None \<Rightarrow> None
                   | Some lk' \<Rightarrow> dns_lookup_finish (put_lookup st r lk') r)))))"

text \<open>\<open>pkt\<close> is the receive buffer, of which \<open>plen\<close> bytes were received.\<close>

definition dns_packet_parse :: "char list \<Rightarrow> nat \<Rightarrow> dns_state \<Rightarrow> dns_state option" where
  "dns_packet_parse pkt plen st =
     (if plen < DNS_HEADER_LEN + 4 then Some st
      else if length pkt < plen then None
      else (case answered st (of_nat (net_value (take 2 pkt))) of
        None \<Rightarrow> Some st
      | Some r \<Rightarrow>
          (case d_store st r of
             None \<Rightarrow> None
           | Some lk \<Rightarrow>
               (let fl = uchar (pkt ! 2) in
                if net_value (take 2 (drop 4 pkt)) \<noteq> 1 \<or> fl < 128 \<or> fl div 8 mod 16 \<noteq> 0 then Some st
                else if odd (fl div 2) then fail_lookup st r lk
                else parse_answer pkt plen r lk st))))"

text \<open>
  \<^verbatim>\<open>dns_socket_hook\<close>. \<open>reads\<close> is what \<^verbatim>\<open>socket_read\<close> returns before it returns
  nothing or an error: the datagrams, each in front of what the static buffer held.
\<close>

fun read_packets :: "char list \<Rightarrow> char list list \<Rightarrow> dns_state \<Rightarrow> (char list \<times> dns_state) option" where
  "read_packets pkt [] st = Some (pkt, st)"
| "read_packets pkt (d # reads) st =
     (let pkt' = take DNS_MAX_PACKET_SIZE (put_bytes pkt 0 (take DNS_MAX_PACKET_SIZE d)) in
      case dns_packet_parse pkt' (min DNS_MAX_PACKET_SIZE (length d)) st of
        None \<Rightarrow> None
      | Some st' \<Rightarrow> read_packets pkt' reads st')"

definition dns_socket_hook :: "pton \<Rightarrow> (char list \<Rightarrow> bool) \<Rightarrow> char list \<Rightarrow> char list list \<Rightarrow> dns_state
    \<Rightarrow> (char list \<times> dns_state) option" where
  "dns_socket_hook inet_pton socket_write pkt reads st =
     (case dns_send_all inet_pton socket_write st of
        None \<Rightarrow> None
      | Some st' \<Rightarrow> read_packets pkt reads st')"

section \<open>Settings and unloading\<close>

definition TIME_MAX :: int where "TIME_MAX = 2 ^ 63 - 1"

text \<open>The retry table is filled from its end, every entry twice the one behind it.\<close>

fun retry_fill :: "nat \<Rightarrow> int list \<Rightarrow> int list option" where
  "retry_fill 0 tab = Some tab"
| "retry_fill (Suc i) tab =
     (let v = tab ! Suc i * 2 in if v > TIME_MAX \<or> v < - TIME_MAX - 1 then None else retry_fill i (tab[i := v]))"

text \<open>
  The size of the table is \<^verbatim>\<open>retries + 1\<close>, as an unsigned int; \<open>None\<close> is a write outside
  it or an overflow. The loop counts down in an \<^verbatim>\<open>int\<close>.
\<close>

definition retry_table :: "int \<Rightarrow> nat \<Rightarrow> int list option" where
  "retry_table timeout retries =
     (let tab = replicate ((retries + 1) mod 2 ^ 32) 0 in
      if retries < length tab
      then retry_fill (nat (i32 (int retries - 1) + 1)) (tab[retries := timeout])
      else None)"

partial_function (option) flush :: "(dns_state \<Rightarrow> nat list) \<Rightarrow> dns_state \<Rightarrow> dns_state option" where
  "flush list st =
     (case list st of
        [] \<Rightarrow> Some st
      | r # _ \<Rightarrow> (case destroy_dns_lookup st r of None \<Rightarrow> None | Some st' \<Rightarrow> flush list st'))"

definition dns_settings :: "conf_entry list \<Rightarrow> dns_state \<Rightarrow> dns_state option" where
  "dns_settings conf st =
     (case str_conv_time (conf_find_entry ''lookup-timeout'' conf 1) 10 of None \<Rightarrow> None | Some timeout \<Rightarrow>
     (case str_conv_time (conf_find_entry ''cache-expire'' conf 1) 3600 of None \<Rightarrow> None | Some expire \<Rightarrow>
      let retries = nat (str_conv_int (conf_find_entry ''lookup-retries'' conf 1) 2 mod 2 ^ 32);
          pmax = str_conv_int (conf_find_entry ''lookup-concurrent-max'' conf 1) 128;
          cmax = str_conv_int (conf_find_entry ''cache-size'' conf 1) 256 in
      (case retry_table timeout retries of
         None \<Rightarrow> None
       | Some tab \<Rightarrow>
           Some (st\<lparr>d_retries := retries, d_max := (if pmax < 1 \<or> pmax > 32767 then 32767 else pmax),
                    d_expire := nat (expire mod 2 ^ 32),
                    d_failure := str_conv_bool (conf_find_entry ''cache-failures'' conf 1) True,
                    d_cache_max := (if cmax < 0 then 256 else cmax), d_retry_times := tab\<rparr>))))"

text \<open>\<open>opened\<close> tells whether the new socket could be created, bound and connected.\<close>

definition dns_parse_conf :: "conf_entry list \<Rightarrow> bool \<Rightarrow> dns_state \<Rightarrow> (dns_state \<times> bool) option" where
  "dns_parse_conf conf opened st =
     (case dns_settings conf st of
        None \<Rightarrow> None
      | Some st1 \<Rightarrow> if opened then map_option (\<lambda>s. (s, True)) (flush d_cache st1) else Some (st1, False))"

definition dns_unload :: "dns_state \<Rightarrow> dns_state option" where
  "dns_unload st =
     Option.bind (flush d_alist st) (\<lambda>st1. Option.bind (flush d_wlist st1) (flush d_cache))"

section \<open>The lists and the store\<close>

fun list_of :: "dns_state \<Rightarrow> dns_list \<Rightarrow> nat list" where
  "list_of st Waiting = d_wlist st"
| "list_of st Pending = d_alist st"
| "list_of st Cached = d_cache st"
| "list_of st Nowhere = []"

text \<open>
  The counters are the lengths, and a lookup is on the list its flags name, once, and on no other.
\<close>

definition lists_ok :: "dns_state \<Rightarrow> bool" where
  "lists_ok st \<longleftrightarrow>
     d_acount st = int (length (d_alist st)) \<and> d_count st = int (length (d_cache st)) \<and>
     (\<forall>l. distinct (list_of st l)) \<and>
     (\<forall>l r. r \<in> set (list_of st l) \<longleftrightarrow> l \<noteq> Nowhere \<and> (\<exists>lk. d_store st r = Some lk \<and> lk_on lk = l)) \<and>
     (\<forall>r lk. d_store st r = Some lk \<longrightarrow> r < d_fresh st)"

text \<open>The lookups on no list; between calls there is none.\<close>

definition loose :: "dns_state \<Rightarrow> nat set" where
  "loose st = {r. \<exists>lk. d_store st r = Some lk \<and> lk_on lk = Nowhere}"

definition dns_wf :: "dns_state \<Rightarrow> bool" where
  "dns_wf st \<longleftrightarrow>
     lists_ok st \<and> loose st = {} \<and> length (d_retry_times st) = Suc (d_retries st)"

text \<open>The fields that no move of a lookup changes.\<close>

definition same_rest :: "dns_state \<Rightarrow> dns_state \<Rightarrow> bool" where
  "same_rest st st' \<longleftrightarrow>
     d_fresh st' = d_fresh st \<and> d_max st' = d_max st \<and> d_cache_max st' = d_cache_max st \<and>
     d_retries st' = d_retries st \<and> d_retry_times st' = d_retry_times st \<and> d_idn st' = d_idn st \<and>
     d_failure st' = d_failure st \<and> d_expire st' = d_expire st \<and> d_now st' = d_now st \<and>
     d_calls st' = d_calls st \<and> d_sent st' = d_sent st"

lemma same_rest_refl [simp]: "same_rest st st"
  by (simp add: same_rest_def)

lemma same_rest_trans: "same_rest a b \<Longrightarrow> same_rest b c \<Longrightarrow> same_rest a c"
  by (simp add: same_rest_def)

lemma list_of_put [simp]: "list_of (put_lookup st r lk) l = list_of st l"
  by (cases l) (simp_all add: put_lookup_def)

lemma put_lookup_sel [simp]:
  "d_store (put_lookup st r lk) = (d_store st)(r := Some lk)" "d_fresh (put_lookup st r lk) = d_fresh st"
  "d_acount (put_lookup st r lk) = d_acount st" "d_count (put_lookup st r lk) = d_count st"
  "d_wlist (put_lookup st r lk) = d_wlist st" "d_alist (put_lookup st r lk) = d_alist st"
  "d_cache (put_lookup st r lk) = d_cache st" "d_max (put_lookup st r lk) = d_max st"
  "d_retries (put_lookup st r lk) = d_retries st" "d_cache_max (put_lookup st r lk) = d_cache_max st"
  "d_calls (put_lookup st r lk) = d_calls st" "d_now (put_lookup st r lk) = d_now st"
  "d_failure (put_lookup st r lk) = d_failure st" "d_expire (put_lookup st r lk) = d_expire st"
  "d_retry_times (put_lookup st r lk) = d_retry_times st" "d_idn (put_lookup st r lk) = d_idn st"
  "d_sent (put_lookup st r lk) = d_sent st"
  by (simp_all add: put_lookup_def)

lemma same_rest_put [simp]: "same_rest st (put_lookup st r lk)"
  by (simp add: same_rest_def put_lookup_def)

lemma tq_insert_props [simp]:
  "set (tq_insert h r q) = insert r (set q)" "length (tq_insert h r q) = Suc (length q)"
  "distinct (tq_insert h r q) \<longleftrightarrow> r \<notin> set q \<and> distinct q"
  by (auto simp: tq_insert_def)

lemma dns_list_all: "(\<forall>l. P l) \<longleftrightarrow> P Waiting \<and> P Pending \<and> P Cached \<and> P Nowhere"
  by (metis dns_list.exhaust)

lemma length_minus_1: "r \<in> set q \<Longrightarrow> int (length q) - 1 = int (length q - Suc 0)"
  by (cases q) simp_all

text \<open>The two halves of a move.\<close>

lemma detach_ok:
  assumes "\<forall>l. r \<in> set (list_of st l) \<longleftrightarrow> l \<noteq> Nowhere \<and> from = l"
    "d_acount st = int (length (d_alist st))" "d_count st = int (length (d_cache st))"
  shows "\<exists>st1. detach st r from = Some st1 \<and> same_rest st st1 \<and> d_store st1 = d_store st \<and>
    (\<forall>k. list_of st1 k = remove1 r (list_of st k)) \<and>
    d_acount st1 = int (length (d_alist st1)) \<and> d_count st1 = int (length (d_cache st1))"
proof (cases "from")
  case Nowhere
  then show ?thesis using assms by (simp add: detach_def dns_list_all remove1_idem)
next
  case Waiting
  then show ?thesis
    using assms by (simp add: detach_def tq_remove_def dns_list_all remove1_idem same_rest_def)
next
  case Pending
  then show ?thesis
    using assms by (simp add: detach_def tq_remove_def dns_list_all remove1_idem same_rest_def
      length_remove1 length_minus_1 [of r])
next
  case Cached
  then show ?thesis
    using assms by (simp add: detach_def tq_remove_def dns_list_all remove1_idem same_rest_def
      length_remove1 length_minus_1 [of r])
qed

lemma attach_sel [simp]:
  "d_store (attach st r l h) = d_store st" "same_rest st (attach st r l h)"
  "list_of (attach st r l h) k =
     (if k = l \<and> l \<noteq> Nowhere then tq_insert h r (list_of st k) else list_of st k)"
  by (cases l; cases k; simp add: attach_def same_rest_def)+

lemma attach_counts:
  "d_acount st = int (length (d_alist st)) \<Longrightarrow> d_count st = int (length (d_cache st)) \<Longrightarrow>
     d_acount (attach st r l h) = int (length (d_alist (attach st r l h))) \<and>
     d_count (attach st r l h) = int (length (d_cache (attach st r l h)))"
  by (cases l) (simp_all add: attach_def)

text \<open>What a move does: it never fails on a live lookup and takes it to its list.\<close>

lemma dns_lookup_move_ok:
  assumes "lists_ok st" "d_store st r = Some lk"
  shows "\<exists>st'. dns_lookup_move st r l h = Some st' \<and> lists_ok st' \<and>
    d_store st' = (d_store st)(r := Some (lk\<lparr>lk_on := l\<rparr>)) \<and> same_rest st st' \<and>
    (\<forall>k. list_of st' k = (if k = l \<and> l \<noteq> Nowhere then tq_insert h r (remove1 r (list_of st k))
      else remove1 r (list_of st k)))"
proof -
  note ok = assms(1) [unfolded lists_ok_def]
  have on: "\<forall>k. r \<in> set (list_of st k) \<longleftrightarrow> k \<noteq> Nowhere \<and> lk_on lk = k" using ok assms(2) by simp
  obtain st1 where d: "detach st r (lk_on lk) = Some st1" "same_rest st st1" "d_store st1 = d_store st"
    "\<And>k. list_of st1 k = remove1 r (list_of st k)"
    "d_acount st1 = int (length (d_alist st1))" "d_count st1 = int (length (d_cache st1))"
    using detach_ok [OF on] ok by auto
  let ?t = "attach (put_lookup st1 r (lk\<lparr>lk_on := l\<rparr>)) r l h"
  have rest: "same_rest st ?t"
    using d(2) same_rest_put attach_sel(2) same_rest_trans by metis
  have cnt: "d_acount ?t = int (length (d_alist ?t)) \<and> d_count ?t = int (length (d_cache ?t))"
    by (rule attach_counts) (simp_all add: d)
  have "lists_ok ?t"
    unfolding lists_ok_def
  proof (intro conjI allI impI)
    fix k
    show "distinct (list_of ?t k)" using ok by (simp add: d)
  next
    fix k x
    show "x \<in> set (list_of ?t k) \<longleftrightarrow> k \<noteq> Nowhere \<and> (\<exists>lk. d_store ?t x = Some lk \<and> lk_on lk = k)"
      using ok by (auto simp: d)
  next
    fix x lk'
    assume "d_store ?t x = Some lk'"
    then show "x < d_fresh ?t" using ok rest assms(2) by (auto simp: d same_rest_def split: if_splits)
  qed (use cnt in simp_all)
  then show ?thesis using d assms(2) rest by (simp add: dns_lookup_move_def)
qed

lemma lists_ok_live: "lists_ok st \<Longrightarrow> r \<in> set (list_of st l) \<Longrightarrow> \<exists>lk. d_store st r = Some lk \<and> lk_on lk = l"
  by (auto simp: lists_ok_def)

lemma lists_ok_on:
  "lists_ok st \<Longrightarrow> d_store st r = Some lk \<Longrightarrow> lk_on lk = Nowhere \<or> r \<in> set (list_of st (lk_on lk))"
  by (simp add: lists_ok_def)

lemma lists_ok_fresh: "lists_ok st \<Longrightarrow> d_store st (d_fresh st) = None"
  by (cases "d_store st (d_fresh st)") (auto simp: lists_ok_def)

text \<open>Changing a lookup in place keeps the lists when it stays on its list.\<close>

lemma lists_ok_put:
  assumes "lists_ok st" "d_store st r = Some lk" "lk_on lk' = lk_on lk"
  shows "lists_ok (put_lookup st r lk')"
proof -
  have "(\<exists>lk. ((d_store st)(r \<mapsto> lk')) x = Some lk \<and> lk_on lk = l) \<longleftrightarrow>
      (\<exists>lk. d_store st x = Some lk \<and> lk_on lk = l)" for x l
    using assms(2,3) by auto
  then show ?thesis using assms by (auto simp: lists_ok_def)
qed

lemma lists_ok_cong:
  "lists_ok st \<Longrightarrow> d_store st' = d_store st \<Longrightarrow> (\<And>l. list_of st' l = list_of st l) \<Longrightarrow>
     d_acount st' = d_acount st \<Longrightarrow> d_count st' = d_count st \<Longrightarrow> d_fresh st' = d_fresh st \<Longrightarrow> lists_ok st'"
  using list_of.simps(2,3) by (metis (no_types, opaque_lifting) lists_ok_def)

lemma list_of_more [simp]:
  "list_of (st\<lparr>d_calls := c\<rparr>) l = list_of st l" "list_of (st\<lparr>d_store := s\<rparr>) l = list_of st l"
  "list_of (st\<lparr>d_sent := p\<rparr>) l = list_of st l" "list_of (st\<lparr>d_now := t\<rparr>) l = list_of st l"
  by (cases l; simp)+

lemma lookup_destroy_ok:
  assumes "lists_ok st" "d_store st r = Some lk"
  shows "\<exists>st'. destroy_dns_lookup st r = Some st' \<and> lists_ok st' \<and>
    d_store st' = (d_store st)(r := None) \<and> same_rest st st' \<and>
    (\<forall>k. list_of st' k = remove1 r (list_of st k))"
proof -
  obtain st1 where m: "dns_lookup_move st r Nowhere False = Some st1" "lists_ok st1"
    "d_store st1 = (d_store st)(r := Some (lk\<lparr>lk_on := Nowhere\<rparr>))" "same_rest st st1"
    "\<And>k. list_of st1 k = remove1 r (list_of st k)"
    using dns_lookup_move_ok [OF assms, of Nowhere False] by auto
  let ?t = "st1\<lparr>d_store := (d_store st1)(r := None)\<rparr>"
  have "x \<in> set (list_of st1 l) \<longleftrightarrow> l \<noteq> Nowhere \<and> (\<exists>lk. d_store ?t x = Some lk \<and> lk_on lk = l)" for x l
    using m(2) m(3) by (cases "x = r") (auto simp: lists_ok_def)
  then have "lists_ok ?t" using m(2) by (simp add: lists_ok_def)
  moreover have "same_rest st ?t" using m(4) by (simp add: same_rest_def)
  ultimately show ?thesis using m by (simp add: destroy_dns_lookup_def)
qed

text \<open>The lookup that makes room is another one than the one that needs it.\<close>

definition gone_but :: "nat \<Rightarrow> dns_state \<Rightarrow> dns_state \<Rightarrow> bool" where
  "gone_but r st st' \<longleftrightarrow>
     (\<forall>x. x \<noteq> r \<longrightarrow> d_store st' x = d_store st x \<or>
        d_store st' x = None \<and> (\<exists>lk. d_store st x = Some lk \<and> lk_on lk = Cached))"

lemma make_room_ok:
  assumes "lists_ok st" "d_store st r = Some lk" "lk_on lk \<noteq> Cached"
  shows "\<exists>st'. make_room st = Some st' \<and> lists_ok st' \<and> d_store st' r = Some lk \<and> gone_but r st st' \<and>
    same_rest st st' \<and> d_wlist st' = d_wlist st \<and> d_alist st' = d_alist st \<and>
    (if d_count st = d_cache_max st \<and> d_count st > 0 then d_cache st' = butlast (d_cache st) else st' = st)"
proof (cases "d_count st = d_cache_max st \<and> d_count st > 0")
  case False
  show ?thesis unfolding make_room_def if_not_P [OF False] using assms by (simp add: gone_but_def)
next
  case True
  have cnt: "d_count st = int (length (d_cache st))" and dist: "distinct (d_cache st)"
    using assms(1) by (auto simp: lists_ok_def dns_list_all)
  then have ne: "d_cache st \<noteq> []" using True by auto
  let ?x = "last (d_cache st)"
  obtain lx where x: "d_store st ?x = Some lx" "lk_on lx = Cached"
    using lists_ok_live [OF assms(1), of ?x Cached] ne by auto
  obtain st' where d: "destroy_dns_lookup st ?x = Some st'" "lists_ok st'"
    "d_store st' = (d_store st)(?x := None)" "same_rest st st'" "\<And>k. list_of st' k = remove1 ?x (list_of st k)"
    using lookup_destroy_ok [OF assms(1) x(1)] by auto
  have off: "?x \<notin> set (d_wlist st)" "?x \<notin> set (d_alist st)"
    using lists_ok_live [OF assms(1), of ?x Waiting] lists_ok_live [OF assms(1), of ?x Pending] x by auto
  have "remove1 ?x (d_cache st) = butlast (d_cache st)"
    using ne dist by (metis append_butlast_last_id distinct_butlast not_distinct_conv_prefix
      remove1_append remove1.simps(2) remove1.simps(1) append_Nil2)
  then have "d_cache st' = butlast (d_cache st)" using d(5) [of Cached] by simp
  moreover have "d_wlist st' = d_wlist st" "d_alist st' = d_alist st"
    using d(5) [of Waiting] d(5) [of Pending] off by (simp_all add: remove1_idem)
  ultimately show ?thesis
    using True ne d x assms(2,3) by (auto simp: make_room_def gone_but_def)
qed

section \<open>Finishing a lookup\<close>

text \<open>A record of type SOA at the head of the authority section has its data.\<close>

definition soa_ok :: "dns_lookup_t \<Rightarrow> bool" where
  "soa_ok lk \<longleftrightarrow>
     (case lk_ns lk of
        drp # _ \<Rightarrow> lk_an lk = [] \<and> rr_type drp = DNS_T_SOA \<longrightarrow>
          (case rr_rdata drp of Soa _ _ _ _ _ _ _ \<Rightarrow> True | _ \<Rightarrow> False)
      | [] \<Rightarrow> True)"

lemma min_ttl_None: "min_ttl st lk = None \<longleftrightarrow> \<not> soa_ok lk"
  by (auto simp: min_ttl_def soa_ok_def Let_def split: list.splits rdata.splits)

definition cacheable :: "dns_state \<Rightarrow> dns_lookup_t \<Rightarrow> nat \<Rightarrow> bool" where
  "cacheable st lk ttl \<longleftrightarrow> ttl \<noteq> 0 \<and> (d_failure st \<or> \<not> lk_failed lk) \<and> d_cache_max st > 0"

abbreviation call_hooks :: "dns_state \<Rightarrow> nat \<Rightarrow> dns_lookup_t \<Rightarrow> dns_state" where
  "call_hooks st r lk \<equiv> st\<lparr>d_calls := d_calls st @ map (\<lambda>h. (h, r)) (lk_hooks lk)\<rparr>"

lemma cached_ok:
  assumes "lists_ok st" "d_store st r = Some lk" "lk_on lk \<noteq> Cached" "make_room st = Some s" "ttl = lk_ttl lk"
  shows "\<exists>s2. dns_lookup_move s r Cached True = Some s2 \<and>
    (let st' = put_lookup s2 r (lk\<lparr>lk_on := Cached, lk_timer := Some (d_now st + int ttl)\<rparr>) in
     d_store s2 r = Some (lk\<lparr>lk_on := Cached\<rparr>) \<and> d_now s2 = d_now st \<and>
     lists_ok st' \<and> gone_but r st st' \<and> same_rest st st' \<and>
     d_wlist st' = remove1 r (d_wlist st) \<and> d_alist st' = remove1 r (d_alist st) \<and>
     d_cache st' = r # (if d_count st = d_cache_max st \<and> d_count st > 0 then butlast (d_cache st) else d_cache st))"
proof -
  from make_room_ok [OF assms(1-3)] assms(4) have s: "lists_ok s" "d_store s r = Some lk" "gone_but r st s"
    "same_rest st s" "d_wlist s = d_wlist st" "d_alist s = d_alist st"
    "d_cache s = (if d_count st = d_cache_max st \<and> d_count st > 0 then butlast (d_cache st) else d_cache st)"
    by (auto split: if_splits)
  obtain s2 where m: "dns_lookup_move s r Cached True = Some s2" "lists_ok s2"
    "d_store s2 = (d_store s)(r := Some (lk\<lparr>lk_on := Cached\<rparr>))" "same_rest s s2"
    "\<And>k. list_of s2 k = (if k = Cached then tq_insert True r (remove1 r (list_of s k)) else remove1 r (list_of s k))"
    using dns_lookup_move_ok [OF s(1,2), of Cached True] by auto
  let ?t = "put_lookup s2 r (lk\<lparr>lk_on := Cached, lk_timer := Some (d_now st + int ttl)\<rparr>)"
  have "r \<notin> set (d_cache s)" using lists_ok_live [OF s(1), of r Cached] s(2) assms(3) by auto
  then have "d_cache ?t = r # d_cache s" using m(5) [of Cached] by (simp add: tq_insert_def remove1_idem)
  moreover have "d_wlist ?t = remove1 r (d_wlist st)" "d_alist ?t = remove1 r (d_alist st)"
    using m(5) [of Waiting] m(5) [of Pending] s(5,6) by simp_all
  moreover have "lists_ok ?t" 
    by (rule lists_ok_put [OF m(2), of r "lk\<lparr>lk_on := Cached\<rparr>"]) (simp_all add: m(3))
  moreover have "gone_but r st ?t" using s(3) m(3) by (simp add: gone_but_def)
  moreover have "same_rest st ?t" using s(4) m(4) by (simp add: same_rest_def)
  moreover have "d_now s2 = d_now st" using s(4) m(4) by (simp add: same_rest_def)
  ultimately show ?thesis using m(1,3) s(7) by (simp add: Let_def)
qed

lemma dns_lookup_finish_ok:
  assumes "lists_ok st" "d_store st r = Some lk" "lk_on lk \<noteq> Cached" "soa_ok lk"
  shows "\<exists>st' ttl. min_ttl st lk = Some ttl \<and> dns_lookup_finish st r = Some st' \<and> lists_ok st' \<and>
    gone_but r st st' \<and> same_rest (call_hooks st r lk) st' \<and>
    d_wlist st' = remove1 r (d_wlist st) \<and> d_alist st' = remove1 r (d_alist st) \<and>
    (if cacheable st lk ttl
     then d_store st' r = Some (lk\<lparr>lk_last := d_now st, lk_ttl := ttl, lk_on := Cached,
            lk_timer := Some (d_now st + int ttl)\<rparr>) \<and>
          d_cache st' = r # (if d_count st = d_cache_max st \<and> d_count st > 0 then butlast (d_cache st) else d_cache st)
     else d_store st' r = None \<and> length (d_cache st') \<le> length (d_cache st))"
proof -
  obtain ttl where ttl: "min_ttl st lk = Some ttl" using assms(4) min_ttl_None by blast
  let ?lk = "lk\<lparr>lk_last := d_now st, lk_ttl := ttl\<rparr>"
  let ?s1 = "call_hooks (put_lookup st r ?lk) r lk"
  have ok: "lists_ok ?s1"
    using lists_ok_put [OF assms(1,2), of ?lk] by (rule lists_ok_cong) simp_all
  have st: "d_store ?s1 r = Some ?lk" "lk_on ?lk \<noteq> Cached" "lk_ttl ?lk = ttl" "gone_but r st ?s1"
    "same_rest (call_hooks st r lk) ?s1"
    using assms(3) by (simp_all add: gone_but_def same_rest_def)
  have gone: "gone_but r st s" if "gone_but r ?s1 s" for s
    using that by (simp add: gone_but_def)
  have fin: "dns_lookup_finish st r =
      (case (if ttl \<noteq> 0 \<and> (d_failure st \<or> \<not> lk_failed lk) then
               (case make_room ?s1 of None \<Rightarrow> None
                | Some s \<Rightarrow> if d_cache_max st > 0 then dns_lookup_move s r Cached True else Some s)
             else Some ?s1) of
         None \<Rightarrow> None
       | Some s \<Rightarrow> (case d_store s r of None \<Rightarrow> None
           | Some lk' \<Rightarrow> if lk_on lk' \<noteq> Cached then destroy_dns_lookup s r
               else Some (put_lookup s r (lk'\<lparr>lk_timer := Some (d_now s + int (lk_ttl lk'))\<rparr>))))"
    by (simp only: dns_lookup_finish_def assms(2) ttl Let_def option.case put_lookup_sel)
  show ?thesis
  proof (cases "cacheable st lk ttl")
    case True
    obtain s where room: "make_room ?s1 = Some s"
      using make_room_ok [OF ok st(1,2)] by blast
    from cached_ok [OF ok st(1,2) room st(3) [symmetric]] obtain s2 where
      "dns_lookup_move s r Cached True = Some s2" "d_store s2 r = Some (?lk\<lparr>lk_on := Cached\<rparr>)" "d_now s2 = d_now st"
      and t: "let st' = put_lookup s2 r (?lk\<lparr>lk_on := Cached, lk_timer := Some (d_now st + int ttl)\<rparr>) in
        lists_ok st' \<and> gone_but r ?s1 st' \<and> same_rest ?s1 st' \<and>
        d_wlist st' = remove1 r (d_wlist st) \<and> d_alist st' = remove1 r (d_alist st) \<and>
        d_cache st' = r # (if d_count st = d_cache_max st \<and> d_count st > 0 then butlast (d_cache st) else d_cache st)"
      by (auto simp: Let_def)
    then have "dns_lookup_finish st r =
        Some (put_lookup s2 r (?lk\<lparr>lk_on := Cached, lk_timer := Some (d_now st + int ttl)\<rparr>))"
      using True unfolding fin room by (simp add: cacheable_def)
    then show ?thesis using t True ttl gone st(5)
      by (simp add: Let_def) (blast intro: same_rest_trans)
  next
    case False
    have "\<exists>s. (if ttl \<noteq> 0 \<and> (d_failure st \<or> \<not> lk_failed lk) then
               (case make_room ?s1 of None \<Rightarrow> None
                | Some s \<Rightarrow> if d_cache_max st > 0 then dns_lookup_move s r Cached True else Some s)
             else Some ?s1) = Some s \<and> lists_ok s \<and> d_store s r = Some ?lk \<and> gone_but r ?s1 s \<and> same_rest ?s1 s \<and>
             d_wlist s = d_wlist st \<and> d_alist s = d_alist st \<and> length (d_cache s) \<le> length (d_cache st)"
    proof (cases "ttl \<noteq> 0 \<and> (d_failure st \<or> \<not> lk_failed lk)")
      case c: True
      then show ?thesis
        using make_room_ok [OF ok st(1,2)] False by (auto simp: cacheable_def split: if_splits)
    qed (use ok st(1) in \<open>auto simp: gone_but_def\<close>)
    then obtain s where s: "dns_lookup_finish st r = destroy_dns_lookup s r" "lists_ok s"
      "d_store s r = Some ?lk" "gone_but r ?s1 s" "same_rest ?s1 s"
      "d_wlist s = d_wlist st" "d_alist s = d_alist st" "length (d_cache s) \<le> length (d_cache st)"
      unfolding fin using assms(3) by auto
    obtain st' where d: "destroy_dns_lookup s r = Some st'" "lists_ok st'" "d_store st' = (d_store s)(r := None)"
      "same_rest s st'" "\<And>k. list_of st' k = remove1 r (list_of s k)"
      using lookup_destroy_ok [OF s(2,3)] by auto
    have "gone_but r ?s1 st'" using s(4) d(3) by (simp add: gone_but_def)
    moreover have "length (d_cache st') \<le> length (d_cache st)"
      using d(5) [of Cached] s(8) by (auto simp: length_remove1)
    ultimately show ?thesis
      using False ttl s(1,5,6,7) d gone d(5) [of Waiting] d(5) [of Pending] st(5)
      by simp (meson same_rest_trans)
  qed
qed

section \<open>What every call keeps\<close>

text \<open>
  A lookup keeps its question, never gains tries and, once its records can be read by
  \<^verbatim>\<open>dns_lookup_finish\<close>, they stay so.
\<close>

definition keeps :: "dns_lookup_t \<Rightarrow> dns_lookup_t \<Rightarrow> bool" where
  "keeps lk lk' \<longleftrightarrow>
     lk_class lk' = lk_class lk \<and> lk_type lk' = lk_type lk \<and> lk_data lk' = lk_data lk \<and>
     lk_retry lk' \<le> lk_retry lk \<and> (soa_ok lk \<longrightarrow> soa_ok lk')"

definition same_conf :: "dns_state \<Rightarrow> dns_state \<Rightarrow> bool" where
  "same_conf st st' \<longleftrightarrow>
     d_fresh st' = d_fresh st \<and> d_max st' = d_max st \<and> d_cache_max st' = d_cache_max st \<and>
     d_retries st' = d_retries st \<and> d_retry_times st' = d_retry_times st \<and>
     d_failure st' = d_failure st \<and> d_expire st' = d_expire st \<and> d_now st' = d_now st"

definition in_bound :: "dns_state \<Rightarrow> bool" where
  "in_bound st \<longleftrightarrow> d_count st \<le> d_cache_max st"

definition dns_trans :: "dns_state \<Rightarrow> dns_state \<Rightarrow> bool" where
  "dns_trans st st' \<longleftrightarrow>
     lists_ok st' \<and> loose st' \<subseteq> loose st \<and> same_conf st st' \<and> (in_bound st \<longrightarrow> in_bound st') \<and>
     (\<forall>x lk'. d_store st' x = Some lk' \<longrightarrow> (\<exists>lk. d_store st x = Some lk \<and> keeps lk lk'))"

lemma soa_ok_cong: "lk_an lk' = lk_an lk \<Longrightarrow> lk_ns lk' = lk_ns lk \<Longrightarrow> soa_ok lk' = soa_ok lk"
  by (cases "lk_ns lk") (simp_all add: soa_ok_def)

lemma keeps_refl [simp]: "keeps lk lk"
  by (simp add: keeps_def)

lemma keepsI [intro]:
  "lk_class lk' = lk_class lk \<Longrightarrow> lk_type lk' = lk_type lk \<Longrightarrow> lk_data lk' = lk_data lk \<Longrightarrow>
     lk_retry lk' \<le> lk_retry lk \<Longrightarrow> lk_an lk' = lk_an lk \<Longrightarrow> lk_ns lk' = lk_ns lk \<Longrightarrow> keeps lk lk'"
  using soa_ok_cong [of lk' lk] by (simp add: keeps_def)

lemma dns_trans_refl: "lists_ok st \<Longrightarrow> dns_trans st st"
  by (auto simp: dns_trans_def same_conf_def)

lemma dns_trans_store:
  "dns_trans st st' \<Longrightarrow> d_store st' x = Some lk' \<Longrightarrow> \<exists>lk. d_store st x = Some lk \<and> keeps lk lk'"
  by (simp add: dns_trans_def)

lemma dns_trans_trans:
  assumes "dns_trans a b" "dns_trans b c"
  shows "dns_trans a c"
proof -
  have "\<exists>lk. d_store a x = Some lk \<and> keeps lk lk'" if l3: "d_store c x = Some lk'" for x lk'
  proof -
    obtain l2 where "d_store b x = Some l2" "keeps l2 lk'"
      using dns_trans_store [OF assms(2) l3] by auto
    moreover obtain l1 where "d_store a x = Some l1" "keeps l1 l2"
      using dns_trans_store [OF assms(1) \<open>d_store b x = Some l2\<close>] by auto
    ultimately show ?thesis by (auto simp: keeps_def)
  qed
  moreover have "same_conf a c" using assms by (simp add: dns_trans_def same_conf_def)
  ultimately show ?thesis using assms unfolding dns_trans_def by blast
qed

lemma same_conf_rest: "same_rest st st' \<Longrightarrow> same_conf st st'"
  by (simp add: same_rest_def same_conf_def)

lemma dns_trans_put:
  assumes "lists_ok st" "d_store st r = Some lk" "lk_on lk' = lk_on lk" "keeps lk lk'"
  shows "dns_trans st (put_lookup st r lk')"
  using lists_ok_put [OF assms(1-3)] assms
  by (auto simp: dns_trans_def loose_def same_conf_def in_bound_def split: if_splits)

lemma lists_ok_counts:
  "lists_ok st \<Longrightarrow> d_acount st = int (length (d_alist st))" "lists_ok st \<Longrightarrow> d_count st = int (length (d_cache st))"
  by (simp_all add: lists_ok_def)

lemma dns_trans_move:
  assumes "lists_ok st" "d_store st r = Some lk" "l = Waiting \<or> l = Pending"
  shows "\<exists>st'. dns_lookup_move st r l h = Some st' \<and> dns_trans st st' \<and>
    d_store st' = (d_store st)(r := Some (lk\<lparr>lk_on := l\<rparr>)) \<and>
    (\<forall>k. list_of st' k = (if k = l then tq_insert h r (remove1 r (list_of st k)) else remove1 r (list_of st k)))"
proof -
  obtain st' where m: "dns_lookup_move st r l h = Some st'" "lists_ok st'"
    "d_store st' = (d_store st)(r := Some (lk\<lparr>lk_on := l\<rparr>))" "same_rest st st'"
    "\<And>k. list_of st' k = (if k = l then tq_insert h r (remove1 r (list_of st k)) else remove1 r (list_of st k))"
    using dns_lookup_move_ok [OF assms(1,2), of l h] assms(3) by auto
  have "length (d_cache st') \<le> length (d_cache st)"
    using m(5) [of Cached] assms(3) by (auto simp: length_remove1)
  then have "in_bound st \<longrightarrow> in_bound st'"
    using m(4) lists_ok_counts(2) [OF m(2)] lists_ok_counts(2) [OF assms(1)]
    by (auto simp: in_bound_def same_rest_def)
  moreover have "loose st' \<subseteq> loose st" using m(3) assms(3) by (auto simp: loose_def split: if_splits)
  moreover have "keeps lk (lk\<lparr>lk_on := l\<rparr>)" by (rule keepsI) simp_all
  ultimately have "dns_trans st st'"
    using m(2,3) same_conf_rest [OF m(4)] assms(2) by (auto simp: dns_trans_def split: if_splits)
  then show ?thesis using m by auto
qed

lemma dns_trans_destroy:
  assumes "lists_ok st" "d_store st r = Some lk"
  shows "\<exists>st'. destroy_dns_lookup st r = Some st' \<and> dns_trans st st' \<and>
    d_store st' = (d_store st)(r := None) \<and> d_calls st' = d_calls st \<and>
    (\<forall>k. list_of st' k = remove1 r (list_of st k))"
proof -
  obtain st' where m: "destroy_dns_lookup st r = Some st'" "lists_ok st'"
    "d_store st' = (d_store st)(r := None)" "same_rest st st'" "\<And>k. list_of st' k = remove1 r (list_of st k)"
    using lookup_destroy_ok [OF assms] by auto
  have "length (d_cache st') \<le> length (d_cache st)"
    using m(5) [of Cached] by (auto simp: length_remove1)
  then have "in_bound st \<longrightarrow> in_bound st'"
    using m(4) lists_ok_counts(2) [OF m(2)] lists_ok_counts(2) [OF assms(1)]
    by (auto simp: in_bound_def same_rest_def)
  moreover have "loose st' \<subseteq> loose st" using m(3) by (auto simp: loose_def split: if_splits)
  ultimately have "dns_trans st st'"
    using m(2,3) same_conf_rest [OF m(4)] by (auto simp: dns_trans_def split: if_splits)
  then show ?thesis using m by (auto simp: same_rest_def)
qed

lemma dns_trans_finish:
  assumes "lists_ok st" "d_store st r = Some lk" "lk_on lk \<noteq> Cached" "soa_ok lk"
  shows "\<exists>st'. dns_lookup_finish st r = Some st' \<and> dns_trans st st' \<and>
    d_calls st' = d_calls st @ map (\<lambda>h. (h, r)) (lk_hooks lk) \<and>
    d_wlist st' = remove1 r (d_wlist st) \<and> d_alist st' = remove1 r (d_alist st)"
proof -
  from dns_lookup_finish_ok [OF assms] obtain st' ttl where f: "dns_lookup_finish st r = Some st'" "lists_ok st'"
    "gone_but r st st'" "same_rest (call_hooks st r lk) st'"
    "d_wlist st' = remove1 r (d_wlist st)" "d_alist st' = remove1 r (d_alist st)"
    and c: "if cacheable st lk ttl
     then d_store st' r = Some (lk\<lparr>lk_last := d_now st, lk_ttl := ttl, lk_on := Cached,
            lk_timer := Some (d_now st + int ttl)\<rparr>) \<and>
          d_cache st' = r # (if d_count st = d_cache_max st \<and> d_count st > 0 then butlast (d_cache st) else d_cache st)
     else d_store st' r = None \<and> length (d_cache st') \<le> length (d_cache st)"
    by blast
  have conf: "same_conf st st'" "d_calls st' = d_calls st @ map (\<lambda>h. (h, r)) (lk_hooks lk)"
    using f(4) by (simp_all add: same_rest_def same_conf_def)
  have "in_bound st \<longrightarrow> in_bound st'"
    using c conf(1) lists_ok_counts(2) [OF f(2)] lists_ok_counts(2) [OF assms(1)]
    by (auto simp: in_bound_def same_conf_def cacheable_def split: if_splits)
  moreover have "loose st' \<subseteq> loose st"
  proof
    fix x assume "x \<in> loose st'"
    then show "x \<in> loose st" using f(3) c by (cases "x = r") (auto simp: loose_def gone_but_def split: if_splits)
  qed
  moreover have "\<exists>lk. d_store st x = Some lk \<and> keeps lk lk'" if "d_store st' x = Some lk'" for x lk'
  proof (cases "x = r")
    case True
    then show ?thesis using c that assms(2) by (auto split: if_splits)
  next
    case False
    then show ?thesis using f(3) that by (auto simp: gone_but_def)
  qed
  ultimately show ?thesis using f conf by (auto simp: dns_trans_def)
qed

lemma finish_soa: "dns_lookup_finish st r = Some st' \<Longrightarrow> d_store st r = Some lk \<Longrightarrow> soa_ok lk"
  using min_ttl_None [of st lk] by (auto simp: dns_lookup_finish_def split: option.splits)

section \<open>Sending\<close>

lemma query_packet_ok: "\<exists>pkt. query_packet lk name = Some pkt"
proof -
  let ?p = "net16 (unat (lk_id lk)) @ [char_of (1::nat), NUL] @ net16 1 @ replicate 6 NUL
    @ replicate (DNS_MAX_PACKET_SIZE + DNS_MAX_NAMELEN - 12) NUL"
  have len: "length ?p = 1536" by (simp add: net16_def DNS_MAX_PACKET_SIZE_def DNS_MAX_NAMELEN_def)
  obtain rc m ps where c: "dn_comp ?p name 12 DNS_MAX_NAMELEN None [] = Some (rc, m, ps)" "length m = 1536"
    "- 1 \<le> rc" "rc \<le> 1024"
    using dn_comp_safe [of 12 DNS_MAX_NAMELEN ?p name "[]"] len by (auto simp: DNS_MAX_NAMELEN_def)
  have "nat (12 + rc) + 4 \<le> length m" using c by simp
  then show ?thesis using c(1) by (simp add: query_packet_def Let_def)
qed

text \<open>The lookup that is sent is the waiting one, perhaps without the flags of its last try.\<close>

definition again_off :: "dns_lookup_t \<Rightarrow> dns_lookup_t \<Rightarrow> bool" where
  "again_off lk lk1 \<longleftrightarrow> lk1 = lk \<or> lk1 = lk\<lparr>lk_failed := False, lk_again := False\<rparr>"

lemma again_off_sel:
  "again_off lk lk1 \<Longrightarrow> keeps lk lk1 \<and> lk_on lk1 = lk_on lk \<and> lk_hooks lk1 = lk_hooks lk \<and>
     lk_retry lk1 = lk_retry lk \<and> soa_ok lk1 = soa_ok lk"
  by (auto simp: again_off_def intro!: soa_ok_cong)

lemma query_name_again: "query_name ip lk = Some (n, lk1) \<Longrightarrow> again_off lk lk1"
  by (auto simp: query_name_def again_off_def split: if_splits option.splits)

text \<open>What is left to do once the lookup is on the active list.\<close>

definition send_moved :: "pton \<Rightarrow> (char list \<Rightarrow> bool) \<Rightarrow> nat \<Rightarrow> dns_lookup_t \<Rightarrow> dns_state
    \<Rightarrow> (dns_state \<times> bool) option" where
  "send_moved ip sw r lk st =
     (case query_name ip lk of
        None \<Rightarrow> None
      | Some (n, lk1) \<Rightarrow>
          let pkt = the (query_packet lk1 (the n)) in
          if n = None \<or> length pkt > DNS_MAX_PACKET_SIZE then
            map_option (\<lambda>s. (s, True)) (dns_lookup_finish (put_lookup st r (lk1\<lparr>lk_failed := True\<rparr>)) r)
          else if \<not> sw pkt then map_option (\<lambda>s. (s, False)) (dns_lookup_move (put_lookup st r lk1) r Waiting True)
          else if lk_retry lk1 > d_retries st then None
          else Some ((put_lookup st r (lk1\<lparr>lk_timer := Some (d_now st + d_retry_times st ! lk_retry lk1)\<rparr>))
                       \<lparr>d_sent := d_sent st @ [pkt]\<rparr>, True))"

lemma dns_lookup_send_moved:
  assumes "dns_lookup_move st (hd (d_wlist st)) Pending False = Some st1" "d_store st1 (hd (d_wlist st)) = Some lk"
    "d_acount st \<noteq> d_max st" "d_wlist st \<noteq> []"
  shows "dns_lookup_send ip sw st = send_moved ip sw (hd (d_wlist st)) lk st1"
proof (cases "query_name ip lk")
  case (Some q)
  obtain pkt where "snd q = lk1 \<Longrightarrow> fst q = Some name \<Longrightarrow> query_packet lk1 name = Some (pkt lk1 name)" for lk1 name
    using query_packet_ok by metis
  then show ?thesis
    using assms Some by (cases q; cases "fst q") (auto simp: dns_lookup_send_def send_moved_def Let_def)
qed (use assms in \<open>simp add: dns_lookup_send_def send_moved_def Let_def\<close>)

lemma dns_trans_sent: "dns_trans st s \<Longrightarrow> dns_trans st (s\<lparr>d_sent := p\<rparr>)"
  using lists_ok_cong [of s "s\<lparr>d_sent := p\<rparr>"]
  by (auto simp: dns_trans_def loose_def same_conf_def in_bound_def)

text \<open>The calls that were made stay recorded.\<close>

definition calls_more :: "dns_state \<Rightarrow> dns_state \<Rightarrow> bool" where
  "calls_more st st' \<longleftrightarrow> (\<exists>cs. d_calls st' = d_calls st @ cs)"

lemma calls_more_refl [simp]: "calls_more st st"
  by (simp add: calls_more_def)

lemma calls_more_trans: "calls_more a b \<Longrightarrow> calls_more b c \<Longrightarrow> calls_more a c"
  by (auto simp: calls_more_def)

lemma calls_more_eq: "d_calls st' = d_calls st @ cs \<Longrightarrow> calls_more st st'"
  by (simp add: calls_more_def)

lemma send_moved_ok:
  assumes "lists_ok st" "d_store st r = Some lk" "lk_on lk = Pending"
  shows "send_moved ip sw r lk st = Some (s, b) \<Longrightarrow>
      dns_trans st s \<and> (b \<longrightarrow> d_wlist s = remove1 r (d_wlist st)) \<and> calls_more st s"
    and "query_name ip lk \<noteq> None \<Longrightarrow> soa_ok lk \<Longrightarrow> lk_retry lk \<le> d_retries st \<Longrightarrow> send_moved ip sw r lk st \<noteq> None"
proof -
  have put: "lists_ok (put_lookup st r lk')" "dns_trans st (put_lookup st r lk')"
    if "keeps lk lk'" "lk_on lk' = lk_on lk" for lk'
    using lists_ok_put [OF assms(1,2)] dns_trans_put [OF assms(1,2)] that by auto
  have w: "r \<notin> set (d_wlist st)"
    using lists_ok_live [OF assms(1), of r Waiting] assms(2,3) by auto
  have fin: "\<exists>s. dns_lookup_finish (put_lookup st r (lk1\<lparr>lk_failed := True\<rparr>)) r = Some s \<and> dns_trans st s \<and>
      d_wlist s = remove1 r (d_wlist st) \<and> calls_more st s" if "again_off lk lk1" "soa_ok lk" for lk1
  proof -
    have k: "keeps lk (lk1\<lparr>lk_failed := True\<rparr>)" "lk_on (lk1\<lparr>lk_failed := True\<rparr>) = lk_on lk"
      using that(1) by (auto simp: again_off_def)
    have "soa_ok (lk1\<lparr>lk_failed := True\<rparr>)" using k(1) that(2) by (simp add: keeps_def)
    then show ?thesis
      using dns_trans_finish [OF put(1) [OF k], of r "lk1\<lparr>lk_failed := True\<rparr>"] k(2) assms(3) put(2) [OF k]
      by (auto intro: dns_trans_trans calls_more_eq)
  qed
  have move: "\<exists>s. dns_lookup_move (put_lookup st r lk1) r Waiting True = Some s \<and> dns_trans st s \<and> calls_more st s"
    if "again_off lk lk1" for lk1
  proof -
    have k: "keeps lk lk1" "lk_on lk1 = lk_on lk" using again_off_sel [OF that] by auto
    have l: "d_store (put_lookup st r lk1) r = Some lk1" by simp
    from dns_lookup_move_ok [OF put(1) [OF k] l, of Waiting True] dns_trans_move [OF put(1) [OF k] l, of Waiting True]
    show ?thesis using put(2) [OF k] by (auto simp: same_rest_def calls_more_def intro: dns_trans_trans)
  qed
  have sent: "dns_trans st ((put_lookup st r (lk1\<lparr>lk_timer := t\<rparr>))\<lparr>d_sent := p\<rparr>)" if "again_off lk lk1" for lk1 t p
    using that by (intro dns_trans_sent put(2)) (auto simp: again_off_def)
  show "send_moved ip sw r lk st = Some (s, b) \<Longrightarrow>
      dns_trans st s \<and> (b \<longrightarrow> d_wlist s = remove1 r (d_wlist st)) \<and> calls_more st s"
  proof -
    assume a: "send_moved ip sw r lk st = Some (s, b)"
    then have "query_name ip lk \<noteq> None" unfolding send_moved_def by (cases "query_name ip lk") simp_all
    then obtain n lk1 where q: "query_name ip lk = Some (n, lk1)" by auto
    have off: "again_off lk lk1" by (rule query_name_again [OF q])
    have "soa_ok lk" if "dns_lookup_finish (put_lookup st r (lk1\<lparr>lk_failed := True\<rparr>)) r = Some s"
      using finish_soa [OF that] again_off_sel [OF off] soa_ok_cong [of "lk1\<lparr>lk_failed := True\<rparr>" lk1] by simp
    then show ?thesis
      using a q off fin [OF off] move [OF off] sent [OF off] w
      by (auto simp: send_moved_def Let_def calls_more_def remove1_idem split: if_splits)
  qed
  show "send_moved ip sw r lk st \<noteq> None"
    if pre: "query_name ip lk \<noteq> None" "soa_ok lk" "lk_retry lk \<le> d_retries st"
  proof -
    obtain n lk1 where q: "query_name ip lk = Some (n, lk1)" using pre(1) by auto
    have off: "again_off lk lk1" by (rule query_name_again [OF q])
    show ?thesis
      using fin [OF off pre(2)] move [OF off] again_off_sel [OF off] pre(3) q
      by (auto simp: send_moved_def Let_def)
  qed
qed

text \<open>A call of \<^verbatim>\<open>dns_lookup_send\<close>; one that reports work done leaves fewer waiting lookups.\<close>

lemma dns_lookup_send_ok:
  assumes "lists_ok st"
  shows "dns_lookup_send ip sw st = Some (s, b) \<Longrightarrow>
      dns_trans st s \<and> calls_more st s \<and> (b \<longrightarrow> length (d_wlist s) < length (d_wlist st))"
    and "(\<And>r lk. r \<in> set (d_wlist st) \<Longrightarrow> d_store st r = Some lk \<Longrightarrow>
        query_name ip (lk\<lparr>lk_on := Pending\<rparr>) \<noteq> None \<and> soa_ok lk \<and> lk_retry lk \<le> d_retries st) \<Longrightarrow>
      dns_lookup_send ip sw st \<noteq> None"
proof -
  have idle: "dns_lookup_send ip sw st = Some (st, False)" if "d_acount st = d_max st \<or> d_wlist st = []"
    using that by (auto simp: dns_lookup_send_def)
  have busy: "\<exists>st1 lk. d_store st (hd (d_wlist st)) = Some lk \<and>
      dns_lookup_send ip sw st = send_moved ip sw (hd (d_wlist st)) (lk\<lparr>lk_on := Pending\<rparr>) st1 \<and>
      dns_trans st st1 \<and> d_store st1 (hd (d_wlist st)) = Some (lk\<lparr>lk_on := Pending\<rparr>) \<and> d_calls st1 = d_calls st \<and>
      d_wlist st1 = tl (d_wlist st)"
    if w: "\<not> (d_acount st = d_max st \<or> d_wlist st = [])"
  proof -
    let ?r = "hd (d_wlist st)"
    obtain lk where lk: "d_store st ?r = Some lk" using lists_ok_live [OF assms, of ?r Waiting] w by auto
    from dns_lookup_move_ok [OF assms lk, of Pending False] dns_trans_move [OF assms lk, of Pending False]
    obtain st1 where m: "dns_lookup_move st ?r Pending False = Some st1" "dns_trans st st1"
      "d_store st1 = (d_store st)(?r := Some (lk\<lparr>lk_on := Pending\<rparr>))" "d_calls st1 = d_calls st"
      "d_wlist st1 = remove1 ?r (d_wlist st)"
      by (auto simp: same_rest_def dns_list_all)
    have "d_wlist st1 = tl (d_wlist st)" using w m(5) by (cases "d_wlist st") auto
    then show ?thesis using dns_lookup_send_moved [OF m(1), of "lk\<lparr>lk_on := Pending\<rparr>"] m lk w by auto
  qed
  show "dns_trans st s \<and> calls_more st s \<and> (b \<longrightarrow> length (d_wlist s) < length (d_wlist st))"
    if a: "dns_lookup_send ip sw st = Some (s, b)"
  proof (cases "d_acount st = d_max st \<or> d_wlist st = []")
    case True
    then show ?thesis using a idle dns_trans_refl [OF assms] by simp
  next
    case False
    then obtain st1 lk where m: "dns_lookup_send ip sw st = send_moved ip sw (hd (d_wlist st)) (lk\<lparr>lk_on := Pending\<rparr>) st1"
      "dns_trans st st1" "d_store st1 (hd (d_wlist st)) = Some (lk\<lparr>lk_on := Pending\<rparr>)" "d_calls st1 = d_calls st"
      "d_wlist st1 = tl (d_wlist st)" using busy by blast
    have "lists_ok st1" using m(2) by (simp add: dns_trans_def)
    from send_moved_ok(1) [OF this m(3)] a m(1)
    have s: "dns_trans st1 s" "calls_more st1 s" "b \<longrightarrow> d_wlist s = remove1 (hd (d_wlist st)) (tl (d_wlist st))"
      by (auto simp: m(5))
    have "length (d_wlist s) < length (d_wlist st)" if b
      using s(3) that False by (cases "d_wlist st") (auto simp: length_remove1)
    then show ?thesis using s m(2,4) dns_trans_trans by (auto simp: calls_more_def)
  qed
  show "dns_lookup_send ip sw st \<noteq> None"
    if pre: "\<And>r lk. r \<in> set (d_wlist st) \<Longrightarrow> d_store st r = Some lk \<Longrightarrow>
        query_name ip (lk\<lparr>lk_on := Pending\<rparr>) \<noteq> None \<and> soa_ok lk \<and> lk_retry lk \<le> d_retries st"
  proof (cases "d_acount st = d_max st \<or> d_wlist st = []")
    case False
    then obtain st1 lk where m: "dns_lookup_send ip sw st = send_moved ip sw (hd (d_wlist st)) (lk\<lparr>lk_on := Pending\<rparr>) st1"
      "dns_trans st st1" "d_store st1 (hd (d_wlist st)) = Some (lk\<lparr>lk_on := Pending\<rparr>)"
      "d_store st (hd (d_wlist st)) = Some lk" using busy by blast
    have "query_name ip (lk\<lparr>lk_on := Pending\<rparr>) \<noteq> None \<and> soa_ok (lk\<lparr>lk_on := Pending\<rparr>) \<and> lk_retry lk \<le> d_retries st1"
      using pre [OF _ m(4)] False m(2) soa_ok_cong [of "lk\<lparr>lk_on := Pending\<rparr>" lk]
      by (simp add: dns_trans_def same_conf_def)
    then show ?thesis
      using send_moved_ok(2) [of st1 "hd (d_wlist st)" "lk\<lparr>lk_on := Pending\<rparr>"] m by (simp add: dns_trans_def)
  qed (simp add: idle)
qed

text \<open>
  A lookup the module can always go on with: it has no more tries than there are, its records can
  be read, and the address of a reverse lookup is one.
\<close>

definition address_ok :: "nat \<Rightarrow> nat \<Rightarrow> cstring \<Rightarrow> bool" where
  "address_ok class type data \<longleftrightarrow>
     (class = DNS_C_IN \<and> type = DNS_T_PTR \<and> ith_strchr data (CHR '':'') = None \<longrightarrow> ptr_name4 data \<noteq> None)"

definition lk_ok :: "nat \<Rightarrow> dns_lookup_t \<Rightarrow> bool" where
  "lk_ok n lk \<longleftrightarrow>
     lk_retry lk \<le> n \<and> soa_ok lk \<and> address_ok (lk_class lk) (lk_type lk) (lk_data lk)"

definition all_ok :: "dns_state \<Rightarrow> bool" where
  "all_ok st \<longleftrightarrow> (\<forall>r lk. d_store st r = Some lk \<longrightarrow> lk_ok (d_retries st) lk)"

lemma keeps_lk_ok: "keeps lk lk' \<Longrightarrow> lk_ok n lk \<Longrightarrow> lk_ok n lk'"
  by (auto simp: keeps_def lk_ok_def)

lemma dns_trans_all_ok: "dns_trans st st' \<Longrightarrow> all_ok st \<Longrightarrow> all_ok st'"
  using dns_trans_store [of st st'] keeps_lk_ok unfolding all_ok_def
  by (simp add: dns_trans_def same_conf_def) blast

lemma lk_ok_query_name: "lk_ok n lk \<Longrightarrow> query_name ip (lk\<lparr>lk_on := Pending\<rparr>) \<noteq> None"
  by (auto simp: lk_ok_def address_ok_def query_name_def split: option.splits)

lemma all_okD: "all_ok st \<Longrightarrow> d_store st r = Some lk \<Longrightarrow> lk_ok (d_retries st) lk"
  by (simp add: all_ok_def)

lemma dns_lookup_send_ready:
  assumes "lists_ok st" "all_ok st"
  shows "dns_lookup_send ip sw st \<noteq> None"
proof (rule dns_lookup_send_ok(2) [OF assms(1)])
  fix r lk
  assume "d_store st r = Some lk"
  note lk = all_okD [OF assms(2) this]
  then show "query_name ip (lk\<lparr>lk_on := Pending\<rparr>) \<noteq> None \<and> soa_ok lk \<and> lk_retry lk \<le> d_retries st"
    using lk_ok_query_name [OF lk] by (simp add: lk_ok_def)
qed

lemma dns_send_all_trans:
  "lists_ok st \<Longrightarrow> dns_send_all ip sw st = Some s \<Longrightarrow> dns_trans st s \<and> calls_more st s"
proof (induction "length (d_wlist st)" arbitrary: st rule: less_induct)
  case less
  obtain s1 b where c: "dns_lookup_send ip sw st = Some (s1, b)"
    using less.prems(2) by (subst (asm) dns_send_all.simps) (auto split: option.splits)
  note t = dns_lookup_send_ok(1) [OF less.prems(1) c]
  show ?case
  proof (cases b)
    case True
    then have "dns_send_all ip sw s1 = Some s"
      using less.prems(2) c by (subst (asm) dns_send_all.simps) simp
    then have "dns_trans s1 s \<and> calls_more s1 s"
      using less.hyps [of s1] t True by (simp add: dns_trans_def)
    then show ?thesis using t dns_trans_trans calls_more_trans by blast
  next
    case False
    then have "s = s1" using less.prems(2) c by (subst (asm) dns_send_all.simps) simp
    then show ?thesis using t by simp
  qed
qed

lemma dns_send_all_returns: "lists_ok st \<Longrightarrow> all_ok st \<Longrightarrow> \<exists>s. dns_send_all ip sw st = Some s"
proof (induction "length (d_wlist st)" arbitrary: st rule: less_induct)
  case less
  obtain s1 b where c: "dns_lookup_send ip sw st = Some (s1, b)"
    using dns_lookup_send_ready [OF less.prems, of ip sw] by auto
  note t = dns_lookup_send_ok(1) [OF less.prems(1) c]
  show ?case
  proof (cases b)
    case True
    then show ?thesis
      using less.hyps [of s1] t c dns_trans_all_ok [of st s1] less.prems(2)
      by (subst dns_send_all.simps) (simp add: dns_trans_def)
  qed (use c in \<open>subst dns_send_all.simps, simp\<close>)
qed

section \<open>The timer\<close>

lemma timer_expired_trans:
  assumes "lists_ok st" "d_store st r = Some lk" "lk_on lk \<noteq> Cached"
  shows "timer_expired r st = Some s \<Longrightarrow> dns_trans st s \<and> calls_more st s"
    and "lk_ok (d_retries st) lk \<Longrightarrow> \<exists>s. timer_expired r st = Some s \<and>
      (if lk_retry lk = 0 then d_calls s = d_calls st @ map (\<lambda>h. (h, r)) (lk_hooks lk)
       else d_store s r = Some (lk\<lparr>lk_timer := None, lk_retry := lk_retry lk - 1, lk_on := Waiting\<rparr>) \<and>
            hd (d_wlist s) = r)"
proof -
  let ?dead = "lk\<lparr>lk_timer := None, lk_timeout := True, lk_failed := True\<rparr>"
  let ?retry = "lk\<lparr>lk_timer := None, lk_retry := lk_retry lk - 1\<rparr>"
  have k: "keeps lk ?dead" "keeps lk ?retry" by auto
  have ok: "lists_ok (put_lookup st r ?dead)" "lists_ok (put_lookup st r ?retry)"
    by (rule lists_ok_put [OF assms(1,2)]; simp)+
  have tr: "dns_trans st (put_lookup st r ?dead)" "dns_trans st (put_lookup st r ?retry)"
    by (rule dns_trans_put [OF assms(1,2) _ k(1)], simp, rule dns_trans_put [OF assms(1,2) _ k(2)], simp)
  have soa: "soa_ok ?dead = soa_ok lk" by (rule soa_ok_cong) simp_all
  have fin: "\<exists>s. dns_lookup_finish (put_lookup st r ?dead) r = Some s \<and> dns_trans st s \<and>
      d_calls s = d_calls st @ map (\<lambda>h. (h, r)) (lk_hooks lk)" if "soa_ok lk"
    using dns_trans_finish [OF ok(1), of r ?dead] soa that assms(3) tr(1) by (auto intro: dns_trans_trans)
  have bck: "\<exists>s. dns_lookup_move (put_lookup st r ?retry) r Waiting True = Some s \<and> dns_trans st s \<and>
      d_calls s = d_calls st \<and> d_store s r = Some (?retry\<lparr>lk_on := Waiting\<rparr>) \<and> hd (d_wlist s) = r"
    using dns_lookup_move_ok [OF ok(2), of r ?retry Waiting True] dns_trans_move [OF ok(2), of r ?retry Waiting True] tr(2)
    by (auto simp: same_rest_def dns_list_all tq_insert_def intro: dns_trans_trans)
  show "dns_trans st s \<and> calls_more st s" if "timer_expired r st = Some s"
  proof (cases "lk_retry lk = 0")
    case True
    then have f: "dns_lookup_finish (put_lookup st r ?dead) r = Some s"
      using that assms(2) by (simp add: timer_expired_def split: if_splits)
    then have "soa_ok lk" using finish_soa [OF f, of ?dead] soa by simp
    then show ?thesis using fin f by (auto simp: calls_more_def)
  next
    case False
    then show ?thesis
      using that assms(2) bck by (auto simp: timer_expired_def calls_more_def split: if_splits)
  qed
  show "\<exists>s. timer_expired r st = Some s \<and>
      (if lk_retry lk = 0 then d_calls s = d_calls st @ map (\<lambda>h. (h, r)) (lk_hooks lk)
       else d_store s r = Some (lk\<lparr>lk_timer := None, lk_retry := lk_retry lk - 1, lk_on := Waiting\<rparr>) \<and>
            hd (d_wlist s) = r)" if "lk_ok (d_retries st) lk"
    using that assms(2) fin bck by (auto simp: timer_expired_def lk_ok_def)
qed

section \<open>Answers\<close>

lemma find_id_live:
  assumes "lists_ok st" "find_id st p (list_of st l) = Some r"
  shows "\<exists>lk. d_store st r = Some lk \<and> lk_on lk = l \<and> p lk"
proof -
  have "r \<in> set (list_of st l)" "case d_store st r of Some lk \<Rightarrow> p lk | None \<Rightarrow> False"
    using assms(2) by (auto simp: find_id_def find_Some_iff)
  then show ?thesis using lists_ok_live [OF assms(1), of r l] by auto
qed

lemma answered_live:
  assumes "lists_ok st" "answered st i = Some r"
  shows "\<exists>lk. d_store st r = Some lk \<and> lk_on lk \<in> {Waiting, Pending} \<and> lk_id lk = i"
  using assms(2) find_id_live [OF assms(1), of _ Pending r] find_id_live [OF assms(1), of _ Waiting r]
  by (fastforce simp: answered_def split: option.splits)

lemma finish_put_trans:
  assumes "lists_ok st" "d_store st r = Some lk" "lk_on lk \<noteq> Cached" "lk_on lk' = lk_on lk"
    "lk_class lk' = lk_class lk" "lk_type lk' = lk_type lk" "lk_data lk' = lk_data lk" "lk_retry lk' = lk_retry lk"
    and fin: "dns_lookup_finish (put_lookup st r lk') r = Some s"
  shows "dns_trans st s \<and> calls_more st s"
proof -
  have soa: "soa_ok lk'" by (rule finish_soa [OF fin]) simp
  then have "keeps lk lk'" using assms(5-8) by (simp add: keeps_def)
  then have t: "dns_trans st (put_lookup st r lk')" using assms(1,2,4) by (rule dns_trans_put [rotated 3])
  then have "lists_ok (put_lookup st r lk')" by (simp add: dns_trans_def)
  from dns_trans_finish [OF this, of r lk'] assms(3,4) soa fin show ?thesis
    using dns_trans_trans [OF t] by (auto simp: calls_more_def)
qed

lemma move_put_trans:
  assumes "lists_ok st" "d_store st r = Some lk" "lk_on lk' = lk_on lk" "keeps lk lk'"
    and "dns_lookup_move (put_lookup st r lk') r Waiting h = Some s"
  shows "dns_trans st s \<and> calls_more st s"
proof -
  have t: "dns_trans st (put_lookup st r lk')" using assms(1-4) by (rule dns_trans_put)
  then have "lists_ok (put_lookup st r lk')" by (simp add: dns_trans_def)
  from dns_trans_move [OF this, of r lk' Waiting h] dns_lookup_move_ok [OF this, of r lk' Waiting h] assms(5)
  show ?thesis using dns_trans_trans [OF t] by (auto simp: calls_more_def same_rest_def)
qed

lemma take_sections_sel:
  "take_sections pkt plen i nx lk = Some lk' \<Longrightarrow>
     lk_on lk' = lk_on lk \<and> lk_class lk' = lk_class lk \<and> lk_type lk' = lk_type lk \<and>
     lk_data lk' = lk_data lk \<and> lk_retry lk' = lk_retry lk \<and> lk_hooks lk' = lk_hooks lk"
  by (auto simp: take_sections_def Let_def split: option.splits prod.splits)

lemma fail_lookup_trans:
  assumes "lists_ok st" "d_store st r = Some lk" "lk_on lk \<noteq> Cached" "fail_lookup st r lk = Some s"
  shows "dns_trans st s \<and> calls_more st s"
  using assms(4) unfolding fail_lookup_def
  by (rule finish_put_trans [OF assms(1-3), rotated -1]) simp_all

lemma parse_answer_trans:
  assumes "lists_ok st" "d_store st r = Some lk" "lk_on lk \<noteq> Cached"
    and "parse_answer pkt plen r lk st = Some s"
  shows "dns_trans st s \<and> calls_more st s"
proof -
  have move: "dns_trans st s \<and> calls_more st s"
    if "dns_lookup_move (put_lookup st r (lk\<lparr>lk_failed := True, lk_again := True\<rparr>)) r Waiting True = Some s"
    by (rule move_put_trans [OF assms(1,2) _ _ that]) auto
  have fin: "dns_trans st s \<and> calls_more st s"
    if "take_sections pkt plen i nx lk = Some lk'" "dns_lookup_finish (put_lookup st r lk') r = Some s" for i nx lk'
    using take_sections_sel [OF that(1)] by (intro finish_put_trans [OF assms(1-3) _ _ _ _ _ that(2)]) simp_all
  show ?thesis
    using assms(4) move fin fail_lookup_trans [OF assms(1-3)] dns_trans_refl [OF assms(1)]
    by (auto simp: parse_answer_def Let_def split: option.splits if_splits bool.splits)
qed

lemma dns_packet_parse_trans:
  assumes "lists_ok st" "dns_packet_parse pkt plen st = Some s"
  shows "dns_trans st s \<and> calls_more st s"
proof (cases "answered st (of_nat (net_value (take 2 pkt)))")
  case None
  then show ?thesis
    using assms dns_trans_refl [OF assms(1)] by (auto simp: dns_packet_parse_def split: if_splits)
next
  case (Some r)
  obtain lk where lk: "d_store st r = Some lk" "lk_on lk \<noteq> Cached"
    using answered_live [OF assms(1) Some] by auto
  then show ?thesis
    using assms Some dns_trans_refl [OF assms(1)] fail_lookup_trans [OF assms(1) lk] parse_answer_trans [OF assms(1) lk]
    by (auto simp: dns_packet_parse_def Let_def split: if_splits)
qed

lemma read_packets_trans:
  "lists_ok st \<Longrightarrow> read_packets pkt reads st = Some (pkt', s) \<Longrightarrow> dns_trans st s \<and> calls_more st s"
proof (induction reads arbitrary: pkt st)
  case Nil
  then show ?case using dns_trans_refl by simp
next
  case (Cons d reads)
  let ?p = "take DNS_MAX_PACKET_SIZE (put_bytes pkt 0 (take DNS_MAX_PACKET_SIZE d))"
  obtain st1 where p: "dns_packet_parse ?p (min DNS_MAX_PACKET_SIZE (length d)) st = Some st1"
    "read_packets ?p reads st1 = Some (pkt', s)"
    using Cons.prems(2) by (auto simp: Let_def split: option.splits)
  have t: "dns_trans st st1 \<and> calls_more st st1" by (rule dns_packet_parse_trans [OF Cons.prems(1) p(1)])
  then have "lists_ok st1" by (simp add: dns_trans_def)
  from Cons.IH [OF this p(2)] t show ?case using dns_trans_trans calls_more_trans by blast
qed

section \<open>Cancelling, flushing and asking\<close>

lemma unhook_trans:
  assumes "lists_ok st" "d_store st r = Some lk"
  shows "\<exists>s. unhook callback r st = Some s \<and> dns_trans st s \<and> calls_more st s \<and>
    d_store s = (d_store st)(r := Some (lk\<lparr>lk_hooks := remove1 callback (lk_hooks lk)\<rparr>))"
  using dns_trans_put [OF assms _ keepsI, of "lk\<lparr>lk_hooks := remove1 callback (lk_hooks lk)\<rparr>"] assms(2)
  by (auto simp: unhook_def calls_more_def)

lemma walk_unhook:
  "lists_ok st \<Longrightarrow> \<forall>r \<in> set q. d_store st r \<noteq> None \<Longrightarrow>
     \<exists>s. walk (unhook callback) q st = Some s \<and> dns_trans st s \<and> calls_more st s \<and>
       (\<forall>x. d_store s x = None \<longleftrightarrow> d_store st x = None)"
proof (induction q arbitrary: st)
  case Nil
  then show ?case using dns_trans_refl by auto
next
  case (Cons r q)
  then obtain lk where lk: "d_store st r = Some lk" by auto
  obtain s where s: "unhook callback r st = Some s" "dns_trans st s" "calls_more st s"
    "d_store s = (d_store st)(r := Some (lk\<lparr>lk_hooks := remove1 callback (lk_hooks lk)\<rparr>))"
    using unhook_trans [OF Cons.prems(1) lk] by blast
  have "lists_ok s" using s(2) by (simp add: dns_trans_def)
  moreover have "\<forall>r \<in> set q. d_store s r \<noteq> None" using Cons.prems(2) s(4) by auto
  ultimately obtain s2 where "walk (unhook callback) q s = Some s2" "dns_trans s s2" "calls_more s s2"
    "\<forall>x. d_store s2 x = None \<longleftrightarrow> d_store s x = None" using Cons.IH by blast
  then show ?case using s lk dns_trans_trans calls_more_trans by auto
qed

lemma walk_destroy:
  "lists_ok st \<Longrightarrow> \<forall>r \<in> set q. d_store st r \<noteq> None \<Longrightarrow> distinct q \<Longrightarrow>
     \<exists>s. walk (unhook_destroy callback) q st = Some s \<and> dns_trans st s \<and> calls_more st s"
proof (induction q arbitrary: st)
  case Nil
  then show ?case using dns_trans_refl by auto
next
  case (Cons r q)
  then obtain lk where lk: "d_store st r = Some lk" by auto
  let ?lk = "lk\<lparr>lk_hooks := remove1 callback (lk_hooks lk)\<rparr>"
  obtain s where s: "unhook callback r st = Some s" "dns_trans st s" "calls_more st s"
    "d_store s = (d_store st)(r := Some ?lk)"
    using unhook_trans [OF Cons.prems(1) lk] by blast
  have ok: "lists_ok s" "d_store s r = Some ?lk" using s(2,4) by (simp_all add: dns_trans_def)
  obtain s1 where d: "destroy_dns_lookup s r = Some s1" "dns_trans s s1" "d_store s1 = (d_store s)(r := None)"
    "d_calls s1 = d_calls s"
    using dns_trans_destroy [OF ok] by blast
  define s2 where "s2 = (if lk_hooks ?lk = [] then s1 else s)"
  have s2: "unhook_destroy callback r st = Some s2" "dns_trans st s2" "calls_more st s2" "lists_ok s2"
    using s d ok dns_trans_trans [OF s(2) d(2)]
    by (auto simp: unhook_destroy_def s2_def calls_more_def dns_trans_def)
  have "\<forall>r \<in> set q. d_store s2 r \<noteq> None" using Cons.prems(2,3) s(4) d(3) by (auto simp: s2_def)
  then obtain s3 where "walk (unhook_destroy callback) q s2 = Some s3" "dns_trans s2 s3" "calls_more s2 s3"
    using Cons.IH [OF s2(4)] Cons.prems(3) by auto
  then show ?case using s2 dns_trans_trans calls_more_trans by auto
qed

lemma dns_lookup_cancel_ok:
  assumes "lists_ok st"
  shows "\<exists>s. dns_lookup_cancel callback st = Some s \<and> dns_trans st s \<and> calls_more st s"
proof -
  have "\<forall>r \<in> set (d_alist st). d_store st r \<noteq> None"
    using lists_ok_live [OF assms, of _ Pending] by fastforce
  then obtain s where s: "walk (unhook callback) (d_alist st) st = Some s" "dns_trans st s" "calls_more st s"
    using walk_unhook [OF assms] by blast
  then have ok: "lists_ok s" by (simp add: dns_trans_def)
  have "\<forall>r \<in> set (d_wlist s). d_store s r \<noteq> None" "distinct (d_wlist s)"
    using lists_ok_live [OF ok, of _ Waiting] ok by (fastforce, simp add: lists_ok_def dns_list_all)
  then obtain s2 where "walk (unhook_destroy callback) (d_wlist s) s = Some s2" "dns_trans s s2" "calls_more s s2"
    using walk_destroy [OF ok] by blast
  then show ?thesis using s dns_trans_trans calls_more_trans by (auto simp: dns_lookup_cancel_def)
qed

lemma flush_ok:
  assumes "l \<noteq> Nowhere"
  shows "lists_ok st \<Longrightarrow>
     \<exists>s. flush (\<lambda>st. list_of st l) st = Some s \<and> dns_trans st s \<and> list_of s l = [] \<and>
       (\<forall>k. k \<noteq> l \<longrightarrow> list_of s k = list_of st k)"
proof (induction "length (list_of st l)" arbitrary: st rule: less_induct)
  case less
  show ?case
  proof (cases "list_of st l")
    case Nil
    then show ?thesis using dns_trans_refl [OF less.prems] by (subst flush.simps) simp
  next
    case (Cons r q)
    obtain lk where lk: "d_store st r = Some lk" "lk_on lk = l"
      using lists_ok_live [OF less.prems, of r l] Cons by auto
    obtain s where d: "destroy_dns_lookup st r = Some s" "dns_trans st s" "\<And>k. list_of s k = remove1 r (list_of st k)"
      using dns_trans_destroy [OF less.prems lk(1)] by blast
    have "list_of s l = q" using d(3) Cons by simp
    moreover have "list_of s k = list_of st k" if "k \<noteq> l" for k
      using d(3) lists_ok_live [OF less.prems, of r k] lk that by (metis option.inject remove1_idem)
    moreover have "lists_ok s" using d(2) by (simp add: dns_trans_def)
    ultimately obtain s2 where "flush (\<lambda>st. list_of st l) s = Some s2" "dns_trans s s2" "list_of s2 l = []"
      "\<forall>k. k \<noteq> l \<longrightarrow> list_of s2 k = list_of st k"
      using less.hyps [of s] Cons by auto
    then show ?thesis using d(1,2) Cons dns_trans_trans by (subst flush.simps) auto
  qed
qed

lemmas flush_cache = flush_ok [of Cached, simplified]
lemmas flush_waiting = flush_ok [of Waiting, simplified]
lemmas flush_pending = flush_ok [of Pending, simplified]

lemma find_in_live:
  "find_in st class type data q = Some (Some r) \<Longrightarrow> r \<in> set q \<and> d_store st r \<noteq> None"
  by (induction q) (auto split: option.splits if_splits)

text \<open>Asking: a lookup that is there is only changed in place or moved to the head of the cache.\<close>

lemma dns_lookup_known:
  assumes "lists_ok st" "find_dns_lookup st class type data = Some (Some r)"
    "dns_lookup ip sw class type data callback st = Some (s, res)" "length data \<le> DNS_MAX_NAMELEN"
  shows "dns_trans st s \<and> calls_more st s"
proof -
  obtain lk where lk: "d_store st r = Some lk"
    using find_in_live [of st "class" "type" data _ r] assms(2) by (auto simp: find_dns_lookup_def)
  show ?thesis
  proof (cases "lk_on lk = Cached")
    case False
    let ?lk = "lk\<lparr>lk_hooks := lk_hooks lk @ [callback]\<rparr>"
    have "s = put_lookup st r ?lk" using assms lk False by (auto simp: dns_lookup_def)
    moreover have "dns_trans st (put_lookup st r ?lk)" by (rule dns_trans_put [OF assms(1) lk]) auto
    ultimately show ?thesis by (simp add: calls_more_def)
  next
    case True
    let ?q = "r # remove1 r (d_cache st)"
    have r: "r \<in> set (d_cache st)" "distinct (d_cache st)"
      using assms(1) lk True by (auto simp: lists_ok_def dns_list_all)
    then have s: "s = st\<lparr>d_cache := ?q, d_calls := d_calls st @ [(callback, r)]\<rparr>"
      using assms lk True by (auto simp: dns_lookup_def tq_remove_def)
    have q: "set ?q = set (d_cache st)" "distinct ?q" "length ?q = length (d_cache st)"
      using r by (auto simp: length_remove1) (metis Suc_pred length_pos_if_in_set)
    have "lists_ok s" using assms(1) q unfolding s lists_ok_def dns_list_all by simp
    then have "dns_trans st s"
      by (auto simp: s dns_trans_def loose_def same_conf_def in_bound_def)
    then show ?thesis by (simp add: s calls_more_def)
  qed
qed

text \<open>A new lookup is on no list yet.\<close>

lemma lists_ok_new:
  assumes "lists_ok st" "lk_on lk = Nowhere"
  shows "lists_ok ((put_lookup st (d_fresh st) lk)\<lparr>d_fresh := Suc (d_fresh st), d_idn := i\<rparr>)"
    (is "lists_ok ?s1")
proof -
  let ?r = "d_fresh st"
  have off: "?r \<notin> set (list_of st k)" for k
    using lists_ok_live [OF assms(1), of ?r k] lists_ok_fresh [OF assms(1)] by auto
  have lists: "list_of ?s1 k = list_of st k" for k by (cases k) simp_all
  show ?thesis
    unfolding lists_ok_def
  proof (intro conjI allI impI)
    fix k x
    show "x \<in> set (list_of ?s1 k) \<longleftrightarrow> k \<noteq> Nowhere \<and> (\<exists>lk. d_store ?s1 x = Some lk \<and> lk_on lk = k)"
      using off assms by (cases "x = ?r") (auto simp: lists lists_ok_def)
  next
    fix x lk
    assume "d_store ?s1 x = Some lk"
    then show "x < d_fresh ?s1" using assms(1) by (auto simp: lists_ok_def less_Suc_eq split: if_splits)
  next
    fix k
    show "distinct (list_of ?s1 k)" using assms(1) by (simp only: lists) (simp add: lists_ok_def)
  qed (use assms(1) in \<open>simp_all add: lists_ok_def\<close>)
qed

lemma dns_lookup_new:
  assumes "lists_ok st" "loose st = {}" "find_dns_lookup st class type data = Some None"
    "dns_lookup ip sw class type data callback st = Some (s, res)" "length data \<le> DNS_MAX_NAMELEN"
  shows "lists_ok s \<and> loose s = {} \<and> calls_more st s \<and> (in_bound st \<longrightarrow> in_bound s) \<and>
    d_retries s = d_retries st \<and> d_retry_times s = d_retry_times st \<and>
    (all_ok st \<longrightarrow> lk_ok (d_retries st) (new_lookup st class type data callback) \<longrightarrow> all_ok s)"
proof -
  let ?r = "d_fresh st" and ?lk = "new_lookup st class type data callback"
  let ?s1 = "(put_lookup st ?r ?lk)\<lparr>d_fresh := Suc ?r, d_idn := d_idn st + 1\<rparr>"
  have ok1: "lists_ok ?s1" by (rule lists_ok_new [OF assms(1)]) (simp add: new_lookup_def)
  have l1: "d_store ?s1 ?r = Some ?lk" by simp
  obtain s2 where m: "dns_lookup_move ?s1 ?r Waiting False = Some s2" "dns_trans ?s1 s2"
    "d_store s2 = (d_store ?s1)(?r := Some (?lk\<lparr>lk_on := Waiting\<rparr>))" "d_calls s2 = d_calls st"
    using dns_trans_move [OF ok1 l1, of Waiting False] dns_lookup_move_ok [OF ok1 l1, of Waiting False]
    by (auto simp: same_rest_def)
  obtain b where send: "dns_lookup_send ip sw s2 = Some (s, b)"
    using assms(3-5) m(1) by (auto simp: dns_lookup_def Let_def)
  have ok2: "lists_ok s2" using m(2) by (simp add: dns_trans_def)
  have t: "dns_trans s2 s" "calls_more s2 s" using dns_lookup_send_ok(1) [OF ok2 send] by auto
  have "loose s2 = {}" using assms(2) m(3) by (auto simp: loose_def split: if_splits)
  then have "loose s = {}" using t(1) by (auto simp: dns_trans_def)
  moreover have "in_bound st \<longrightarrow> in_bound s" using m(2) t(1) by (auto simp: dns_trans_def in_bound_def)
  moreover have "d_retries s = d_retries st" "d_retry_times s = d_retry_times st"
    using m(2) t(1) by (simp_all add: dns_trans_def same_conf_def)
  moreover have "all_ok s" if "all_ok st" "lk_ok (d_retries st) ?lk"
  proof -
    have "all_ok ?s1" using that by (auto simp: all_ok_def)
    then show ?thesis using dns_trans_all_ok [OF m(2)] dns_trans_all_ok [OF t(1)] by simp
  qed
  ultimately show ?thesis using t m(4) by (auto simp: dns_trans_def calls_more_def)
qed

section \<open>Settings, runs and unloading\<close>

lemma retry_fill_ok:
  "i < length tab \<Longrightarrow> 0 \<le> tab ! i \<Longrightarrow> tab ! i * 2 ^ i \<le> TIME_MAX \<Longrightarrow>
     \<exists>tab'. retry_fill i tab = Some tab' \<and> length tab' = length tab \<and>
       (\<forall>j. tab' ! j = (if j \<le> i then tab ! i * 2 ^ (i - j) else tab ! j))"
proof (induction i arbitrary: tab)
  case (Suc i)
  let ?v = "tab ! Suc i * 2"
  have "?v * 1 \<le> ?v * 2 ^ i" using Suc.prems(2) by (intro mult_left_mono) simp_all
  then have v: "?v \<le> TIME_MAX" "\<not> ?v < - TIME_MAX - 1"
    using Suc.prems(2,3) by (simp_all add: TIME_MAX_def)
  obtain tab' where t: "retry_fill i (tab[i := ?v]) = Some tab'" "length tab' = length tab"
    "\<forall>j. tab' ! j = (if j \<le> i then ?v * 2 ^ (i - j) else tab[i := ?v] ! j)"
    using Suc.IH [of "tab[i := ?v]"] Suc.prems by auto
  have "tab' ! j = (if j \<le> Suc i then tab ! Suc i * 2 ^ (Suc i - j) else tab ! j)" for j
    using t(3) by (cases "j = Suc i") (auto simp: Suc_diff_le)
  then show ?case using t v by (simp add: Let_def)
qed simp

lemma retry_fill_length: "retry_fill i tab = Some tab' \<Longrightarrow> length tab' = length tab"
  by (induction i arbitrary: tab) (auto simp: Let_def split: if_splits)

lemma retry_table_length:
  assumes "retry_table timeout retries = Some tab"
  shows "length tab = Suc retries"
proof -
  have "retries < (retries + 1) mod 2 ^ 32 \<and> length tab = (retries + 1) mod 2 ^ 32"
    using assms unfolding retry_table_def Let_def length_replicate
    by (cases "retries < (retries + 1) mod 2 ^ 32")
      (simp_all only: if_True if_False option.distinct length_list_update length_replicate
        retry_fill_length [of _ _ tab] not_False_eq_True simp_thms)
  then show ?thesis using mod_less_eq_dividend [of "retries + 1" "2 ^ 32"] by linarith
qed

lemma dns_settings_ok:
  assumes "dns_settings conf st = Some st1"
  shows "d_store st1 = d_store st" "list_of st1 l = list_of st l" "d_acount st1 = d_acount st"
    "d_count st1 = d_count st" "d_fresh st1 = d_fresh st" "d_calls st1 = d_calls st"
    "0 \<le> d_cache_max st1" "length (d_retry_times st1) = Suc (d_retries st1)"
  using assms by (cases l; auto simp: dns_settings_def Let_def retry_table_length split: option.splits)+

lemma dns_parse_conf_ok:
  assumes "lists_ok st" "loose st = {}" "dns_parse_conf conf opened st = Some (s, ok)"
  shows "dns_wf s" "ok \<Longrightarrow> in_bound s" "all_ok st \<Longrightarrow> d_retries st \<le> d_retries s \<Longrightarrow> all_ok s"
proof -
  obtain st1 where st1: "dns_settings conf st = Some st1"
    "(if opened then map_option (\<lambda>s. (s, True)) (flush d_cache st1) else Some (st1, False)) = Some (s, ok)"
    using assms(3) by (auto simp: dns_parse_conf_def split: option.splits)
  note set = dns_settings_ok [OF st1(1)]
  have ok1: "lists_ok st1" using assms(1) by (rule lists_ok_cong) (use set in simp_all)
  have s: "dns_trans st1 s" "ok \<longrightarrow> d_cache s = []"
    using st1(2) flush_cache [OF ok1] dns_trans_refl [OF ok1] by (auto split: if_splits)
  have "loose st1 = {}" using assms(2) set(1) by (simp add: loose_def)
  then show "dns_wf s" using s(1) set(8) by (auto simp: dns_wf_def dns_trans_def same_conf_def)
  show "ok \<Longrightarrow> in_bound s"
    using s set(7) by (auto simp: in_bound_def dns_trans_def same_conf_def lists_ok_def)
  show "all_ok s" if a: "all_ok st" "d_retries st \<le> d_retries s"
  proof -
    have "d_retries s = d_retries st1" using s(1) by (simp add: dns_trans_def same_conf_def)
    then have "all_ok st1" using a set(1) by (auto simp: all_ok_def lk_ok_def intro: order_trans)
    then show ?thesis by (rule dns_trans_all_ok [OF s(1)])
  qed
qed

text \<open>
  The runs of the module: it is loaded, asked, cancelled, called by its timers and its socket, and
  its settings are read again. The flag tells whether every address asked for was one and no new
  settings were refused or lowered the number of tries.
\<close>

inductive dns_run :: "pton \<Rightarrow> bool \<Rightarrow> dns_state \<Rightarrow> bool" for ip where
  load: "d_store st = (\<lambda>_. None) \<Longrightarrow> (\<And>l. list_of st l = []) \<Longrightarrow> d_acount st = 0 \<Longrightarrow> d_count st = 0 \<Longrightarrow>
     dns_parse_conf conf opened st = Some (st', True) \<Longrightarrow> dns_run ip True st'"
| ask: "dns_run ip c st \<Longrightarrow> dns_lookup ip sw cl ty data callback st = Some (st', res) \<Longrightarrow>
     dns_run ip (c \<and> address_ok cl ty data) st'"
| cancel: "dns_run ip c st \<Longrightarrow> dns_lookup_cancel callback st = Some st' \<Longrightarrow> dns_run ip c st'"
| timer: "dns_run ip c st \<Longrightarrow> d_store st r = Some lk \<Longrightarrow> lk_timer lk \<noteq> None \<Longrightarrow>
     dns_timer_hook ip sw r st = Some st' \<Longrightarrow> dns_run ip c st'"
| socket: "dns_run ip c st \<Longrightarrow> dns_socket_hook ip sw pkt reads st = Some (pkt', st') \<Longrightarrow> dns_run ip c st'"
| reload: "dns_run ip c st \<Longrightarrow> dns_parse_conf conf opened st = Some (st', done_ok) \<Longrightarrow>
     dns_run ip (c \<and> done_ok \<and> d_retries st \<le> d_retries st') st'"
| clock: "dns_run ip c st \<Longrightarrow> dns_run ip c (st\<lparr>d_now := t\<rparr>)"

definition dns_inv :: "bool \<Rightarrow> dns_state \<Rightarrow> bool" where
  "dns_inv c st \<longleftrightarrow> dns_wf st \<and> (c \<longrightarrow> all_ok st \<and> in_bound st)"

lemma dns_inv_trans: "dns_inv c st \<Longrightarrow> dns_trans st s \<Longrightarrow> dns_inv c s"
  using dns_trans_all_ok by (auto simp: dns_inv_def dns_wf_def dns_trans_def same_conf_def)

lemma dns_timer_hook_trans:
  assumes "lists_ok st" "d_store st r = Some lk" "dns_timer_hook ip sw r st = Some s"
  shows "dns_trans st s"
proof (cases "lk_on lk = Cached")
  case True
  let ?p = "put_lookup st r (lk\<lparr>lk_timer := None\<rparr>)"
  have t: "dns_trans st ?p" by (rule dns_trans_put [OF assms(1,2)]) auto
  then have "lists_ok ?p" by (simp add: dns_trans_def)
  from dns_trans_destroy [OF this, of r] show ?thesis
    using assms(2,3) True dns_trans_trans [OF t] by (auto simp: dns_timer_hook_def)
next
  case False
  then obtain s1 where s1: "timer_expired r st = Some s1" "dns_send_all ip sw s1 = Some s"
    using assms(2,3) by (auto simp: dns_timer_hook_def split: option.splits)
  have t: "dns_trans st s1" using timer_expired_trans(1) [OF assms(1,2) False s1(1)] by simp
  then have "lists_ok s1" by (simp add: dns_trans_def)
  from dns_send_all_trans [OF this s1(2)] show ?thesis using dns_trans_trans [OF t] by simp
qed

lemma dns_lookup_inv:
  assumes "dns_inv c st" "dns_lookup ip sw cl ty data callback st = Some (st', res)"
  shows "dns_inv (c \<and> address_ok cl ty data) st'"
proof -
  have wf: "lists_ok st" "loose st = {}" using assms(1) by (simp_all add: dns_inv_def dns_wf_def)
  show ?thesis
  proof (cases "length data > DNS_MAX_NAMELEN")
    case True
    then show ?thesis using assms by (auto simp: dns_lookup_def dns_inv_def)
  next
    case False
    then obtain f where f: "find_dns_lookup st cl ty data = Some f"
      using assms(2) by (auto simp: dns_lookup_def split: option.splits)
    show ?thesis
    proof (cases f)
      case (Some r)
      then have "dns_trans st st'" using dns_lookup_known [OF wf(1) _ assms(2)] f False by simp
      then show ?thesis using dns_inv_trans [OF assms(1)] by (simp add: dns_inv_def)
    next
      case None
      have "lk_ok (d_retries st) (new_lookup st cl ty data callback)" if "address_ok cl ty data"
        using that False by (simp add: lk_ok_def soa_ok_def new_lookup_def)
      then show ?thesis
        using dns_lookup_new [OF wf _ assms(2)] f None False assms(1)
        by (auto simp: dns_inv_def dns_wf_def)
    qed
  qed
qed

lemma dns_run_inv: "dns_run ip c st \<Longrightarrow> dns_inv c st"
proof (induction rule: dns_run.induct)
  case (load st conf opened st')
  have "lists_ok st" "loose st = {}" "all_ok st"
    using load(1-4) load(2) [of Pending] load(2) [of Cached] by (simp_all add: lists_ok_def loose_def all_ok_def)
  moreover from this dns_parse_conf_ok [OF _ _ load(5)] have "dns_trans st' st'"
    by (intro dns_trans_refl) (simp add: dns_wf_def)
  moreover have "all_ok st'"
  proof -
    have "d_store st' = (\<lambda>_. None)"
    proof
      fix x
      obtain st1 where st1: "dns_settings conf st = Some st1" "flush d_cache st1 = Some st'"
        using load(5) by (auto simp: dns_parse_conf_def split: option.splits if_splits)
      have "lists_ok st1"
        using \<open>lists_ok st\<close> by (rule lists_ok_cong) (use dns_settings_ok [OF st1(1)] in simp_all)
      from flush_cache [OF this] st1(2) have "dns_trans st1 st'" by auto
      then show "d_store st' x = None"
        using dns_trans_store [of st1 st' x] dns_settings_ok(1) [OF st1(1)] load(1)
        by (cases "d_store st' x") auto
    qed
    then show ?thesis by (simp add: all_ok_def)
  qed
  ultimately show ?case using dns_parse_conf_ok(1,2) [OF _ _ load(5)] by (simp add: dns_inv_def)
next
  case (ask c st sw cl ty data callback st' res)
  show ?case by (rule dns_lookup_inv [OF ask(3,2)])
next
  case (cancel c st callback st')
  then show ?case
    using dns_lookup_cancel_ok [of st callback] dns_inv_trans [OF cancel(3)] by (auto simp: dns_inv_def dns_wf_def)
next
  case (timer c st r lk sw st')
  have "lists_ok st" using timer(5) by (simp add: dns_inv_def dns_wf_def)
  from dns_inv_trans [OF timer(5) dns_timer_hook_trans [OF this timer(2,4)]] show ?case .
next
  case (socket c st sw pkt reads pkt' st')
  obtain s1 where s1: "dns_send_all ip sw st = Some s1" "read_packets pkt reads s1 = Some (pkt', st')"
    using socket(2) by (auto simp: dns_socket_hook_def split: option.splits)
  have t: "dns_trans st s1" using dns_send_all_trans [OF _ s1(1)] socket(3) by (simp add: dns_inv_def dns_wf_def)
  then have "dns_trans s1 st'" using read_packets_trans [OF _ s1(2)] by (simp add: dns_trans_def)
  then show ?case using dns_inv_trans [OF dns_inv_trans [OF socket(3) t]] by simp
next
  case (reload c st conf opened st' done_ok)
  then show ?case
    using dns_parse_conf_ok [OF _ _ reload(2)] by (auto simp: dns_inv_def dns_wf_def)
next
  case (clock c st t)
  have "lists_ok (st\<lparr>d_now := t\<rparr>)" if "lists_ok st"
    using that by (rule lists_ok_cong) simp_all
  then show ?case using clock(2) by (auto simp: dns_inv_def dns_wf_def loose_def all_ok_def in_bound_def)
qed

section \<open>Properties\<close>


text \<open>The state after loading the module with no settings.\<close>

definition loaded :: dns_state where
  "loaded = \<lparr>d_store = (\<lambda>_. None), d_fresh = 0, d_wlist = [], d_alist = [], d_cache = [], d_acount = 0,
     d_count = 0, d_max = 128, d_cache_max = 256, d_retries = 2, d_retry_times = [40, 20, 10], d_idn = 0,
     d_failure = True, d_expire = 3600, d_now = 5, d_calls = [], d_sent = []\<rparr>"

lemma conf_find_entry_Nil: "conf_find_entry n [] 1 = None"
  by (simp add: conf_find_entry_def conf_find.simps)

lemma loaded_run: "dns_run ip True loaded"
proof -
  have "retry_table 10 2 = Some [40, 20, 10]"
  proof -
    have "retry_fill 2 [0, 0, 10] = Some [40, 20, 10]" by (simp add: numeral_2_eq_2 TIME_MAX_def Let_def)
    moreover have "(replicate 3 0) [2 := 10] = [0, 0, 10::int]" by (simp add: numeral_2_eq_2 numeral_3_eq_3)
    ultimately show ?thesis by (simp add: retry_table_def i32_def Let_def)
  qed
  then have "dns_settings [] loaded = Some loaded"
    by (simp add: dns_settings_def conf_find_entry_Nil str_conv_time_def str_conv_int_def str_conv_bool_def loaded_def)
  moreover have "flush d_cache loaded = Some loaded" by (subst flush.simps) (simp add: loaded_def)
  ultimately have "dns_parse_conf [] True loaded = Some (loaded, True)" by (simp add: dns_parse_conf_def)
  moreover have "list_of loaded l = []" for l by (cases l) (simp_all add: loaded_def)
  ultimately show ?thesis by (intro dns_run.load) (simp_all add: loaded_def)
qed



text \<open>Unloading the module frees every lookup there is, waiting, sent or cached.\<close>

theorem dns_unload_frees:
  assumes "dns_wf st"
  shows "\<exists>s. dns_unload st = Some s \<and> d_store s = (\<lambda>_. None)"
proof -
  have ok: "lists_ok st" "loose st = {}" using assms by (simp_all add: dns_wf_def)
  obtain s1 where s1: "flush d_alist st = Some s1" "dns_trans st s1" "d_alist s1 = []"
    using flush_pending [OF ok(1)] by blast
  then obtain s2 where s2: "flush d_wlist s1 = Some s2" "dns_trans s1 s2" "d_wlist s2 = []" "d_alist s2 = []"
    using flush_waiting [of s1] by (metis dns_list.distinct(1) dns_trans_def list_of.simps(2))
  then obtain s3 where s3: "flush d_cache s2 = Some s3" "dns_trans s2 s3" "d_cache s3 = []"
    "d_wlist s3 = []" "d_alist s3 = []"
    using flush_cache [of s2] by (metis dns_list.distinct dns_trans_def list_of.simps)
  have "dns_trans st s3" using s1(2) s2(2) s3(2) dns_trans_trans by blast
  then have end_ok: "lists_ok s3" "loose s3 = {}" using ok(2) by (auto simp: dns_trans_def)
  have "list_of s3 l = []" for l using s3 by (cases l) simp_all
  then have "d_store s3 x = None" for x
    using end_ok(2) lists_ok_on [OF end_ok(1), of x] by (cases "d_store s3 x") (auto simp: loose_def)
  then show ?thesis using s1 s2 s3 by (auto simp: dns_unload_def)
qed

theorem dns_unload_frees_witness: "\<exists>s. dns_unload loaded = Some s \<and> d_store s = (\<lambda>_. None)"
  by (rule dns_unload_frees) (use loaded_run dns_run_inv in \<open>auto simp: dns_inv_def\<close>)

definition example_lookup :: "nat \<Rightarrow> dns_lookup_t" where
  "example_lookup retry = (new_lookup loaded 1 1 ''a.b'' 7)\<lparr>lk_on := Pending, lk_retry := retry, lk_timer := Some 10\<rparr>"

definition example_state :: "nat \<Rightarrow> dns_state" where
  "example_state retry = loaded\<lparr>d_store := [0 \<mapsto> example_lookup retry], d_fresh := 1, d_alist := [0], d_acount := 1\<rparr>"

lemma example_wf:
  assumes "retry \<le> 2"
  shows "dns_wf (example_state retry)" "all_ok (example_state retry)"
proof -
  have lists: "list_of (example_state retry) l = (if l = Pending then [0] else [])" for l
    by (cases l) (simp_all add: example_state_def loaded_def)
  have "lists_ok (example_state retry)"
    unfolding lists_ok_def lists
    by (auto simp: example_state_def example_lookup_def loaded_def)
  then show "dns_wf (example_state retry)"
    by (simp add: dns_wf_def loose_def example_state_def example_lookup_def loaded_def)
  show "all_ok (example_state retry)" using assms
    by (simp add: all_ok_def lk_ok_def soa_ok_def address_ok_def example_state_def example_lookup_def
      loaded_def new_lookup_def DNS_T_PTR_def DNS_C_IN_def)
qed


text \<open>Finishing a lookup calls its callbacks in order and then keeps it, at the head of the cache
  with a timer for its time to live, exactly when that time is not zero, the cache has a size and
  the lookup succeeded or failures are kept; otherwise it is freed. A full cache loses its last entry.\<close>

theorem dns_finish_outcome:
  assumes "dns_wf st" "d_store st r = Some lk" "lk_on lk \<noteq> Cached" "min_ttl st lk = Some ttl"
  shows "\<exists>s. dns_lookup_finish st r = Some s \<and> d_calls s = d_calls st @ map (\<lambda>h. (h, r)) (lk_hooks lk) \<and>
    gone_but r st s \<and>
    (if ttl \<noteq> 0 \<and> (d_failure st \<or> \<not> lk_failed lk) \<and> d_cache_max st > 0
     then d_store s r = Some (lk\<lparr>lk_last := d_now st, lk_ttl := ttl, lk_on := Cached,
            lk_timer := Some (d_now st + int ttl)\<rparr>) \<and>
          d_cache s = r # (if d_count st = d_cache_max st \<and> d_count st > 0 then butlast (d_cache st) else d_cache st)
     else d_store s r = None)"
proof -
  have "lists_ok st" "soa_ok lk" using assms(1,4) min_ttl_None [of st lk] by (auto simp: dns_wf_def)
  from dns_lookup_finish_ok [OF this(1) assms(2,3) this(2)] show ?thesis
    using assms(4) by (auto simp: cacheable_def same_rest_def)
qed

theorem dns_finish_outcome_witness:
  "\<exists>s. dns_lookup_finish (example_state 1) 0 = Some s \<and> d_calls s = [(7, 0)] \<and> d_cache s = [0]"
proof -
  have lk: "d_store (example_state 1) 0 = Some (example_lookup 1)" "lk_on (example_lookup 1) \<noteq> Cached"
    "min_ttl (example_state 1) (example_lookup 1) = Some 3600"
    "lk_hooks (example_lookup 1) = [7]" "d_calls (example_state 1) = []" "d_failure (example_state 1)"
    "d_cache_max (example_state 1) = 256" "d_count (example_state 1) = 0" "d_cache (example_state 1) = []"
    by (simp_all add: example_state_def example_lookup_def new_lookup_def loaded_def min_ttl_def)
  then show ?thesis using dns_finish_outcome [OF example_wf(1) lk(1-3)] by auto
qed

text \<open>Asking for the name of an IPv6 address that is none, with nothing else waiting and failures
  not kept, calls the callback at once and returns a pointer to the lookup, which is freed already.\<close>

theorem dns_lookup_returns_freed:
  assumes "dns_wf st" "d_wlist st = []" "d_acount st \<noteq> d_max st" "\<not> d_failure st"
    "length data \<le> DNS_MAX_NAMELEN" "ith_strchr data (CHR '':'') \<noteq> None" "ip INET6 data = None"
    "find_dns_lookup st DNS_C_IN DNS_T_PTR data = Some None"
  shows "\<exists>s r. dns_lookup ip sw DNS_C_IN DNS_T_PTR data callback st = Some (s, Some r) \<and>
    d_store s r = None \<and> d_calls s = d_calls st @ [(callback, r)]"
proof -
  let ?r = "d_fresh st" and ?lk = "new_lookup st DNS_C_IN DNS_T_PTR data callback"
  let ?s1 = "(put_lookup st ?r ?lk)\<lparr>d_fresh := Suc ?r, d_idn := d_idn st + 1\<rparr>"
  let ?w = "?lk\<lparr>lk_on := Waiting\<rparr>" and ?p = "?lk\<lparr>lk_on := Pending\<rparr>" and ?f = "?lk\<lparr>lk_on := Pending, lk_failed := True\<rparr>"
  have ok: "lists_ok st" using assms(1) by (simp add: dns_wf_def)
  have lk: "lk_on ?lk = Nowhere" "lk_class ?lk = DNS_C_IN" "lk_type ?lk = DNS_T_PTR" "lk_data ?lk = data"
    "lk_hooks ?lk = [callback]" "soa_ok ?f"
    using assms(5) by (simp_all add: new_lookup_def soa_ok_def)
  have ok1: "lists_ok ?s1" by (rule lists_ok_new [OF ok lk(1)])
  obtain s2 where s2: "dns_lookup_move ?s1 ?r Waiting False = Some s2" "lists_ok s2"
    "d_store s2 = (d_store st)(?r := Some ?w)" "same_rest ?s1 s2"
    "d_wlist s2 = [?r]" "d_alist s2 = remove1 ?r (d_alist st)"
    using dns_lookup_move_ok [OF ok1, of ?r ?lk Waiting False] assms(2)
    by (auto simp: dns_list_all tq_insert_def)
  have "?r \<notin> set (d_alist st)"
    using lists_ok_live [OF ok, of ?r Pending] lists_ok_fresh [OF ok] by auto
  then have acount: "d_acount s2 \<noteq> d_max s2"
    using assms(3) s2(4,6) lists_ok_counts(1) [OF s2(2)] lists_ok_counts(1) [OF ok]
    by (simp add: remove1_idem same_rest_def)
  obtain s3 where s3: "dns_lookup_move s2 ?r Pending False = Some s3" "lists_ok s3"
    "d_store s3 = (d_store s2)(?r := Some ?p)" "same_rest s2 s3"
    using dns_lookup_move_ok [OF s2(2), of ?r ?w Pending False] s2(3) by auto
  have snd: "dns_lookup_send ip sw s2 = send_moved ip sw ?r ?p s3"
    using dns_lookup_send_moved [of s2 s3 ?p ip sw] s2(5) s3(1,3) acount by simp
  have "query_name ip ?p = Some (None, ?p)"
    using assms(6,7) lk by (simp add: query_name_def)
  then have fin: "dns_lookup_send ip sw s2 = map_option (\<lambda>s. (s, True)) (dns_lookup_finish (put_lookup s3 ?r ?f) ?r)"
    unfolding snd by (simp add: send_moved_def Let_def)
  have "lists_ok (put_lookup s3 ?r ?f)" using lists_ok_put [OF s3(2), of ?r ?p ?f] s3(3) by simp
  from dns_lookup_finish_ok [OF this, of ?r ?f] lk(6) obtain s ttl where
    s: "dns_lookup_finish (put_lookup s3 ?r ?f) ?r = Some s"
    "same_rest (call_hooks (put_lookup s3 ?r ?f) ?r ?f) s"
    "if cacheable (put_lookup s3 ?r ?f) ?f ttl then True else d_store s ?r = None"
    by (auto split: if_splits)
  have "\<not> d_failure s3" "d_calls s3 = d_calls st" using assms(4) s2(4) s3(4) by (auto simp: same_rest_def)
  then have "d_store s ?r = None" "d_calls s = d_calls st @ [(callback, ?r)]"
    using s(2,3) lk(5) by (auto simp: cacheable_def same_rest_def)
  then show ?thesis using assms(5,8) s2(1) fin s(1) by (auto simp: dns_lookup_def Let_def)
qed

theorem dns_lookup_returns_freed_witness:
  "\<exists>s r. dns_lookup (\<lambda>_ _. None) (\<lambda>_. True) DNS_C_IN DNS_T_PTR ''1:x'' 7 (loaded\<lparr>d_failure := False\<rparr>) = Some (s, Some r) \<and>
    d_store s r = None \<and> d_calls s = [(7, r)]"
proof -
  have "list_of (loaded\<lparr>d_failure := False\<rparr>) l = []" for l by (cases l) (simp_all add: loaded_def)
  then have "lists_ok (loaded\<lparr>d_failure := False\<rparr>)" by (simp add: lists_ok_def) (simp add: loaded_def)
  then have "dns_wf (loaded\<lparr>d_failure := False\<rparr>)" by (simp add: dns_wf_def loose_def loaded_def)
  moreover have "ith_strchr ''1:x'' (CHR '':'') \<noteq> None" by code_simp
  ultimately show ?thesis
    using dns_lookup_returns_freed [of "loaded\<lparr>d_failure := False\<rparr>" "''1:x''" "\<lambda>_ _. None" "\<lambda>_. True" 7]
    by (simp add: loaded_def DNS_MAX_NAMELEN_def find_dns_lookup_def)
qed

end
