(* ===== verification/UserMode.thy ===== *)
theory UserMode
  imports CString
begin

text \<open>
  User modes: the mode table of \<^verbatim>\<open>modules/ircd/client.c\<close> (requesting, releasing, listing,
  comparing, setting and unsetting modes) with the loops of \<^verbatim>\<open>ircd.c\<close> that set it up. A table
  indexed by an \<^verbatim>\<open>unsigned char\<close> is a function on characters. A changer is looked up by its
  name when it is called: what it does is a parameter.
\<close>

unbundle bit_operations_syntax

section \<open>The mode table\<close>

type_synonym u64 = "64 word"

definition all_bytes :: "char list" where
  "all_bytes = map char_of [0..<256::nat]"

text \<open>The modes that there are: \<^verbatim>\<open>a-z\<close>, \<^verbatim>\<open>A-Z\<close> and \<^verbatim>\<open>0-9\<close>, in this order.\<close>

definition mode_letters :: "char list" where
  "mode_letters = map char_of ([97..<123] @ [65..<91] @ [48..<58::nat])"

fun mode_loop :: "u64 \<Rightarrow> char list \<Rightarrow> char \<Rightarrow> u64" where
  "mode_loop ui64 [] = (\<lambda>_. 0)"
| "mode_loop ui64 (c # cs) = (mode_loop (push_bit 1 ui64) cs)(c := ui64)"

definition USERMODE_FL_GLOBAL :: u32 where "USERMODE_FL_GLOBAL = 0x1"
definition USERMODE_FL_OPER :: u32 where "USERMODE_FL_OPER = 0x2"

record usermode =
  um_mode :: char
  um_avail :: bool
  um_mask :: u64
  um_flags :: u32
  um_changer :: "cstring option"
  um_sflag :: int

record umodes =
  us_modes :: "char \<Rightarrow> usermode"
  us_avail :: cstring

definition init_umodes :: umodes where
  "init_umodes =
     \<lparr>us_modes = (\<lambda>c. \<lparr>um_mode = (if c \<in> set mode_letters then c else NUL), um_avail = (c \<in> set mode_letters),
        um_mask = mode_loop 1 mode_letters c, um_flags = 0, um_changer = None, um_sflag = 0\<rparr>), us_avail = []\<rparr>"

definition um_global :: "umodes \<Rightarrow> bool \<Rightarrow> char \<Rightarrow> bool" where
  "um_global st global i \<longleftrightarrow> \<not> global \<or> um_flags (us_modes st i) AND USERMODE_FL_GLOBAL \<noteq> 0"

text \<open>\<open>None\<close> is a write behind the array of 66 characters.\<close>

definition usermode_getstr :: "umodes \<Rightarrow> u64 \<Rightarrow> bool \<Rightarrow> cstring option" where
  "usermode_getstr st modes global =
     (let s = ''+'' @ map (\<lambda>i. um_mode (us_modes st i))
                (filter (\<lambda>i. modes AND um_mask (us_modes st i) \<noteq> 0 \<and> um_global st global i) all_bytes) in
      if length s < 66 then Some s else None)"

fun usermode_getmask :: "umodes \<Rightarrow> cstring \<Rightarrow> bool \<Rightarrow> u64" where
  "usermode_getmask st [] global = 0"
| "usermode_getmask st (c # s) global =
     (if um_global st global c then um_mask (us_modes st c) else 0) OR usermode_getmask st s global"

definition usermode_diff :: "umodes \<Rightarrow> u64 \<Rightarrow> u64 \<Rightarrow> bool \<Rightarrow> cstring" where
  "usermode_diff st old new global =
     (let changed = (\<lambda>was is. map (\<lambda>i. um_mode (us_modes st i))
            (filter (\<lambda>i. um_global st global i \<and> was AND um_mask (us_modes st i) = 0 \<and>
                         is AND um_mask (us_modes st i) \<noteq> 0) all_bytes));
          p = ''+'' @ changed old new;
          p = (if last p = CHR ''+'' then butlast p else p);
          m = p @ ''-'' @ changed new old in
      if last m = CHR ''-'' then butlast m else m)"

text \<open>
  The mode to give out: the suggested one, the same letter in the other case, or the first one that
  is free.
\<close>

definition is_lower :: "char \<Rightarrow> bool" where
  "is_lower c \<longleftrightarrow> 97 \<le> uchar c \<and> uchar c < 123"

definition other_case :: "char \<Rightarrow> char" where
  "other_case c = (if is_lower c then toupper c else tolower c)"

definition find_umode :: "umodes \<Rightarrow> char \<Rightarrow> char option" where
  "find_umode st suggested =
     (if um_avail (us_modes st suggested) then Some suggested
      else if um_avail (us_modes st (other_case suggested)) then Some (other_case suggested)
      else find (\<lambda>i. um_avail (us_modes st i) \<and> um_mask (us_modes st i) \<noteq> 0) all_bytes)"

definition used_umodes :: "umodes \<Rightarrow> u64" where
  "used_umodes st =
     foldl (\<lambda>all i. if \<not> um_avail (us_modes st i) then all OR um_mask (us_modes st i) else all) 0 all_bytes"

definition put_umode :: "umodes \<Rightarrow> char \<Rightarrow> usermode \<Rightarrow> umodes" where
  "put_umode st c md = st\<lparr>us_modes := (us_modes st)(c := md)\<rparr>"

text \<open>
  \<open>Some None\<close> is the return value 0; otherwise the mode given out and its mask. The outer
  \<open>None\<close> is a write outside an array, which the string of the modes in use does not cause.
\<close>

definition usermode_request :: "umodes \<Rightarrow> char \<Rightarrow> u32 \<Rightarrow> int \<Rightarrow> cstring option
    \<Rightarrow> (umodes \<times> (char \<times> u64) option) option" where
  "usermode_request st suggested flags sflag changer =
     (case find_umode st suggested of
        None \<Rightarrow> Some (st, None)
      | Some c \<Rightarrow>
          (let md = us_modes st c;
               st1 = put_umode st c (md\<lparr>um_avail := False, um_flags := flags, um_changer := changer, um_sflag := sflag\<rparr>) in
           case usermode_getstr st1 (used_umodes st OR um_mask md) False of
             None \<Rightarrow> None
           | Some s \<Rightarrow>
               if length s > 64 then None
               else Some (st1\<lparr>us_avail := tl s\<rparr>, Some (um_mode md, um_mask md))))"

definition usermode_release :: "umodes \<Rightarrow> char \<Rightarrow> umodes option" where
  "usermode_release st mode =
     (let md = us_modes st mode;
          st1 = put_umode st mode (md\<lparr>um_avail := True, um_flags := 0, um_changer := None\<rparr>) in
      case usermode_getstr st1 (used_umodes st AND NOT (um_mask md)) False of
        None \<Rightarrow> None
      | Some s \<Rightarrow> if length s > 64 then None else Some (st1\<lparr>us_avail := tl s\<rparr>))"

section \<open>Setting and unsetting\<close>

text \<open>A client: its modes, whether it is local and the send flags it is in.\<close>

record mode_client =
  mc_modes :: u64
  mc_local :: bool
  mc_sflags :: "int list"

definition oper :: "umodes \<Rightarrow> mode_client \<Rightarrow> bool" where
  "oper st on \<longleftrightarrow> mc_modes on AND um_mask (us_modes st (CHR ''o'')) \<noteq> 0"

text \<open>The two functions of \<^verbatim>\<open>send.c\<close>, called with force.\<close>

definition add_to_send_flag :: "int \<Rightarrow> mode_client \<Rightarrow> mode_client" where
  "add_to_send_flag flg cli =
     (if \<not> mc_local cli \<or> flg \<in> set (mc_sflags cli) then cli else cli\<lparr>mc_sflags := flg # mc_sflags cli\<rparr>)"

definition remove_from_send_flag :: "int \<Rightarrow> mode_client \<Rightarrow> mode_client" where
  "remove_from_send_flag flg cli = cli\<lparr>mc_sflags := remove1 flg (mc_sflags cli)\<rparr>"

text \<open>
  A changer: from its name, the mode, whether it is set, the argument and the client, the client
  afterwards, its answer and whether it used the argument.
\<close>

type_synonym changer = "cstring \<Rightarrow> char \<Rightarrow> bool \<Rightarrow> cstring option \<Rightarrow> mode_client \<Rightarrow> mode_client \<times> bool \<times> bool"

definition call_changer :: "changer \<Rightarrow> usermode \<Rightarrow> char \<Rightarrow> bool \<Rightarrow> cstring option \<Rightarrow> mode_client
    \<Rightarrow> mode_client \<times> bool \<times> bool" where
  "call_changer chg md mode adding arg on =
     (case um_changer md of None \<Rightarrow> (on, True, False) | Some f \<Rightarrow> chg f mode adding arg on)"

definition usermode_set :: "umodes \<Rightarrow> changer \<Rightarrow> char \<Rightarrow> mode_client \<Rightarrow> cstring option
    \<Rightarrow> mode_client \<times> bool \<times> bool" where
  "usermode_set st chg mode on arg =
     (let md = us_modes st mode in
      if um_avail md \<or> um_mask md = 0 then (on, False, False)
      else if mc_modes on AND um_mask md \<noteq> 0 then (on, True, False)
      else (case call_changer chg md mode True arg on of
        (on1, ok, used) \<Rightarrow>
          if \<not> ok \<and> mc_local on1 then (on1, False, used)
          else if mc_local on1 \<and> \<not> oper st on1 \<and> um_flags md AND USERMODE_FL_OPER \<noteq> 0 then (on1, False, used)
          else (let on2 = on1\<lparr>mc_modes := mc_modes on1 OR um_mask md\<rparr> in
                ((if um_sflag md > - 1 \<and> mc_local on2 then add_to_send_flag (um_sflag md) on2 else on2), True, used))))"

definition usermode_unset :: "umodes \<Rightarrow> changer \<Rightarrow> char \<Rightarrow> mode_client \<Rightarrow> cstring option
    \<Rightarrow> mode_client \<times> bool \<times> bool" where
  "usermode_unset st chg mode on arg =
     (let md = us_modes st mode in
      if um_avail md \<or> um_mask md = 0 then (on, False, False)
      else if mc_modes on AND um_mask md = 0 then (on, True, False)
      else (case call_changer chg md mode False arg on of
        (on1, ok, used) \<Rightarrow>
          if \<not> ok \<and> mc_local on1 then (on1, False, used)
          else (let on2 = on1\<lparr>mc_modes := mc_modes on1 AND NOT (um_mask md)\<rparr> in
                ((if um_sflag md > - 1 \<and> mc_local on2 then remove_from_send_flag (um_sflag md) on2 else on2), True, used))))"

section \<open>The MODE command for a user\<close>

text \<open>
  The walk of \<^verbatim>\<open>user_mode\<close> along the mode string: the client, the unknown modes and the modes
  that were refused. \<open>used\<close> and \<open>oarg\<close> are \<^verbatim>\<open>argused\<close> and \<^verbatim>\<open>oarg\<close>: the
  argument that the last mode used is passed when the next one is reached.
\<close>

fun user_mode_loop :: "umodes \<Rightarrow> changer \<Rightarrow> cstring list \<Rightarrow> bool \<Rightarrow> bool \<Rightarrow> nat \<Rightarrow> cstring \<Rightarrow> mode_client
    \<Rightarrow> cstring \<Rightarrow> cstring \<Rightarrow> mode_client \<times> cstring \<times> cstring" where
  "user_mode_loop st chg argv adding used oarg [] on unknown noperm = (on, unknown, noperm)"
| "user_mode_loop st chg argv adding used oarg (c # modes) on unknown noperm =
     (if c = CHR ''+'' then user_mode_loop st chg argv True used oarg modes on unknown noperm
      else if c = CHR ''-'' then user_mode_loop st chg argv False used oarg modes on unknown noperm
      else
        let oarg = (if used then oarg + 1 else oarg);
            arg = (if oarg \<ge> length argv then None else Some (argv ! oarg)) in
        case (if adding then usermode_set st chg c on arg else usermode_unset st chg c on arg) of
          (on1, ok, used1) \<Rightarrow>
            user_mode_loop st chg argv adding used1 oarg modes on1
              (if \<not> ok \<and> um_avail (us_modes st c) then unknown @ [c] else unknown)
              (if \<not> ok \<and> \<not> um_avail (us_modes st c) then noperm @ [c] else noperm))"

text \<open>
  \<open>same\<close> tells whether the client sets its own modes, no client does, or the client is on a
  master server. The result is the client, the unknown and the refused modes, and what is sent to
  the client and to the other servers.
\<close>

definition user_mode :: "umodes \<Rightarrow> changer \<Rightarrow> bool \<Rightarrow> cstring list \<Rightarrow> mode_client
    \<Rightarrow> mode_client \<times> cstring \<times> cstring \<times> cstring \<times> cstring" where
  "user_mode st chg same argv on =
     (if argv = [] \<or> \<not> same then (on, [], [], [], [])
      else (case user_mode_loop st chg argv True False 1 (hd argv) on [] [] of
        (on1, unknown, noperm) \<Rightarrow>
          (on1, unknown, noperm,
           if mc_local on then usermode_diff st (mc_modes on) (mc_modes on1) False else [],
           usermode_diff st (mc_modes on) (mc_modes on1) True)))"

section \<open>Masks\<close>

definition pos_in :: "char list \<Rightarrow> char \<Rightarrow> nat" where
  "pos_in xs c = length (takeWhile (\<lambda>x. x \<noteq> c) xs)"

abbreviation mode_pos :: "char \<Rightarrow> nat" where
  "mode_pos \<equiv> pos_in mode_letters"

lemma pos_in_simps [simp]:
  "pos_in (x # xs) c = (if x = c then 0 else Suc (pos_in xs c))" "pos_in [] c = 0"
  by (simp_all add: pos_in_def)

lemma pos_in_nth: "c \<in> set xs \<Longrightarrow> pos_in xs c < length xs \<and> xs ! pos_in xs c = c"
  by (induction xs) auto

lemma nth_pos_in: "distinct xs \<Longrightarrow> n < length xs \<Longrightarrow> pos_in xs (xs ! n) = n"
proof (induction xs arbitrary: n)
  case (Cons x xs)
  then show ?case by (cases n) auto
qed simp

lemma mode_loop_eq:
  "mode_loop (push_bit k 1) xs c = (if c \<in> set xs then push_bit (k + pos_in xs c) 1 else 0)"
proof (induction xs arbitrary: k)
  case (Cons x xs)
  have "push_bit 1 (push_bit k (1::u64)) = push_bit (Suc k) 1" by simp
  then show ?case using Cons [of "Suc k"] by (simp del: push_bit_Suc)
qed simp

lemma all_bytes_UNIV: "set all_bytes = UNIV"
proof -
  have "c \<in> set all_bytes" for c
    using imageI [of "uchar c" "{0..<256}" char_of] by (simp add: all_bytes_def)
  then show ?thesis by auto
qed

lemma distinct_all_bytes: "distinct all_bytes"
  unfolding all_bytes_def distinct_map by (auto simp: inj_on_def dest: arg_cong [of _ _ uchar])

lemma mode_letters_props: "distinct mode_letters" "length mode_letters = 62"
  by code_simp+

text \<open>The masks and letters of the table never change.\<close>

definition um_wf :: "umodes \<Rightarrow> bool" where
  "um_wf st \<longleftrightarrow>
     (\<forall>c. um_mask (us_modes st c) = mode_loop 1 mode_letters c) \<and>
     (\<forall>c \<in> set mode_letters. um_mode (us_modes st c) = c)"

lemma um_wf_mask:
  "um_wf st \<Longrightarrow> um_mask (us_modes st c) = (if c \<in> set mode_letters then push_bit (mode_pos c) 1 else 0)"
  using mode_loop_eq [of 0 mode_letters c] by (simp add: um_wf_def)

lemma mode_pos_less: "c \<in> set mode_letters \<Longrightarrow> mode_pos c < 62"
  using pos_in_nth [of c mode_letters] mode_letters_props(2) by simp

lemma mode_pos_inj: "c \<in> set mode_letters \<Longrightarrow> d \<in> set mode_letters \<Longrightarrow> mode_pos c = mode_pos d \<Longrightarrow> c = d"
  by (metis pos_in_nth)

lemma um_wf_test:
  "um_wf st \<Longrightarrow> m AND um_mask (us_modes st c) \<noteq> 0 \<longleftrightarrow> c \<in> set mode_letters \<and> bit m (mode_pos c)"
  using and_exp_eq_0_iff_not_bit [of m "mode_pos c"] by (simp add: um_wf_mask push_bit_eq_mult)

lemma bit_um_mask:
  "um_wf st \<Longrightarrow> bit (um_mask (us_modes st c)) n \<longleftrightarrow> c \<in> set mode_letters \<and> n = mode_pos c"
  using mode_pos_less [of c] by (auto simp: um_wf_mask bit_simps)

text \<open>A value of modes has no bit but those of the letters.\<close>

definition known :: "u64 \<Rightarrow> bool" where
  "known m \<longleftrightarrow> (\<forall>n. bit m n \<longrightarrow> n < 62)"

lemma known_letter: "known m \<Longrightarrow> bit m n \<Longrightarrow> \<exists>c \<in> set mode_letters. mode_pos c = n"
  using nth_pos_in [OF mode_letters_props(1), of n] mode_letters_props(2)
  by (auto simp: known_def intro!: bexI [of _ "mode_letters ! n"])

lemma bit_getmask:
  "um_wf st \<Longrightarrow> bit (usermode_getmask st s global) n \<longleftrightarrow>
     (\<exists>c \<in> set s. um_global st global c \<and> c \<in> set mode_letters \<and> n = mode_pos c)"
  by (induction s) (auto simp: bit_or_iff bit_um_mask)

lemma filter_letters:
  assumes "\<And>c. P c \<Longrightarrow> c \<in> set mode_letters"
  shows "length (filter P all_bytes) \<le> 62"
proof -
  have "length (filter P all_bytes) = card (set (filter P all_bytes))"
    using distinct_card [OF distinct_filter [OF distinct_all_bytes, of P]] by simp
  also have "\<dots> \<le> card (set mode_letters)" using assms by (intro card_mono) auto
  also have "\<dots> = 62" using mode_letters_props by (simp add: distinct_card)
  finally show ?thesis .
qed

lemma map_modes:
  "um_wf st \<Longrightarrow> (\<And>c. P c \<Longrightarrow> c \<in> set mode_letters) \<Longrightarrow>
     map (\<lambda>i. um_mode (us_modes st i)) (filter P all_bytes) = filter P all_bytes"
  by (rule map_idI) (auto simp: um_wf_def)

text \<open>The string of a value of modes: its letters in the order of their codes.\<close>

lemma usermode_getstr_eq:
  assumes "um_wf st"
  shows "usermode_getstr st m global =
    Some (CHR ''+'' # filter (\<lambda>c. c \<in> set mode_letters \<and> bit m (mode_pos c) \<and> um_global st global c) all_bytes)"
  using filter_letters [of "\<lambda>c. c \<in> set mode_letters \<and> bit m (mode_pos c) \<and> um_global st global c"]
    map_modes [OF assms, of "\<lambda>c. c \<in> set mode_letters \<and> bit m (mode_pos c) \<and> um_global st global c"]
  by (simp add: usermode_getstr_def um_wf_test [OF assms] conj_assoc)

section \<open>Applying a mode string\<close>

text \<open>What a string of changes means, from the sign in force.\<close>

fun apply_modes :: "umodes \<Rightarrow> bool \<Rightarrow> cstring \<Rightarrow> u64 \<Rightarrow> u64" where
  "apply_modes st adding [] m = m"
| "apply_modes st adding (c # s) m =
     (if c = CHR ''+'' then apply_modes st True s m
      else if c = CHR ''-'' then apply_modes st False s m
      else apply_modes st adding s
        (if adding then m OR um_mask (us_modes st c) else m AND NOT (um_mask (us_modes st c))))"

lemma not_signs: "CHR ''+'' \<notin> set mode_letters" "CHR ''-'' \<notin> set mode_letters"
  by code_simp+

lemma apply_letters:
  "um_wf st \<Longrightarrow> set s \<subseteq> set mode_letters \<Longrightarrow>
     bit (apply_modes st adding (s @ t) m) n \<longleftrightarrow>
     bit (apply_modes st adding t (if adding then m OR usermode_getmask st s False else m AND NOT (usermode_getmask st s False))) n"
proof (induction s arbitrary: m)
  case (Cons c s)
  then have "c \<noteq> CHR ''+''" "c \<noteq> CHR ''-''" using not_signs by auto
  then show ?case using Cons by (simp add: um_global_def or.assoc and.assoc bit.de_Morgan_disj)
qed simp

lemma usermode_diff_eq:
  assumes "um_wf st"
  shows "usermode_diff st old new global =
    (let ch = (\<lambda>was is. filter (\<lambda>c. c \<in> set mode_letters \<and> um_global st global c \<and>
           \<not> bit was (mode_pos c) \<and> bit is (mode_pos c)) all_bytes) in
     (if ch old new = [] then [] else CHR ''+'' # ch old new) @
     (if ch new old = [] then [] else CHR ''-'' # ch new old))"
proof -
  let ?P = "\<lambda>was is c. c \<in> set mode_letters \<and> um_global st global c \<and> \<not> bit was (mode_pos c) \<and> bit is (mode_pos c)"
  have t: "um_global st global i \<and> was AND um_mask (us_modes st i) = 0 \<and> is AND um_mask (us_modes st i) \<noteq> 0 \<longleftrightarrow>
      ?P was is i" for i was "is"
    using um_wf_test [OF assms, of was i] um_wf_test [OF assms, of "is" i] by auto
  have ch: "map (\<lambda>i. um_mode (us_modes st i)) (filter (?P was is) all_bytes) = filter (?P was is) all_bytes" for was "is"
    by (rule map_modes [OF assms]) simp
  have ends: "filter (?P was is) all_bytes \<noteq> [] \<Longrightarrow> last (filter (?P was is) all_bytes) \<in> set mode_letters" for was "is"
    using last_in_set [of "filter (?P was is) all_bytes"] by simp
  show ?thesis
    unfolding usermode_diff_def t ch Let_def
    using ends [of old new] ends [of new old] not_signs by auto
qed

lemma bit_add: "bit (m OR k) n \<longleftrightarrow> bit m n \<or> bit k (n::nat)" for m k :: u64
  by (rule bit_or_iff)

text \<open>A difference changes exactly the modes that it may name.\<close>

lemma apply_diff:
  assumes "um_wf st"
  shows "bit (apply_modes st True (usermode_diff st old new global) old) n =
    (if \<exists>c \<in> set mode_letters. n = mode_pos c \<and> um_global st global c then bit new n else bit old n)"
proof -
  define ch where "ch was is = filter (\<lambda>c. c \<in> set mode_letters \<and> um_global st global c \<and>
    \<not> bit was (mode_pos c) \<and> bit is (mode_pos c)) all_bytes" for was "is" :: u64
  have sub: "set (ch was is) \<subseteq> set mode_letters" for was "is" by (auto simp: ch_def)
  have mem: "c \<in> set (ch was is) \<longleftrightarrow> c \<in> set mode_letters \<and> um_global st global c \<and>
      \<not> bit was (mode_pos c) \<and> bit is (mode_pos c)" for c was "is"
    by (auto simp: ch_def all_bytes_UNIV)
  let ?p = "if ch old new = [] then [] else CHR ''+'' # ch old new"
  let ?m = "if ch new old = [] then [] else CHR ''-'' # ch new old"
  let ?M = "usermode_getmask st (ch new old) False" and ?P = "usermode_getmask st (ch old new) False"
  have minus: "bit (apply_modes st True ?m m) n \<longleftrightarrow> bit (m AND NOT ?M) n" for m
    using apply_letters [OF assms sub, of False new old "[]" m n] by (cases "ch new old = []") simp_all
  have "bit (apply_modes st True (?p @ ?m) old) n \<longleftrightarrow> bit (apply_modes st True ?m (old OR ?P)) n"
    using apply_letters [OF assms sub, of True old new ?m old n] by (cases "ch old new = []") simp_all
  then have "bit (apply_modes st True (usermode_diff st old new global) old) n \<longleftrightarrow> bit ((old OR ?P) AND NOT ?M) n"
    unfolding minus usermode_diff_eq [OF assms] Let_def ch_def [symmetric] .
  also have "\<dots> \<longleftrightarrow> (bit old n \<or> bit ?P n) \<and> \<not> bit ?M n"
    using bit_imp_le_length [of old n] bit_imp_le_length [of ?P n]
    by (auto simp: bit_and_iff bit_or_iff bit_not_iff)
  finally show ?thesis
    using mode_pos_inj by (auto simp: bit_getmask [OF assms] um_global_def mem)
qed

section \<open>Giving out modes\<close>

text \<open>Between calls: the modes of the table are the letters, and the string names those in use.\<close>

definition um_inv :: "umodes \<Rightarrow> bool" where
  "um_inv st \<longleftrightarrow>
     um_wf st \<and> (\<forall>c. um_avail (us_modes st c) \<longrightarrow> c \<in> set mode_letters) \<and>
     us_avail st = filter (\<lambda>c. c \<in> set mode_letters \<and> \<not> um_avail (us_modes st c)) all_bytes"

lemma bit_foldl_or:
  "bit (foldl (\<lambda>all i. if P i then all OR f i else all) (m::u64) xs) n \<longleftrightarrow> bit m n \<or> (\<exists>i \<in> set xs. P i \<and> bit (f i) n)"
  by (induction xs arbitrary: m) (auto simp: bit_or_iff)

lemma bit_used:
  "um_wf st \<Longrightarrow> bit (used_umodes st) n \<longleftrightarrow>
     (\<exists>c \<in> set mode_letters. \<not> um_avail (us_modes st c) \<and> n = mode_pos c)"
  by (auto simp: used_umodes_def bit_foldl_or all_bytes_UNIV bit_um_mask)

lemma put_umode_wf:
  "um_wf st \<Longrightarrow> um_mask md = um_mask (us_modes st c) \<Longrightarrow> um_mode md = um_mode (us_modes st c) \<Longrightarrow>
     um_wf (put_umode st c md)"
  by (simp add: um_wf_def put_umode_def)

lemma getstr_used:
  assumes "um_wf st" "\<And>c. c \<in> set mode_letters \<Longrightarrow> bit m (mode_pos c) \<longleftrightarrow> \<not> um_avail (us_modes st c)"
  shows "usermode_getstr st m False =
    Some (CHR ''+'' # filter (\<lambda>c. c \<in> set mode_letters \<and> \<not> um_avail (us_modes st c)) all_bytes)"
proof -
  have "(\<lambda>c. c \<in> set mode_letters \<and> bit m (mode_pos c) \<and> um_global st False c) =
      (\<lambda>c. c \<in> set mode_letters \<and> \<not> um_avail (us_modes st c))"
    using assms(2) by (auto simp: um_global_def fun_eq_iff)
  then show ?thesis using usermode_getstr_eq [OF assms(1), of m False] by simp
qed

lemma find_umode_ok:
  assumes "um_inv st"
  shows "case find_umode st suggested of
      None \<Rightarrow> \<forall>c \<in> set mode_letters. \<not> um_avail (us_modes st c)
    | Some c \<Rightarrow> c \<in> set mode_letters \<and> um_avail (us_modes st c) \<and>
        (um_avail (us_modes st suggested) \<longrightarrow> c = suggested)"
proof -
  have avail: "um_avail (us_modes st c) \<Longrightarrow> c \<in> set mode_letters" for c using assms by (simp add: um_inv_def)
  have mask: "um_mask (us_modes st c) \<noteq> 0 \<longleftrightarrow> c \<in> set mode_letters" for c
    using um_wf_test [of st "- 1" c] assms mode_pos_less [of c] by (auto simp: um_inv_def bit_minus_1_iff)
  show ?thesis
  proof (cases "find_umode st suggested")
    case None
    then show ?thesis
      using mask by (auto simp: find_umode_def find_None_iff all_bytes_UNIV split: if_splits)
  next
    case (Some c)
    then show ?thesis
      using avail by (auto simp: find_umode_def find_Some_iff split: if_splits)
  qed
qed

lemma used_length:
  "length (CHR ''+'' # filter (\<lambda>c. c \<in> set mode_letters \<and> Q c) all_bytes) \<le> 64"
  using filter_letters [of "\<lambda>c. c \<in> set mode_letters \<and> Q c"] by simp

lemma usermode_request_inv:
  assumes "um_inv st"
  shows "\<exists>st' r. usermode_request st suggested flags sflag changer = Some (st', r) \<and> um_inv st' \<and>
    (case r of
       None \<Rightarrow> st' = st \<and> (\<forall>c \<in> set mode_letters. \<not> um_avail (us_modes st c))
     | Some (c, m) \<Rightarrow> c \<in> set mode_letters \<and> um_avail (us_modes st c) \<and> m = push_bit (mode_pos c) 1 \<and>
         (um_avail (us_modes st suggested) \<longrightarrow> c = suggested) \<and>
         (\<forall>d. um_avail (us_modes st' d) \<longleftrightarrow> um_avail (us_modes st d) \<and> d \<noteq> c))"
proof (cases "find_umode st suggested")
  case None
  then show ?thesis using find_umode_ok [OF assms, of suggested] assms by (simp add: usermode_request_def)
next
  case (Some c)
  have wf: "um_wf st" using assms by (simp add: um_inv_def)
  have c: "c \<in> set mode_letters" "um_avail (us_modes st c)" "um_avail (us_modes st suggested) \<longrightarrow> c = suggested"
    using find_umode_ok [OF assms, of suggested] Some by simp_all
  let ?md = "(us_modes st c)\<lparr>um_avail := False, um_flags := flags, um_changer := changer, um_sflag := sflag\<rparr>"
  let ?s = "put_umode st c ?md"
  have wf': "um_wf ?s" by (rule put_umode_wf [OF wf]) simp_all
  have "usermode_getstr ?s (used_umodes st OR um_mask (us_modes st c)) False =
      Some (CHR ''+'' # filter (\<lambda>c. c \<in> set mode_letters \<and> \<not> um_avail (us_modes ?s c)) all_bytes)" (is "_ = Some ?str")
    by (rule getstr_used [OF wf']) (use mode_pos_inj c(1) in \<open>auto simp: bit_or_iff bit_used [OF wf] bit_um_mask [OF wf] put_umode_def\<close>)
  moreover have "length ?str \<le> 64" by (rule used_length)
  ultimately have "usermode_request st suggested flags sflag changer =
      Some (?s\<lparr>us_avail := tl ?str\<rparr>, Some (um_mode (us_modes st c), um_mask (us_modes st c)))"
    using Some by (simp add: usermode_request_def Let_def del: list.size)
  moreover have "um_inv (?s\<lparr>us_avail := tl ?str\<rparr>)"
    using wf' assms by (auto simp: um_inv_def um_wf_def put_umode_def)
  moreover have "um_mask (us_modes st c) = push_bit (mode_pos c) 1" "um_mode (us_modes st c) = c"
    using um_wf_mask [OF wf, of c] wf c(1) by (simp_all add: um_wf_def)
  moreover have "um_avail (us_modes (?s\<lparr>us_avail := tl ?str\<rparr>) d) \<longleftrightarrow> um_avail (us_modes st d) \<and> d \<noteq> c" for d
    by (simp add: put_umode_def)
  ultimately show ?thesis using c by (intro exI conjI) (assumption, assumption, simp)
qed

lemma usermode_release_inv:
  assumes "um_inv st" "mode \<in> set mode_letters"
  shows "\<exists>st'. usermode_release st mode = Some st' \<and> um_inv st' \<and>
    (\<forall>d. um_avail (us_modes st' d) \<longleftrightarrow> um_avail (us_modes st d) \<or> d = mode)"
proof -
  have wf: "um_wf st" using assms by (simp add: um_inv_def)
  let ?md = "(us_modes st mode)\<lparr>um_avail := True, um_flags := 0, um_changer := None\<rparr>"
  let ?s = "put_umode st mode ?md"
  have wf': "um_wf ?s" by (rule put_umode_wf [OF wf]) simp_all
  have "bit (used_umodes st AND NOT (um_mask (us_modes st mode))) (mode_pos c) \<longleftrightarrow> \<not> um_avail (us_modes ?s c)"
    if "c \<in> set mode_letters" for c
    using mode_pos_inj [of c] that assms(2) mode_pos_less [of c]
    by (auto simp: bit_and_iff bit_not_iff bit_used [OF wf] bit_um_mask [OF wf] put_umode_def)
  then have "usermode_getstr ?s (used_umodes st AND NOT (um_mask (us_modes st mode))) False =
      Some (CHR ''+'' # filter (\<lambda>c. c \<in> set mode_letters \<and> \<not> um_avail (us_modes ?s c)) all_bytes)" (is "_ = Some ?str")
    by (rule getstr_used [OF wf'])
  moreover have "length ?str \<le> 64" by (rule used_length)
  ultimately have "usermode_release st mode = Some (?s\<lparr>us_avail := tl ?str\<rparr>)"
    by (simp add: usermode_release_def Let_def del: list.size)
  moreover have "um_inv (?s\<lparr>us_avail := tl ?str\<rparr>)"
    using wf' assms by (auto simp: um_inv_def um_wf_def put_umode_def)
  ultimately show ?thesis by (auto simp: put_umode_def)
qed

lemma init_um_inv: "um_inv init_umodes"
  by (auto simp: um_inv_def um_wf_def init_umodes_def)

section \<open>Properties\<close>

text \<open>From a table whose string names the modes in use, a request gives out a mode that was
  free, the suggested one when it is, and none only when all are taken; the string is rebuilt
  inside its array and no other mode changes hands.\<close>

theorem usermode_request_gives_free:
  assumes "um_inv st"
  shows "\<exists>st' r. usermode_request st suggested flags sflag changer = Some (st', r) \<and> um_inv st' \<and>
    (case r of
       None \<Rightarrow> st' = st \<and> (\<forall>c \<in> set mode_letters. \<not> um_avail (us_modes st c))
     | Some (c, m) \<Rightarrow> c \<in> set mode_letters \<and> um_avail (us_modes st c) \<and> m = push_bit (mode_pos c) 1 \<and>
         (um_avail (us_modes st suggested) \<longrightarrow> c = suggested) \<and>
         (\<forall>d. um_avail (us_modes st' d) \<longleftrightarrow> um_avail (us_modes st d) \<and> d \<noteq> c))"
  by (rule usermode_request_inv [OF assms])

theorem usermode_request_gives_free_witness:
  "\<exists>st' m. usermode_request init_umodes (CHR ''i'') 1 (- 1) None = Some (st', Some (CHR ''i'', m))"
proof -
  have "CHR ''i'' \<in> set mode_letters" by code_simp
  then have "um_avail (us_modes init_umodes (CHR ''i''))" by (simp add: init_umodes_def)
  then have "\<not> (\<forall>c \<in> set mode_letters. \<not> um_avail (us_modes init_umodes c))"
    using \<open>CHR ''i'' \<in> set mode_letters\<close> by blast
  then show ?thesis
    using usermode_request_gives_free [OF init_um_inv, of "CHR ''i''" 1 "- 1" None]
      \<open>um_avail (us_modes init_umodes (CHR ''i''))\<close>
    by (elim exE conjE) (auto split: option.splits)
qed

text \<open>C15: whatever a MODE command does to the modes of a user, the string sent to the other servers,
  applied there to the modes before it, gives the new value of every mode that is global and
  changes no other; the string shown to a local user gives the new value of every mode.\<close>

theorem user_mode_propagates:
  assumes "um_wf st" "argv \<noteq> []" "user_mode st chg True argv on = (on1, unknown, noperm, shown, sent)"
    and "c \<in> set mode_letters"
  shows "bit (apply_modes st True sent (mc_modes on)) (mode_pos c) =
      bit (mc_modes (if um_global st True c then on1 else on)) (mode_pos c) \<and>
    (mc_local on \<longrightarrow> bit (apply_modes st True shown (mc_modes on)) (mode_pos c) = bit (mc_modes on1) (mode_pos c))"
proof -
  have s: "sent = usermode_diff st (mc_modes on) (mc_modes on1) True"
    "mc_local on \<Longrightarrow> shown = usermode_diff st (mc_modes on) (mc_modes on1) False"
    using assms(2,3) by (auto simp: user_mode_def split: prod.splits)
  have inj: "(\<exists>d \<in> set mode_letters. mode_pos c = mode_pos d \<and> um_global st g d) \<longleftrightarrow> um_global st g c" for g
    using mode_pos_inj [OF assms(4)] assms(4) by auto
  have g: "um_global st False c" by (simp add: um_global_def)
  show ?thesis
  proof (intro conjI impI)
    show "bit (apply_modes st True sent (mc_modes on)) (mode_pos c) =
        bit (mc_modes (if um_global st True c then on1 else on)) (mode_pos c)"
      unfolding s(1) apply_diff [OF assms(1)] inj by simp
  next
    assume "mc_local on"
    then show "bit (apply_modes st True shown (mc_modes on)) (mode_pos c) = bit (mc_modes on1) (mode_pos c)"
      unfolding s(2) [OF \<open>mc_local on\<close>] apply_diff [OF assms(1)] inj using g by simp
  qed
qed

theorem user_mode_propagates_witness:
  "bit (apply_modes init_umodes True (snd (snd (snd (snd (user_mode init_umodes (\<lambda>_ _ _ _ on. (on, True, False)) True
     [''+i''] \<lparr>mc_modes = 0, mc_local = True, mc_sflags = []\<rparr>))))) 0) (mode_pos (CHR ''i'')) = False"
proof -
  let ?on = "\<lparr>mc_modes = 0, mc_local = True, mc_sflags = []\<rparr>"
  obtain on1 u n l g where m: "user_mode init_umodes (\<lambda>_ _ _ _ on. (on, True, False)) True [''+i''] ?on = (on1, u, n, l, g)"
    using prod_cases5 by blast
  have i: "CHR ''i'' \<in> set mode_letters" by code_simp
  have "\<not> um_global init_umodes True (CHR ''i'')" by (simp add: um_global_def init_umodes_def)
  then show ?thesis
    using user_mode_propagates [OF _ _ m i] init_um_inv m by (simp add: um_inv_def)
qed

end
