(* ===== verification/ChanMode.thy ===== *)
theory ChanMode
  imports UserMode
begin

text \<open>
  Channel modes: the mode table of \<^verbatim>\<open>modules/ircd/channel.c\<close>, from which addons request a
  mode and give it back, and the strings that list the modes. The handlers of a mode are kept by
  name. An array write out of bounds gives \<open>None\<close>.
\<close>

section \<open>The table\<close>

definition CHANMODE_FL_A :: u32 where "CHANMODE_FL_A = 0x01"
definition CHANMODE_FL_B :: u32 where "CHANMODE_FL_B = 0x02"
definition CHANMODE_FL_C :: u32 where "CHANMODE_FL_C = 0x04"
definition CHANMODE_FL_D :: u32 where "CHANMODE_FL_D = 0x08"
definition CHANMODE_FL_E :: u32 where "CHANMODE_FL_E = 0x10"
definition CHANMODE_FL_PREFIX :: u32 where "CHANMODE_FL_PREFIX = 0x20"

type_synonym short = "16 word"

record chanmode =
  cm_mode :: char
  cm_avail :: bool
  cm_mask :: u64
  cm_umask :: short
  cm_prefix :: char
  cm_changefunc :: "cstring option"
  cm_queryfunc :: "cstring option"
  cm_flags :: u32
  cm_mdi :: "nat option"

text \<open>\<^verbatim>\<open>pfxmap\<close> points to an entry of the table, which its mode character stands for.\<close>

record cmodes =
  cs_modes :: "char \<Rightarrow> chanmode"
  cs_pfxmap :: "char \<Rightarrow> char option"
  cs_avail :: cstring
  cs_pmodes :: cstring
  cs_prefix :: cstring
  cs_support :: cstring

definition init_cmodes :: cmodes where
  "init_cmodes =
     \<lparr>cs_modes = (\<lambda>c. \<lparr>cm_mode = (if c \<in> set mode_letters then c else NUL), cm_avail = (c \<in> set mode_letters),
        cm_mask = mode_loop 1 mode_letters c, cm_umask = 0, cm_prefix = NUL, cm_changefunc = None,
        cm_queryfunc = None, cm_flags = 0, cm_mdi = None\<rparr>),
      cs_pfxmap = (\<lambda>_. None), cs_avail = [], cs_pmodes = [], cs_prefix = [], cs_support = []\<rparr>"

definition put_cmode :: "cmodes \<Rightarrow> char \<Rightarrow> chanmode \<Rightarrow> cmodes" where
  "put_cmode st c md = st\<lparr>cs_modes := (cs_modes st)(c := md)\<rparr>"

text \<open>The characters of the table that satisfy a test, in order, as their modes.\<close>

definition modes_where :: "cmodes \<Rightarrow> (chanmode \<Rightarrow> bool) \<Rightarrow> cstring" where
  "modes_where st P = map (\<lambda>i. cm_mode (cs_modes st i)) (filter (\<lambda>i. P (cs_modes st i)) all_bytes)"

definition prefixes :: "cmodes \<Rightarrow> cstring" where
  "prefixes st = map (\<lambda>i. cm_prefix (cs_modes st i))
     (filter (\<lambda>i. \<not> cm_avail (cs_modes st i) \<and> cm_prefix (cs_modes st i) \<noteq> NUL) all_bytes)"

definition build_type :: "cmodes \<Rightarrow> u32 \<Rightarrow> cstring" where
  "build_type st flg = modes_where st (\<lambda>md. \<not> cm_avail md \<and> cm_flags md AND flg \<noteq> 0) @ '',''"

text \<open>
  Arrays of 69, 32, 64 and 256 characters. The last comma is wiped out, and one before it as well
  when there are no modes of type E.
\<close>

definition chanmode_build_lists :: "cmodes \<Rightarrow> cmodes option" where
  "chanmode_build_lists st =
     (let av = modes_where st (\<lambda>md. \<not> cm_avail md \<and> cm_mask md \<noteq> 0);
          pm = modes_where st (\<lambda>md. \<not> cm_avail md \<and> cm_prefix md \<noteq> NUL);
          pf = ''('' @ pm @ '')'' @ prefixes st;
          im = concat (map (build_type st) [CHANMODE_FL_A, CHANMODE_FL_B, CHANMODE_FL_C, CHANMODE_FL_D, CHANMODE_FL_E]);
          im1 = butlast im;
          im2 = (if last im1 = CHR '','' then butlast im1 else im1)
      in if length av < 69 \<and> length pm < 32 \<and> length pf < 64 \<and> length im \<le> 256
         then Some (st\<lparr>cs_avail := av, cs_pmodes := pm, cs_prefix := pf, cs_support := im2\<rparr>) else None)"

section \<open>Requesting and releasing\<close>

definition find_cmode :: "umodes \<Rightarrow> cmodes \<Rightarrow> char \<Rightarrow> char option" where
  "find_cmode us st suggested =
     (if cm_avail (cs_modes st suggested) then Some suggested
      else if cm_avail (cs_modes st (other_case suggested)) then Some (other_case suggested)
      else find (\<lambda>i. cm_avail (cs_modes st i) \<and> um_mask (us_modes us i) \<noteq> 0) all_bytes)"

text \<open>The member is a \<^verbatim>\<open>short\<close>, compared as a (promoted) \<^verbatim>\<open>int\<close> with a power of two.\<close>

definition umask_used :: "cmodes \<Rightarrow> nat \<Rightarrow> bool" where
  "umask_used st i \<longleftrightarrow> list_ex (\<lambda>j. sint (cm_umask (cs_modes st j)) = 2 ^ i) all_bytes"

definition free_umask :: "cmodes \<Rightarrow> nat option" where
  "free_umask st = find (\<lambda>i. \<not> umask_used st i) [0..<16]"

definition finish_request :: "cmodes \<Rightarrow> char \<Rightarrow> nat \<Rightarrow> (cmodes \<times> (char \<times> u64) option) option" where
  "finish_request st c extra =
     (let md = (cs_modes st c)\<lparr>cm_mdi := (if extra > 0 then Some extra else cm_mdi (cs_modes st c))\<rparr> in
      map_option (\<lambda>st'. (st', Some (cm_mode md, cm_mask md))) (chanmode_build_lists (put_cmode st c md)))"

text \<open>
  \<open>Some None\<close> is the return value 0; otherwise the mode given out and its mask. \<open>extdata\<close> is
  read for a prefix only.
\<close>

definition chanmode_request :: "umodes \<Rightarrow> cmodes \<Rightarrow> char \<Rightarrow> u32 \<Rightarrow> cstring \<Rightarrow> cstring \<Rightarrow> nat \<Rightarrow> cstring option
    \<Rightarrow> (cmodes \<times> (char \<times> u64) option) option" where
  "chanmode_request us st suggested flags changefn queryfn extra extdata =
     (case find_cmode us st suggested of
        None \<Rightarrow> Some (st, None)
      | Some c \<Rightarrow>
          (let md = (cs_modes st c)\<lparr>cm_avail := False, cm_umask := 0, cm_prefix := NUL,
                 cm_changefunc := Some changefn, cm_queryfunc := Some queryfn, cm_flags := flags, cm_mdi := None\<rparr>;
               st = put_cmode st c md
           in if flags = CHANMODE_FL_PREFIX then
                (case free_umask st of
                   None \<Rightarrow> Some (put_cmode st c (md\<lparr>cm_avail := True\<rparr>), None)
                 | Some i \<Rightarrow>
                     (case extdata of
                        None \<Rightarrow> None
                      | Some s \<Rightarrow>
                          finish_request ((put_cmode st c (md\<lparr>cm_umask := of_int (2 ^ i), cm_prefix := chd s\<rparr>))
                              \<lparr>cs_pfxmap := (cs_pfxmap st)(chd s := Some c)\<rparr>) c extra))
              else finish_request st c extra))"

text \<open>The rest of \<^verbatim>\<open>chanmode_release\<close>, after the handler has cleared the mode from every channel.\<close>

definition release_entry :: "cmodes \<Rightarrow> char \<Rightarrow> cmodes option" where
  "release_entry st mode =
     (let md = cs_modes st mode;
          st1 = (if cm_prefix md \<noteq> NUL then st\<lparr>cs_pfxmap := (cs_pfxmap st)(cm_prefix md := None)\<rparr> else st)
      in chanmode_build_lists (put_cmode st1 mode
           (md\<lparr>cm_avail := True, cm_umask := 0, cm_prefix := NUL, cm_changefunc := None,
               cm_queryfunc := None, cm_flags := 0\<rparr>)))"

definition cmode_exists :: "cmodes \<Rightarrow> char \<Rightarrow> bool" where
  "cmode_exists st mode \<longleftrightarrow> \<not> cm_avail (cs_modes st mode) \<and> cm_mask (cs_modes st mode) \<noteq> 0"

section \<open>The table between calls\<close>

definition cm_wf :: "cmodes \<Rightarrow> bool" where
  "cm_wf st \<longleftrightarrow>
     (\<forall>c. cm_mask (cs_modes st c) = mode_loop 1 mode_letters c) \<and>
     (\<forall>c \<in> set mode_letters. cm_mode (cs_modes st c) = c) \<and>
     (\<forall>c. cm_avail (cs_modes st c) \<longrightarrow> c \<in> set mode_letters) \<and>
     (\<forall>c. cm_prefix (cs_modes st c) \<noteq> NUL \<or> cm_umask (cs_modes st c) \<noteq> 0 \<or> cm_flags (cs_modes st c) \<noteq> 0 \<longrightarrow>
        c \<in> set mode_letters \<and> \<not> cm_avail (cs_modes st c))"

text \<open>The mode characters given out, and those of them that are prefixes.\<close>

definition in_use :: "cmodes \<Rightarrow> char \<Rightarrow> bool" where
  "in_use st c \<longleftrightarrow> c \<in> set mode_letters \<and> \<not> cm_avail (cs_modes st c)"

definition prefix_count :: "cmodes \<Rightarrow> nat" where
  "prefix_count st = length (filter (\<lambda>c. in_use st c \<and> cm_prefix (cs_modes st c) \<noteq> NUL) all_bytes)"

lemma cm_mask_iff: "cm_wf st \<Longrightarrow> cm_mask (cs_modes st c) \<noteq> 0 \<longleftrightarrow> c \<in> set mode_letters"
  using um_wf_test [of init_umodes "- 1" c] mode_pos_less [of c]
  by (auto simp: cm_wf_def um_wf_def init_umodes_def bit_minus_1_iff)

lemma cmode_exists_iff: "cm_wf st \<Longrightarrow> cmode_exists st c \<longleftrightarrow> in_use st c"
  by (auto simp: cmode_exists_def in_use_def cm_mask_iff)

lemma modes_where_letters:
  assumes "cm_wf st" "\<And>c. P (cs_modes st c) \<Longrightarrow> c \<in> set mode_letters"
  shows "modes_where st P = filter (\<lambda>c. P (cs_modes st c)) all_bytes"
  unfolding modes_where_def by (rule map_idI) (use assms in \<open>auto simp: cm_wf_def\<close>)

lemma avail_list:
  assumes "cm_wf st"
  shows "modes_where st (\<lambda>md. \<not> cm_avail md \<and> cm_mask md \<noteq> 0) = filter (in_use st) all_bytes"
proof -
  have "modes_where st (\<lambda>md. \<not> cm_avail md \<and> cm_mask md \<noteq> 0) =
      filter (\<lambda>c. \<not> cm_avail (cs_modes st c) \<and> cm_mask (cs_modes st c) \<noteq> 0) all_bytes"
    by (rule modes_where_letters [OF assms]) (simp add: cm_mask_iff [OF assms])
  also have "\<dots> = filter (in_use st) all_bytes"
    by (rule filter_cong) (auto simp: in_use_def cm_mask_iff [OF assms])
  finally show ?thesis .
qed

lemma prefix_list:
  assumes "cm_wf st"
  shows "modes_where st (\<lambda>md. \<not> cm_avail md \<and> cm_prefix md \<noteq> NUL) =
      filter (\<lambda>c. in_use st c \<and> cm_prefix (cs_modes st c) \<noteq> NUL) all_bytes"
    and "length (prefixes st) = prefix_count st"
proof -
  have w: "cm_prefix (cs_modes st c) \<noteq> NUL \<Longrightarrow> c \<in> set mode_letters" for c using assms by (auto simp: cm_wf_def)
  then have eq: "filter (\<lambda>c. \<not> cm_avail (cs_modes st c) \<and> cm_prefix (cs_modes st c) \<noteq> NUL) all_bytes =
      filter (\<lambda>c. in_use st c \<and> cm_prefix (cs_modes st c) \<noteq> NUL) all_bytes"
    by (intro filter_cong) (auto simp: in_use_def)
  show "modes_where st (\<lambda>md. \<not> cm_avail md \<and> cm_prefix md \<noteq> NUL) =
      filter (\<lambda>c. in_use st c \<and> cm_prefix (cs_modes st c) \<noteq> NUL) all_bytes"
    unfolding eq [symmetric] by (rule modes_where_letters [OF assms]) (use w in auto)
  show "length (prefixes st) = prefix_count st"
    by (simp add: prefixes_def prefix_count_def eq)
qed

section \<open>Building the lists\<close>

text \<open>A mode has one type.\<close>

definition flags_ok :: "u32 \<Rightarrow> bool" where
  "flags_ok fl \<longleftrightarrow> fl \<in> {0, CHANMODE_FL_A, CHANMODE_FL_B, CHANMODE_FL_C, CHANMODE_FL_D, CHANMODE_FL_E, CHANMODE_FL_PREFIX}"

lemmas cmode_flags = CHANMODE_FL_A_def CHANMODE_FL_B_def CHANMODE_FL_C_def CHANMODE_FL_D_def
  CHANMODE_FL_E_def CHANMODE_FL_PREFIX_def

definition type_flags :: "u32 list" where
  "type_flags = [CHANMODE_FL_A, CHANMODE_FL_B, CHANMODE_FL_C, CHANMODE_FL_D, CHANMODE_FL_E]"

lemma one_type: "flags_ok fl \<Longrightarrow> length (filter (\<lambda>t. fl AND t \<noteq> 0) type_flags) \<le> 1"
  by (auto simp: flags_ok_def type_flags_def cmode_flags)

text \<open>Counting by type or by character is the same.\<close>

lemma sum_filter_swap:
  "(\<Sum>t \<leftarrow> ts. length (filter (\<lambda>x. P x \<and> Q t x) xs)) =
     (\<Sum>x \<leftarrow> filter P xs. length (filter (\<lambda>t. Q t x) ts))"
proof (induction xs)
  case Nil
  show ?case by (induction ts) auto
next
  case (Cons x xs)
  have "(\<Sum>t \<leftarrow> ts. length (filter (\<lambda>x. P x \<and> Q t x) (x # xs))) =
      (\<Sum>t \<leftarrow> ts. (if P x \<and> Q t x then 1 else 0) + length (filter (\<lambda>x. P x \<and> Q t x) xs))"
    by (rule arg_cong [of _ _ sum_list]) auto
  also have "\<dots> = (\<Sum>t \<leftarrow> ts. if P x \<and> Q t x then 1 else 0) +
      (\<Sum>t \<leftarrow> ts. length (filter (\<lambda>x. P x \<and> Q t x) xs))"
    by (simp add: sum_list_addf)
  also have "(\<Sum>t \<leftarrow> ts. if P x \<and> Q t x then 1 else 0) = (if P x then length (filter (\<lambda>t. Q t x) ts) else 0)"
    by (induction ts) auto
  finally show ?case using Cons by simp
qed

lemma types_length:
  assumes "cm_wf st" "\<And>c. flags_ok (cm_flags (cs_modes st c))"
  shows "length (concat (map (build_type st) type_flags)) \<le> 67"
proof -
  let ?f = "\<lambda>c. cm_flags (cs_modes st c)"
  have "length (concat (map (build_type st) type_flags)) =
      (\<Sum>t \<leftarrow> type_flags. length (filter (\<lambda>c. \<not> cm_avail (cs_modes st c) \<and> ?f c AND t \<noteq> 0) all_bytes)) + 5"
    by (simp add: build_type_def modes_where_def type_flags_def)
  also have "(\<Sum>t \<leftarrow> type_flags. length (filter (\<lambda>c. \<not> cm_avail (cs_modes st c) \<and> ?f c AND t \<noteq> 0) all_bytes)) =
      (\<Sum>c \<leftarrow> filter (\<lambda>c. \<not> cm_avail (cs_modes st c)) all_bytes. length (filter (\<lambda>t. ?f c AND t \<noteq> 0) type_flags))"
    by (rule sum_filter_swap)
  also have "\<dots> \<le> (\<Sum>c \<leftarrow> all_bytes. if c \<in> set mode_letters then 1 else 0)"
  proof -
    have "(\<Sum>c \<leftarrow> filter (\<lambda>c. \<not> cm_avail (cs_modes st c)) cs. length (filter (\<lambda>t. ?f c AND t \<noteq> 0) type_flags)) \<le>
        (\<Sum>c \<leftarrow> cs. if c \<in> set mode_letters then 1 else 0)" for cs
    proof (induction cs)
      case (Cons c cs)
      have "length (filter (\<lambda>t. ?f c AND t \<noteq> 0) type_flags) \<le> (if c \<in> set mode_letters then 1 else 0)"
      proof (cases "?f c = 0")
        case False
        then have "c \<in> set mode_letters" using assms(1) by (auto simp: cm_wf_def)
        then show ?thesis using one_type [OF assms(2), of c] by simp
      qed simp
      then show ?case using Cons by (auto split: if_splits)
    qed simp
    then show ?thesis .
  qed
  also have "\<dots> = length (filter (\<lambda>c. c \<in> set mode_letters) all_bytes)"
    by (simp add: sum_list_map_filter' [symmetric] sum_list_triv)
  also have "\<dots> \<le> 62" by (rule filter_letters) simp
  finally show ?thesis by simp
qed

lemma build_lists_ok:
  assumes "cm_wf st" "\<And>c. flags_ok (cm_flags (cs_modes st c))" "prefix_count st \<le> 30"
  shows "\<exists>sup pfx. chanmode_build_lists st = Some (st\<lparr>cs_avail := filter (in_use st) all_bytes,
     cs_pmodes := filter (\<lambda>c. in_use st c \<and> cm_prefix (cs_modes st c) \<noteq> NUL) all_bytes,
     cs_prefix := pfx, cs_support := sup\<rparr>)"
proof -
  have "length (filter (in_use st) all_bytes) \<le> 62" by (rule filter_letters) (simp add: in_use_def)
  moreover have "length (filter (\<lambda>c. in_use st c \<and> cm_prefix (cs_modes st c) \<noteq> NUL) all_bytes) \<le> 30"
    using assms(3) by (simp add: prefix_count_def)
  moreover have "length (prefixes st) \<le> 30" using prefix_list(2) [OF assms(1)] assms(3) by simp
  ultimately show ?thesis
    using types_length [OF assms(1,2)] assms(3)
    by (simp add: chanmode_build_lists_def Let_def avail_list [OF assms(1)] prefix_list(1) [OF assms(1)]
        type_flags_def del: concat.simps list.map) (intro conjI impI; rule exI; rule exI; rule refl)
qed

section \<open>Giving out channel modes\<close>

text \<open>
  Between calls the lists describe the table, a mode of the prefix map is in use with that prefix,
  and two modes share a bit for members only when it is the sign bit.
\<close>

definition sign_bit :: short where "sign_bit = 0x8000"

definition umask_ok :: "cmodes \<Rightarrow> bool" where
  "umask_ok st \<longleftrightarrow>
     (\<forall>c. cm_umask (cs_modes st c) = 0 \<or> (\<exists>i < 16. cm_umask (cs_modes st c) = push_bit i 1)) \<and>
     (\<forall>c d. c \<noteq> d \<and> cm_umask (cs_modes st c) = cm_umask (cs_modes st d) \<longrightarrow>
        cm_umask (cs_modes st c) \<in> {0, sign_bit})"

definition pfxmap_ok :: "cmodes \<Rightarrow> bool" where
  "pfxmap_ok st \<longleftrightarrow> (\<forall>p c. cs_pfxmap st p = Some c \<longrightarrow> in_use st c \<and> cm_prefix (cs_modes st c) = p)"

definition cm_inv :: "cmodes \<Rightarrow> bool" where
  "cm_inv st \<longleftrightarrow> cm_wf st \<and> umask_ok st \<and> pfxmap_ok st \<and> (\<forall>c. flags_ok (cm_flags (cs_modes st c))) \<and>
     cs_avail st = filter (in_use st) all_bytes \<and>
     cs_pmodes st = filter (\<lambda>c. in_use st c \<and> cm_prefix (cs_modes st c) \<noteq> NUL) all_bytes"

lemma sint_umask: "i < 15 \<Longrightarrow> sint (push_bit i 1 :: short) = 2 ^ i"
proof -
  assume "i < 15"
  then have "i \<in> set [0..<15]" by simp
  moreover have "\<forall>i \<in> set [0..<15]. sint (push_bit i 1 :: short) = 2 ^ i" by code_simp
  ultimately show ?thesis by blast
qed

lemma sint_sign: "sint (w :: short) \<noteq> 2 ^ 15"
  using sint_lt [of w] by simp

lemma umask_used_iff: "umask_used st i \<longleftrightarrow> (\<exists>c. sint (cm_umask (cs_modes st c)) = 2 ^ i)"
  by (simp add: umask_used_def list_ex_iff all_bytes_UNIV)

lemma not_umask_used_15: "\<not> umask_used st 15"
  by (simp add: umask_used_iff sint_sign [simplified])

text \<open>A bit is always found; it is the sign bit exactly when the fifteen others are taken.\<close>

lemma free_umask_ok:
  "\<exists>i < 16. free_umask st = Some i \<and> \<not> umask_used st i \<and> (i = 15 \<longleftrightarrow> (\<forall>j < 15. umask_used st j))"
proof -
  have "free_umask st \<noteq> None"
    using not_umask_used_15 [of st] by (auto simp: free_umask_def find_None_iff intro!: exI [of _ 15])
  then obtain i where i: "free_umask st = Some i" by blast
  then have p: "i < 16" "\<not> umask_used st i" "\<forall>j < i. umask_used st j"
    by (auto simp: free_umask_def find_Some_iff)
  then have "i = 15 \<longleftrightarrow> (\<forall>j < 15. umask_used st j)" by (cases "i = 15") (auto intro!: exI [of _ i])
  then show ?thesis using i p by blast
qed

lemma cmode_lists:
  assumes "cm_wf st" "umask_ok st" "pfxmap_ok st" "\<And>c. flags_ok (cm_flags (cs_modes st c))" "prefix_count st \<le> 30"
  shows "\<exists>st'. chanmode_build_lists st = Some st' \<and> cm_inv st' \<and> cs_modes st' = cs_modes st \<and> cs_pfxmap st' = cs_pfxmap st"
  using build_lists_ok [OF assms(1,4,5)] assms
  by (auto simp: cm_inv_def cm_wf_def umask_ok_def pfxmap_ok_def in_use_def cong: filter_cong)

lemma put_cmode_simps [simp]:
  "cs_modes (put_cmode st c md) = (cs_modes st)(c := md)" "cs_pfxmap (put_cmode st c md) = cs_pfxmap st"
  by (simp_all add: put_cmode_def)

lemma put_put: "put_cmode (put_cmode st c md) c md' = put_cmode st c md'"
  by (simp add: put_cmode_def)

lemma find_cmode_ok:
  assumes "cm_wf st" "um_wf us"
  shows "case find_cmode us st suggested of
      None \<Rightarrow> \<forall>c \<in> set mode_letters. in_use st c
    | Some c \<Rightarrow> c \<in> set mode_letters \<and> cm_avail (cs_modes st c) \<and>
        (cm_avail (cs_modes st suggested) \<longrightarrow> c = suggested)"
proof -
  have avail: "cm_avail (cs_modes st c) \<Longrightarrow> c \<in> set mode_letters" for c using assms by (simp add: cm_wf_def)
  have mask: "um_mask (us_modes us c) \<noteq> 0 \<longleftrightarrow> c \<in> set mode_letters" for c
    using um_wf_test [OF assms(2), of "- 1" c] mode_pos_less [of c] by (auto simp: bit_minus_1_iff)
  show ?thesis
  proof (cases "find_cmode us st suggested")
    case None
    then show ?thesis
      using mask by (auto simp: find_cmode_def find_None_iff all_bytes_UNIV in_use_def split: if_splits)
  next
    case (Some c)
    then show ?thesis
      using avail by (auto simp: find_cmode_def find_Some_iff split: if_splits)
  qed
qed

text \<open>A free entry has no prefix, no bit and no flags, and the prefix map does not point to it.\<close>

lemma avail_entry:
  assumes "cm_inv st" "cm_avail (cs_modes st c)"
  shows "c \<in> set mode_letters" "cm_umask (cs_modes st c) = 0" "cm_prefix (cs_modes st c) = NUL"
    "cs_pfxmap st p \<noteq> Some c"
  using assms by (auto simp: cm_inv_def cm_wf_def pfxmap_ok_def in_use_def)

text \<open>An entry is filled in: with no bit, or with one that is free.\<close>

lemma fill_entry:
  assumes inv: "cm_inv st" and c: "cm_avail (cs_modes st c)"
    and md: "\<not> cm_avail md" "cm_mask md = cm_mask (cs_modes st c)" "cm_mode md = cm_mode (cs_modes st c)"
      "flags_ok (cm_flags md)"
    and u: "cm_umask md = 0 \<and> cm_prefix md = NUL \<and> pm = cs_pfxmap st \<or>
      (\<exists>i < 16. cm_umask md = push_bit i 1 \<and> \<not> umask_used st i) \<and> pm = (cs_pfxmap st)(cm_prefix md := Some c)"
    and pc: "prefix_count st < 30"
  shows "\<exists>st'. chanmode_build_lists ((put_cmode st c md)\<lparr>cs_pfxmap := pm\<rparr>) = Some st' \<and> cm_inv st' \<and>
    cs_modes st' = (cs_modes st)(c := md)"
proof -
  let ?s = "(put_cmode st c md)\<lparr>cs_pfxmap := pm\<rparr>"
  note a = avail_entry [OF inv c]
  have wf: "cm_wf ?s" using inv md a(1) by (auto simp: cm_inv_def cm_wf_def)
  have iu: "in_use ?s d \<longleftrightarrow> in_use st d \<or> d = c" for d using md(1) a(1) by (auto simp: in_use_def)
  have nc: "\<not> in_use st c" using c by (simp add: in_use_def)
  have um: "umask_ok ?s"
  proof (cases "cm_umask md = 0")
    case True
    then show ?thesis using inv by (auto simp: umask_ok_def cm_inv_def)
  next
    case False
    then obtain i where i: "i < 16" "cm_umask md = push_bit i 1" "\<not> umask_used st i" using u by auto
    have "cm_umask (cs_modes st d) = push_bit i 1 \<Longrightarrow> cm_umask (cs_modes st d) \<in> {0, sign_bit}" for d
    proof (cases "i = 15")
      case True
      then show "cm_umask (cs_modes st d) = push_bit i 1 \<Longrightarrow> cm_umask (cs_modes st d) \<in> {0, sign_bit}"
        by (simp add: sign_bit_def)
    next
      case False
      then have "i < 15" using i(1) by simp
      then show "cm_umask (cs_modes st d) = push_bit i 1 \<Longrightarrow> cm_umask (cs_modes st d) \<in> {0, sign_bit}"
        using i(3) sint_umask [of i] by (metis umask_used_iff)
    qed
    then show ?thesis using inv i by (auto simp: umask_ok_def cm_inv_def)
  qed
  have pm: "pfxmap_ok ?s"
    using inv u nc a(4) by (auto simp: pfxmap_ok_def cm_inv_def iu split: if_splits)
  have "prefix_count ?s \<le> Suc (prefix_count st)"
  proof -
    let ?P = "\<lambda>d. in_use st d \<and> cm_prefix (cs_modes st d) \<noteq> NUL"
    let ?A = "set (filter (\<lambda>d. in_use ?s d \<and> cm_prefix (cs_modes ?s d) \<noteq> NUL) all_bytes)"
    have "card ?A \<le> card (insert c (set (filter ?P all_bytes)))"
      by (rule card_mono) (auto simp: iu)
    also have "\<dots> \<le> Suc (card (set (filter ?P all_bytes)))"
      by (simp only: card_insert_if finite_set) (simp split: if_split)
    finally have "card ?A \<le> Suc (card (set (filter ?P all_bytes)))" .
    then show ?thesis
      by (simp only: prefix_count_def distinct_card [OF distinct_filter [OF distinct_all_bytes]])
  qed
  then have "prefix_count ?s \<le> 30" using pc by simp
  moreover have "flags_ok (cm_flags (cs_modes ?s d))" for d using inv md(4) by (simp add: cm_inv_def)
  ultimately show ?thesis using cmode_lists [OF wf um pm] by fastforce
qed

definition prefix_bit_free :: "cmodes \<Rightarrow> cmodes \<Rightarrow> char \<Rightarrow> bool" where
  "prefix_bit_free st st' c \<longleftrightarrow> cm_umask (cs_modes st' c) \<noteq> 0 \<and>
     (if \<forall>j < 15. umask_used st j then cm_umask (cs_modes st' c) = sign_bit
      else \<forall>d. d \<noteq> c \<longrightarrow> cm_umask (cs_modes st' d) \<noteq> cm_umask (cs_modes st' c))"

definition chanmode_given :: "cmodes \<Rightarrow> char \<Rightarrow> u32 \<Rightarrow> cstring \<Rightarrow> cmodes \<Rightarrow> char \<Rightarrow> u64 \<Rightarrow> bool" where
  "chanmode_given st suggested flags ext st' c m \<longleftrightarrow>
     c \<in> set mode_letters \<and> \<not> in_use st c \<and> (cm_avail (cs_modes st suggested) \<longrightarrow> c = suggested) \<and>
     m = push_bit (mode_pos c) 1 \<and> in_use st' c \<and> (\<forall>d. d \<noteq> c \<longrightarrow> cs_modes st' d = cs_modes st d) \<and>
     (flags = CHANMODE_FL_PREFIX \<longrightarrow> cs_pfxmap st' (chd ext) = Some c \<and> prefix_bit_free st st' c)"

lemma push_bit_short_nz: "i < 16 \<Longrightarrow> push_bit i (1 :: short) \<noteq> 0"
  by (simp add: push_bit_eq_mult not_le)

lemma cm_inv_mask:
  "cm_inv st \<Longrightarrow> c \<in> set mode_letters \<Longrightarrow> cm_mask (cs_modes st c) = push_bit (mode_pos c) 1 \<and> cm_mode (cs_modes st c) = c"
  using mode_loop_eq [of 0 mode_letters c] by (simp add: cm_inv_def cm_wf_def)

lemma free_bit_other:
  assumes "cm_inv st" "\<not> umask_used st i" "i < 15"
  shows "cm_umask (cs_modes st d) \<noteq> push_bit i 1"
  using assms sint_umask [of i] by (metis umask_used_iff)

abbreviation with_mdi :: "nat \<Rightarrow> chanmode \<Rightarrow> chanmode" where
  "with_mdi extra md \<equiv> md\<lparr>cm_mdi := (if extra > 0 then Some extra else cm_mdi md)\<rparr>"

lemma finish_put:
  "finish_request ((put_cmode st c md)\<lparr>cs_pfxmap := pm\<rparr>) c extra =
     map_option (\<lambda>st'. (st', Some (cm_mode md, cm_mask md)))
       (chanmode_build_lists ((put_cmode st c (with_mdi extra md))\<lparr>cs_pfxmap := pm\<rparr>))"
  "finish_request (put_cmode st c md) c extra =
     map_option (\<lambda>st'. (st', Some (cm_mode md, cm_mask md)))
       (chanmode_build_lists ((put_cmode st c (with_mdi extra md))\<lparr>cs_pfxmap := cs_pfxmap st\<rparr>))"
  by (cases st; simp add: finish_request_def put_cmode_def)+

lemma chanmode_request_inv:
  assumes inv: "cm_inv st" and us: "um_wf us" and fl: "flags_ok flags" and pc: "prefix_count st < 30"
  shows "\<exists>st' r. chanmode_request us st suggested flags changefn queryfn extra (Some ext) = Some (st', r) \<and> cm_inv st' \<and>
    (case r of
       None \<Rightarrow> st' = st \<and> (\<forall>c \<in> set mode_letters. in_use st c)
     | Some (c, m) \<Rightarrow> chanmode_given st suggested flags ext st' c m)"
proof (cases "find_cmode us st suggested")
  case None
  then show ?thesis using find_cmode_ok [of st us suggested] inv us by (simp add: chanmode_request_def cm_inv_def)
next
  case (Some c)
  have c: "c \<in> set mode_letters" "cm_avail (cs_modes st c)" "cm_avail (cs_modes st suggested) \<longrightarrow> c = suggested"
    using find_cmode_ok [of st us suggested] inv us Some by (simp_all add: cm_inv_def)
  let ?md = "(cs_modes st c)\<lparr>cm_avail := False, cm_umask := 0, cm_prefix := NUL,
     cm_changefunc := Some changefn, cm_queryfunc := Some queryfn, cm_flags := flags, cm_mdi := None\<rparr>"
  let ?x = "\<lambda>md. with_mdi extra md"
  note e = avail_entry [OF inv c(2)]
  have "cm_umask (cs_modes (put_cmode st c ?md) d) = cm_umask (cs_modes st d)" for d
    using e(2) by simp
  then have same: "umask_used (put_cmode st c ?md) i \<longleftrightarrow> umask_used st i" for i
    by (simp only: umask_used_iff)
  have given: "cs_modes st' = (cs_modes st)(c := md) \<Longrightarrow> \<not> cm_avail md \<Longrightarrow>
      in_use st' c \<and> (\<forall>d. d \<noteq> c \<longrightarrow> cs_modes st' d = cs_modes st d)" for st' md
    using c(1) by (simp add: in_use_def)
  show ?thesis
  proof (cases "flags = CHANMODE_FL_PREFIX")
    case False
    obtain st' where st': "chanmode_build_lists ((put_cmode st c (?x ?md))\<lparr>cs_pfxmap := cs_pfxmap st\<rparr>) = Some st'"
      "cm_inv st'" "cs_modes st' = (cs_modes st)(c := ?x ?md)"
      using fill_entry [OF inv c(2), of "?x ?md" "cs_pfxmap st"] fl pc by auto
    have "chanmode_request us st suggested flags changefn queryfn extra (Some ext) =
        Some (st', Some (c, push_bit (mode_pos c) 1))"
      using Some False st'(1) cm_inv_mask [OF inv c(1)]
      by (simp add: chanmode_request_def Let_def finish_put(2) cong: if_cong)
    moreover have "chanmode_given st suggested flags ext st' c (push_bit (mode_pos c) 1)"
      using c given [OF st'(3)] False by (simp add: chanmode_given_def in_use_def)
    ultimately show ?thesis using st'(2) by fastforce
  next
    case True
    obtain i where i: "i < 16" "free_umask (put_cmode st c ?md) = Some i" "\<not> umask_used st i"
      "i = 15 \<longleftrightarrow> (\<forall>j < 15. umask_used st j)"
      using free_umask_ok [of "put_cmode st c ?md"] unfolding same by blast
    let ?md2 = "?md\<lparr>cm_umask := push_bit i 1, cm_prefix := chd ext\<rparr>"
    let ?pm = "(cs_pfxmap st)(chd ext := Some c)"
    obtain st' where st': "chanmode_build_lists ((put_cmode st c (?x ?md2))\<lparr>cs_pfxmap := ?pm\<rparr>) = Some st'"
      "cm_inv st'" "cs_modes st' = (cs_modes st)(c := ?x ?md2)"
      using fill_entry [OF inv c(2), of "?x ?md2" ?pm] fl pc i by auto
    have "chanmode_request us st suggested flags changefn queryfn extra (Some ext) =
        Some (st', Some (c, push_bit (mode_pos c) 1))"
      using Some True st'(1) i(2) cm_inv_mask [OF inv c(1)]
      by (simp add: chanmode_request_def Let_def put_put finish_put(1) push_bit_eq_mult cong: if_cong)
    moreover have "cs_pfxmap st' (chd ext) = Some c"
      using st'(1) by (auto simp: chanmode_build_lists_def Let_def split: if_splits)
    moreover have "prefix_bit_free st st' c"
      using st'(3) i push_bit_short_nz [OF i(1)] free_bit_other [OF inv i(3)]
      by (auto simp: prefix_bit_free_def sign_bit_def)
    ultimately show ?thesis
      using st'(2) c given [OF st'(3)] by (fastforce simp: chanmode_given_def in_use_def)
  qed
qed

text \<open>
  A release forgets the prefix of the mode. When an older mode had the same prefix, that one loses
  its entry of the map too.
\<close>

lemma chanmode_release_inv:
  assumes inv: "cm_inv st" and c: "in_use st mode" and pc: "prefix_count st \<le> 30"
    and pm: "cs_pfxmap st NUL \<noteq> Some mode"
  shows "\<exists>st'. release_entry st mode = Some st' \<and> cm_inv st' \<and> (\<forall>d. in_use st' d \<longleftrightarrow> in_use st d \<and> d \<noteq> mode)"
proof -
  let ?p = "cm_prefix (cs_modes st mode)"
  let ?md = "(cs_modes st mode)\<lparr>cm_avail := True, cm_umask := 0, cm_prefix := NUL, cm_changefunc := None,
               cm_queryfunc := None, cm_flags := 0\<rparr>"
  let ?st1 = "if ?p \<noteq> NUL then st\<lparr>cs_pfxmap := (cs_pfxmap st)(?p := None)\<rparr> else st"
  let ?s = "put_cmode ?st1 mode ?md"
  have m: "cs_modes ?s = (cs_modes st)(mode := ?md)" by simp
  have iu: "in_use ?s d \<longleftrightarrow> in_use st d \<and> d \<noteq> mode" for d using c by (auto simp: in_use_def)
  have wf: "cm_wf ?s" using inv c by (auto simp: cm_inv_def cm_wf_def in_use_def)
  have um: "umask_ok ?s" using inv by (auto simp: umask_ok_def cm_inv_def)
  have "filter (\<lambda>d. in_use ?s d \<and> cm_prefix (cs_modes ?s d) \<noteq> NUL) all_bytes =
      filter (\<lambda>d. d \<noteq> mode) (filter (\<lambda>d. in_use st d \<and> cm_prefix (cs_modes st d) \<noteq> NUL) all_bytes)"
    unfolding filter_filter by (rule filter_cong) (auto simp: iu)
  then have "prefix_count ?s \<le> prefix_count st"
    using length_filter_le [of "\<lambda>d. d \<noteq> mode" "filter (\<lambda>d. in_use st d \<and> cm_prefix (cs_modes st d) \<noteq> NUL) all_bytes"]
    by (simp only: prefix_count_def)
  then have n: "prefix_count ?s \<le> 30" using pc by simp
  have f: "flags_ok (cm_flags (cs_modes ?s d))" for d using inv by (simp add: cm_inv_def flags_ok_def)
  have pf: "cs_pfxmap st q = Some d \<Longrightarrow> in_use st d \<and> cm_prefix (cs_modes st d) = q" for q d
    using inv by (simp add: cm_inv_def pfxmap_ok_def)
  have "cs_pfxmap ?s q = Some d \<Longrightarrow> cs_pfxmap st q = Some d \<and> d \<noteq> mode" for q d
    using pf [of q d] pm by (auto split: if_splits)
  then have "in_use ?s d \<and> cm_prefix (cs_modes ?s d) = q" if "cs_pfxmap ?s q = Some d" for q d
    using pf [of q d] that unfolding iu m by (metis fun_upd_other)
  then have po: "pfxmap_ok ?s" unfolding pfxmap_ok_def by blast
  obtain st' where "chanmode_build_lists ?s = Some st'" "cm_inv st'" "cs_modes st' = cs_modes ?s"
    using cmode_lists [OF wf um po f n] by blast
  then show ?thesis using iu by (auto simp: release_entry_def Let_def in_use_def)
qed

lemma init_cm_inv: "cm_inv init_cmodes"
  by (auto simp: cm_inv_def cm_wf_def umask_ok_def pfxmap_ok_def in_use_def init_cmodes_def flags_ok_def)

lemma init_no_prefix: "prefix_count init_cmodes = 0"
  by (simp add: prefix_count_def in_use_def init_cmodes_def)

section \<open>Properties\<close>

text \<open>C36: while at most 29 prefix modes are in use, a request returns, keeps the table and its lists
  right, and gives out a free mode, the suggested one if it is free, and none only when all are taken;
  a prefix mode gets a bit of its own unless the fifteen low bits are taken.\<close>

theorem chanmode_request_gives_free:
  assumes "cm_inv st" "um_wf us" "flags_ok flags" "prefix_count st < 30"
  shows "\<exists>st' r. chanmode_request us st suggested flags changefn queryfn extra (Some ext) = Some (st', r) \<and> cm_inv st' \<and>
    (case r of
       None \<Rightarrow> st' = st \<and> (\<forall>c \<in> set mode_letters. in_use st c)
     | Some (c, m) \<Rightarrow> chanmode_given st suggested flags ext st' c m)"
  by (rule chanmode_request_inv [OF assms])

theorem chanmode_request_gives_free_witness:
  "\<exists>st' r. chanmode_request init_umodes init_cmodes (CHR ''o'') CHANMODE_FL_PREFIX ''chanmode_uflag''
     ''chanmode_uflag_query'' 0 (Some ''@'') = Some (st', r) \<and> cm_inv st'"
  using chanmode_request_gives_free [OF init_cm_inv, of init_umodes CHANMODE_FL_PREFIX "CHR ''o''"
      "''chanmode_uflag''" "''chanmode_uflag_query''" 0 "''@''"] init_um_inv init_no_prefix
  by (auto simp: um_inv_def flags_ok_def)

text \<open>Once the fifteen low bits are taken every further prefix mode gets the sign bit, also when
  a mode that is in use has it, since the test for a free bit compares a \<^verbatim>\<open>short\<close> with
  32768. The branch for no bit left is never taken.\<close>

theorem prefix_modes_share_a_bit:
  assumes "cm_inv st" "um_wf us" "prefix_count st < 30" "\<forall>j < 15. umask_used st j"
    and "chanmode_request us st suggested CHANMODE_FL_PREFIX changefn queryfn extra (Some ext) = Some (st', r)"
  shows "if \<forall>c \<in> set mode_letters. in_use st c then r = None
    else \<exists>c m. r = Some (c, m) \<and> cm_umask (cs_modes st' c) = sign_bit \<and>
      (\<forall>d. cm_umask (cs_modes st d) = sign_bit \<longrightarrow> d \<noteq> c \<and> cm_umask (cs_modes st' d) = sign_bit)"
proof -
  have "flags_ok CHANMODE_FL_PREFIX" by (simp add: flags_ok_def)
  moreover have "cm_umask (cs_modes st d) = sign_bit \<Longrightarrow> in_use st d" for d
    using assms(1) by (auto simp: cm_inv_def cm_wf_def in_use_def sign_bit_def)
  ultimately show ?thesis
    using chanmode_request_inv [OF assms(1,2) _ assms(3), of CHANMODE_FL_PREFIX suggested changefn queryfn extra ext] assms(4,5)
    by (cases r) (auto simp: chanmode_given_def prefix_bit_free_def, metis+)
qed

text \<open>A table with sixteen prefix modes, from \<^verbatim>\<open>a\<close> to \<^verbatim>\<open>p\<close>.\<close>

definition sixteen :: cmodes where
  "sixteen =
     (let f = (\<lambda>c. let md = cs_modes init_cmodes c in
           if c \<in> set (take 16 mode_letters)
           then md\<lparr>cm_avail := False, cm_umask := push_bit (mode_pos c) 1, cm_prefix := c, cm_flags := CHANMODE_FL_PREFIX\<rparr> else md);
          st = init_cmodes\<lparr>cs_modes := f\<rparr>
      in st\<lparr>cs_avail := filter (in_use st) all_bytes,
           cs_pmodes := filter (\<lambda>c. in_use st c \<and> cm_prefix (cs_modes st c) \<noteq> NUL) all_bytes\<rparr>)"

lemma in_use_lists [simp]:
  "in_use (st\<lparr>cs_avail := a\<rparr>) = in_use st" "in_use (st\<lparr>cs_pmodes := a\<rparr>) = in_use st"
  by (simp_all add: in_use_def fun_eq_iff)

lemma sixteen_inv: "cm_inv sixteen"
proof -
  let ?S = "set (take 16 mode_letters)"
  have sub: "?S \<subseteq> set mode_letters" by (rule set_take_subset)
  have pos: "c \<in> ?S \<Longrightarrow> mode_pos c < 16" for c
  proof -
    have "\<forall>c \<in> ?S. mode_pos c < 16" by code_simp
    then show "c \<in> ?S \<Longrightarrow> mode_pos c < 16" by blast
  qed
  have inj: "c \<in> ?S \<Longrightarrow> d \<in> ?S \<Longrightarrow> push_bit (mode_pos c) (1 :: short) = push_bit (mode_pos d) 1 \<Longrightarrow> c = d" for c d
  proof -
    assume a: "c \<in> ?S" "d \<in> ?S" "push_bit (mode_pos c) (1 :: short) = push_bit (mode_pos d) 1"
    then have "bit (push_bit (mode_pos c) (1 :: short)) (mode_pos d)"
      using pos [of d] by (simp add: bit_simps)
    then have "mode_pos c = mode_pos d" by (auto simp: bit_simps)
    then show "c = d" using mode_pos_inj a sub by blast
  qed
  have m: "cs_modes sixteen = (\<lambda>c. let md = cs_modes init_cmodes c in
           if c \<in> ?S
           then md\<lparr>cm_avail := False, cm_umask := push_bit (mode_pos c) 1, cm_prefix := c, cm_flags := CHANMODE_FL_PREFIX\<rparr> else md)"
    by (simp add: sixteen_def Let_def)
  have "cm_wf sixteen" using sub by (auto simp: cm_wf_def m Let_def init_cmodes_def)
  moreover have "umask_ok sixteen"
    using inj pos by (auto simp: umask_ok_def m Let_def init_cmodes_def simp del: push_bit_of_1)
  moreover have "pfxmap_ok sixteen" by (simp add: pfxmap_ok_def sixteen_def init_cmodes_def Let_def)
  moreover have "flags_ok (cm_flags (cs_modes sixteen c))" for c
    by (simp add: m Let_def init_cmodes_def flags_ok_def)
  moreover have "cs_avail sixteen = filter (in_use sixteen) all_bytes"
    "cs_pmodes sixteen = filter (\<lambda>c. in_use sixteen c \<and> cm_prefix (cs_modes sixteen c) \<noteq> NUL) all_bytes"
    by (simp_all add: sixteen_def Let_def)
  ultimately show ?thesis by (simp add: cm_inv_def)
qed

theorem prefix_modes_share_a_bit_witness:
  "\<exists>st' c m. chanmode_request init_umodes sixteen (CHR ''q'') CHANMODE_FL_PREFIX ''chanmode_uflag''
     ''chanmode_uflag_query'' 0 (Some ''&'') = Some (st', Some (c, m)) \<and> c \<noteq> CHR ''p'' \<and>
     cm_umask (cs_modes st' c) = cm_umask (cs_modes st' (CHR ''p''))"
proof -
  have pc: "prefix_count sixteen < 30"
  proof -
    let ?xs = "filter (\<lambda>c. in_use sixteen c \<and> cm_prefix (cs_modes sixteen c) \<noteq> NUL) all_bytes"
    have "prefix_count sixteen = card (set ?xs)"
      by (simp only: prefix_count_def distinct_card [OF distinct_filter [OF distinct_all_bytes]])
    also have "\<dots> \<le> card (set (take 16 mode_letters))"
      by (rule card_mono) (auto simp: sixteen_def Let_def init_cmodes_def split: if_splits)
    also have "\<dots> \<le> 16" using card_length [of "take 16 mode_letters"] by simp
    finally show ?thesis by simp
  qed
  have um: "um_wf init_umodes" using init_um_inv by (simp add: um_inv_def)
  have used: "\<forall>j < 15. umask_used sixteen j"
  proof (intro allI impI)
    fix j :: nat assume "j < 15"
    then have "mode_letters ! j \<in> set (take 16 mode_letters)" "mode_pos (mode_letters ! j) = j"
      using nth_mem [of j "take 16 mode_letters"] nth_pos_in [OF mode_letters_props(1), of j] mode_letters_props(2)
      by simp_all
    then have "cm_umask (cs_modes sixteen (mode_letters ! j)) = push_bit j 1"
      by (simp add: sixteen_def Let_def)
    then show "umask_used sixteen j" using sint_umask [OF \<open>j < 15\<close>] by (metis umask_used_iff)
  qed
  have "CHR ''p'' \<in> set (take 16 mode_letters)" "mode_pos (CHR ''p'') = 15"
    "CHR ''q'' \<notin> set (take 16 mode_letters)" "CHR ''q'' \<in> set mode_letters" by code_simp+
  then have p: "cm_umask (cs_modes sixteen (CHR ''p'')) = sign_bit"
    and free: "\<not> in_use sixteen (CHR ''q'')" "CHR ''q'' \<in> set mode_letters"
    by (simp_all add: sixteen_def Let_def sign_bit_def in_use_def init_cmodes_def)
  have "flags_ok CHANMODE_FL_PREFIX" by (simp add: flags_ok_def)
  then obtain st' r where r: "chanmode_request init_umodes sixteen (CHR ''q'') CHANMODE_FL_PREFIX ''chanmode_uflag''
     ''chanmode_uflag_query'' 0 (Some ''&'') = Some (st', r)"
    using chanmode_request_inv [OF sixteen_inv um _ pc] by blast
  have "\<not> (\<forall>c \<in> set mode_letters. in_use sixteen c)" using free by blast
  then obtain c m where "r = Some (c, m)" "cm_umask (cs_modes st' c) = sign_bit"
    "CHR ''p'' \<noteq> c" "cm_umask (cs_modes st' (CHR ''p'')) = sign_bit"
    using prefix_modes_share_a_bit [OF sixteen_inv um pc used r] p by (simp only: if_False) blast
  then show ?thesis using r by (intro exI [of _ st'] exI [of _ c] exI [of _ m]) simp
qed

end
