(* ===== verification/Channel.thy ===== *)
theory Channel
  imports ChanMode IrcString "HOL-Library.Monad_Syntax"
begin

text \<open>
  Channels and their members: the first half of \<^verbatim>\<open>modules/ircd/channel.c\<close>. Channels, clients and
  the links between them are references into stores, so that the use of freed memory gives
  \<open>None\<close>. Mode handlers are looked up by name; what they do is a parameter here
  (\<open>ChanCore\<close> has those of \<^verbatim>\<open>addons/core.c\<close>). Events are recorded when they are hooked.
\<close>

section \<open>Names\<close>

definition CHANLEN :: nat where "CHANLEN = 32"

text \<open>The map of channel names that the server starts with, and \<^verbatim>\<open>check_channame\<close>.\<close>

definition default_chan_map_string :: cstring where
  "default_chan_map_string = ''A-Z'' @ [CHR 0x5C] @ ''033-'' @ [CHR 0x5C] @ ''043'' @ [CHR 0x5C] @ ''045-'' @
     [CHR 0x5C] @ ''064'' @ [CHR 0x5C] @ ''091-'' @ [CHR 0x5C] @ ''096'' @ [CHR 0x5C] @ ''123-'' @ [CHR 0x5C] @
     ''159'' @ [CHR 0x5C] @ ''161-'' @ [CHR 0x5C] @ ''255 a-z''"

definition chan_map :: cstring where
  "chan_map = (case istr_map default_chan_map_string of Some (Some m) \<Rightarrow> m | _ \<Rightarrow> [])"

definition check_channame :: "cstring \<Rightarrow> bool" where
  "check_channame name \<longleftrightarrow> chd name = CHR ''#'' \<and> istr_okay chan_map name"

definition chancmp :: "cstring \<Rightarrow> cstring \<Rightarrow> nat \<Rightarrow> int" where
  "chancmp one two len = (case istrcmp chan_map one two of Some r \<Rightarrow> r | None \<Rightarrow> 0)"

section \<open>State\<close>

record chanlink =
  cl_cli :: nat
  cl_chan :: nat
  cl_flags :: short
  cl_bans :: short

record channel_ban =
  bn_nick :: cstring
  bn_user :: cstring
  bn_host :: cstring
  bn_who :: cstring
  bn_when :: int

text \<open>
  The data that a mode keeps in the extension area of a channel is listed by mode character: as a
  list of bans, as a string of at most 33 characters or as an \<^verbatim>\<open>uint32_t\<close>.
\<close>

record channel =
  ch_name :: cstring
  ch_created :: int
  ch_onchannel :: u32
  ch_users :: "nat list"
  ch_modes :: u64
  ch_bans :: "char \<Rightarrow> channel_ban list"
  ch_str :: "char \<Rightarrow> cstring"
  ch_int :: "char \<Rightarrow> u32"

record client =
  cc_nick :: cstring
  cc_user :: cstring
  cc_host :: cstring
  cc_ip :: cstring
  cc_orighost :: "cstring option"
  cc_modes :: u64
  cc_local :: bool
  cc_master :: bool
  cc_chans :: "nat list"

datatype chan_event = ChannelCreate nat | ChannelDestroy nat | ChannelAdd nat | ChannelDel nat | Reply nat int

record ircd =
  ic_um :: umodes
  ic_cm :: cmodes
  ic_chan :: "nat \<Rightarrow> channel option"
  ic_cli :: "nat \<Rightarrow> client option"
  ic_link :: "nat \<Rightarrow> chanlink option"
  ic_fresh :: nat
  ic_list :: "nat list"
  ic_hash :: "(nat \<times> cstring) hashtable"
  ic_count :: int
  ic_now :: int
  ic_chanlen :: nat
  ic_me :: cstring
  ic_events :: "chan_event list"

definition put_chan :: "ircd \<Rightarrow> nat \<Rightarrow> channel \<Rightarrow> ircd" where
  "put_chan st c ch = st\<lparr>ic_chan := (ic_chan st)(c := Some ch)\<rparr>"

definition put_link :: "ircd \<Rightarrow> nat \<Rightarrow> chanlink \<Rightarrow> ircd" where
  "put_link st l lk = st\<lparr>ic_link := (ic_link st)(l := Some lk)\<rparr>"

definition put_client :: "ircd \<Rightarrow> nat \<Rightarrow> client \<Rightarrow> ircd" where
  "put_client st c cli = st\<lparr>ic_cli := (ic_cli st)(c := Some cli)\<rparr>"

definition hook_chan :: "chan_event \<Rightarrow> ircd \<Rightarrow> ircd" where
  "hook_chan e st = st\<lparr>ic_events := ic_events st @ [e]\<rparr>"

section \<open>Mode handlers\<close>

datatype chset = ChSet | ChUnset | ChClear

definition CHANMODE_OK :: int where "CHANMODE_OK = 0"
definition CHANMODE_FAIL :: int where "CHANMODE_FAIL = - 1"
definition CHANMODE_NOP :: int where "CHANMODE_NOP = - 2"
definition CHANMODE_NONEX :: int where "CHANMODE_NONEX = - 3"
definition CHANMODE_NOARG :: int where "CHANMODE_NOARG = - 4"

lemmas chanmode_results = CHANMODE_OK_def CHANMODE_FAIL_def CHANMODE_NOP_def CHANMODE_NONEX_def CHANMODE_NOARG_def

text \<open>
  A handler gets the client (or none), the channel, the mode, what to do, the argument and the
  contents of \<^verbatim>\<open>*argused\<close>. It answers with its return value, \<^verbatim>\<open>*argused\<close> and the contents of the
  argument, which it may overwrite.
\<close>

type_synonym chan_answer = "ircd \<times> int \<times> int \<times> cstring option"
type_synonym chan_func = "ircd \<Rightarrow> nat option \<Rightarrow> nat \<Rightarrow> char \<Rightarrow> chset \<Rightarrow> cstring option \<Rightarrow> int \<Rightarrow> chan_answer option"
type_synonym chan_funcs = "cstring \<Rightarrow> chan_func option"

definition call_change :: "chan_funcs \<Rightarrow> char \<Rightarrow> chan_func" where
  "call_change hnd mode st cli chan m act arg used =
     do { name \<leftarrow> cm_changefunc (cs_modes (ic_cm st) mode);
          f \<leftarrow> hnd name;
          f st cli chan m act arg used }"

definition chanmode_set :: "chan_funcs \<Rightarrow> ircd \<Rightarrow> char \<Rightarrow> nat option \<Rightarrow> nat \<Rightarrow> cstring option \<Rightarrow> int \<Rightarrow> chan_answer option" where
  "chanmode_set hnd st mode cli chan arg used =
     (if \<not> cmode_exists (ic_cm st) mode then Some (st, CHANMODE_NONEX, used, arg)
      else call_change hnd mode st cli chan mode ChSet arg used)"

definition chanmode_unset :: "chan_funcs \<Rightarrow> ircd \<Rightarrow> char \<Rightarrow> nat option \<Rightarrow> nat \<Rightarrow> cstring option \<Rightarrow> int \<Rightarrow> chan_answer option" where
  "chanmode_unset hnd st mode cli chan arg used =
     (if \<not> cmode_exists (ic_cm st) mode then Some (st, CHANMODE_NONEX, used, arg)
      else call_change hnd mode st cli chan mode ChUnset arg used)"

definition chanmode_setprefix :: "chan_funcs \<Rightarrow> ircd \<Rightarrow> char \<Rightarrow> nat \<Rightarrow> cstring option \<Rightarrow> int \<Rightarrow> chan_answer option" where
  "chanmode_setprefix hnd st prefix chan arg used =
     (case cs_pfxmap (ic_cm st) prefix of
        None \<Rightarrow> Some (st, CHANMODE_NONEX, used, arg)
      | Some c \<Rightarrow> call_change hnd c st None chan (cm_mode (cs_modes (ic_cm st) c)) ChSet arg used)"

definition chanmode_unsetprefix :: "chan_funcs \<Rightarrow> ircd \<Rightarrow> char \<Rightarrow> nat \<Rightarrow> cstring option \<Rightarrow> int \<Rightarrow> chan_answer option" where
  "chanmode_unsetprefix hnd st prefix chan arg used =
     (case cs_pfxmap (ic_cm st) prefix of
        None \<Rightarrow> Some (st, CHANMODE_NONEX, used, arg)
      | Some c \<Rightarrow> call_change hnd c st None chan (cm_mode (cs_modes (ic_cm st) c)) ChUnset arg used)"

section \<open>Membership\<close>

fun find_link :: "ircd \<Rightarrow> nat \<Rightarrow> nat list \<Rightarrow> nat option option" where
  "find_link st chan [] = Some None"
| "find_link st chan (l # ls) =
     do { lk \<leftarrow> ic_link st l;
          if cl_chan lk = chan then Some (Some l) else find_link st chan ls }"

definition find_chan_link :: "ircd \<Rightarrow> nat \<Rightarrow> nat \<Rightarrow> nat option option" where
  "find_chan_link st cli chan = do { c \<leftarrow> ic_cli st cli; find_link st chan (cc_chans c) }"

definition create_channel :: "ircd \<Rightarrow> cstring \<Rightarrow> (ircd \<times> nat) option" where
  "create_channel st name =
     (let c = ic_fresh st; nm = take (ic_chanlen st) name;
          ch = \<lparr>ch_name = nm, ch_created = ic_now st, ch_onchannel = 0, ch_users = [], ch_modes = 0,
                ch_bans = (\<lambda>_. []), ch_str = (\<lambda>_. []), ch_int = (\<lambda>_. 0)\<rparr>
      in do { h \<leftarrow> hash_insert snd (ic_hash st) (c, nm);
              Some (hook_chan (ChannelCreate c)
                     ((put_chan st c ch)\<lparr>ic_fresh := Suc c, ic_list := c # ic_list st, ic_hash := h,
                        ic_count := ic_count st + 1\<rparr>), c) })"

definition find_channel :: "ircd \<Rightarrow> cstring \<Rightarrow> nat option" where
  "find_channel st name = map_option fst (hash_find snd (ic_hash st) name)"

definition add_to_channel :: "ircd \<Rightarrow> nat \<Rightarrow> nat \<Rightarrow> bool \<Rightarrow> ircd option" where
  "add_to_channel st cli chan hook =
     do { c \<leftarrow> ic_cli st cli;
          ch \<leftarrow> ic_chan st chan;
          let l = ic_fresh st;
              st1 = put_link (st\<lparr>ic_fresh := Suc l\<rparr>) l \<lparr>cl_cli = cli, cl_chan = chan, cl_flags = 0, cl_bans = 0\<rparr>;
              st2 = put_chan st1 chan (ch\<lparr>ch_users := l # ch_users ch, ch_onchannel := ch_onchannel ch + 1\<rparr>);
              st3 = put_client st2 cli (c\<lparr>cc_chans := l # cc_chans c\<rparr>)
          in Some (if hook then hook_chan (ChannelAdd l) st3 else st3) }"

text \<open>Every mode in use is cleared, then the channel leaves the table and the list and is freed.\<close>

fun clear_modes :: "chan_funcs \<Rightarrow> ircd \<Rightarrow> nat \<Rightarrow> char list \<Rightarrow> ircd option" where
  "clear_modes hnd st chan [] = Some st"
| "clear_modes hnd st chan (s # ss) =
     do { r \<leftarrow> call_change hnd s st None chan s ChClear None 0; clear_modes hnd (fst r) chan ss }"

definition destroy_channel :: "chan_funcs \<Rightarrow> ircd \<Rightarrow> nat \<Rightarrow> ircd option" where
  "destroy_channel hnd st chan =
     do { _ \<leftarrow> ic_chan st chan;
          st1 \<leftarrow> clear_modes hnd (hook_chan (ChannelDestroy chan) st) chan (cs_avail (ic_cm st));
          ch \<leftarrow> ic_chan st1 chan;
          if chan \<in> set (ic_list st1) then
            Some (st1\<lparr>ic_hash := fst (hash_delete snd (ic_hash st1) (chan, ch_name ch)),
                      ic_list := remove1 chan (ic_list st1), ic_count := ic_count st1 - 1,
                      ic_chan := (ic_chan st1)(chan := None)\<rparr>)
          else None }"

text \<open>A link is taken off the two lists it is on and freed.\<close>

definition remove_link :: "ircd \<Rightarrow> nat \<Rightarrow> ircd option" where
  "remove_link st l =
     do { lk \<leftarrow> ic_link st l;
          ch \<leftarrow> ic_chan st (cl_chan lk);
          c \<leftarrow> ic_cli st (cl_cli lk);
          if l \<in> set (ch_users ch) \<and> l \<in> set (cc_chans c) then
            let st1 = put_chan st (cl_chan lk) (ch\<lparr>ch_users := remove1 l (ch_users ch), ch_onchannel := ch_onchannel ch - 1\<rparr>);
                st2 = put_client st1 (cl_cli lk) (c\<lparr>cc_chans := remove1 l (cc_chans c)\<rparr>)
            in Some (st2\<lparr>ic_link := (ic_link st2)(l := None)\<rparr>)
          else None }"

definition del_from_channel :: "chan_funcs \<Rightarrow> ircd \<Rightarrow> nat \<Rightarrow> nat \<Rightarrow> bool \<Rightarrow> ircd option" where
  "del_from_channel hnd st cli chan hook =
     do { clp \<leftarrow> find_chan_link st cli chan;
          st1 \<leftarrow> (case clp of None \<Rightarrow> Some st
                  | Some l \<Rightarrow> remove_link (if hook then hook_chan (ChannelDel l) st else st) l);
          ch \<leftarrow> ic_chan st1 chan;
          if ch_onchannel ch = 0 then destroy_channel hnd st1 chan else Some st1 }"

text \<open>The loop of \<^verbatim>\<open>destroy_client\<close> that takes a client out of its channels; the fuel is the number of links.\<close>

fun leave_channels :: "nat \<Rightarrow> chan_funcs \<Rightarrow> ircd \<Rightarrow> nat \<Rightarrow> ircd option" where
  "leave_channels 0 hnd st cli = None"
| "leave_channels (Suc n) hnd st cli =
     do { c \<leftarrow> ic_cli st cli;
          (case cc_chans c of
             [] \<Rightarrow> Some st
           | l # _ \<Rightarrow> do { lk \<leftarrow> ic_link st l;
                           st1 \<leftarrow> del_from_channel hnd st cli (cl_chan lk) True;
                           leave_channels n hnd st1 cli }) }"

section \<open>Prefixes\<close>

definition chanlink_ismode :: "ircd \<Rightarrow> chanlink \<Rightarrow> char \<Rightarrow> bool" where
  "chanlink_ismode st lk mode \<longleftrightarrow> cl_flags lk AND cm_umask (cs_modes (ic_cm st) mode) \<noteq> 0"

fun member_ismode :: "ircd \<Rightarrow> nat \<Rightarrow> char \<Rightarrow> nat list \<Rightarrow> bool option" where
  "member_ismode st cli mode [] = Some False"
| "member_ismode st cli mode (l # ls) =
     do { lk \<leftarrow> ic_link st l;
          if cl_cli lk = cli then Some (chanlink_ismode st lk mode) else member_ismode st cli mode ls }"

definition chanmode_isprefix :: "ircd \<Rightarrow> nat \<Rightarrow> nat \<Rightarrow> char \<Rightarrow> bool option" where
  "chanmode_isprefix st chan cli prefix =
     (case cs_pfxmap (ic_cm st) prefix of
        None \<Rightarrow> Some False
      | Some c \<Rightarrow> do { ch \<leftarrow> ic_chan st chan; member_ismode st cli (cm_mode (cs_modes (ic_cm st) c)) (ch_users ch) })"

text \<open>An array of 64 characters.\<close>

definition chanmode_getprefixes :: "ircd \<Rightarrow> nat \<Rightarrow> nat \<Rightarrow> cstring option" where
  "chanmode_getprefixes st chan cli =
     do { clp \<leftarrow> find_chan_link st cli chan;
          (case clp of None \<Rightarrow> Some []
           | Some l \<Rightarrow>
               do { lk \<leftarrow> ic_link st l;
                    let p = map (\<lambda>s. cm_prefix (cs_modes (ic_cm st) s)) (filter (chanlink_ismode st lk) (cs_pmodes (ic_cm st)))
                    in if length p < 64 then Some p else None }) }"

text \<open>
  \<^verbatim>\<open>chanmode_release\<close>: the mode is cleared in every channel of the list, then its entry is reset.
\<close>

fun clear_mode_in :: "chan_funcs \<Rightarrow> char \<Rightarrow> ircd \<Rightarrow> nat list \<Rightarrow> ircd option" where
  "clear_mode_in hnd mode st [] = Some st"
| "clear_mode_in hnd mode st (c # cs) =
     do { _ \<leftarrow> ic_chan st c;
          r \<leftarrow> call_change hnd mode st None c mode ChClear None 0;
          clear_mode_in hnd mode (fst r) cs }"

definition chanmode_release :: "chan_funcs \<Rightarrow> ircd \<Rightarrow> char \<Rightarrow> ircd option" where
  "chanmode_release hnd st mode =
     do { _ \<leftarrow> cm_changefunc (cs_modes (ic_cm st) mode);
          st1 \<leftarrow> clear_mode_in hnd mode st (ic_list st);
          cm \<leftarrow> release_entry (ic_cm st1) mode;
          Some (st1\<lparr>ic_cm := cm\<rparr>) }"

section \<open>The channel table\<close>

definition chan_ok :: "cstring \<Rightarrow> bool" where
  "chan_ok s \<longleftrightarrow> short_str s \<and> istr_okay chan_map s"

lemma map_left_at:
  "length m = 256 \<Longrightarrow> length (map_left m cs) = 256 \<and>
     mapped (map_left m cs) c = (if c \<in> set cs then c else mapped m c)"
  by (induction cs arbitrary: m) (auto simp: nth_list_update)

lemma map_right_other:
  "length m = 256 \<Longrightarrow> c \<notin> set cs \<Longrightarrow> mapped (map_right m left cs) c = mapped m c"
  by (induction cs arbitrary: m left) (auto simp: nth_list_update)

lemma map_right_at:
  "length m = 256 \<Longrightarrow> distinct cs \<Longrightarrow> length cs \<le> length left \<Longrightarrow> i < length cs \<Longrightarrow>
     mapped (map_right m left cs) (cs ! i) = left ! i"
proof (induction cs arbitrary: m left i)
  case (Cons d cs)
  then obtain l ls where "left = l # ls" by (cases left) auto
  then show ?case using Cons map_right_other [of "m[uchar d := l]" d cs ls] by (cases i) auto
qed simp

definition codes :: "nat \<Rightarrow> nat \<Rightarrow> cstring" where
  "codes a b = map char_of [a..<b]"

lemma set_codes: "b \<le> 256 \<Longrightarrow> c \<in> set (codes a b) \<longleftrightarrow> a \<le> uchar c \<and> uchar c < b"
proof
  assume "a \<le> uchar c \<and> uchar c < b"
  then show "c \<in> set (codes a b)" by (auto simp: codes_def intro!: image_eqI [of _ _ "uchar c"])
qed (auto simp: codes_def)

lemma codes_simps [simp]: "length (codes a b) = b - a" "i < b - a \<Longrightarrow> codes a b ! i = char_of (a + i)"
  by (simp_all add: codes_def)

lemma distinct_codes: "b \<le> 256 \<Longrightarrow> distinct (codes a b)"
  unfolding codes_def distinct_map by (auto simp: inj_on_def dest: arg_cong [of _ _ uchar])

lemma translate_range:
  "c \<noteq> NUL \<Longrightarrow> d \<noteq> NUL \<Longrightarrow> uchar c \<le> uchar d \<Longrightarrow> translate_ranges (c # CHR ''-'' # d # s) =
     map_option (\<lambda>r. codes (uchar c) (Suc (uchar d)) @ r) (translate_ranges s)"
  by (subst translate_ranges.simps) (auto simp: codes_def intro!: option.map_cong)

definition chan_left :: cstring where
  "chan_left = codes 65 91 @ codes 33 44 @ codes 45 65 @ codes 91 97 @ codes 123 160 @ codes 161 256"

definition chan_right :: cstring where "chan_right = codes 97 123"

lemma chan_sides:
  "istr_translate default_chan_map_string 48 = Some (Some chan_left)" "istr_translate ''a-z'' (Suc (Suc (Suc 0))) = Some (Some chan_right)"
proof -
  have "translate_escapes (take 48 default_chan_map_string) = ''A-Z!-+--@[-'' @ [CHR 0x60, CHR 0x7B, CHR ''-'', CHR 0x9F,
     CHR 0xA1, CHR ''-'', CHR 0xFF]" "translate_escapes (take 3 ''a-z'') = ''a-z''"
    by code_simp+
  then show "istr_translate default_chan_map_string 48 = Some (Some chan_left)" "istr_translate ''a-z'' (Suc (Suc (Suc 0))) = Some (Some chan_right)"
    by (simp_all add: istr_translate_def chan_left_def chan_right_def translate_range uchar_def)
      (simp_all add: translate_ranges.simps [of "[]"])
qed

lemma chan_map_eq: "chan_map = map_right (map_left (replicate 256 NUL) chan_left) chan_left chan_right"
proof -
  have "ith_strchr default_chan_map_string (CHR '' '') = Some '' a-z''" "length default_chan_map_string = 52"
    "ith_strlen ''a-z'' = Suc (Suc (Suc 0))" by code_simp+
  then have "istr_map default_chan_map_string =
      Some (Some (map_right (map_left (replicate 256 NUL) chan_left) chan_left chan_right))"
    unfolding istr_map_def by (simp add: chan_sides chan_left_def chan_right_def)
  then show ?thesis by (simp add: chan_map_def)
qed

lemma chan_map_at: "uchar (mapped chan_map c) = (let n = uchar c in if 97 \<le> n \<and> n \<le> 122 then n - 32
     else if n < 33 \<or> n = 44 \<or> n = 160 then 0 else n)"
proof -
  let ?n = "uchar c" and ?m = "map_left (replicate 256 NUL) chan_left"
  have len: "length ?m = 256" using map_left_at by simp
  show ?thesis
  proof (cases "97 \<le> ?n \<and> ?n < 123")
    case True
    then have n: "?n - 97 < 123 - 97" by arith
    then have "chan_right ! (?n - 97) = c" using True by (simp only: chan_right_def codes_simps) simp
    then have "mapped chan_map c = chan_left ! (?n - 97)"
      using map_right_at [OF len distinct_codes, of 123 97 chan_left "?n - 97"] n
      by (simp add: chan_map_eq chan_right_def) (simp add: chan_left_def)
    also have "\<dots> = char_of (65 + (?n - 97))" using True n by (simp add: chan_left_def nth_append)
    finally have "uchar (mapped chan_map c) = (?n - 32) mod 256" using True by simp
    moreover have "?n - 32 < 256" using True by arith
    ultimately show ?thesis using True by (simp add: Let_def)
  next
    case False
    then have "mapped chan_map c = mapped ?m c"
      using map_right_other [OF len, of c chan_right chan_left] by (simp add: chan_map_eq chan_right_def set_codes)
    also have "\<dots> = (if c \<in> set chan_left then c else NUL)"
      using map_left_at [of "replicate 256 NUL" chan_left c] by simp
    finally show ?thesis using False uchar_less [of c] by (auto simp: chan_left_def set_codes Let_def)
  qed
qed
lemma chan_map_NUL: "mapped chan_map NUL = NUL"
  using chan_map_at [of NUL] by simp

lemma chan_map_lower:
  assumes "mapped chan_map c \<noteq> NUL"
  shows "tolower (mapped chan_map c) = tolower c"
proof -
  have "uchar (mapped chan_map c) \<noteq> 0" using assms by simp
  then have "uchar (tolower (mapped chan_map c)) = uchar (tolower c)"
    unfolding uchar_tolower chan_map_at by (auto simp: Let_def split: if_splits)
  then show ?thesis by simp
qed

lemma chancmp_zero:
  "chan_ok a \<Longrightarrow> chan_ok b \<Longrightarrow> chancmp a b n = 0 \<longleftrightarrow> map (mapped chan_map) a = map (mapped chan_map) b"
  using istrcmp_okay [OF chan_map_NUL, of a b] by (auto simp: chan_ok_def short_str_def chancmp_def)

lemma chan_hash_compat:
  assumes "chan_ok a" "chan_ok b" "chancmp a b CHANLEN = 0"
    and "ht_keylen t = CHANLEN" "ht_flags t = HASH_FL_NOCASE OR HASH_FL_STRING"
  shows "hash_get_key_hash t a = hash_get_key_hash t b"
proof -
  have "same_nocase a b"
    using assms(1-3) istrcmp_nocase [OF chan_map_NUL chan_map_lower, of a b] istrcmp_okay [OF chan_map_NUL, of a b]
    by (auto simp: chan_ok_def short_str_def chancmp_def)
  then have "same_nocase (take CHANLEN a) (take CHANLEN b)"
    unfolding same_nocase_def by (metis take_map)
  moreover have "\<not> 12 dvd CHANLEN" "CHANLEN < 2 ^ 32" by (simp_all add: CHANLEN_def)
  ultimately show ?thesis using assms
    by (intro nocase_string_hash) (simp_all add: chan_ok_def)
qed

abbreviation channel_table :: "(nat \<times> cstring) hashtable \<Rightarrow> bool" where
  "channel_table \<equiv> table_with snd CHANLEN (HASH_FL_NOCASE OR HASH_FL_STRING) chancmp chan_ok"

interpretation channels: keyed_table "channel_table" ht_ents
  "\<lambda>e :: nat \<times> cstring. chan_ok (snd e)" chan_ok "\<lambda>e k. chancmp (snd e) k CHANLEN = 0"
  "\<lambda>t. unat (ht_entries t) < 2 ^ 28" "hash_insert snd" "\<lambda>t e. fst (hash_delete snd t e)"
  "hash_find snd"
  by (rule table_contract, rule chan_hash_compat)

section \<open>The shape of the state\<close>

text \<open>
  Who is where, without modes and other data: name, count and links of a channel, links of a client,
  and both ends of a link.
\<close>

type_synonym chan_shape = "cstring \<times> u32 \<times> nat list"

definition cshape :: "ircd \<Rightarrow> nat \<Rightarrow> chan_shape option" where
  "cshape st c = map_option (\<lambda>ch. (ch_name ch, ch_onchannel ch, ch_users ch)) (ic_chan st c)"

definition kshape :: "ircd \<Rightarrow> nat \<Rightarrow> nat list option" where
  "kshape st c = map_option cc_chans (ic_cli st c)"

definition lshape :: "ircd \<Rightarrow> nat \<Rightarrow> (nat \<times> nat) option" where
  "lshape st l = map_option (\<lambda>lk. (cl_cli lk, cl_chan lk)) (ic_link st l)"

lemmas shapes = cshape_def kshape_def lshape_def

definition links_inv :: "(nat \<Rightarrow> chan_shape option) \<Rightarrow> (nat \<Rightarrow> nat list option) \<Rightarrow> (nat \<Rightarrow> (nat \<times> nat) option) \<Rightarrow> bool" where
  "links_inv C K L \<longleftrightarrow>
     (\<forall>l a c. L l = Some (a, c) \<longrightarrow> (\<exists>nm n us. C c = Some (nm, n, us) \<and> l \<in> set us) \<and> (\<exists>ks. K a = Some ks \<and> l \<in> set ks)) \<and>
     (\<forall>c nm n us. C c = Some (nm, n, us) \<longrightarrow> distinct us \<and> unat n = length us \<and> (\<forall>l \<in> set us. \<exists>a. L l = Some (a, c))) \<and>
     (\<forall>a ks. K a = Some ks \<longrightarrow> distinct ks \<and> (\<forall>l \<in> set ks. \<exists>c. L l = Some (a, c)))"

lemma links_invD:
  assumes "links_inv C K L"
  shows "L l = Some (a, c) \<Longrightarrow> \<exists>nm n us. C c = Some (nm, n, us) \<and> l \<in> set us"
    and "L l = Some (a, c) \<Longrightarrow> \<exists>ks. K a = Some ks \<and> l \<in> set ks"
    and "C c = Some (nm, n, us) \<Longrightarrow> distinct us \<and> unat n = length us"
    and "C c = Some (nm, n, us) \<Longrightarrow> l \<in> set us \<Longrightarrow> \<exists>a. L l = Some (a, c)"
    and "K a = Some ks \<Longrightarrow> distinct ks"
    and "K a = Some ks \<Longrightarrow> l \<in> set ks \<Longrightarrow> \<exists>c. L l = Some (a, c)"
  using assms unfolding links_inv_def by blast+

lemma links_invI:
  assumes "\<And>l a c. L l = Some (a, c) \<Longrightarrow> \<exists>nm n us. C c = Some (nm, n, us) \<and> l \<in> set us"
    and "\<And>l a c. L l = Some (a, c) \<Longrightarrow> \<exists>ks. K a = Some ks \<and> l \<in> set ks"
    and "\<And>c nm n us. C c = Some (nm, n, us) \<Longrightarrow> distinct us \<and> unat n = length us \<and> (\<forall>l \<in> set us. \<exists>a. L l = Some (a, c))"
    and "\<And>a ks. K a = Some ks \<Longrightarrow> distinct ks \<and> (\<forall>l \<in> set ks. \<exists>c. L l = Some (a, c))"
  shows "links_inv C K L"
  using assms unfolding links_inv_def by blast

lemma unat_plus1_32: "unat (n :: u32) < 2 ^ 32 - 1 \<Longrightarrow> unat (n + 1) = unat n + 1"
  by (simp add: unat_word_ariths)

lemma unat_minus1_32: "0 < unat (n :: u32) \<Longrightarrow> unat (n - 1) = unat n - 1"
  by (metis One_nat_def unat_minus_one unat_gt_0)

lemma links_add:
  assumes inv: "links_inv C K L" and l: "L l = None" and c: "C c = Some (nm, n, us)" and a: "K a = Some ks"
    and n: "length us < 2 ^ 32 - 1"
  shows "links_inv (C(c \<mapsto> (nm, n + 1, l # us))) (K(a \<mapsto> l # ks)) (L(l \<mapsto> (a, c)))"
proof -
  note D = links_invD [OF inv]
  have nl: "l \<notin> set us" "l \<notin> set ks" using D(4) [OF c, of l] D(6) [OF a, of l] l by auto
  have un: "unat (n + 1) = Suc (length us)" using D(3) [OF c] n unat_plus1_32 [of n] by simp
  have other: "l' \<in> set us' \<Longrightarrow> C c' = Some (nm', n', us') \<Longrightarrow> l' \<noteq> l" "l' \<in> set ks' \<Longrightarrow> K a' = Some ks' \<Longrightarrow> l' \<noteq> l"
    for l' us' c' nm' n' ks' a' using D(4) [of c' nm' n' us' l'] D(6) [of a' ks' l'] l by auto
  show ?thesis
  proof (rule links_invI)
    fix l' a' c' assume "(L(l \<mapsto> (a, c))) l' = Some (a', c')"
    then show "\<exists>nm' n' us'. (C(c \<mapsto> (nm, n + 1, l # us))) c' = Some (nm', n', us') \<and> l' \<in> set us'"
      using D(1) [of l' a' c'] c by (auto split: if_splits)
  next
    fix l' a' c' assume "(L(l \<mapsto> (a, c))) l' = Some (a', c')"
    then show "\<exists>ks'. (K(a \<mapsto> l # ks)) a' = Some ks' \<and> l' \<in> set ks'"
      using D(2) [of l' a' c'] a by (auto split: if_splits)
  next
    fix c' nm' n' us' assume "(C(c \<mapsto> (nm, n + 1, l # us))) c' = Some (nm', n', us')"
    then show "distinct us' \<and> unat n' = length us' \<and> (\<forall>l' \<in> set us'. \<exists>a'. (L(l \<mapsto> (a, c))) l' = Some (a', c'))"
      using D(3) [of c'] D(4) [of c'] D(3,4) [OF c] nl un other(1) by (auto split: if_splits)
  next
    fix a' ks' assume "(K(a \<mapsto> l # ks)) a' = Some ks'"
    then show "distinct ks' \<and> (\<forall>l' \<in> set ks'. \<exists>c'. (L(l \<mapsto> (a, c))) l' = Some (a', c'))"
      using D(5) [of a'] D(6) [of a'] D(5,6) [OF a] nl other(2) by (auto split: if_splits)
  qed
qed

lemma links_remove:
  assumes inv: "links_inv C K L" and l: "L l = Some (a, c)" and c: "C c = Some (nm, n, us)" and a: "K a = Some ks"
  shows "links_inv (C(c \<mapsto> (nm, n - 1, remove1 l us))) (K(a \<mapsto> remove1 l ks)) (L(l := None))"
proof -
  note D = links_invD [OF inv]
  have mem: "l \<in> set us" "l \<in> set ks" using D(1,2) [OF l] c a by auto
  have d: "distinct us" "distinct ks" "unat n = length us" using D(3) [OF c] D(5) [OF a] by auto
  then have "0 < unat n" using mem(1) by (cases us) auto
  then have un: "unat (n - 1) = length (remove1 l us)"
    using unat_minus1_32 [of n] d(3) mem(1) by (simp add: length_remove1)
  have other: "l' \<in> set us' \<Longrightarrow> C c' = Some (nm', n', us') \<Longrightarrow> c' \<noteq> c \<Longrightarrow> l' \<noteq> l"
    "l' \<in> set ks' \<Longrightarrow> K a' = Some ks' \<Longrightarrow> a' \<noteq> a \<Longrightarrow> l' \<noteq> l"
    for l' us' c' nm' n' ks' a' using D(4) [of c' nm' n' us' l'] D(6) [of a' ks' l'] l by auto
  show ?thesis
  proof (rule links_invI)
    fix l' a' c' assume "(L(l := None)) l' = Some (a', c')"
    then show "\<exists>nm' n' us'. (C(c \<mapsto> (nm, n - 1, remove1 l us))) c' = Some (nm', n', us') \<and> l' \<in> set us'"
      using D(1) [of l' a' c'] c d by (auto split: if_splits)
  next
    fix l' a' c' assume "(L(l := None)) l' = Some (a', c')"
    then show "\<exists>ks'. (K(a \<mapsto> remove1 l ks)) a' = Some ks' \<and> l' \<in> set ks'"
      using D(2) [of l' a' c'] a d by (auto split: if_splits)
  next
    fix c' nm' n' us' assume "(C(c \<mapsto> (nm, n - 1, remove1 l us))) c' = Some (nm', n', us')"
    then show "distinct us' \<and> unat n' = length us' \<and> (\<forall>l' \<in> set us'. \<exists>a'. (L(l := None)) l' = Some (a', c'))"
      using D(3) [of c'] D(4) [of c'] D(3,4) [OF c] d un other(1) by (auto split: if_splits)
  next
    fix a' ks' assume "(K(a \<mapsto> remove1 l ks)) a' = Some ks'"
    then show "distinct ks' \<and> (\<forall>l' \<in> set ks'. \<exists>c'. (L(l := None)) l' = Some (a', c'))"
      using D(5) [of a'] D(6) [of a'] D(5,6) [OF a] d other(2) by (auto split: if_splits)
  qed
qed

lemma links_destroy:
  assumes inv: "links_inv C K L" and c: "C c = Some (nm, n, [])"
  shows "links_inv (C(c := None)) K L"
proof (rule links_invI)
  note D = links_invD [OF inv]
  fix l a c' assume l: "L l = Some (a, c')"
  then have "c' \<noteq> c" using D(1) [OF l] c by auto
  then show "\<exists>nm' n' us'. (C(c := None)) c' = Some (nm', n', us') \<and> l \<in> set us'" using D(1) [OF l] by simp
qed (use links_invD [OF inv] in \<open>auto split: if_splits\<close>)

lemma links_create:
  assumes inv: "links_inv C K L" and c: "C c = None"
  shows "links_inv (C(c \<mapsto> (nm, 0, []))) K L"
proof (rule links_invI)
  note D = links_invD [OF inv]
  fix l a c' assume l: "L l = Some (a, c')"
  then have "c' \<noteq> c" using D(1) [OF l] c by auto
  then show "\<exists>nm' n' us'. (C(c \<mapsto> (nm, 0, []))) c' = Some (nm', n', us') \<and> l \<in> set us'" using D(1) [OF l] by simp
qed (use links_invD [OF inv] in \<open>auto split: if_splits\<close>)

section \<open>The registry of channels\<close>

text \<open>
  The list, the count and the hash table all hold the live channels, and no reference above the
  allocator is in use.
\<close>

definition entries :: "(nat \<Rightarrow> chan_shape option) \<Rightarrow> nat list \<Rightarrow> (nat \<times> cstring) multiset" where
  "entries C cs = mset (map (\<lambda>c. (c, fst (the (C c)))) cs)"

lemma entries_Cons: "entries C (c # cs) = add_mset (c, fst (the (C c))) (entries C cs)"
  by (simp add: entries_def)

lemma entries_new [simp]: "c \<notin> set cs \<Longrightarrow> entries (C(c := x)) cs = entries C cs"
  unfolding entries_def by (intro arg_cong [of _ _ mset] map_cong) auto

lemma entries_same [simp]: "C c = Some (nm, n, us) \<Longrightarrow> entries (C(c \<mapsto> (nm, n', us'))) cs = entries C cs"
  unfolding entries_def by (intro arg_cong [of _ _ mset] map_cong) auto

definition reg_inv :: "ircd \<Rightarrow> bool" where
  "reg_inv st \<longleftrightarrow>
     distinct (ic_list st) \<and> (\<forall>c. c \<in> set (ic_list st) \<longleftrightarrow> cshape st c \<noteq> None) \<and>
     ic_count st = int (length (ic_list st)) \<and> channel_table (ic_hash st) \<and>
     ht_ents (ic_hash st) = entries (cshape st) (ic_list st) \<and>
     (\<forall>c. ic_fresh st \<le> c \<longrightarrow> cshape st c = None \<and> lshape st c = None)"

definition ch_inv :: "ircd \<Rightarrow> bool" where
  "ch_inv st \<longleftrightarrow> links_inv (cshape st) (kshape st) (lshape st) \<and> reg_inv st"

definition same_shape :: "ircd \<Rightarrow> ircd \<Rightarrow> bool" where
  "same_shape st st' \<longleftrightarrow>
     cshape st' = cshape st \<and> kshape st' = kshape st \<and> lshape st' = lshape st \<and> ic_cm st' = ic_cm st \<and>
     ic_um st' = ic_um st \<and> ic_fresh st' = ic_fresh st \<and> ic_list st' = ic_list st \<and> ic_hash st' = ic_hash st \<and>
     ic_count st' = ic_count st \<and> ic_chanlen st' = ic_chanlen st \<and> ic_now st' = ic_now st \<and> ic_me st' = ic_me st"

lemma same_shape_refl [simp, intro]: "same_shape st st"
  by (simp add: same_shape_def)

lemma same_shape_trans: "same_shape st st' \<Longrightarrow> same_shape st' st'' \<Longrightarrow> same_shape st st''"
  by (simp add: same_shape_def)

lemma same_shape_inv: "same_shape st st' \<Longrightarrow> ch_inv st' \<longleftrightarrow> ch_inv st"
  by (simp add: same_shape_def ch_inv_def reg_inv_def)

lemma shape_hook [simp]: "cshape (hook_chan e st) = cshape st" "kshape (hook_chan e st) = kshape st"
  "lshape (hook_chan e st) = lshape st"
  by (simp_all add: shapes hook_chan_def fun_eq_iff)

lemma same_shape_hook [simp, intro]: "same_shape st (hook_chan e st)"
  by (simp add: same_shape_def) (simp add: hook_chan_def)

lemma shape_put [simp]:
  "cshape (put_chan st c ch) = (cshape st)(c \<mapsto> (ch_name ch, ch_onchannel ch, ch_users ch))"
  "kshape (put_chan st c ch) = kshape st" "lshape (put_chan st c ch) = lshape st"
  "cshape (put_link st l lk) = cshape st" "kshape (put_link st l lk) = kshape st"
  "lshape (put_link st l lk) = (lshape st)(l \<mapsto> (cl_cli lk, cl_chan lk))"
  "cshape (put_client st a cli) = cshape st" "kshape (put_client st a cli) = (kshape st)(a \<mapsto> cc_chans cli)"
  "lshape (put_client st a cli) = lshape st"
  by (auto simp: shapes put_chan_def put_link_def put_client_def)

lemma shape_upd [simp]:
  "cshape (st\<lparr>ic_fresh := n\<rparr>) = cshape st" "kshape (st\<lparr>ic_fresh := n\<rparr>) = kshape st" "lshape (st\<lparr>ic_fresh := n\<rparr>) = lshape st"
  "cshape (st\<lparr>ic_list := ls\<rparr>) = cshape st" "kshape (st\<lparr>ic_list := ls\<rparr>) = kshape st" "lshape (st\<lparr>ic_list := ls\<rparr>) = lshape st"
  "cshape (st\<lparr>ic_hash := h\<rparr>) = cshape st" "kshape (st\<lparr>ic_hash := h\<rparr>) = kshape st" "lshape (st\<lparr>ic_hash := h\<rparr>) = lshape st"
  "cshape (st\<lparr>ic_count := k\<rparr>) = cshape st" "kshape (st\<lparr>ic_count := k\<rparr>) = kshape st" "lshape (st\<lparr>ic_count := k\<rparr>) = lshape st"
  "cshape (st\<lparr>ic_link := (ic_link st)(l := None)\<rparr>) = cshape st" "kshape (st\<lparr>ic_link := (ic_link st)(l := None)\<rparr>) = kshape st"
  "lshape (st\<lparr>ic_link := (ic_link st)(l := None)\<rparr>) = (lshape st)(l := None)"
  "cshape (st\<lparr>ic_chan := (ic_chan st)(c := None)\<rparr>) = (cshape st)(c := None)"
  "kshape (st\<lparr>ic_chan := (ic_chan st)(c := None)\<rparr>) = kshape st" "lshape (st\<lparr>ic_chan := (ic_chan st)(c := None)\<rparr>) = lshape st"
  by (auto simp: shapes)

lemma cshape_Some: "cshape st c = Some (nm, n, us) \<longleftrightarrow>
    (\<exists>ch. ic_chan st c = Some ch \<and> ch_name ch = nm \<and> ch_onchannel ch = n \<and> ch_users ch = us)"
  by (auto simp: cshape_def)

lemma kshape_Some: "kshape st a = Some ks \<longleftrightarrow> (\<exists>c. ic_cli st a = Some c \<and> cc_chans c = ks)"
  by (auto simp: kshape_def)

lemma lshape_Some: "lshape st l = Some (a, c) \<longleftrightarrow> (\<exists>lk. ic_link st l = Some lk \<and> cl_cli lk = a \<and> cl_chan lk = c)"
  by (auto simp: lshape_def)

section \<open>The operations keep the invariant\<close>

lemma create_channel_inv:
  assumes inv: "ch_inv st" and nm: "chan_ok (take (ic_chanlen st) name)" and n: "unat (ht_entries (ic_hash st)) < 2 ^ 28"
  shows "\<exists>st' c. create_channel st name = Some (st', c) \<and> ch_inv st' \<and>
    cshape st' = (cshape st)(c \<mapsto> (take (ic_chanlen st) name, 0, [])) \<and> cshape st c = None \<and>
    kshape st' = kshape st \<and> lshape st' = lshape st"
proof -
  let ?c = "ic_fresh st" and ?nm = "take (ic_chanlen st) name"
  have reg: "reg_inv st" and li: "links_inv (cshape st) (kshape st) (lshape st)" using inv by (simp_all add: ch_inv_def)
  have tab: "channel_table (ic_hash st)" using reg by (simp add: reg_inv_def)
  obtain h where h: "hash_insert snd (ic_hash st) (?c, ?nm) = Some h" "channel_table h"
    "ht_ents h = add_mset (?c, ?nm) (ht_ents (ic_hash st))"
    using channels.ins_ok [OF tab n, of "(?c, ?nm)"] nm by auto
  have new: "cshape st ?c = None" using reg by (simp add: reg_inv_def)
  then have nl: "?c \<notin> set (ic_list st)" using reg by (simp add: reg_inv_def)
  define st' where "st' = hook_chan (ChannelCreate ?c) ((put_chan st ?c
      \<lparr>ch_name = ?nm, ch_created = ic_now st, ch_onchannel = 0, ch_users = [], ch_modes = 0,
       ch_bans = (\<lambda>_. []), ch_str = (\<lambda>_. []), ch_int = (\<lambda>_. 0)\<rparr>)\<lparr>ic_fresh := Suc ?c,
         ic_list := ?c # ic_list st, ic_hash := h, ic_count := ic_count st + 1\<rparr>)"
  have run: "create_channel st name = Some (st', ?c)" using h(1) by (simp add: create_channel_def Let_def st'_def)
  have sh: "cshape st' = (cshape st)(?c \<mapsto> (?nm, 0, []))" "kshape st' = kshape st" "lshape st' = lshape st"
    by (simp_all add: st'_def)
  have f: "ic_list st' = ?c # ic_list st" "ic_hash st' = h" "ic_count st' = ic_count st + 1" "ic_fresh st' = Suc ?c"
    by (simp_all add: st'_def hook_chan_def)
  have "reg_inv st'" using reg h nl new by (auto simp: reg_inv_def f sh entries_Cons)
  moreover have "links_inv (cshape st') (kshape st') (lshape st')"
    unfolding sh by (rule links_create [OF li new])
  ultimately show ?thesis using run sh new by (auto simp: ch_inv_def)
qed

lemma add_to_channel_inv:
  assumes inv: "ch_inv st" and c: "cshape st chan = Some (nm, n, us)" and a: "kshape st cli = Some ks"
    and n: "length us < 2 ^ 32 - 1"
  shows "\<exists>st'. add_to_channel st cli chan hook = Some st' \<and> ch_inv st' \<and>
    cshape st' = (cshape st)(chan \<mapsto> (nm, n + 1, ic_fresh st # us)) \<and> kshape st' = (kshape st)(cli \<mapsto> ic_fresh st # ks) \<and>
    lshape st' = (lshape st)(ic_fresh st \<mapsto> (cli, chan)) \<and> ic_cm st' = ic_cm st"
proof -
  have reg: "reg_inv st" and li: "links_inv (cshape st) (kshape st) (lshape st)" using inv by (simp_all add: ch_inv_def)
  obtain ch k where ch: "ic_chan st chan = Some ch" "ch_name ch = nm" "ch_onchannel ch = n" "ch_users ch = us"
    and k: "ic_cli st cli = Some k" "cc_chans k = ks"
    using c a by (auto simp: cshape_Some kshape_Some)
  let ?l = "ic_fresh st"
  define st3 where "st3 = put_client (put_chan (put_link (st\<lparr>ic_fresh := Suc ?l\<rparr>) ?l
      \<lparr>cl_cli = cli, cl_chan = chan, cl_flags = 0, cl_bans = 0\<rparr>) chan
      (ch\<lparr>ch_users := ?l # us, ch_onchannel := n + 1\<rparr>)) cli (k\<lparr>cc_chans := ?l # ks\<rparr>)"
  have run: "add_to_channel st cli chan hook = Some (if hook then hook_chan (ChannelAdd ?l) st3 else st3)"
    using ch k by (simp add: add_to_channel_def Let_def st3_def)
  have new: "lshape st ?l = None" using reg by (simp add: reg_inv_def)
  have sh: "cshape st3 = (cshape st)(chan \<mapsto> (nm, n + 1, ?l # us))" "kshape st3 = (kshape st)(cli \<mapsto> ?l # ks)"
    "lshape st3 = (lshape st)(?l \<mapsto> (cli, chan))" using ch by (simp_all add: st3_def)
  have "links_inv (cshape st3) (kshape st3) (lshape st3)"
    unfolding sh by (rule links_add [OF li new c a n])
  moreover have "reg_inv st3"
  proof -
    have f: "ic_list st3 = ic_list st" "ic_hash st3 = ic_hash st" "ic_count st3 = ic_count st" "ic_fresh st3 = Suc ?l"
      by (simp_all add: st3_def put_client_def put_chan_def put_link_def)
    have "chan < ?l" using reg c by (metis leI option.discI reg_inv_def)
    then show ?thesis using reg c by (auto simp: reg_inv_def f sh)
  qed
  ultimately have "ch_inv st3" by (simp add: ch_inv_def)
  then have "ch_inv (if hook then hook_chan (ChannelAdd ?l) st3 else st3)"
    using same_shape_inv [OF same_shape_hook [of st3 "ChannelAdd ?l"]] by simp
  moreover have "ic_cm st3 = ic_cm st" by (simp add: st3_def put_client_def put_chan_def put_link_def)
  moreover have "ic_cm (hook_chan e s) = ic_cm s" for e s by (simp add: hook_chan_def)
  ultimately show ?thesis using run sh by auto
qed

lemma remove_link_inv:
  assumes inv: "ch_inv st" and l: "lshape st l = Some (a, c)"
  shows "\<exists>st' nm n us. remove_link st l = Some st' \<and> ch_inv st' \<and> cshape st c = Some (nm, n, us) \<and> l \<in> set us \<and>
    cshape st' = (cshape st)(c \<mapsto> (nm, n - 1, remove1 l us)) \<and> lshape st' = (lshape st)(l := None) \<and>
    (\<exists>ks. kshape st a = Some ks \<and> kshape st' = (kshape st)(a \<mapsto> remove1 l ks)) \<and> ic_cm st' = ic_cm st"
proof -
  have reg: "reg_inv st" and li: "links_inv (cshape st) (kshape st) (lshape st)" using inv by (simp_all add: ch_inv_def)
  obtain nm n us ks where c: "cshape st c = Some (nm, n, us)" "l \<in> set us" and a: "kshape st a = Some ks" "l \<in> set ks"
    using links_invD(1,2) [OF li l] by blast
  obtain ch k lk where ch: "ic_chan st c = Some ch" "ch_name ch = nm" "ch_onchannel ch = n" "ch_users ch = us"
    and k: "ic_cli st a = Some k" "cc_chans k = ks" and lk: "ic_link st l = Some lk" "cl_cli lk = a" "cl_chan lk = c"
    using c(1) a(1) l by (auto simp: cshape_Some kshape_Some lshape_Some)
  let ?st2 = "put_client (put_chan st c (ch\<lparr>ch_users := remove1 l us, ch_onchannel := n - 1\<rparr>)) a (k\<lparr>cc_chans := remove1 l ks\<rparr>)"
  define st' where "st' = ?st2\<lparr>ic_link := (ic_link ?st2)(l := None)\<rparr>"
  have run: "remove_link st l = Some st'"
    using ch k lk c(2) a(2) by (simp add: remove_link_def Let_def st'_def)
  have sh: "cshape st' = (cshape st)(c \<mapsto> (nm, n - 1, remove1 l us))" "kshape st' = (kshape st)(a \<mapsto> remove1 l ks)"
    "lshape st' = (lshape st)(l := None)" using ch by (simp_all add: st'_def)
  have f: "ic_list st' = ic_list st" "ic_hash st' = ic_hash st" "ic_count st' = ic_count st" "ic_fresh st' = ic_fresh st"
    "ic_cm st' = ic_cm st"
    by (simp_all add: st'_def put_client_def put_chan_def)
  have "links_inv (cshape st') (kshape st') (lshape st')" unfolding sh by (rule links_remove [OF li l c(1) a(1)])
  moreover have "reg_inv st'" using reg c(1) by (auto simp: reg_inv_def f sh)
  ultimately have "ch_inv st'" by (simp add: ch_inv_def)
  then show ?thesis using run sh c a f(5) by blast
qed

lemma find_link_ok:
  assumes "links_inv C K (lshape st)" "K a = Some ks" "set ls \<subseteq> set ks"
  shows "\<exists>r. find_link st chan ls = Some r \<and>
    (case r of None \<Rightarrow> \<forall>l \<in> set ls. lshape st l \<noteq> Some (a, chan) | Some l \<Rightarrow> l \<in> set ls \<and> lshape st l = Some (a, chan))"
  using assms(3)
proof (induction ls)
  case (Cons l ls)
  then obtain c where "lshape st l = Some (a, c)" using links_invD(6) [OF assms(1,2), of l] by auto
  then obtain lk where lk: "ic_link st l = Some lk" "cl_cli lk = a" "cl_chan lk = c" by (auto simp: lshape_Some)
  show ?case
  proof (cases "c = chan")
    case True
    then show ?thesis using lk by (intro exI [of _ "Some l"]) (simp add: lshape_Some)
  next
    case False
    then show ?thesis using Cons lk by (fastforce simp: lshape_def split: option.splits)
  qed
qed simp

lemma find_chan_link_ok:
  assumes "ch_inv st" "kshape st a = Some ks"
  shows "\<exists>r. find_chan_link st a chan = Some r \<and>
    (case r of None \<Rightarrow> \<forall>l. lshape st l \<noteq> Some (a, chan) | Some l \<Rightarrow> lshape st l = Some (a, chan))"
proof -
  have li: "links_inv (cshape st) (kshape st) (lshape st)" using assms(1) by (simp add: ch_inv_def)
  obtain k where k: "ic_cli st a = Some k" "cc_chans k = ks" using assms(2) by (auto simp: kshape_Some)
  have "lshape st l = Some (a, chan) \<Longrightarrow> l \<in> set ks" for l
    using links_invD(2) [OF li, of l a chan] assms(2) by auto
  moreover obtain r where "find_link st chan ks = Some r"
    "case r of None \<Rightarrow> \<forall>l \<in> set ks. lshape st l \<noteq> Some (a, chan) | Some l \<Rightarrow> l \<in> set ks \<and> lshape st l = Some (a, chan)"
    using find_link_ok [OF li assms(2) subset_refl, of chan] by blast
  ultimately show ?thesis using k by (intro exI [of _ r]) (auto simp: find_chan_link_def split: option.splits)
qed

lemma same_shape_live: "same_shape st st' \<Longrightarrow> ic_chan st' c = None \<longleftrightarrow> ic_chan st c = None"
proof -
  assume ss: "same_shape st st'"
  have "ic_chan st' c = None \<longleftrightarrow> cshape st' c = None" by (simp add: cshape_def)
  also have "cshape st' c = cshape st c" using ss by (simp add: same_shape_def)
  also have "cshape st c = None \<longleftrightarrow> ic_chan st c = None" by (simp add: cshape_def)
  finally show ?thesis .
qed

lemma kshape_set:
  assumes "ch_inv st" "kshape st a = Some ks"
  shows "set ks = {l. \<exists>c. lshape st l = Some (a, c)}" "distinct ks"
proof -
  have li: "links_inv (cshape st) (kshape st) (lshape st)" using assms(1) by (simp add: ch_inv_def)
  show "distinct ks" by (rule links_invD(5) [OF li assms(2)])
  show "set ks = {l. \<exists>c. lshape st l = Some (a, c)}"
    using links_invD(2) [OF li] links_invD(6) [OF li assms(2)] assms(2) by fastforce
qed

text \<open>
  What the channel code relies on in the handlers of the modes: on a live channel a handler of a mode
  that is set up right returns when it clears, and a handler never changes who is where.
\<close>

locale chan_handlers =
  fixes hnd :: chan_funcs and good :: "cmodes \<Rightarrow> char \<Rightarrow> bool"
  assumes clears: "good (ic_cm st) m \<Longrightarrow> ic_chan st c \<noteq> None \<Longrightarrow> call_change hnd m st None c m ChClear None 0 \<noteq> None"
    and keeps_shape: "call_change hnd m st None c m ChClear None 0 = Some r \<Longrightarrow> same_shape st (fst r)"
begin

lemma clear_modes_ok:
  "\<forall>m \<in> set ms. good (ic_cm st) m \<Longrightarrow> ic_chan st c \<noteq> None \<Longrightarrow>
     \<exists>st'. clear_modes hnd st c ms = Some st' \<and> same_shape st st'"
proof (induction ms arbitrary: st)
  case (Cons m ms)
  then obtain r where r: "call_change hnd m st None c m ChClear None 0 = Some r"
    using clears [of st m c] by auto
  then have s: "same_shape st (fst r)" by (rule keeps_shape)
  then have "ic_chan (fst r) c \<noteq> None" "ic_cm (fst r) = ic_cm st"
    using Cons.prems(2) same_shape_live [OF s] by (simp_all add: same_shape_def)
  then obtain st' where "clear_modes hnd (fst r) c ms = Some st'" "same_shape (fst r) st'"
    using Cons.IH [of "fst r"] Cons.prems(1) by auto
  then show ?case using r same_shape_trans [OF s] by auto
qed simp

lemma destroy_channel_ok:
  assumes inv: "ch_inv st" and c: "cshape st c = Some (nm, n, [])" and g: "\<forall>m \<in> set (cs_avail (ic_cm st)). good (ic_cm st) m"
  shows "\<exists>st'. destroy_channel hnd st c = Some st' \<and> ch_inv st' \<and> cshape st' = (cshape st)(c := None) \<and>
    kshape st' = kshape st \<and> lshape st' = lshape st \<and> ic_cm st' = ic_cm st"
proof -
  let ?st0 = "hook_chan (ChannelDestroy c) st"
  have cm: "ic_cm ?st0 = ic_cm st" by (simp add: hook_chan_def)
  have live: "ic_chan st c \<noteq> None" "ic_chan ?st0 c \<noteq> None" using c by (auto simp: cshape_Some hook_chan_def)
  obtain st1 where st1: "clear_modes hnd ?st0 c (cs_avail (ic_cm st)) = Some st1" "same_shape ?st0 st1"
    using clear_modes_ok [of "cs_avail (ic_cm st)" ?st0 c] g live cm by auto
  have ss: "same_shape st st1" using same_shape_trans [OF same_shape_hook st1(2)] .
  then have inv1: "ch_inv st1" using inv same_shape_inv by blast
  then have reg: "reg_inv st1" and li: "links_inv (cshape st1) (kshape st1) (lshape st1)" by (simp_all add: ch_inv_def)
  have c1: "cshape st1 c = Some (nm, n, [])" using ss c by (simp add: same_shape_def)
  then obtain ch where ch: "ic_chan st1 c = Some ch" "ch_name ch = nm" by (auto simp: cshape_Some)
  have mem: "c \<in> set (ic_list st1)" and tab: "channel_table (ic_hash st1)" and d: "distinct (ic_list st1)"
    and cnt: "ic_count st1 = int (length (ic_list st1))"
    and ents: "ht_ents (ic_hash st1) = entries (cshape st1) (ic_list st1)" using reg c1 by (auto simp: reg_inv_def)
  let ?h = "fst (hash_delete snd (ic_hash st1) (c, nm))"
  have ok: "chan_ok nm"
  proof -
    have "(c, nm) \<in># entries (cshape st1) (ic_list st1)" using mem c1 by (force simp: entries_def)
    then show ?thesis using tab ents by (auto simp: table_with_def)
  qed
  have h: "channel_table ?h" "ht_ents ?h = ht_ents (ic_hash st1) - {#(c, nm)#}"
    using channels.del_ok [OF tab, of "(c, nm)"] ok by simp_all
  define st' where "st' = st1\<lparr>ic_hash := ?h, ic_list := remove1 c (ic_list st1), ic_count := ic_count st1 - 1,
      ic_chan := (ic_chan st1)(c := None)\<rparr>"
  have run: "destroy_channel hnd st c = Some st'"
    using live(1) st1(1) ch mem by (auto simp: destroy_channel_def st'_def)
  have sh: "cshape st' = (cshape st1)(c := None)" "kshape st' = kshape st1" "lshape st' = lshape st1"
    by (simp_all add: st'_def shapes fun_eq_iff)
  have f: "ic_list st' = remove1 c (ic_list st1)" "ic_hash st' = ?h" "ic_count st' = ic_count st1 - 1"
    "ic_fresh st' = ic_fresh st1" "ic_cm st' = ic_cm st1" by (simp_all add: st'_def)
  have "entries (cshape st1) (remove1 c (ic_list st1)) = entries (cshape st1) (ic_list st1) - {#(c, nm)#}"
  proof -
    let ?f = "\<lambda>c. (c, fst (the (cshape st1 c)))"
    have "mset (ic_list st1) = add_mset c (mset (remove1 c (ic_list st1)))" using mem by simp
    then have "image_mset ?f (mset (ic_list st1)) = add_mset (c, nm) (image_mset ?f (mset (remove1 c (ic_list st1))))"
      using c1 by (simp only: image_mset_add_mset option.sel fst_conv)
    then show ?thesis unfolding entries_def mset_map by simp
  qed
  moreover have "int (length (remove1 c (ic_list st1))) = int (length (ic_list st1)) - 1"
    using mem length_pos_if_in_set [OF mem] by (simp add: length_remove1 of_nat_diff Suc_le_eq)
  ultimately have "reg_inv st'"
    using reg h d mem ents cnt by (auto simp: reg_inv_def f sh)
  moreover have "links_inv (cshape st') (kshape st') (lshape st')" unfolding sh by (rule links_destroy [OF li c1])
  ultimately show ?thesis using run sh ss f(5) by (auto simp: ch_inv_def same_shape_def)
qed

lemma del_from_channel_ok:
  assumes inv: "ch_inv st" and a: "kshape st cli = Some ks" and c: "cshape st chan = Some (nm, n, us)"
    and g: "\<forall>m \<in> set (cs_avail (ic_cm st)). good (ic_cm st) m"
  shows "\<exists>st'. del_from_channel hnd st cli chan hook = Some st' \<and> ch_inv st' \<and> ic_cm st' = ic_cm st \<and>
    (\<forall>b. kshape st' b = None \<longleftrightarrow> kshape st b = None) \<and> (\<forall>d. d \<noteq> chan \<longrightarrow> cshape st' d = cshape st d) \<and>
    (if \<exists>l. lshape st l = Some (cli, chan)
     then (\<exists>l. lshape st l = Some (cli, chan) \<and> lshape st' = (lshape st)(l := None)) \<and> (cshape st' chan = None \<longleftrightarrow> length us = 1)
     else lshape st' = lshape st \<and> (cshape st' chan = None \<longleftrightarrow> us = []))"
proof -
  have li: "links_inv (cshape st) (kshape st) (lshape st)" using inv by (simp add: ch_inv_def)
  obtain r where r: "find_chan_link st cli chan = Some r"
    "case r of None \<Rightarrow> \<forall>l. lshape st l \<noteq> Some (cli, chan) | Some l \<Rightarrow> lshape st l = Some (cli, chan)"
    using find_chan_link_ok [OF inv a] by blast
  show ?thesis
  proof (cases r)
    case None
    have run: "del_from_channel hnd st cli chan hook = (if us = [] then destroy_channel hnd st chan else Some st)"
      using r(1) None c links_invD(3) [OF li c] by (auto simp: del_from_channel_def cshape_Some unat_eq_zero)
    have no: "\<not> (\<exists>l. lshape st l = Some (cli, chan))" using r(2) None by simp
    show ?thesis
    proof (cases "us = []")
      case True
      then show ?thesis using run destroy_channel_ok [OF inv _ g, of chan nm n] c no by auto
    next
      case False
      then show ?thesis using run inv c no by auto
    qed
  next
    case (Some l)
    let ?st0 = "if hook then hook_chan (ChannelDel l) st else st"
    have ss: "same_shape st ?st0" by simp
    have inv0: "ch_inv ?st0" using same_shape_inv [OF ss] inv by blast
    have l: "lshape st l = Some (cli, chan)" using r(2) Some by simp
    have l0: "lshape ?st0 l = Some (cli, chan)" "ic_cm ?st0 = ic_cm st" using l by (simp_all add: hook_chan_def shapes)
    obtain st1 nm' n' us' ks' where st1: "remove_link ?st0 l = Some st1" "ch_inv st1" "cshape ?st0 chan = Some (nm', n', us')"
      "l \<in> set us'" "cshape st1 = (cshape ?st0)(chan \<mapsto> (nm', n' - 1, remove1 l us'))" "lshape st1 = (lshape ?st0)(l := None)"
      "kshape ?st0 cli = Some ks'" "kshape st1 = (kshape ?st0)(cli \<mapsto> remove1 l ks')" "ic_cm st1 = ic_cm ?st0"
      using remove_link_inv [OF inv0 l0(1)] by blast
    have eq: "nm' = nm" "n' = n" "us' = us" using st1(3) c by (auto split: if_splits)
    have c1: "cshape st1 chan = Some (nm, n - 1, remove1 l us)" using st1(5) eq by simp
    have li1: "links_inv (cshape st1) (kshape st1) (lshape st1)" using st1(2) by (simp add: ch_inv_def)
    have z: "n - 1 = 0 \<longleftrightarrow> length us = 1"
      using links_invD(3) [OF li1 c1] st1(4) eq by (cases us) (auto simp: length_remove1 unat_eq_zero [symmetric])
    have run: "del_from_channel hnd st cli chan hook = (if length us = 1 then destroy_channel hnd st1 chan else Some st1)"
      using r(1) Some st1(1) c1 z by (auto simp: del_from_channel_def cshape_Some)
    have ex: "\<exists>l. lshape st l = Some (cli, chan)" using l by blast
    have kn: "\<forall>b. kshape st1 b = None \<longleftrightarrow> kshape st b = None" "\<forall>d. d \<noteq> chan \<longrightarrow> cshape st1 d = cshape st d"
      "lshape st1 = (lshape st)(l := None)" "ic_cm st1 = ic_cm st"
      using st1(5-9) l0(2) a by (auto split: if_splits)
    show ?thesis
    proof (cases "length us = 1")
      case True
      then have "remove1 l us = []" using st1(4) eq by (cases us) auto
      then show ?thesis
        using run True destroy_channel_ok [OF st1(2), of chan nm "n - 1"] c1 g kn ex l by auto
    next
      case False
      then show ?thesis using run st1(2) c1 kn ex l by auto
    qed
  qed
qed

lemma leave_channels_ok:
  assumes "ch_inv st" "kshape st cli = Some ks" "length ks < n" "\<forall>m \<in> set (cs_avail (ic_cm st)). good (ic_cm st) m"
  shows "\<exists>st'. leave_channels n hnd st cli = Some st' \<and> ch_inv st' \<and> kshape st' cli = Some [] \<and> ic_cm st' = ic_cm st \<and>
    (\<forall>b. kshape st' b = None \<longleftrightarrow> kshape st b = None)"
  using assms
proof (induction n arbitrary: st ks)
  case (Suc n)
  obtain k where k: "ic_cli st cli = Some k" "cc_chans k = ks" using Suc.prems(2) by (auto simp: kshape_Some)
  show ?case
  proof (cases ks)
    case Nil
    then show ?thesis using k Suc.prems by auto
  next
    case (Cons l ls)
    have li: "links_inv (cshape st) (kshape st) (lshape st)" using Suc.prems(1) by (simp add: ch_inv_def)
    obtain c where c: "lshape st l = Some (cli, c)" using links_invD(6) [OF li Suc.prems(2), of l] Cons by auto
    then obtain nm m us where us: "cshape st c = Some (nm, m, us)" using links_invD(1) [OF li] by blast
    obtain lk where lk: "ic_link st l = Some lk" "cl_chan lk = c" using c by (auto simp: lshape_Some)
    have some: "\<exists>l. lshape st l = Some (cli, c)" using c by blast
    obtain st1 l' where st1: "del_from_channel hnd st cli c True = Some st1" "ch_inv st1" "ic_cm st1 = ic_cm st"
      "\<forall>b. kshape st1 b = None \<longleftrightarrow> kshape st b = None" "lshape st l' = Some (cli, c)" "lshape st1 = (lshape st)(l' := None)"
      using del_from_channel_ok [OF Suc.prems(1,2) us Suc.prems(4), of True] some by auto
    obtain ks1 where ks1: "kshape st1 cli = Some ks1" using st1(4) Suc.prems(2) by fastforce
    note s = kshape_set [OF Suc.prems(1,2)] kshape_set [OF st1(2) ks1]
    have "set ks1 = set ks - {l'}" unfolding s(1) s(3) using st1(6) by (auto split: if_splits)
    moreover have "l' \<in> set ks" unfolding s(1) using st1(5) by blast
    ultimately have "length ks1 < length ks"
      using s(2,4) by (metis distinct_card psubset_card_mono finite_set psubset_eq Diff_subset Diff_iff insertI1)
    then obtain st' where "leave_channels n hnd st1 cli = Some st'" "ch_inv st'" "kshape st' cli = Some []"
      "ic_cm st' = ic_cm st1" "\<forall>b. kshape st' b = None \<longleftrightarrow> kshape st1 b = None"
      using Suc.IH [OF st1(2) ks1] Suc.prems(3,4) st1(3) by auto
    then show ?thesis using k Cons lk st1 by auto
  qed
qed simp

end

end
