(* ===== verification/ChanCore.thy ===== *)
theory ChanCore
  imports Channel Wildcard Convert Event
begin

text \<open>
  The channel modes of \<^verbatim>\<open>modules/ircd/addons/core.c\<close>: bans, key, limit, flags and member flags, with
  their queries and the hooks that decide who may join, send, see a channel or change nicknames.
  \<^verbatim>\<open>inet_pton\<close> is a parameter, and so are the search for a client by name and the privileges.
\<close>

section \<open>Settings\<close>

definition USERLEN :: nat where "USERLEN = 10"
definition HOSTLEN :: nat where "HOSTLEN = 63"
definition PASSWDLEN :: nat where "PASSWDLEN = 33"
definition MAX_BANS_PER_CHANNEL :: nat where "MAX_BANS_PER_CHANNEL = 100"

definition ERR_NOSUCHNICK :: int where "ERR_NOSUCHNICK = 401"
definition ERR_CANNOTSENDTOCHAN :: int where "ERR_CANNOTSENDTOCHAN = 404"
definition ERR_BANONCHAN :: int where "ERR_BANONCHAN = 435"
definition ERR_BANNICKCHANGE :: int where "ERR_BANNICKCHANGE = 437"
definition ERR_USERNOTINCHANNEL :: int where "ERR_USERNOTINCHANNEL = 441"
definition ERR_NOTONCHANNEL :: int where "ERR_NOTONCHANNEL = 442"
definition ERR_CHANNELISFULL :: int where "ERR_CHANNELISFULL = 471"
definition ERR_BANNEDFROMCHAN :: int where "ERR_BANNEDFROMCHAN = 474"
definition ERR_BADCHANNELKEY :: int where "ERR_BADCHANNELKEY = 475"
definition ERR_BANLISTFULL :: int where "ERR_BANLISTFULL = 478"
definition ERR_CHANOPRIVSNEEDED :: int where "ERR_CHANOPRIVSNEEDED = 482"
definition RPL_BANLIST :: int where "RPL_BANLIST = 367"
definition RPL_ENDOFBANLIST :: int where "RPL_ENDOFBANLIST = 368"

lemmas numerics = ERR_NOSUCHNICK_def ERR_CANNOTSENDTOCHAN_def ERR_BANONCHAN_def ERR_BANNICKCHANGE_def
  ERR_USERNOTINCHANNEL_def ERR_NOTONCHANNEL_def ERR_CHANNELISFULL_def ERR_BANNEDFROMCHAN_def
  ERR_BADCHANNELKEY_def ERR_BANLISTFULL_def ERR_CHANOPRIVSNEEDED_def RPL_BANLIST_def RPL_ENDOFBANLIST_def

text \<open>The mode characters that the module was given, and the search for a client by name.\<close>

record core_modes =
  cr_ban :: char
  cr_key :: char
  cr_limit :: char
  cr_mod :: char
  cr_nextern :: char
  cr_op :: char
  cr_secret :: char
  cr_voice :: char

type_synonym chase = "ircd \<Rightarrow> cstring \<Rightarrow> nat option"

section \<open>Access to mode data\<close>

definition has_data :: "ircd \<Rightarrow> char \<Rightarrow> bool" where
  "has_data st mode \<longleftrightarrow> \<not> cm_avail (cs_modes (ic_cm st) mode) \<and> cm_mdi (cs_modes (ic_cm st) mode) \<noteq> None"

definition chanmode_isset :: "ircd \<Rightarrow> channel \<Rightarrow> char \<Rightarrow> bool" where
  "chanmode_isset st ch mode \<longleftrightarrow> cmode_exists (ic_cm st) mode \<and> ch_modes ch AND cm_mask (cs_modes (ic_cm st) mode) \<noteq> 0"

definition setflag :: "ircd \<Rightarrow> char \<Rightarrow> channel \<Rightarrow> channel" where
  "setflag st mode ch = ch\<lparr>ch_modes := ch_modes ch OR cm_mask (cs_modes (ic_cm st) mode)\<rparr>"

definition unsetflag :: "ircd \<Rightarrow> char \<Rightarrow> channel \<Rightarrow> channel" where
  "unsetflag st mode ch = ch\<lparr>ch_modes := ch_modes ch AND NOT (cm_mask (cs_modes (ic_cm st) mode))\<rparr>"

text \<open>The channel, if the mode has data in it: otherwise a null pointer is followed.\<close>

definition data_chan :: "ircd \<Rightarrow> nat \<Rightarrow> char \<Rightarrow> channel option" where
  "data_chan st chan mode = (if has_data st mode then ic_chan st chan else None)"

text \<open>A client that is neither an operator of the channel nor on a master server is denied.\<close>

definition denied :: "ircd \<Rightarrow> nat option \<Rightarrow> nat \<Rightarrow> bool option" where
  "denied st cli chan =
     (case cli of
        None \<Rightarrow> Some False
      | Some a \<Rightarrow> do { op \<leftarrow> chanmode_isprefix st chan a (CHR ''@'');
                       k \<leftarrow> ic_cli st a;
                       Some (\<not> op \<and> \<not> cc_master k) })"

definition local_client :: "ircd \<Rightarrow> nat option \<Rightarrow> bool" where
  "local_client st cli \<longleftrightarrow> (case cli of None \<Rightarrow> False | Some a \<Rightarrow> (case ic_cli st a of None \<Rightarrow> False | Some k \<Rightarrow> cc_local k))"

definition reply_to :: "nat option \<Rightarrow> int \<Rightarrow> ircd \<Rightarrow> ircd" where
  "reply_to cli num st = (case cli of None \<Rightarrow> st | Some a \<Rightarrow> hook_chan (Reply a num) st)"

section \<open>Bans\<close>

definition ban_matches :: "pton \<Rightarrow> channel_ban \<Rightarrow> cstring \<Rightarrow> cstring \<Rightarrow> cstring \<Rightarrow> cstring \<Rightarrow> cstring option \<Rightarrow> bool" where
  "ban_matches pton cbp nick user host ip orighost \<longleftrightarrow>
     match (bn_nick cbp) nick \<and> match (bn_user cbp) user \<and>
     (match (bn_host cbp) host \<or> ipmatch pton (bn_host cbp) ip \<or>
      (case orighost of None \<Rightarrow> False
       | Some h \<Rightarrow> h \<noteq> [] \<and> ith_strcasecmp host h \<noteq> 0 \<and> match (bn_host cbp) h))"

definition check_bans :: "pton \<Rightarrow> channel_ban list \<Rightarrow> cstring \<Rightarrow> cstring \<Rightarrow> cstring \<Rightarrow> cstring \<Rightarrow> cstring option \<Rightarrow> nat" where
  "check_bans pton bans nick user host ip orighost =
     length (filter (\<lambda>cbp. ban_matches pton cbp nick user host ip orighost) bans)"

definition check_client :: "pton \<Rightarrow> channel_ban list \<Rightarrow> client \<Rightarrow> nat" where
  "check_client pton bans k = check_bans pton bans (cc_nick k) (cc_user k) (cc_host k) (cc_ip k) (cc_orighost k)"

text \<open>The bans of every member are counted again.\<close>

fun recount :: "pton \<Rightarrow> channel_ban list \<Rightarrow> ircd \<Rightarrow> nat list \<Rightarrow> ircd option" where
  "recount pton bans st [] = Some st"
| "recount pton bans st (l # ls) =
     do { lk \<leftarrow> ic_link st l;
          k \<leftarrow> ic_cli st (cl_cli lk);
          recount pton bans (put_link st l (lk\<lparr>cl_bans := of_nat (check_client pton bans k)\<rparr>)) ls }"

text \<open>The three parts of a ban mask.\<close>

definition split_ban :: "cstring \<Rightarrow> (cstring \<times> cstring \<times> cstring) option" where
  "split_ban arg =
     (case (ith_strchr arg (CHR ''!''), ith_strchr arg (CHR ''@'')) of
        (Some bang, Some at) \<Rightarrow>
          if length bang = length arg \<or> tl at = [] \<or> length bang = length at + 1 \<or> length bang < length at then None
          else (let nick = take (length arg - length bang) arg;
                    user = take (length bang - 1 - length at) (tl bang);
                    host = tl at
                in if length nick > NICKLEN \<or> length user > USERLEN \<or> length host > HOSTLEN then None
                   else Some (nick, user, host))
      | _ \<Rightarrow> None)"

definition same_ban :: "cstring \<times> cstring \<times> cstring \<Rightarrow> channel_ban \<Rightarrow> bool" where
  "same_ban m cbp \<longleftrightarrow>
     (case m of (nick, user, host) \<Rightarrow>
        ith_strcasecmp (bn_nick cbp) nick = 0 \<and> ith_strcasecmp (bn_user cbp) user = 0 \<and> ith_strcasecmp (bn_host cbp) host = 0)"

datatype ban_verdict = BanFull | BanKnown | BanNew

fun ban_scan :: "bool \<Rightarrow> cstring \<times> cstring \<times> cstring \<Rightarrow> nat \<Rightarrow> channel_ban list \<Rightarrow> ban_verdict" where
  "ban_scan loc m cnt [] = BanNew"
| "ban_scan loc m cnt (cbp # bans) =
     (if cnt + 1 > MAX_BANS_PER_CHANNEL \<and> loc then BanFull
      else if same_ban m cbp then BanKnown else ban_scan loc m (cnt + 1) bans)"

definition ban_who :: "ircd \<Rightarrow> nat option \<Rightarrow> cstring option" where
  "ban_who st cli =
     (case cli of None \<Rightarrow> Some (ic_me st)
      | Some a \<Rightarrow> map_option (\<lambda>k. cc_nick k @ ''!'' @ cc_user k @ ''@'' @ cc_host k) (ic_cli st a))"

text \<open>A new list of bans for a mode, with the members counted against it.\<close>

definition put_bans :: "pton \<Rightarrow> ircd \<Rightarrow> nat \<Rightarrow> char \<Rightarrow> channel \<Rightarrow> channel_ban list \<Rightarrow> ircd option" where
  "put_bans pton st chan mode ch bans =
     recount pton bans (put_chan st chan (ch\<lparr>ch_bans := (ch_bans ch)(mode := bans)\<rparr>)) (ch_users ch)"

definition ban_list_replies :: "nat option \<Rightarrow> channel_ban list \<Rightarrow> ircd \<Rightarrow> ircd" where
  "ban_list_replies cli bans st = reply_to cli RPL_ENDOFBANLIST (foldl (\<lambda>st _. reply_to cli RPL_BANLIST st) st bans)"

definition chanmode_ban :: "pton \<Rightarrow> chan_func" where
  "chanmode_ban pton st cli chan mode act arg used =
     (case act of
        ChClear \<Rightarrow> do { ch \<leftarrow> data_chan st chan mode;
                        Some (put_chan st chan (ch\<lparr>ch_bans := (ch_bans ch)(mode := [])\<rparr>), CHANMODE_OK, used, arg) }
      | _ \<Rightarrow>
          (case arg of
             None \<Rightarrow>
               if local_client st cli
               then do { ch \<leftarrow> data_chan st chan mode;
                         Some (ban_list_replies cli (ch_bans ch mode) st, CHANMODE_NOP, used, arg) }
               else Some (st, CHANMODE_NOP, used, arg)
           | Some a \<Rightarrow>
               do { no \<leftarrow> denied st cli chan;
                    if no then Some (st, ERR_CHANOPRIVSNEEDED, 1, arg)
                    else (case split_ban a of
                      None \<Rightarrow> Some (st, CHANMODE_FAIL, 1, arg)
                    | Some m \<Rightarrow>
                        do { ch \<leftarrow> data_chan st chan mode;
                             if act = ChSet then
                               (case ban_scan (local_client st cli) m 0 (ch_bans ch mode) of
                                  BanFull \<Rightarrow> Some (reply_to cli ERR_BANLISTFULL st, CHANMODE_FAIL, 1, arg)
                                | BanKnown \<Rightarrow> Some (st, CHANMODE_FAIL, 1, arg)
                                | BanNew \<Rightarrow>
                                    do { who \<leftarrow> ban_who st cli;
                                         let cbp = \<lparr>bn_nick = fst m, bn_user = fst (snd m), bn_host = snd (snd m),
                                                    bn_who = who, bn_when = ic_now st\<rparr>;
                                         st1 \<leftarrow> put_bans pton st chan mode ch (cbp # ch_bans ch mode);
                                         Some (st1, CHANMODE_OK, 1, arg) })
                             else
                               (case find (same_ban m) (ch_bans ch mode) of
                                  None \<Rightarrow> Some (st, CHANMODE_OK, 1, arg)
                                | Some cbp \<Rightarrow>
                                    do { st1 \<leftarrow> put_bans pton st chan mode ch (remove1 cbp (ch_bans ch mode));
                                         Some (st1, CHANMODE_OK, 1, arg) }) }) }))"

section \<open>Flags, key, limit and member flags\<close>

definition chanmode_flag :: chan_func where
  "chanmode_flag st cli chan mode act arg used =
     do { no \<leftarrow> denied st cli chan;
          if no then Some (st, ERR_CHANOPRIVSNEEDED, 0, arg)
          else do { ch \<leftarrow> ic_chan st chan;
                    Some (case act of ChSet \<Rightarrow> put_chan st chan (setflag st mode ch)
                          | ChUnset \<Rightarrow> put_chan st chan (unsetflag st mode ch)
                          | ChClear \<Rightarrow> st, CHANMODE_OK, 0, arg) } }"

definition put_key :: "char \<Rightarrow> cstring \<Rightarrow> channel \<Rightarrow> channel" where
  "put_key mode key ch = ch\<lparr>ch_str := (ch_str ch)(mode := take PASSWDLEN key)\<rparr>"

definition chanmode_key :: chan_func where
  "chanmode_key st cli chan mode act arg used =
     (case act of
        ChClear \<Rightarrow> Some (st, CHANMODE_OK, used, arg)
      | _ \<Rightarrow>
          (case arg of
             None \<Rightarrow> Some (st, CHANMODE_NOARG, used, arg)
           | Some a \<Rightarrow>
               do { no \<leftarrow> denied st cli chan;
                    if no then Some (st, ERR_CHANOPRIVSNEEDED, used, arg)
                    else if act = ChSet then
                      (if ith_strchr a (CHR '' '') \<noteq> None \<or> ith_strchr a (CHR '','') \<noteq> None
                       then Some (st, CHANMODE_FAIL, 1, arg)
                       else do { ch \<leftarrow> data_chan st chan mode;
                                 let ours = ch_str ch mode;
                                     ch' = (if cli = None \<and> chanmode_isset st ch mode
                                            then (if ith_strcmp a ours \<le> 0 then put_key mode a ch else ch)
                                            else setflag st mode (put_key mode a ch))
                                 in Some (put_chan st chan ch', CHANMODE_OK, 1, arg) })
                    else do { ch \<leftarrow> data_chan st chan mode;
                              Some (put_chan st chan (unsetflag st mode (put_key mode [] ch)), CHANMODE_OK, 1, arg) } }))"

definition put_limit :: "char \<Rightarrow> u32 \<Rightarrow> channel \<Rightarrow> channel" where
  "put_limit mode n ch = ch\<lparr>ch_int := (ch_int ch)(mode := n)\<rparr>"

definition chanmode_limit :: chan_func where
  "chanmode_limit st cli chan mode act arg used =
     do { no \<leftarrow> denied st cli chan;
          if no then Some (st, ERR_CHANOPRIVSNEEDED, used, arg)
          else (case act of
             ChSet \<Rightarrow>
               (case arg of
                  None \<Rightarrow> Some (st, CHANMODE_NOARG, used, arg)
                | Some a \<Rightarrow>
                    (let limit = of_int (str_conv_int (Some a) 0) in
                     if limit = 0 then Some (st, CHANMODE_FAIL, 1, arg)
                     else do { ch \<leftarrow> data_chan st chan mode;
                               Some (put_chan st chan (setflag st mode (put_limit mode limit ch)), CHANMODE_OK, 1, arg) }))
           | ChUnset \<Rightarrow>
               do { ch \<leftarrow> data_chan st chan mode;
                    Some (put_chan st chan (unsetflag st mode (put_limit mode 0 ch)), CHANMODE_OK, 0, arg) }
           | ChClear \<Rightarrow> Some (st, CHANMODE_OK, used, arg)) }"

text \<open>The argument is overwritten with the nickname of the client that was found.\<close>

definition chanmode_uflag :: "chase \<Rightarrow> chan_func" where
  "chanmode_uflag chase st cli chan mode act arg used =
     do { no \<leftarrow> denied st cli chan;
          if no then Some (st, ERR_CHANOPRIVSNEEDED, used, arg)
          else if act = ChClear then Some (st, CHANMODE_OK, used, arg)
          else (case arg of
             None \<Rightarrow> Some (st, CHANMODE_NOARG, used, arg)
           | Some a \<Rightarrow>
               (case chase st a of
                  None \<Rightarrow> Some (reply_to cli ERR_NOSUCHNICK st, CHANMODE_FAIL, 1, arg)
                | Some cp \<Rightarrow>
                    do { k \<leftarrow> ic_cli st cp;
                         clp \<leftarrow> find_chan_link st cp chan;
                         (case clp of
                            None \<Rightarrow> Some (reply_to cli ERR_USERNOTINCHANNEL st, CHANMODE_FAIL, 1, Some (cc_nick k))
                          | Some l \<Rightarrow>
                              do { lk \<leftarrow> ic_link st l;
                                   let m = cm_umask (cs_modes (ic_cm st) mode);
                                       fl = (if act = ChSet then cl_flags lk OR m else cl_flags lk AND NOT m)
                                   in Some (put_link st l (lk\<lparr>cl_flags := fl\<rparr>), CHANMODE_OK, 1, Some (cc_nick k)) }) })) }"

definition core_funcs :: "pton \<Rightarrow> chase \<Rightarrow> chan_funcs" where
  "core_funcs pton chase name =
     (if name = ''chanmode_ban'' then Some (chanmode_ban pton)
      else if name = ''chanmode_key'' then Some chanmode_key
      else if name = ''chanmode_limit'' then Some chanmode_limit
      else if name = ''chanmode_flag'' then Some chanmode_flag
      else if name = ''chanmode_uflag'' then Some (chanmode_uflag chase)
      else None)"

section \<open>Access checks\<close>

record check_args =
  ca_chan :: nat
  ca_cli :: nat
  ca_clp :: "nat option"
  ca_extra :: "cstring option"

text \<open>A hook of a check: the state afterwards and its value.\<close>

type_synonym check_hook = "ircd \<Rightarrow> check_args \<Rightarrow> (ircd \<times> int) option"

text \<open>The hooks are asked in order, up to one that ends the vote.\<close>

fun ask :: "(nat \<Rightarrow> check_hook) \<Rightarrow> ircd \<Rightarrow> check_args \<Rightarrow> nat list \<Rightarrow> (ircd \<times> int list) option" where
  "ask hooks st a [] = Some (st, [])"
| "ask hooks st a (f # fs) =
     do { r \<leftarrow> hooks f st a;
          if stop_ret (snd r) then Some (fst r, [snd r])
          else do { rs \<leftarrow> ask hooks (fst r) a fs; Some (fst rs, snd r # snd rs) } }"

definition channel_check_access :: "(nat \<Rightarrow> check_hook) \<Rightarrow> ircd \<Rightarrow> nat \<Rightarrow> nat \<Rightarrow> cstring option \<Rightarrow> event \<Rightarrow> (ircd \<times> int) option" where
  "channel_check_access hooks st cli chan ext ep =
     do { clp \<leftarrow> find_chan_link st cli chan;
          rs \<leftarrow> ask hooks st \<lparr>ca_chan = chan, ca_cli = cli, ca_clp = clp, ca_extra = ext\<rparr> (callable_funs (ev_hooks ep));
          Some (fst rs, verdict (snd rs)) }"

definition can_join_mode_b :: "pton \<Rightarrow> core_modes \<Rightarrow> check_hook" where
  "can_join_mode_b pton cr st a =
     do { ch \<leftarrow> data_chan st (ca_chan a) (cr_ban cr);
          k \<leftarrow> ic_cli st (ca_cli a);
          l \<leftarrow> ca_clp a;
          lk \<leftarrow> ic_link st l;
          let n = of_nat (check_client pton (ch_bans ch (cr_ban cr)) k) in
          Some (put_link st l (lk\<lparr>cl_bans := n\<rparr>), if n \<noteq> 0 then ERR_BANNEDFROMCHAN else HOOK_COND_OK) }"

definition can_send_mode_b :: check_hook where
  "can_send_mode_b st a =
     (case ca_clp a of
        None \<Rightarrow> Some (st, HOOK_COND_NEUTRAL)
      | Some l \<Rightarrow> do { lk \<leftarrow> ic_link st l;
                       Some (st, if cl_bans lk \<noteq> 0 then ERR_CANNOTSENDTOCHAN else HOOK_COND_NEUTRAL) })"

definition can_nick_mode_b :: "pton \<Rightarrow> core_modes \<Rightarrow> check_hook" where
  "can_nick_mode_b pton cr st a =
     (case ca_clp a of
        None \<Rightarrow> Some (st, HOOK_COND_NEUTRAL)
      | Some l \<Rightarrow>
          do { lk \<leftarrow> ic_link st l;
               if cl_bans lk \<noteq> 0 then Some (st, ERR_BANNICKCHANGE)
               else do { ch \<leftarrow> data_chan st (ca_chan a) (cr_ban cr);
                         k \<leftarrow> ic_cli st (ca_cli a);
                         nick \<leftarrow> ca_extra a;
                         Some (st, if check_bans pton (ch_bans ch (cr_ban cr)) nick (cc_user k) (cc_host k) (cc_ip k)
                                        (cc_orighost k) \<noteq> 0
                                   then ERR_BANONCHAN else HOOK_COND_NEUTRAL) } })"

definition can_send_mode_m :: "core_modes \<Rightarrow> check_hook" where
  "can_send_mode_m cr st a =
     do { ch \<leftarrow> ic_chan st (ca_chan a);
          Some (st, if chanmode_isset st ch (cr_mod cr) then ERR_CANNOTSENDTOCHAN else HOOK_COND_NEUTRAL) }"

definition can_send_mode_n :: "core_modes \<Rightarrow> check_hook" where
  "can_send_mode_n cr st a =
     do { ch \<leftarrow> ic_chan st (ca_chan a);
          Some (st, if chanmode_isset st ch (cr_nextern cr) \<and> ca_clp a = None then ERR_CANNOTSENDTOCHAN
                    else HOOK_COND_NEUTRAL) }"

definition client_oper :: "ircd \<Rightarrow> client \<Rightarrow> bool" where
  "client_oper st k \<longleftrightarrow> cc_modes k AND um_mask (us_modes (ic_um st) (CHR ''o'')) \<noteq> 0"

definition can_show_mode_s :: "(nat \<Rightarrow> bool) \<Rightarrow> core_modes \<Rightarrow> check_hook" where
  "can_show_mode_s see_hidden cr st a =
     (case ca_clp a of
        Some _ \<Rightarrow> Some (st, HOOK_COND_OK)
      | None \<Rightarrow>
          do { ch \<leftarrow> ic_chan st (ca_chan a);
               if chanmode_isset st ch (cr_secret cr) then
                 do { k \<leftarrow> ic_cli st (ca_cli a);
                      Some (st, if client_oper st k \<and> see_hidden (ca_cli a) then HOOK_COND_ALWAYSOK else ERR_NOTONCHANNEL) }
               else Some (st, HOOK_COND_OK) })"

lemma strchr_length: "ith_strchr s c = Some t \<Longrightarrow> length t \<le> length s"
  by (induction s c rule: ith_strchr.induct) (subst (asm) ith_strchr.simps, auto split: if_splits)

lemma strchr_tl: "Some t = ith_strchr s c \<Longrightarrow> tl t = y # ys \<Longrightarrow> length t - Suc 0 < length s"
  using strchr_length [of s c t] by (cases t) auto

text \<open>
  The keys of a list separated by commas are tried in turn. A key before a comma is compared over its
  own length only.
\<close>

function key_loop :: "cstring \<Rightarrow> cstring \<Rightarrow> bool" where
  "key_loop key cur =
     (let nxt = ith_strchr cur (CHR '','');
          n = (case nxt of None \<Rightarrow> PASSWDLEN | Some t \<Rightarrow> length cur - length t)
      in if ith_strncasecmp key cur (int n) = 0 then True
         else (case nxt of
                 None \<Rightarrow> False
               | Some t \<Rightarrow> if tl t \<noteq> [] then key_loop key (tl t) else False))"
  by pat_completeness auto
termination by (relation "measure (\<lambda>(key, cur). length cur)") (auto simp: neq_Nil_conv dest: strchr_tl)

declare key_loop.simps [simp del]

definition can_join_mode_k :: "core_modes \<Rightarrow> check_hook" where
  "can_join_mode_k cr st a =
     do { ch \<leftarrow> data_chan st (ca_chan a) (cr_key cr);
          let key = ch_str ch (cr_key cr) in
          Some (st, if key = [] then HOOK_COND_OK
                    else (case ca_extra a of
                            None \<Rightarrow> ERR_BADCHANNELKEY
                          | Some e \<Rightarrow> if e \<noteq> [] \<and> key_loop key e then HOOK_COND_OK else ERR_BADCHANNELKEY)) }"

definition chanmode_getintdata :: "ircd \<Rightarrow> channel \<Rightarrow> char \<Rightarrow> u32" where
  "chanmode_getintdata st ch mode = (if has_data st mode then ch_int ch mode else 0xFFFFFFFF)"

definition can_join_mode_l :: "core_modes \<Rightarrow> check_hook" where
  "can_join_mode_l cr st a =
     do { ch \<leftarrow> ic_chan st (ca_chan a);
          let n = chanmode_getintdata st ch (cr_limit cr) in
          Some (st, if n \<noteq> 0 \<and> ch_onchannel ch > n then ERR_CHANNELISFULL else HOOK_COND_OK) }"

definition can_act_mode_ov :: "core_modes \<Rightarrow> check_hook" where
  "can_act_mode_ov cr st a =
     (case ca_clp a of
        None \<Rightarrow> Some (st, HOOK_COND_NEUTRAL)
      | Some l \<Rightarrow> do { lk \<leftarrow> ic_link st l;
                       Some (st, if chanlink_ismode st lk (cr_op cr) \<or> chanlink_ismode st lk (cr_voice cr)
                                 then HOOK_COND_ALWAYSOK else HOOK_COND_NEUTRAL) })"

text \<open>The hooks by number, and the four events after the module has added its hooks to them.\<close>

definition core_hooks :: "pton \<Rightarrow> (nat \<Rightarrow> bool) \<Rightarrow> core_modes \<Rightarrow> nat \<Rightarrow> check_hook" where
  "core_hooks pton see_hidden cr f =
     (if f = 1 then can_join_mode_b pton cr
      else if f = 2 then can_send_mode_b
      else if f = 3 then can_nick_mode_b pton cr
      else if f = 4 then can_send_mode_m cr
      else if f = 5 then can_send_mode_n cr
      else if f = 6 then can_show_mode_s see_hidden cr
      else if f = 7 then can_join_mode_k cr
      else if f = 8 then can_join_mode_l cr
      else if f = 9 then can_act_mode_ov cr
      else (\<lambda>st a. None))"

record chan_events =
  ev_can_join :: event
  ev_can_see :: event
  ev_can_send :: event
  ev_can_nick :: event

definition add_hook :: "nat \<Rightarrow> event \<Rightarrow> event" where
  "add_hook f ep = fst (add_hook_after ep f None)"

definition core_add_hooks :: "chan_events \<Rightarrow> chan_events" where
  "core_add_hooks ev = ev\<lparr>ev_can_join := add_hook 8 (add_hook 7 (add_hook 1 (ev_can_join ev))),
     ev_can_see := add_hook 6 (ev_can_see ev),
     ev_can_send := add_hook 9 (add_hook 5 (add_hook 4 (add_hook 2 (ev_can_send ev)))),
     ev_can_nick := add_hook 9 (add_hook 3 (ev_can_nick ev))\<rparr>"

definition init_chan_events :: chan_events where
  "init_chan_events = (let e = create_event init_maxhooks 0 EVENT_FL_CONDITIONAL in
     \<lparr>ev_can_join = e, ev_can_see = e, ev_can_send = e, ev_can_nick = e\<rparr>)"

definition core_events :: chan_events where "core_events = core_add_hooks init_chan_events"

section \<open>Queries\<close>

text \<open>
  The private pointer of a query: null, the mark of the simple handlers, the bans that are left, or
  memory that the last answer freed. \<open>None\<close> for the text means that the argument was not written.
\<close>

datatype qstate = QNull | QMark | QBans "channel_ban list" | QFreed

type_synonym query_answer = "int \<times> int \<times> cstring option \<times> qstate"
type_synonym query_func = "ircd \<Rightarrow> nat \<Rightarrow> char \<Rightarrow> int \<Rightarrow> qstate \<Rightarrow> query_answer option"

definition ban_mask :: "channel_ban \<Rightarrow> cstring" where
  "ban_mask cbp = bn_nick cbp @ ''!'' @ bn_user cbp @ ''@'' @ bn_host cbp"

text \<open>\<^verbatim>\<open>len > (size_t)*argused\<close>: a negative room counts as a huge one.\<close>

definition no_room :: "cstring \<Rightarrow> int \<Rightarrow> bool" where
  "no_room s room \<longleftrightarrow> 0 \<le> room \<and> room < int (length s)"

definition chanmode_ban_query :: query_func where
  "chanmode_ban_query st chan mode used state =
     do { ch \<leftarrow> data_chan st chan mode;
          left \<leftarrow> (case state of QNull \<Rightarrow> Some (ch_bans ch mode) | QBans bs \<Rightarrow> Some bs | _ \<Rightarrow> None);
          Some (case left of
                  [] \<Rightarrow> (CHANMODE_FAIL, 0, None, QFreed)
                | cbp # bs \<Rightarrow>
                    let mask = ban_mask cbp in
                    if no_room mask used then (CHANMODE_OK, used - int (length mask), None, QBans left)
                    else (CHANMODE_OK, int (length mask), Some mask, QBans bs)) }"

definition chanmode_flag_query :: query_func where
  "chanmode_flag_query st chan mode used state =
     do { ch \<leftarrow> ic_chan st chan;
          Some (if state \<noteq> QNull then (CHANMODE_FAIL, 0, None, state)
                else (if chanmode_isset st ch mode then CHANMODE_OK else CHANMODE_FAIL, 0, None, QMark)) }"

definition chanmode_key_query :: query_func where
  "chanmode_key_query st chan mode used state =
     (if state \<noteq> QNull then Some (CHANMODE_FAIL, used, None, state)
      else do { ch \<leftarrow> ic_chan st chan;
                if \<not> chanmode_isset st ch mode then Some (CHANMODE_FAIL, 0, None, QMark)
                else if \<not> has_data st mode then None
                else let key = ch_str ch mode in
                  Some (if no_room key used then (CHANMODE_OK, used - int (length key), None, QNull)
                        else (CHANMODE_OK, int (length key), Some key, QMark)) })"

definition chanmode_limit_query :: query_func where
  "chanmode_limit_query st chan mode used state =
     (if state \<noteq> QNull then Some (CHANMODE_FAIL, used, None, state)
      else do { ch \<leftarrow> ic_chan st chan;
                if \<not> chanmode_isset st ch mode then Some (CHANMODE_FAIL, used, None, QMark)
                else if \<not> has_data st mode then None
                else let buf = int_conv_str (uint (ch_int ch mode)) in
                  Some (if no_room buf used then (CHANMODE_OK, used - int (length buf), None, QNull)
                        else (CHANMODE_OK, int (length buf), Some buf, QMark)) })"

definition chanmode_uflag_query :: query_func where
  "chanmode_uflag_query st chan mode used state = Some (CHANMODE_FAIL, 0, None, state)"

definition core_queries :: "cstring \<Rightarrow> query_func option" where
  "core_queries name =
     (if name = ''chanmode_ban_query'' then Some chanmode_ban_query
      else if name = ''chanmode_key_query'' then Some chanmode_key_query
      else if name = ''chanmode_limit_query'' then Some chanmode_limit_query
      else if name = ''chanmode_flag_query'' then Some chanmode_flag_query
      else if name = ''chanmode_uflag_query'' then Some chanmode_uflag_query
      else None)"

definition chanmode_query :: "(cstring \<Rightarrow> query_func option) \<Rightarrow> ircd \<Rightarrow> char \<Rightarrow> nat \<Rightarrow> int \<Rightarrow> qstate \<Rightarrow> query_answer option" where
  "chanmode_query qs st mode chan used state =
     (if \<not> cmode_exists (ic_cm st) mode then Some (CHANMODE_NONEX, used, None, state)
      else do { name \<leftarrow> cm_queryfunc (cs_modes (ic_cm st) mode); f \<leftarrow> qs name; f st chan mode used state })"

section \<open>The handlers keep who is where\<close>

lemma same_shape_put_chan:
  assumes "ic_chan st c = Some ch" "ch_name ch' = ch_name ch" "ch_onchannel ch' = ch_onchannel ch" "ch_users ch' = ch_users ch"
  shows "same_shape st (put_chan st c ch')"
proof -
  have "cshape (put_chan st c ch') = cshape st" using assms by (auto simp: cshape_def put_chan_def fun_eq_iff)
  then show ?thesis by (simp add: same_shape_def) (simp add: put_chan_def)
qed

lemma same_shape_put_link:
  assumes "ic_link st l = Some lk" "cl_cli lk' = cl_cli lk" "cl_chan lk' = cl_chan lk"
  shows "same_shape st (put_link st l lk')"
proof -
  have "lshape (put_link st l lk') = lshape st" using assms by (auto simp: lshape_def put_link_def fun_eq_iff)
  then show ?thesis by (simp add: same_shape_def) (simp add: put_link_def)
qed

lemma data_fields [simp]:
  "ch_name (setflag st m ch) = ch_name ch" "ch_onchannel (setflag st m ch) = ch_onchannel ch" "ch_users (setflag st m ch) = ch_users ch"
  "ch_name (unsetflag st m ch) = ch_name ch" "ch_onchannel (unsetflag st m ch) = ch_onchannel ch" "ch_users (unsetflag st m ch) = ch_users ch"
  "ch_name (put_key m s ch) = ch_name ch" "ch_onchannel (put_key m s ch) = ch_onchannel ch" "ch_users (put_key m s ch) = ch_users ch"
  "ch_name (put_limit m n ch) = ch_name ch" "ch_onchannel (put_limit m n ch) = ch_onchannel ch" "ch_users (put_limit m n ch) = ch_users ch"
  by (simp_all add: setflag_def unsetflag_def put_key_def put_limit_def)

lemma same_shape_data:
  assumes "ic_chan st c = Some ch"
  shows "same_shape st (put_chan st c (setflag st m ch))" "same_shape st (put_chan st c (unsetflag st m ch))"
    "same_shape st (put_chan st c (setflag st m (put_limit m n ch)))" "same_shape st (put_chan st c (unsetflag st m (put_limit m n ch)))"
    "same_shape st (put_chan st c (ch\<lparr>ch_bans := b\<rparr>))" "same_shape st (put_chan st c (put_key m s ch))"
    "same_shape st (put_chan st c (setflag st m (put_key m s ch)))" "same_shape st (put_chan st c (unsetflag st m (put_key m s ch)))"
  by (rule same_shape_put_chan [OF assms]; simp)+

lemma same_shape_id: "ic_chan st c = Some ch \<Longrightarrow> same_shape st (put_chan st c ch)"
  by (rule same_shape_put_chan) simp_all

lemma same_shape_flags: "ic_link st l = Some lk \<Longrightarrow> same_shape st (put_link st l (lk\<lparr>cl_flags := f\<rparr>))"
  by (rule same_shape_put_link) simp_all

lemma same_shape_reply [simp, intro]: "same_shape st (reply_to cli num st)"
  by (simp add: reply_to_def split: option.split)

lemma same_shape_replies: "same_shape st (ban_list_replies cli bans st)"
proof -
  have "same_shape st (foldl (\<lambda>st _. reply_to cli RPL_BANLIST st) st bans)" for bans :: "channel_ban list"
    by (induction bans rule: rev_induct) (auto intro: same_shape_trans)
  from same_shape_trans [OF this same_shape_reply] show ?thesis by (simp add: ban_list_replies_def)
qed

lemma data_chan_Some: "data_chan st c m = Some ch \<longleftrightarrow> has_data st m \<and> ic_chan st c = Some ch"
  by (simp add: data_chan_def)

lemma bind_Some_iff: "Option.bind x f = Some y \<longleftrightarrow> (\<exists>z. x = Some z \<and> f z = Some y)"
  by (cases x) auto

lemma recount_shape: "recount pton bans st ls = Some st' \<Longrightarrow> same_shape st st'"
proof (induction ls arbitrary: st)
  case (Cons l ls)
  then obtain lk k where "ic_link st l = Some lk"
    "recount pton bans (put_link st l (lk\<lparr>cl_bans := of_nat (check_client pton bans k)\<rparr>)) ls = Some st'"
    by (auto simp: bind_Some_iff)
  with Cons.IH same_shape_put_link [of st l lk "lk\<lparr>cl_bans := of_nat (check_client pton bans k)\<rparr>"]
  show ?case by (auto intro: same_shape_trans)
qed simp

lemma put_bans_shape:
  "put_bans pton st chan mode ch bans = Some st' \<Longrightarrow> ic_chan st chan = Some ch \<Longrightarrow> same_shape st st'"
  unfolding put_bans_def
  by (rule same_shape_trans [OF same_shape_put_chan recount_shape]) simp_all

lemmas handler_splits = option.splits chset.splits if_splits ban_verdict.splits

lemma chanmode_ban_shape: "chanmode_ban pton st cli chan mode act arg used = Some r \<Longrightarrow> same_shape st (fst r)"
  by (cases act; auto simp: chanmode_ban_def bind_Some_iff data_chan_Some Let_def same_shape_replies
      intro!: same_shape_data split: handler_splits;
      ((erule put_bans_shape, assumption) | metis ban_verdict.exhaust))

lemma chanmode_flag_shape: "chanmode_flag st cli chan mode act arg used = Some r \<Longrightarrow> same_shape st (fst r)"
  by (cases act) (auto simp: chanmode_flag_def bind_Some_iff intro!: same_shape_data split: if_splits)

lemma chanmode_key_shape: "chanmode_key st cli chan mode act arg used = Some r \<Longrightarrow> same_shape st (fst r)"
  by (cases act; auto simp: chanmode_key_def bind_Some_iff data_chan_Some Let_def intro!: same_shape_data
      split: handler_splits; erule same_shape_id)

lemma chanmode_limit_shape: "chanmode_limit st cli chan mode act arg used = Some r \<Longrightarrow> same_shape st (fst r)"
  by (cases act) (auto simp: chanmode_limit_def bind_Some_iff data_chan_Some Let_def intro!: same_shape_data split: handler_splits)

lemma chanmode_uflag_shape: "chanmode_uflag chase st cli chan mode act arg used = Some r \<Longrightarrow> same_shape st (fst r)"
  by (cases act) (auto simp: chanmode_uflag_def bind_Some_iff Let_def intro!: same_shape_flags split: handler_splits)

lemma core_shape:
  assumes "call_change (core_funcs pton chase) m st cli c m act arg used = Some r"
  shows "same_shape st (fst r)"
  using assms
  by (auto simp: call_change_def core_funcs_def bind_Some_iff split: if_splits
      intro: chanmode_ban_shape chanmode_flag_shape chanmode_key_shape chanmode_limit_shape chanmode_uflag_shape)

text \<open>A mode of the module: it has one of its handlers, and a list of bans has its data.\<close>

definition core_good :: "cmodes \<Rightarrow> char \<Rightarrow> bool" where
  "core_good cm m \<longleftrightarrow>
     (\<exists>name. cm_changefunc (cs_modes cm m) = Some name \<and>
        name \<in> {''chanmode_ban'', ''chanmode_key'', ''chanmode_limit'', ''chanmode_flag'', ''chanmode_uflag''} \<and>
        (name = ''chanmode_ban'' \<longrightarrow> \<not> cm_avail (cs_modes cm m) \<and> cm_mdi (cs_modes cm m) \<noteq> None))"

lemma core_clears:
  assumes "core_good (ic_cm st) m" "ic_chan st c \<noteq> None"
  shows "call_change (core_funcs pton chase) m st None c m ChClear None 0 \<noteq> None"
  using assms
  by (auto simp: core_good_def call_change_def core_funcs_def chanmode_ban_def chanmode_flag_def chanmode_key_def
      chanmode_limit_def chanmode_uflag_def denied_def data_chan_def has_data_def)

interpretation core: chan_handlers "core_funcs pton chase" core_good for pton chase
  by unfold_locales (rule core_clears, assumption+, erule core_shape)

section \<open>Runs\<close>

text \<open>
  What the server does with channels: clients come, channels are made, clients join and leave, one at a
  time or all channels of a client at once, modes change, and the mode table changes as long as the
  modes in use have their handlers.
\<close>

definition modes_handled :: "ircd \<Rightarrow> bool" where
  "modes_handled st \<longleftrightarrow> (\<forall>m \<in> set (cs_avail (ic_cm st)). core_good (ic_cm st) m)"

definition room_for_member :: "ircd \<Rightarrow> nat \<Rightarrow> bool" where
  "room_for_member st chan \<longleftrightarrow> (\<forall>nm n us. cshape st chan = Some (nm, n, us) \<longrightarrow> length us < 2 ^ 32 - 1)"

inductive chan_step :: "pton \<Rightarrow> chase \<Rightarrow> ircd \<Rightarrow> ircd \<Rightarrow> bool" for pton chase where
  new_client: "cc_chans k = [] \<Longrightarrow> kshape st (ic_fresh st) = None \<Longrightarrow>
     chan_step pton chase st (put_client (st\<lparr>ic_fresh := Suc (ic_fresh st)\<rparr>) (ic_fresh st) k)"
| create: "create_channel st name = Some (st', c) \<Longrightarrow> chan_ok (take (ic_chanlen st) name) \<Longrightarrow>
     unat (ht_entries (ic_hash st)) < 2 ^ 28 \<Longrightarrow> chan_step pton chase st st'"
| join: "add_to_channel st cli chan hook = Some st' \<Longrightarrow> room_for_member st chan \<Longrightarrow> chan_step pton chase st st'"
| part: "del_from_channel (core_funcs pton chase) st cli chan hook = Some st' \<Longrightarrow> chan_step pton chase st st'"
| quit: "leave_channels n (core_funcs pton chase) st cli = Some st' \<Longrightarrow> chan_step pton chase st st'"
| mode: "call_change (core_funcs pton chase) m st cli chan m act arg used = Some r \<Longrightarrow> chan_step pton chase st (fst r)"
| table: "modes_handled (st\<lparr>ic_cm := cm\<rparr>) \<Longrightarrow> chan_step pton chase st (st\<lparr>ic_cm := cm\<rparr>)"

definition run_inv :: "ircd \<Rightarrow> bool" where
  "run_inv st \<longleftrightarrow> ch_inv st \<and> modes_handled st"

lemma run_inv_same: "same_shape st st' \<Longrightarrow> run_inv st' \<longleftrightarrow> run_inv st"
proof -
  assume ss: "same_shape st st'"
  then have "ic_cm st' = ic_cm st" by (simp add: same_shape_def)
  then show ?thesis using same_shape_inv [OF ss] by (simp add: run_inv_def modes_handled_def)
qed

lemma links_new_client:
  assumes "links_inv C K L" "K a = None"
  shows "links_inv C (K(a \<mapsto> [])) L"
proof (rule links_invI)
  note D = links_invD [OF assms(1)]
  fix l a' c assume "L l = Some (a', c)"
  from D(2) [OF this] show "\<exists>ks. (K(a \<mapsto> [])) a' = Some ks \<and> l \<in> set ks" using assms(2) by auto
qed (use links_invD [OF assms(1)] in \<open>auto split: if_splits\<close>)

lemma new_client_inv:
  assumes "ch_inv st" "cc_chans k = []" "kshape st (ic_fresh st) = None"
  shows "ch_inv (put_client (st\<lparr>ic_fresh := Suc (ic_fresh st)\<rparr>) (ic_fresh st) k)"
proof -
  let ?st = "put_client (st\<lparr>ic_fresh := Suc (ic_fresh st)\<rparr>) (ic_fresh st) k"
  have f: "ic_list ?st = ic_list st" "ic_hash ?st = ic_hash st" "ic_count ?st = ic_count st" "ic_fresh ?st = Suc (ic_fresh st)"
    by (simp_all add: put_client_def)
  have "links_inv (cshape ?st) (kshape ?st) (lshape ?st)"
    using links_new_client [of "cshape st" "kshape st" "lshape st" "ic_fresh st"] assms by (simp add: ch_inv_def)
  moreover have "reg_inv ?st" using assms(1) by (simp add: reg_inv_def f ch_inv_def)
  ultimately show ?thesis by (simp add: ch_inv_def)
qed

lemma del_live:
  assumes "del_from_channel hnd st cli chan hook = Some st'"
  shows "\<exists>ks. kshape st cli = Some ks" "\<exists>nm n us. cshape st chan = Some (nm, n, us)"
proof -
  show "\<exists>ks. kshape st cli = Some ks"
    using assms by (auto simp: del_from_channel_def find_chan_link_def bind_Some_iff kshape_Some)
  show "\<exists>nm n us. cshape st chan = Some (nm, n, us)"
  proof (rule ccontr)
    assume "\<not> (\<exists>nm n us. cshape st chan = Some (nm, n, us))"
    then have none: "ic_chan st chan = None" by (auto simp: cshape_def)
    have "ic_chan st1 chan = None" if "remove_link st0 l = Some st1" "ic_chan st0 chan = None" for st0 st1 l
      using that by (auto simp: remove_link_def bind_Some_iff Let_def put_chan_def put_client_def split: if_splits)
    then show False using assms none
      by (auto simp: del_from_channel_def bind_Some_iff hook_chan_def split: option.splits)
  qed
qed

lemma part_inv:
  assumes "run_inv st" "del_from_channel (core_funcs pton chase) st cli chan hook = Some st'"
  shows "run_inv st'"
proof -
  obtain ks nm n us where "kshape st cli = Some ks" "cshape st chan = Some (nm, n, us)"
    using del_live [OF assms(2)] by blast
  moreover have "ch_inv st" "\<forall>m \<in> set (cs_avail (ic_cm st)). core_good (ic_cm st) m"
    using assms(1) by (simp_all add: run_inv_def modes_handled_def)
  ultimately obtain st1 where "del_from_channel (core_funcs pton chase) st cli chan hook = Some st1" "ch_inv st1" "ic_cm st1 = ic_cm st"
    using core.del_from_channel_ok by metis
  then show ?thesis using assms by (simp add: run_inv_def modes_handled_def)
qed

lemma quit_inv: "run_inv st \<Longrightarrow> leave_channels n (core_funcs pton chase) st cli = Some st' \<Longrightarrow> run_inv st'"
proof (induction n arbitrary: st)
  case (Suc n)
  then obtain k where k: "ic_cli st cli = Some k" by (auto simp: bind_Some_iff)
  show ?case
  proof (cases "cc_chans k")
    case Nil
    then show ?thesis using Suc.prems k by simp
  next
    case (Cons l ls)
    have "leave_channels (Suc n) (core_funcs pton chase) st cli =
        do { lk \<leftarrow> ic_link st l; st1 \<leftarrow> del_from_channel (core_funcs pton chase) st cli (cl_chan lk) True;
             leave_channels n (core_funcs pton chase) st1 cli }"
      using k Cons by simp
    with Suc.prems(2) obtain lk where lk: "ic_link st l = Some lk"
      and rest: "do { st1 \<leftarrow> del_from_channel (core_funcs pton chase) st cli (cl_chan lk) True;
             leave_channels n (core_funcs pton chase) st1 cli } = Some st'" by (cases "ic_link st l") auto
    from rest obtain st1 where "del_from_channel (core_funcs pton chase) st cli (cl_chan lk) True = Some st1"
      "leave_channels n (core_funcs pton chase) st1 cli = Some st'"
      by (cases "del_from_channel (core_funcs pton chase) st cli (cl_chan lk) True") auto
    then show ?thesis using Suc.IH part_inv [OF Suc.prems(1)] by blast
  qed
qed simp

lemma chan_step_inv:
  assumes "chan_step pton chase st st'" "run_inv st"
  shows "run_inv st'"
  using assms(1)
proof (cases rule: chan_step.cases)
  case (new_client k)
  then show ?thesis using new_client_inv [of st k] assms(2)
    by (simp add: run_inv_def modes_handled_def) (simp add: put_client_def)
next
  case (create name c)
  then have "ic_cm st' = ic_cm st"
    by (auto simp: create_channel_def Let_def bind_Some_iff hook_chan_def put_chan_def)
  then show ?thesis using create create_channel_inv [of st name] assms(2)
    by (auto simp: run_inv_def modes_handled_def)
next
  case (join cli chan hook)
  then obtain ks nm n us where "kshape st cli = Some ks" "cshape st chan = Some (nm, n, us)"
    by (auto simp: add_to_channel_def bind_Some_iff kshape_Some cshape_Some)
  then show ?thesis using join add_to_channel_inv [of st chan nm n us cli ks hook] assms(2)
    by (auto simp: run_inv_def modes_handled_def room_for_member_def)
next
  case (part cli chan hook)
  then show ?thesis using part_inv assms(2) by blast
next
  case (quit n cli)
  then show ?thesis using quit_inv assms(2) by blast
next
  case (mode m cli chan act arg used r)
  then show ?thesis using core_shape run_inv_same assms(2) by metis
next
  case (table cm)
  have "cshape (st\<lparr>ic_cm := cm\<rparr>) = cshape st" "kshape (st\<lparr>ic_cm := cm\<rparr>) = kshape st"
    "lshape (st\<lparr>ic_cm := cm\<rparr>) = lshape st" by (simp_all add: shapes fun_eq_iff)
  then show ?thesis using table assms(2) by (simp add: run_inv_def ch_inv_def reg_inv_def)
qed

section \<open>Decisions\<close>

lemma core_event_funs:
  "callable_funs (ev_hooks (ev_can_join core_events)) = [1, 7, 8]"
  "callable_funs (ev_hooks (ev_can_see core_events)) = [6]"
  "callable_funs (ev_hooks (ev_can_send core_events)) = [2, 4, 5, 9]"
  "callable_funs (ev_hooks (ev_can_nick core_events)) = [3, 9]"
  by (simp_all add: core_events_def core_add_hooks_def init_chan_events_def add_hook_def add_hook_after_def
      create_event_def add_hook_really_def event_flags callable_funs_def Let_def)

text \<open>The vote up to the value that ends it is the whole vote.\<close>

fun upto_stop :: "int list \<Rightarrow> int list" where
  "upto_stop [] = []"
| "upto_stop (r # rs) = (if stop_ret r then [r] else r # upto_stop rs)"

lemma upto_stop_parts:
  "takeWhile (\<lambda>r. \<not> stop_ret r) (upto_stop rs) = takeWhile (\<lambda>r. \<not> stop_ret r) rs"
  "dropWhile (\<lambda>r. \<not> stop_ret r) (upto_stop rs) = [] \<longleftrightarrow> dropWhile (\<lambda>r. \<not> stop_ret r) rs = []"
  "dropWhile (\<lambda>r. \<not> stop_ret r) rs \<noteq> [] \<Longrightarrow>
     hd (dropWhile (\<lambda>r. \<not> stop_ret r) (upto_stop rs)) = hd (dropWhile (\<lambda>r. \<not> stop_ret r) rs)"
  by (induction rs) auto

lemma verdict_upto_stop: "verdict (upto_stop rs) = verdict rs"
  using upto_stop_parts [of rs] by (auto simp: verdict_def Let_def)

lemma ask_pure:
  "(\<And>f. f \<in> set fs \<Longrightarrow> hooks f st a = Some (st, r f)) \<Longrightarrow> ask hooks st a fs = Some (st, upto_stop (map r fs))"
  by (induction fs) auto

definition member_link :: "ircd \<Rightarrow> nat \<Rightarrow> nat \<Rightarrow> chanlink option" where
  "member_link st cli chan = (case find_chan_link st cli chan of Some (Some l) \<Rightarrow> ic_link st l | _ \<Rightarrow> None)"

lemma member_link_ok:
  assumes "ch_inv st" "kshape st cli = Some ks"
  shows "\<exists>clp. find_chan_link st cli chan = Some clp \<and>
    (case clp of None \<Rightarrow> member_link st cli chan = None
     | Some l \<Rightarrow> \<exists>lk. ic_link st l = Some lk \<and> member_link st cli chan = Some lk)"
proof -
  obtain r where r: "find_chan_link st cli chan = Some r" using find_chan_link_ok [OF assms, of chan] by blast
  then show ?thesis using find_chan_link_ok [OF assms, of chan]
    by (intro exI [of _ r]) (auto simp: member_link_def lshape_Some split: option.splits)
qed

definition op_or_voice :: "ircd \<Rightarrow> core_modes \<Rightarrow> chanlink \<Rightarrow> bool" where
  "op_or_voice st cr lk \<longleftrightarrow> chanlink_ismode st lk (cr_op cr) \<or> chanlink_ismode st lk (cr_voice cr)"

lemma send_decision:
  assumes inv: "ch_inv st" and cli: "kshape st cli = Some ks" and chan: "ic_chan st chan = Some ch"
  shows "\<exists>v. channel_check_access (core_hooks pton see cr) st cli chan ext (ev_can_send core_events) = Some (st, v) \<and>
    (v < 0 \<longleftrightarrow> (case member_link st cli chan of
        None \<Rightarrow> \<not> chanmode_isset st ch (cr_mod cr) \<and> \<not> chanmode_isset st ch (cr_nextern cr)
      | Some lk \<Rightarrow> op_or_voice st cr lk \<or> cl_bans lk = 0 \<and> \<not> chanmode_isset st ch (cr_mod cr)))"
proof -
  obtain clp where clp: "find_chan_link st cli chan = Some clp"
    "case clp of None \<Rightarrow> member_link st cli chan = None
     | Some l \<Rightarrow> \<exists>lk. ic_link st l = Some lk \<and> member_link st cli chan = Some lk"
    using member_link_ok [OF inv cli, of chan] by blast
  let ?a = "\<lparr>ca_chan = chan, ca_cli = cli, ca_clp = clp, ca_extra = ext\<rparr>"
  let ?h = "core_hooks pton see cr"
  define r where "r f = snd (the (?h f st ?a))" for f
  have "?h f st ?a = Some (st, r f)" if "f \<in> {2, 4, 5, 9}" for f
    using that chan clp(2)
    by (auto simp: r_def core_hooks_def can_send_mode_b_def can_send_mode_m_def can_send_mode_n_def can_act_mode_ov_def
        split: option.splits)
  then have ask: "ask ?h st ?a [2, 4, 5, 9] = Some (st, upto_stop (map r [2, 4, 5, 9]))"
    by (intro ask_pure) auto
  have "verdict (map r [2, 4, 5, 9]) < 0 \<longleftrightarrow> (case member_link st cli chan of
        None \<Rightarrow> \<not> chanmode_isset st ch (cr_mod cr) \<and> \<not> chanmode_isset st ch (cr_nextern cr)
      | Some lk \<Rightarrow> op_or_voice st cr lk \<or> cl_bans lk = 0 \<and> \<not> chanmode_isset st ch (cr_mod cr))"
    using chan clp(2)
    by (auto simp: r_def core_hooks_def can_send_mode_b_def can_send_mode_m_def can_send_mode_n_def can_act_mode_ov_def
        verdict_def stop_ret_def hook_conds numerics op_or_voice_def split: option.splits if_splits)
  then show ?thesis using clp(1) ask
    by (simp add: channel_check_access_def core_event_funs verdict_upto_stop del: list.map upto_stop.simps ask.simps)
qed

lemma see_decision:
  assumes inv: "ch_inv st" and cli: "ic_cli st cli = Some k" and chan: "ic_chan st chan = Some ch"
  shows "\<exists>v. channel_check_access (core_hooks pton see cr) st cli chan None (ev_can_see core_events) = Some (st, v) \<and>
    (v < 0 \<longleftrightarrow> member_link st cli chan \<noteq> None \<or> \<not> chanmode_isset st ch (cr_secret cr) \<or> client_oper st k \<and> see cli)"
proof -
  have ks: "kshape st cli = Some (cc_chans k)" using cli by (simp add: kshape_def)
  obtain clp where clp: "find_chan_link st cli chan = Some clp"
    "case clp of None \<Rightarrow> member_link st cli chan = None
     | Some l \<Rightarrow> \<exists>lk. ic_link st l = Some lk \<and> member_link st cli chan = Some lk"
    using member_link_ok [OF inv ks, of chan] by blast
  then show ?thesis using cli chan
    by (auto simp: channel_check_access_def core_event_funs core_hooks_def can_show_mode_s_def hook_conds numerics
        verdict_def stop_ret_def split: option.splits)
qed

end
