(* ===== verification/ChanRun.thy ===== *)
theory ChanRun
  imports ChanCore
begin

text \<open>
  What the channel code promises, over the whole of \<^verbatim>\<open>channel.c\<close>, \<^verbatim>\<open>channel mode
  table\<close> and \<^verbatim>\<open>addons/core.c\<close>: the loader of the core modes, the state that every run of the
  server keeps, and the decisions about joining, sending, bans and keys that members can rely on.
\<close>

section \<open>Loading the core modes\<close>

text \<open>
  The requests of \<^verbatim>\<open>MODULE_LOADER(core)\<close> in order: the letter, the type, the names of the
  handler and of the query, the size of the data (on an LP64 machine) and the prefix.
\<close>

type_synonym mode_request = "char \<times> u32 \<times> cstring \<times> cstring \<times> nat \<times> cstring option"

definition core_requests :: "mode_request list" where
  "core_requests =
     [(CHR ''b'', CHANMODE_FL_A, ''chanmode_ban'', ''chanmode_ban_query'', 8, None),
      (CHR ''k'', CHANMODE_FL_B, ''chanmode_key'', ''chanmode_key_query'', PASSWDLEN + 1, None),
      (CHR ''l'', CHANMODE_FL_C, ''chanmode_limit'', ''chanmode_limit_query'', 4, None),
      (CHR ''m'', CHANMODE_FL_D, ''chanmode_flag'', ''chanmode_flag_query'', 0, None),
      (CHR ''n'', CHANMODE_FL_D, ''chanmode_flag'', ''chanmode_flag_query'', 0, None),
      (CHR ''o'', CHANMODE_FL_PREFIX, ''chanmode_uflag'', ''chanmode_uflag_query'', 0, Some ''@''),
      (CHR ''s'', CHANMODE_FL_D, ''chanmode_flag'', ''chanmode_flag_query'', 0, None),
      (CHR ''v'', CHANMODE_FL_PREFIX, ''chanmode_uflag'', ''chanmode_uflag_query'', 0, Some ''+'')]"

text \<open>A mode that is refused leaves its variable in \<^verbatim>\<open>core.chanmodes\<close> zero.\<close>

fun request_all :: "umodes \<Rightarrow> cmodes \<Rightarrow> mode_request list \<Rightarrow> (cmodes \<times> char list) option" where
  "request_all um cm [] = Some (cm, [])"
| "request_all um cm ((c, fl, cf, qf, ext, dat) # rs) =
     do { r \<leftarrow> chanmode_request um cm c fl cf qf ext dat;
          q \<leftarrow> request_all um (fst r) rs;
          Some (fst q, (case snd r of None \<Rightarrow> NUL | Some m \<Rightarrow> fst m) # snd q) }"

definition core_load :: "umodes \<Rightarrow> cmodes \<Rightarrow> (cmodes \<times> core_modes) option" where
  "core_load um cm =
     map_option (\<lambda>(cm', ms). (cm', \<lparr>cr_ban = ms ! 0, cr_key = ms ! 1, cr_limit = ms ! 2, cr_mod = ms ! 3,
        cr_nextern = ms ! 4, cr_op = ms ! 5, cr_secret = ms ! 6, cr_voice = ms ! 7\<rparr>))
       (request_all um cm core_requests)"

text \<open>The entry that a request fills in.\<close>

definition new_entry :: "chanmode \<Rightarrow> mode_request \<Rightarrow> short \<Rightarrow> chanmode" where
  "new_entry md rq u =
     (case rq of (c, fl, cf, qf, ext, dat) \<Rightarrow>
        md\<lparr>cm_avail := False, cm_umask := u, cm_prefix := (if fl = CHANMODE_FL_PREFIX then chd (the dat) else NUL),
           cm_changefunc := Some cf, cm_queryfunc := Some qf, cm_flags := fl,
           cm_mdi := (if ext > 0 then Some ext else None)\<rparr>)"

definition good_request :: "mode_request \<Rightarrow> bool" where
  "good_request rq \<longleftrightarrow> (case rq of (c, fl, cf, qf, ext, dat) \<Rightarrow> flags_ok fl \<and> (fl = CHANMODE_FL_PREFIX \<longrightarrow> dat \<noteq> None))"

lemma prefix_count_upd:
  assumes "cs_modes st' = (cs_modes st)(c := md)"
  shows "prefix_count st' \<le> Suc (prefix_count st)"
proof -
  let ?P = "\<lambda>s d. in_use s d \<and> cm_prefix (cs_modes s d) \<noteq> NUL"
  have d: "distinct all_bytes"
    by (auto simp: all_bytes_def distinct_map inj_on_def)
  then have card: "prefix_count s = card {d. ?P s d}" for s
    by (simp add: prefix_count_def all_bytes_UNIV distinct_length_filter)
  have "{d. ?P st' d} \<subseteq> insert c {d. ?P st d}" using assms by (auto simp: in_use_def split: if_splits)
  then have "card {d. ?P st' d} \<le> card (insert c {d. ?P st d})" by (intro card_mono) auto
  also have "\<dots> \<le> Suc (card {d. ?P st d})" by (simp add: card_insert_if)
  finally show ?thesis by (simp add: card)
qed

lemma request_suggested:
  assumes inv: "cm_inv st" and free: "cm_avail (cs_modes st c)" and pc: "prefix_count st < 30"
    and rq: "good_request (c, fl, cf, qf, ext, dat)"
  shows "\<exists>st' u. chanmode_request us st c fl cf qf ext dat = Some (st', Some (c, cm_mask (cs_modes st c))) \<and> cm_inv st' \<and>
    cs_modes st' = (cs_modes st)(c := new_entry (cs_modes st c) (c, fl, cf, qf, ext, dat) u) \<and>
    (if fl = CHANMODE_FL_PREFIX
     then (\<exists>i < 16. u = push_bit i 1 \<and> \<not> umask_used st i \<and> (i = 15 \<longrightarrow> (\<forall>j < 15. umask_used st j))) \<and>
          cs_pfxmap st' = (cs_pfxmap st)(chd (the dat) := Some c)
     else u = 0 \<and> cs_pfxmap st' = cs_pfxmap st)"
proof -
  have pm: "chanmode_build_lists s = Some s' \<Longrightarrow> cs_pfxmap s' = cs_pfxmap s" for s s'
    by (auto simp: chanmode_build_lists_def Let_def split: if_splits)
  have c: "find_cmode us st c = Some c" using free by (simp add: find_cmode_def)
  have m: "cm_mode (cs_modes st c) = c" using inv avail_entry(1) [OF inv free] by (simp add: cm_inv_def cm_wf_def)
  let ?md = "(cs_modes st c)\<lparr>cm_avail := False, cm_umask := 0, cm_prefix := NUL,
     cm_changefunc := Some cf, cm_queryfunc := Some qf, cm_flags := fl, cm_mdi := None\<rparr>"
  have fl: "flags_ok fl" using rq by (simp add: good_request_def)
  show ?thesis
  proof (cases "fl = CHANMODE_FL_PREFIX")
    case False
    let ?e = "new_entry (cs_modes st c) (c, fl, cf, qf, ext, dat) 0"
    obtain st' where st': "chanmode_build_lists ((put_cmode st c ?e)\<lparr>cs_pfxmap := cs_pfxmap st\<rparr>) = Some st'"
      "cm_inv st'" "cs_modes st' = (cs_modes st)(c := ?e)"
      using fill_entry [OF inv free, of ?e "cs_pfxmap st"] fl pc False by (auto simp: new_entry_def)
    have "chanmode_request us st c fl cf qf ext dat = Some (st', Some (c, cm_mask (cs_modes st c)))"
      using c False st'(1) m
      by (cases "ext > 0") (simp_all add: chanmode_request_def Let_def finish_put(2) new_entry_def cong: if_cong)
    then show ?thesis using st' False pm [OF st'(1)] by (intro exI [of _ st'] exI [of _ 0]) simp
  next
    case True
    then obtain s where s: "dat = Some s" using rq by (auto simp: good_request_def)
    have "cm_umask (cs_modes (put_cmode st c ?md) d) = cm_umask (cs_modes st d)" for d
      using avail_entry [OF inv free] by simp
    then have same: "umask_used (put_cmode st c ?md) i \<longleftrightarrow> umask_used st i" for i
      by (simp only: umask_used_iff)
    obtain i where i: "i < 16" "free_umask (put_cmode st c ?md) = Some i" "\<not> umask_used st i"
      "i = 15 \<longleftrightarrow> (\<forall>j < 15. umask_used st j)"
      using free_umask_ok [of "put_cmode st c ?md"] unfolding same by blast
    let ?e = "new_entry (cs_modes st c) (c, fl, cf, qf, ext, dat) (push_bit i 1)"
    let ?pm = "(cs_pfxmap st)(chd s := Some c)"
    obtain st' where st': "chanmode_build_lists ((put_cmode st c ?e)\<lparr>cs_pfxmap := ?pm\<rparr>) = Some st'"
      "cm_inv st'" "cs_modes st' = (cs_modes st)(c := ?e)"
      using fill_entry [OF inv free, of ?e ?pm] fl pc i True s by (auto simp: new_entry_def)
    have "chanmode_request us st c fl cf qf ext dat = Some (st', Some (c, cm_mask (cs_modes st c)))"
      using c True st'(1) i(2) s m
      by (cases "cs_modes st c"; cases "ext > 0")
        (simp_all add: chanmode_request_def Let_def put_put finish_put(1) push_bit_eq_mult new_entry_def cong: if_cong)
    then show ?thesis using st' i True s pm [OF st'(1)]
      by (intro exI [of _ st'] exI [of _ "push_bit i 1"]) auto
  qed
qed

text \<open>A run of requests for letters that are free and differ gives out exactly those letters.\<close>

lemma request_all_suggested:
  assumes "cm_inv st" "\<forall>rq \<in> set rqs. good_request rq \<and> cm_avail (cs_modes st (fst rq))" "distinct (map fst rqs)"
    and "prefix_count st + length rqs \<le> 30"
  shows "\<exists>st'. request_all us st rqs = Some (st', map fst rqs) \<and> cm_inv st' \<and>
    (\<forall>c. c \<notin> fst ` set rqs \<longrightarrow> cs_modes st' c = cs_modes st c) \<and>
    (\<forall>rq \<in> set rqs. \<exists>u. cs_modes st' (fst rq) = new_entry (cs_modes st (fst rq)) rq u \<and>
        (fst (snd rq) = CHANMODE_FL_PREFIX \<longleftrightarrow> u \<noteq> 0))"
  using assms
proof (induction rqs arbitrary: st)
  case (Cons rq rqs)
  obtain c fl cf qf ext dat where rq: "rq = (c, fl, cf, qf, ext, dat)" by (cases rq) auto
  obtain st1 u where st1: "chanmode_request us st c fl cf qf ext dat = Some (st1, Some (c, cm_mask (cs_modes st c)))"
    "cm_inv st1" "cs_modes st1 = (cs_modes st)(c := new_entry (cs_modes st c) rq u)"
    "fl = CHANMODE_FL_PREFIX \<longleftrightarrow> u \<noteq> 0"
    using request_suggested [of st c fl cf qf ext dat us] Cons.prems push_bit_short_nz
    by (auto simp: rq split: if_splits)
  have ne: "d \<in> fst ` set rqs \<Longrightarrow> d \<noteq> c" for d using Cons.prems(3) by (auto simp: rq)
  have "\<forall>rq \<in> set rqs. good_request rq \<and> cm_avail (cs_modes st1 (fst rq))"
    using Cons.prems(2) st1(3) ne by (auto simp: image_iff)
  then obtain st' where st': "request_all us st1 rqs = Some (st', map fst rqs)" "cm_inv st'"
    "\<forall>c. c \<notin> fst ` set rqs \<longrightarrow> cs_modes st' c = cs_modes st1 c"
    "\<forall>rq \<in> set rqs. \<exists>u. cs_modes st' (fst rq) = new_entry (cs_modes st1 (fst rq)) rq u \<and>
        (fst (snd rq) = CHANMODE_FL_PREFIX \<longleftrightarrow> u \<noteq> 0)"
    using Cons.IH [OF st1(2)] Cons.prems(3,4) prefix_count_upd [OF st1(3)] by (auto simp: rq)
  have run: "request_all us st (rq # rqs) = Some (st', map fst (rq # rqs))" using st1(1) st'(1) by (simp add: rq)
  have "c \<notin> fst ` set rqs" using ne by blast
  then have head: "cs_modes st' c = new_entry (cs_modes st c) rq u" using st'(3) st1(3) by simp
  have "\<exists>u. cs_modes st' (fst r) = new_entry (cs_modes st (fst r)) r u \<and> (fst (snd r) = CHANMODE_FL_PREFIX \<longleftrightarrow> u \<noteq> 0)"
    if "r \<in> set (rq # rqs)" for r
  proof (cases "r = rq")
    case True
    then show ?thesis using head st1(4) by (auto simp: rq)
  next
    case False
    then have r: "r \<in> set rqs" using that by simp
    then have "cs_modes st1 (fst r) = cs_modes st (fst r)" using ne st1(3) by (auto simp: image_iff)
    then show ?thesis using bspec [OF st'(4) r] by simp
  qed
  moreover have "\<forall>d. d \<notin> fst ` set (rq # rqs) \<longrightarrow> cs_modes st' d = cs_modes st d" using st'(3) st1(3) by (auto simp: rq)
  ultimately show ?case using run st'(2) by blast
qed simp

definition core_letters :: core_modes where
  "core_letters = \<lparr>cr_ban = CHR ''b'', cr_key = CHR ''k'', cr_limit = CHR ''l'', cr_mod = CHR ''m'',
     cr_nextern = CHR ''n'', cr_op = CHR ''o'', cr_secret = CHR ''s'', cr_voice = CHR ''v''\<rparr>"

text \<open>Every mode in use has a handler of the module with the data that the handler works on.\<close>

definition core_typed :: "cmodes \<Rightarrow> char \<Rightarrow> bool" where
  "core_typed cm m \<longleftrightarrow>
     (\<exists>name. cm_changefunc (cs_modes cm m) = Some name \<and> \<not> cm_avail (cs_modes cm m) \<and>
        (name, cm_mdi (cs_modes cm m)) \<in>
           {(''chanmode_ban'', Some 8), (''chanmode_key'', Some (PASSWDLEN + 1)), (''chanmode_limit'', Some 4),
            (''chanmode_flag'', None), (''chanmode_uflag'', None)} \<and>
        (cm_umask (cs_modes cm m) \<noteq> 0 \<longleftrightarrow> name = ''chanmode_uflag''))"

lemma mode_letters_codes: "mode_letters = codes 97 123 @ codes 65 91 @ codes 48 58"
  by (simp add: mode_letters_def codes_def)

lemma core_request_typed:
  assumes "rq \<in> set core_requests" "cs_modes cm (fst rq) = new_entry md rq u"
    and "fst (snd rq) = CHANMODE_FL_PREFIX \<longleftrightarrow> u \<noteq> 0"
  shows "core_typed cm (fst rq)"
  using assms unfolding core_requests_def core_typed_def
  by (simp add: new_entry_def) (elim disjE; simp add: new_entry_def cmode_flags)

lemma core_load_ok:
  "\<exists>cm. core_load us init_cmodes = Some (cm, core_letters) \<and> cm_inv cm \<and> set (cs_avail cm) = set ''bklmnosv'' \<and>
     (\<forall>m \<in> set (cs_avail cm). core_typed cm m) \<and> (\<forall>m \<in> set ''bkl''. cm_mdi (cs_modes cm m) \<noteq> None)"
proof -
  have ls: "map fst core_requests = ''bklmnosv''" by (simp add: core_requests_def)
  have fl: "flags_ok CHANMODE_FL_A" "flags_ok CHANMODE_FL_B" "flags_ok CHANMODE_FL_C" "flags_ok CHANMODE_FL_D"
    "flags_ok CHANMODE_FL_PREFIX" by (simp_all add: flags_ok_def)
  have letters: "set ''bklmnosv'' \<subseteq> set mode_letters" by (simp add: mode_letters_codes set_codes uchar_def)
  define S where "S = fst ` set core_requests"
  have S: "S = set ''bklmnosv''" by (simp only: S_def ls [symmetric] set_map)
  have free: "cm_avail (cs_modes init_cmodes c) \<longleftrightarrow> c \<in> set mode_letters" for c by (simp add: init_cmodes_def)
  have "good_request rq" if "rq \<in> set core_requests" for rq
    using that fl by (auto simp: core_requests_def good_request_def cmode_flags)
  moreover have "cm_avail (cs_modes init_cmodes (fst rq))" if "rq \<in> set core_requests" for rq
    using that letters unfolding free S [symmetric] S_def by blast
  ultimately have good: "\<forall>rq \<in> set core_requests. good_request rq \<and> cm_avail (cs_modes init_cmodes (fst rq))" by blast
  obtain cm where cm: "request_all us init_cmodes core_requests = Some (cm, ''bklmnosv'')" "cm_inv cm"
    "\<forall>c. c \<notin> S \<longrightarrow> cs_modes cm c = cs_modes init_cmodes c"
    "\<forall>rq \<in> set core_requests. \<exists>u. cs_modes cm (fst rq) = new_entry (cs_modes init_cmodes (fst rq)) rq u \<and>
        (fst (snd rq) = CHANMODE_FL_PREFIX \<longleftrightarrow> u \<noteq> 0)"
    using request_all_suggested [OF init_cm_inv good, of us] init_no_prefix
    unfolding ls S_def by (auto simp: core_requests_def)
  have typed: "core_typed cm m" if m: "m \<in> S" for m
  proof -
    obtain rq where "rq \<in> set core_requests" "fst rq = m" using m unfolding S_def by blast
    then show ?thesis using core_request_typed [of rq cm] bspec [OF cm(4)] by blast
  qed
  have data: "\<forall>m \<in> set ''bkl''. cm_mdi (cs_modes cm m) \<noteq> None"
  proof
    fix m assume "m \<in> set ''bkl''"
    then obtain rq where "rq \<in> set (take 3 core_requests)" "fst rq = m" by (auto simp: core_requests_def)
    moreover have "cm_mdi (new_entry md rq u) \<noteq> None" if "rq \<in> set (take 3 core_requests)" for md rq u
      using that by (auto simp: core_requests_def new_entry_def)
    ultimately show "cm_mdi (cs_modes cm m) \<noteq> None" using bspec [OF cm(4), of rq] in_set_takeD by metis
  qed
  have "in_use cm c \<longleftrightarrow> c \<in> S" for c
  proof (cases "c \<in> S")
    case True
    then have "\<not> cm_avail (cs_modes cm c)" using typed [of c] by (auto simp: core_typed_def)
    then show ?thesis using True letters unfolding in_use_def S [symmetric] by blast
  next
    case False
    then show ?thesis using cm(3) free by (simp add: in_use_def)
  qed
  then have "set (cs_avail cm) = S" using cm(2) by (auto simp: cm_inv_def all_bytes_UNIV)
  moreover have "core_load us init_cmodes = Some (cm, core_letters)"
    using cm(1) by (simp add: core_load_def core_letters_def)
  ultimately show ?thesis using cm(2) typed data unfolding S by blast
qed

section \<open>Runs from the start\<close>

text \<open>The server after its loader, with the hash table of channels of \<^verbatim>\<open>ircd.c\<close>.\<close>

definition start_ircd :: "(nat \<times> cstring) hashtable \<Rightarrow> umodes \<Rightarrow> cmodes \<Rightarrow> cstring \<Rightarrow> int \<Rightarrow> ircd" where
  "start_ircd h um cm me now =
     \<lparr>ic_um = um, ic_cm = cm, ic_chan = (\<lambda>_. None), ic_cli = (\<lambda>_. None), ic_link = (\<lambda>_. None), ic_fresh = 0,
      ic_list = [], ic_hash = h, ic_count = 0, ic_now = now, ic_chanlen = CHANLEN, ic_me = me, ic_events = []\<rparr>"

definition ircd_start :: "cstring \<Rightarrow> int \<Rightarrow> ircd option" where
  "ircd_start me now =
     do { h \<leftarrow> create_hash_table 128 CHANLEN (HASH_FL_NOCASE OR HASH_FL_STRING) chancmp;
          cm \<leftarrow> core_load init_umodes init_cmodes;
          Some (start_ircd h init_umodes (fst cm) me now) }"

lemma core_typed_good: "core_typed cm m \<Longrightarrow> core_good cm m"
  unfolding core_typed_def core_good_def by (elim exE conjE, rule exI, intro conjI, assumption) fastforce+

lemma ircd_start_ok:
  "\<exists>st. ircd_start me now = Some st \<and> run_inv st \<and> cm_inv (ic_cm st) \<and> ic_cli st = (\<lambda>_. None) \<and>
     ic_chan st = (\<lambda>_. None) \<and> unat (ht_entries (ic_hash st)) = 0 \<and> ic_chanlen st = CHANLEN \<and>
     (\<forall>m \<in> set ''bklmnosv''. core_typed (ic_cm st) m) \<and> (\<forall>m \<in> set ''bkl''. cm_mdi (cs_modes (ic_cm st) m) \<noteq> None)"
proof -
  obtain h :: "(nat \<times> cstring) hashtable" where h:
    "create_hash_table 128 CHANLEN (HASH_FL_NOCASE OR HASH_FL_STRING) chancmp = Some h" "ht_wf snd h" "ht_ents h = {#}"
    "ht_keylen h = CHANLEN" "ht_flags h = HASH_FL_NOCASE OR HASH_FL_STRING" "ht_cmp h = chancmp" "unat (ht_entries h) = 0"
    using create_ok [where key = "snd :: nat \<times> cstring \<Rightarrow> _" and elems = 128 and len = CHANLEN and cmp = chancmp] by auto
  obtain cm where cm: "core_load init_umodes init_cmodes = Some (cm, core_letters)" "cm_inv cm"
    "set (cs_avail cm) = set ''bklmnosv''" "\<forall>m \<in> set (cs_avail cm). core_typed cm m"
    "\<forall>m \<in> set ''bkl''. cm_mdi (cs_modes cm m) \<noteq> None"
    using core_load_ok by blast
  let ?st = "start_ircd h init_umodes cm me now"
  have "channel_table h" using h by (simp add: table_with_def)
  then have "reg_inv ?st" using h(3) by (simp add: reg_inv_def start_ircd_def shapes entries_def)
  moreover have "links_inv (cshape ?st) (kshape ?st) (lshape ?st)"
    by (simp add: links_inv_def start_ircd_def shapes)
  moreover have "modes_handled ?st" using cm(4) core_typed_good by (simp add: modes_handled_def start_ircd_def)
  moreover have "ircd_start me now = Some ?st" using h(1) cm(1) by (simp add: ircd_start_def)
  ultimately show ?thesis using cm h(7) by (simp add: run_inv_def ch_inv_def start_ircd_def)
qed

lemma run_inv_steps: "(chan_step pton chase)\<^sup>*\<^sup>* st st' \<Longrightarrow> run_inv st \<Longrightarrow> run_inv st'"
  by (induction rule: rtranclp_induct) (auto intro: chan_step_inv)

text \<open>A first channel with a first member.\<close>

lemma first_member:
  assumes st: "ircd_start me now = Some st" and nm: "chan_ok name" "length name \<le> CHANLEN" and k: "cc_chans (k :: client) = []"
  shows "\<exists>st' cli chan l. (chan_step pton chase)\<^sup>*\<^sup>* st st' \<and> cshape st' chan = Some (name, 1, [l]) \<and>
    kshape st' cli = Some [l] \<and> lshape st' l = Some (cli, chan) \<and> run_inv st' \<and> ic_cm st' = ic_cm st \<and>
    ic_cli st' cli = Some (k\<lparr>cc_chans := [l]\<rparr>) \<and>
    ic_link st' l = Some \<lparr>cl_cli = cli, cl_chan = chan, cl_flags = 0, cl_bans = 0\<rparr> \<and>
    (\<exists>ch. ic_chan st' chan = Some ch \<and> ch_modes ch = 0 \<and> ch_bans ch = (\<lambda>_. []) \<and> ch_str ch = (\<lambda>_. []) \<and>
       ch_int ch = (\<lambda>_. 0))"
proof -
  obtain "run_inv st" "ic_cli st = (\<lambda>_. None)" "ic_chan st = (\<lambda>_. None)" "unat (ht_entries (ic_hash st)) = 0"
    "ic_chanlen st = CHANLEN" using ircd_start_ok [of me now] st by auto
  note s0 = this
  let ?cli = "ic_fresh st"
  let ?st1 = "put_client (st\<lparr>ic_fresh := Suc ?cli\<rparr>) ?cli k"
  have none: "kshape st ?cli = None" using s0(2) by (simp add: kshape_def)
  have step1: "chan_step pton chase st ?st1" by (rule chan_step.new_client [OF k none])
  then have inv1: "run_inv ?st1" using s0(1) chan_step_inv by blast
  have f1: "ic_chanlen ?st1 = CHANLEN" "unat (ht_entries (ic_hash ?st1)) = 0" "kshape ?st1 ?cli = Some []"
    using s0 k by (simp_all add: put_client_def kshape_def)
  have nm1: "take (ic_chanlen ?st1) name = name" using nm f1 by simp
  obtain st2 chan where st2: "create_channel ?st1 name = Some (st2, chan)" "ch_inv st2"
    "cshape st2 = (cshape ?st1)(chan \<mapsto> (name, 0, []))" "kshape st2 = kshape ?st1" "lshape st2 = lshape ?st1"
    using create_channel_inv [of ?st1 name] inv1 nm nm1 f1 by (auto simp: run_inv_def)
  have step2: "chan_step pton chase ?st1 st2"
    by (rule chan_step.create [OF st2(1)]) (use nm nm1 f1 in simp_all)
  then have inv2: "run_inv st2" using inv1 chan_step_inv by blast
  obtain st3 where st3: "add_to_channel st2 ?cli chan False = Some st3"
    "cshape st3 = (cshape st2)(chan \<mapsto> (name, 1, [ic_fresh st2]))" "kshape st3 = (kshape st2)(?cli \<mapsto> [ic_fresh st2])"
    "lshape st3 = (lshape st2)(ic_fresh st2 \<mapsto> (?cli, chan))"
    using add_to_channel_inv [OF st2(2), of chan name 0 "[]" ?cli "[]" False] st2(3,4) f1 by auto
  have step3: "chan_step pton chase st2 st3"
    by (rule chan_step.join [OF st3(1)]) (simp add: room_for_member_def st2(3))
  then have "run_inv st3" using inv2 chan_step_inv by blast
  moreover have "(chan_step pton chase)\<^sup>*\<^sup>* st st3" using step1 step2 step3 by (meson converse_rtranclp_into_rtranclp rtranclp.rtrancl_refl)
  moreover have "ic_cli st2 ?cli = Some k" "ic_cm st2 = ic_cm st" "\<exists>ch. ic_chan st2 chan = Some ch \<and> ch_modes ch = 0 \<and>
      ch_bans ch = (\<lambda>_. []) \<and> ch_str ch = (\<lambda>_. []) \<and> ch_int ch = (\<lambda>_. 0)"
    using st2(1) by (auto simp: create_channel_def Let_def bind_Some_iff hook_chan_def put_chan_def put_client_def)
  then have "ic_cli st3 ?cli = Some (k\<lparr>cc_chans := [ic_fresh st2]\<rparr>)" "ic_cm st3 = ic_cm st"
    "ic_link st3 (ic_fresh st2) = Some \<lparr>cl_cli = ?cli, cl_chan = chan, cl_flags = 0, cl_bans = 0\<rparr>"
    "\<exists>ch. ic_chan st3 chan = Some ch \<and> ch_modes ch = 0 \<and> ch_bans ch = (\<lambda>_. []) \<and> ch_str ch = (\<lambda>_. []) \<and> ch_int ch = (\<lambda>_. 0)"
    using st3(1) k by (auto simp: add_to_channel_def Let_def bind_Some_iff put_chan_def put_client_def put_link_def)
  ultimately show ?thesis using st3 by (intro exI [of _ st3] exI [of _ ?cli] exI [of _ chan] exI [of _ "ic_fresh st2"]) simp
qed

lemma members_linked:
  assumes inv: "ch_inv st" and ch: "ic_chan st chan = Some ch"
  shows "unat (ch_onchannel ch) = length (ch_users ch) \<and> distinct (ch_users ch) \<and>
    (\<forall>l \<in> set (ch_users ch). \<exists>lk k. ic_link st l = Some lk \<and> cl_chan lk = chan \<and> ic_cli st (cl_cli lk) = Some k \<and>
       l \<in> set (cc_chans k))"
proof -
  have li: "links_inv (cshape st) (kshape st) (lshape st)" using inv by (simp add: ch_inv_def)
  have c: "cshape st chan = Some (ch_name ch, ch_onchannel ch, ch_users ch)" using ch by (simp add: cshape_def)
  have "\<exists>lk k. ic_link st l = Some lk \<and> cl_chan lk = chan \<and> ic_cli st (cl_cli lk) = Some k \<and> l \<in> set (cc_chans k)"
    if l: "l \<in> set (ch_users ch)" for l
  proof -
    obtain a where a: "lshape st l = Some (a, chan)" using links_invD(4) [OF li c l] by blast
    then show ?thesis using links_invD(2) [OF li a] by (auto simp: lshape_Some kshape_Some)
  qed
  then show ?thesis using links_invD(3) [OF li c] by blast
qed

definition demo_client :: client where
  "demo_client = \<lparr>cc_nick = ''al'', cc_user = ''u'', cc_host = ''h.org'', cc_ip = ''1.2.3.4'', cc_orighost = None,
     cc_modes = 0, cc_local = True, cc_master = False, cc_chans = []\<rparr>"

lemma chan_map_ok: "mapped chan_map c = NUL \<longleftrightarrow> uchar c < 33 \<or> uchar c = 44 \<or> uchar c = 160"
proof -
  have "mapped chan_map c = NUL \<longleftrightarrow> uchar (mapped chan_map c) = 0" by simp
  also have "\<dots> \<longleftrightarrow> uchar c < 33 \<or> uchar c = 44 \<or> uchar c = 160" unfolding chan_map_at by (auto simp: Let_def)
  finally show ?thesis .
qed

lemma demo_name: "chan_ok ''#a''" "length ''#a'' \<le> CHANLEN"
  unfolding chan_ok_def istr_okay_iff chan_map_ok by (simp_all add: short_str_def CHANLEN_def uchar_def c_str_def)



section \<open>Leaving\<close>

text \<open>A first member of the channel \<^verbatim>\<open>#a\<close>, for the examples.\<close>

lemma demo_member:
  "\<exists>st cli chan l ch. run_inv st \<and> ic_cli st cli = Some (demo_client\<lparr>cc_chans := [l]\<rparr>) \<and> ic_chan st chan = Some ch \<and>
     ic_link st l = Some \<lparr>cl_cli = cli, cl_chan = chan, cl_flags = 0, cl_bans = 0\<rparr> \<and>
     ch_name ch = ''#a'' \<and> ch_users ch = [l] \<and> ch_modes ch = 0 \<and> ch_bans ch = (\<lambda>_. []) \<and>
     ch_str ch = (\<lambda>_. []) \<and> ch_int ch = (\<lambda>_. 0) \<and>
     (\<forall>m \<in> set ''bkl''. has_data st m) \<and> core_good (ic_cm st) (cr_mod core_letters)"
proof -
  obtain st where st: "ircd_start ''irc'' 0 = Some st" "cm_inv (ic_cm st)" "\<forall>m \<in> set ''bklmnosv''. core_typed (ic_cm st) m"
    "\<forall>m \<in> set ''bkl''. cm_mdi (cs_modes (ic_cm st) m) \<noteq> None"
    using ircd_start_ok by blast
  obtain st' cli chan l ch where s: "cshape st' chan = Some (''#a'', 1, [l])" "run_inv st'" "ic_cm st' = ic_cm st"
    "ic_cli st' cli = Some (demo_client\<lparr>cc_chans := [l]\<rparr>)" "ic_chan st' chan = Some ch"
    "ic_link st' l = Some \<lparr>cl_cli = cli, cl_chan = chan, cl_flags = 0, cl_bans = 0\<rparr>"
    "ch_modes ch = 0" "ch_bans ch = (\<lambda>_. [])" "ch_str ch = (\<lambda>_. [])" "ch_int ch = (\<lambda>_. 0)"
    using first_member [OF st(1) demo_name, of demo_client "\<lambda>_ _. None" "\<lambda>_ _. None"] by (auto simp: demo_client_def)
  have "has_data st' m" if "m \<in> set ''bkl''" for m
  proof -
    have "m \<in> set ''bklmnosv''" using that by auto
    then have "\<not> cm_avail (cs_modes (ic_cm st') m)" using st(3) s(3) unfolding core_typed_def by metis
    then show ?thesis using bspec [OF st(4) that] s(3) by (simp add: has_data_def)
  qed
  moreover have "ch_name ch = ''#a''" "ch_users ch = [l]" using s(1,5) by (simp_all add: cshape_def)
  moreover have "core_good (ic_cm st') (cr_mod core_letters)"
    using bspec [OF st(3), of "CHR ''m''"] s(3) core_typed_good by (simp add: core_letters_def)
  ultimately show ?thesis using s(2,4-10) by blast
qed

text \<open>C21: the loop of \<^verbatim>\<open>destroy_client\<close> that takes a client out of its channels ends after one round
  for each of its links, and then no link of the client is left, in any channel.\<close>

theorem quit_leaves_all:
  assumes "run_inv st" "ic_cli st cli = Some k"
  shows "\<exists>st' k'. leave_channels (Suc (length (cc_chans k))) (core_funcs pton chase) st cli = Some st' \<and> run_inv st' \<and>
    ic_cli st' cli = Some k' \<and> cc_chans k' = [] \<and> (\<forall>l lk. ic_link st' l = Some lk \<longrightarrow> cl_cli lk \<noteq> cli)"
proof -
  have k: "kshape st cli = Some (cc_chans k)" using assms(2) by (simp add: kshape_def)
  obtain st' where st': "leave_channels (Suc (length (cc_chans k))) (core_funcs pton chase) st cli = Some st'" "ch_inv st'"
    "kshape st' cli = Some []" using core.leave_channels_ok [OF _ k lessI] assms(1)
    unfolding run_inv_def modes_handled_def by metis
  have li: "links_inv (cshape st') (kshape st') (lshape st')" using st'(2) by (simp add: ch_inv_def)
  have "cl_cli lk \<noteq> cli" if "ic_link st' l = Some lk" for l lk
    using links_invD(2) [OF li, of l "cl_cli lk" "cl_chan lk"] that st'(3) by (auto simp: lshape_Some)
  then show ?thesis using st' quit_inv [OF assms(1) st'(1)] by (auto simp: kshape_Some)
qed

theorem quit_leaves_all_witness:
  "\<exists>st cli st' k'. leave_channels 2 (core_funcs (\<lambda>_ _. None) (\<lambda>_ _. None)) st cli = Some st' \<and> kshape st cli \<noteq> Some [] \<and>
     ic_cli st' cli = Some k' \<and> cc_chans k' = []"
proof -
  obtain st cli l where st: "run_inv st" "ic_cli st cli = Some (demo_client\<lparr>cc_chans := [l]\<rparr>)" using demo_member by blast
  then obtain st' k' where "leave_channels (Suc (length [l])) (core_funcs (\<lambda>_ _. None) (\<lambda>_ _. None)) st cli = Some st'"
    "ic_cli st' cli = Some k'" "cc_chans k' = []"
    using quit_leaves_all [OF st, of "\<lambda>_ _. None" "\<lambda>_ _. None"] by auto
  moreover have "kshape st cli = Some [l]" using st(2) by (simp add: kshape_def)
  moreover have "Suc (length [l]) = 2" by simp
  ultimately show ?thesis by (metis list.distinct(1) option.inject)
qed

lemma find_channel_ok:
  assumes inv: "reg_inv st" and nm: "chan_ok name"
  shows "case find_channel st name of
      None \<Rightarrow> \<forall>c ch. ic_chan st c = Some ch \<longrightarrow> chancmp (ch_name ch) name CHANLEN \<noteq> 0
    | Some c \<Rightarrow> \<exists>ch. ic_chan st c = Some ch \<and> chancmp (ch_name ch) name CHANLEN = 0"
proof -
  have t: "channel_table (ic_hash st)" using inv by (simp add: reg_inv_def)
  have ents: "(c, nm) \<in># ht_ents (ic_hash st) \<longleftrightarrow> (\<exists>ch. ic_chan st c = Some ch \<and> ch_name ch = nm)" for c nm
    using inv by (auto simp: reg_inv_def entries_def cshape_def image_iff)
  show ?thesis
  proof (cases "hash_find snd (ic_hash st) name")
    case None
    have "chancmp (ch_name ch) name CHANLEN \<noteq> 0" if "ic_chan st c = Some ch" for c ch
      using channels.fnd_None [OF t nm None, of "(c, ch_name ch)"] ents that by auto
    then show ?thesis using None by (simp add: find_channel_def)
  next
    case (Some e)
    then show ?thesis using channels.fnd_Some [OF t nm] ents [of "fst e" "snd e"] by (auto simp: find_channel_def)
  qed
qed

text \<open>A member that leaves a channel is on it no longer, the channel is freed exactly when it was the
  last member, and afterwards no name finds a channel that is gone.\<close>

theorem part_leaves:
  assumes "run_inv st" "ic_chan st chan = Some ch" "ic_link st l = Some lk" "cl_cli lk = cli" "cl_chan lk = chan"
  shows "\<exists>st'. del_from_channel (core_funcs pton chase) st cli chan hook = Some st' \<and> run_inv st' \<and>
    (\<exists>l'. lshape st l' = Some (cli, chan) \<and> lshape st' = (lshape st)(l' := None)) \<and>
    (ic_chan st' chan = None \<longleftrightarrow> length (ch_users ch) = 1) \<and>
    (\<forall>name c. chan_ok name \<longrightarrow> find_channel st' name = Some c \<longrightarrow> ic_chan st' c \<noteq> None)"
proof -
  have inv: "ch_inv st" and li: "links_inv (cshape st) (kshape st) (lshape st)"
    using assms(1) by (simp_all add: run_inv_def ch_inv_def)
  have l: "lshape st l = Some (cli, chan)" using assms(3-5) by (auto simp: lshape_Some)
  then obtain ks where k: "kshape st cli = Some ks" using links_invD(2) [OF li] by blast
  have c: "cshape st chan = Some (ch_name ch, ch_onchannel ch, ch_users ch)" using assms(2) by (simp add: cshape_def)
  have good: "\<forall>m \<in> set (cs_avail (ic_cm st)). core_good (ic_cm st) m"
    using assms(1) by (simp add: run_inv_def modes_handled_def)
  obtain st' where st': "del_from_channel (core_funcs pton chase) st cli chan hook = Some st'" "ch_inv st'"
    "if \<exists>l. lshape st l = Some (cli, chan)
     then (\<exists>l. lshape st l = Some (cli, chan) \<and> lshape st' = (lshape st)(l := None)) \<and>
       (cshape st' chan = None \<longleftrightarrow> length (ch_users ch) = 1)
     else lshape st' = lshape st \<and> (cshape st' chan = None \<longleftrightarrow> ch_users ch = [])"
    using core.del_from_channel_ok [OF inv k c good, of pton chase hook] by blast
  have "(\<exists>l'. lshape st l' = Some (cli, chan) \<and> lshape st' = (lshape st)(l' := None)) \<and>
       (cshape st' chan = None \<longleftrightarrow> length (ch_users ch) = 1)"
    using st'(3) l by (metis (no_types, lifting))
  moreover have "cshape st' chan = None \<longleftrightarrow> ic_chan st' chan = None" by (simp add: cshape_def)
  moreover have "ic_chan st' c \<noteq> None" if "chan_ok name" "find_channel st' name = Some c" for name c
    using find_channel_ok [of st' name] that st'(2) by (auto simp: ch_inv_def)
  ultimately show ?thesis using st'(1) part_inv [OF assms(1) st'(1)] by (intro exI [of _ st']) simp
qed

theorem part_leaves_witness:
  "\<exists>st cli chan st'. del_from_channel (core_funcs (\<lambda>_ _. None) (\<lambda>_ _. None)) st cli chan True = Some st' \<and>
     ic_chan st chan \<noteq> None \<and> ic_chan st' chan = None"
proof -
  obtain st cli chan l ch where st: "run_inv st" "ic_chan st chan = Some ch" "ch_users ch = [l]"
    "ic_link st l = Some \<lparr>cl_cli = cli, cl_chan = chan, cl_flags = 0, cl_bans = 0\<rparr>"
    using demo_member by blast
  then obtain st' where "del_from_channel (core_funcs (\<lambda>_ _. None) (\<lambda>_ _. None)) st cli chan True = Some st'"
    "ic_chan st' chan = None"
    using part_leaves [OF st(1,2,4), of cli "\<lambda>_ _. None" "\<lambda>_ _. None" True] by auto
  then show ?thesis using st(2) by blast
qed

text \<open>A name finds a channel when one of that name exists, in any case of its letters, and never a
  channel of another name or one that was freed.\<close>

theorem find_channel_spec:
  assumes "run_inv st" "chan_ok name"
  shows "case find_channel st name of
      None \<Rightarrow> \<forall>c ch. ic_chan st c = Some ch \<longrightarrow> chancmp (ch_name ch) name CHANLEN \<noteq> 0
    | Some c \<Rightarrow> \<exists>ch. ic_chan st c = Some ch \<and> chancmp (ch_name ch) name CHANLEN = 0"
  using assms by (intro find_channel_ok) (simp_all add: run_inv_def ch_inv_def)

theorem find_channel_spec_witness: "\<exists>st c. find_channel st ''#a'' = Some c \<and> ic_chan st c \<noteq> None"
proof -
  obtain st chan ch where st: "run_inv st" "ic_chan st chan = Some ch" "ch_name ch = ''#a''"
    using demo_member by blast
  have same: "chancmp (ch_name ch) ''#a'' CHANLEN = 0"
    unfolding st(3) using chancmp_zero [OF demo_name(1) demo_name(1)] by blast
  note spec = find_channel_spec [OF st(1) demo_name(1)]
  show ?thesis
  proof (cases "find_channel st ''#a''")
    case None
    then show ?thesis using spec st(2) same by simp
  next
    case (Some c)
    then show ?thesis using spec by auto
  qed
qed

section \<open>Who may speak, see and join\<close>



text \<open>C13: a client may send to a channel exactly when it is an operator or voiced there, when it is a
  member, no ban counts against it and the channel is not moderated, or when it is outside and the
  channel is neither moderated nor closed to messages from outside.\<close>

theorem send_access:
  assumes "run_inv st" "ic_cli st cli = Some k" "ic_chan st chan = Some ch"
  shows "\<exists>v. channel_check_access (core_hooks pton see cr) st cli chan ext (ev_can_send core_events) = Some (st, v) \<and>
    (v < 0 \<longleftrightarrow> (case member_link st cli chan of
        None \<Rightarrow> \<not> chanmode_isset st ch (cr_mod cr) \<and> \<not> chanmode_isset st ch (cr_nextern cr)
      | Some lk \<Rightarrow> op_or_voice st cr lk \<or> cl_bans lk = 0 \<and> \<not> chanmode_isset st ch (cr_mod cr)))"
  by (rule send_decision [where ks = "cc_chans k"]) (use assms in \<open>simp_all add: run_inv_def kshape_def\<close>)

theorem send_access_witness:
  "\<exists>st cli chan v. channel_check_access (core_hooks (\<lambda>_ _. None) (\<lambda>_. False) core_letters) st cli chan None
     (ev_can_send core_events) = Some (st, v)"
proof -
  obtain st cli chan l ch where "run_inv st" "ic_cli st cli = Some (demo_client\<lparr>cc_chans := [l]\<rparr>)" "ic_chan st chan = Some ch"
    using demo_member by blast
  then show ?thesis using send_access by blast
qed

text \<open>A client sees a channel exactly when it is a member, when the channel is not secret, or when it
  is an operator of the network with the privilege to see hidden channels.\<close>

theorem see_access:
  assumes "run_inv st" "ic_cli st cli = Some k" "ic_chan st chan = Some ch"
  shows "\<exists>v. channel_check_access (core_hooks pton see cr) st cli chan None (ev_can_see core_events) = Some (st, v) \<and>
    (v < 0 \<longleftrightarrow> member_link st cli chan \<noteq> None \<or> \<not> chanmode_isset st ch (cr_secret cr) \<or> client_oper st k \<and> see cli)"
  by (rule see_decision) (use assms in \<open>simp_all add: run_inv_def\<close>)

theorem see_access_witness:
  "\<exists>st cli chan v. channel_check_access (core_hooks (\<lambda>_ _. None) (\<lambda>_. False) core_letters) st cli chan None
     (ev_can_see core_events) = Some (st, v) \<and> v < 0"
proof -
  obtain st cli chan l ch where st: "run_inv st" "ic_cli st cli = Some (demo_client\<lparr>cc_chans := [l]\<rparr>)"
    "ic_chan st chan = Some ch" "ch_modes ch = 0"
    using demo_member by blast
  then have "\<not> chanmode_isset st ch (cr_secret core_letters)" by (simp add: chanmode_isset_def)
  then show ?thesis using see_access [OF st(1-3), of "\<lambda>_ _. None" "\<lambda>_. False" core_letters] by blast
qed

text \<open>The count of a ban check is a \<^verbatim>\<open>short\<close>, and the last hook that refuses names the error.\<close>

definition key_refused :: "cstring \<Rightarrow> cstring option \<Rightarrow> bool" where
  "key_refused key ext \<longleftrightarrow> key \<noteq> [] \<and> (case ext of None \<Rightarrow> True | Some e \<Rightarrow> e = [] \<or> \<not> key_loop key e)"

definition join_verdict :: "pton \<Rightarrow> core_modes \<Rightarrow> ircd \<Rightarrow> channel \<Rightarrow> client \<Rightarrow> cstring option \<Rightarrow> int" where
  "join_verdict pton cr st ch k ext =
     (let limit = chanmode_getintdata st ch (cr_limit cr) in
      if limit \<noteq> 0 \<and> ch_onchannel ch > limit then ERR_CHANNELISFULL
      else if key_refused (ch_str ch (cr_key cr)) ext then ERR_BADCHANNELKEY
      else if (of_nat (check_client pton (ch_bans ch (cr_ban cr)) k) :: short) \<noteq> 0 then ERR_BANNEDFROMCHAN
      else HOOK_COND_PASS)"

text \<open>C10: the check of a member that has just been added, in the order of the hooks: it may join exactly
  when the channel is not over its limit, the key is right and no ban matches, the error of the last
  hook that refuses is the one reported, and the count of bans that match is kept in its link.\<close>

theorem join_access:
  assumes "ic_cli st cli = Some k" "ic_chan st chan = Some ch" "member_link st cli chan = Some lk"
    and "has_data st (cr_ban cr)" "has_data st (cr_key cr)"
  shows "\<exists>l. ic_link st l = Some lk \<and> channel_check_access (core_hooks pton see cr) st cli chan ext (ev_can_join core_events) =
    Some (put_link st l (lk\<lparr>cl_bans := of_nat (check_client pton (ch_bans ch (cr_ban cr)) k)\<rparr>), join_verdict pton cr st ch k ext)"
proof -
  obtain l where l: "find_chan_link st cli chan = Some (Some l)" "ic_link st l = Some lk"
    using assms(3) by (auto simp: member_link_def split: option.splits)
  let ?n = "of_nat (check_client pton (ch_bans ch (cr_ban cr)) k) :: short"
  let ?a = "\<lparr>ca_chan = chan, ca_cli = cli, ca_clp = Some l, ca_extra = ext\<rparr>"
  let ?st = "put_link st l (lk\<lparr>cl_bans := ?n\<rparr>)"
  let ?key = "key_refused (ch_str ch (cr_key cr)) ext"
  let ?full = "chanmode_getintdata st ch (cr_limit cr) \<noteq> 0 \<and> ch_onchannel ch > chanmode_getintdata st ch (cr_limit cr)"
  have d: "has_data ?st m = has_data st m" "ic_chan ?st = ic_chan st" for m by (simp_all add: has_data_def put_link_def)
  then have "chanmode_getintdata ?st = chanmode_getintdata st" by (simp add: chanmode_getintdata_def fun_eq_iff)
  note d = d this
  define rb where "rb = (if ?n \<noteq> 0 then ERR_BANNEDFROMCHAN else HOOK_COND_OK)"
  define rk where "rk = (if ?key then ERR_BADCHANNELKEY else HOOK_COND_OK)"
  define rl where "rl = (if ?full then ERR_CHANNELISFULL else HOOK_COND_OK)"
  have "can_join_mode_b pton cr st ?a = Some (?st, rb)"
    using assms l by (simp add: can_join_mode_b_def data_chan_def Let_def rb_def)
  moreover have "can_join_mode_k cr ?st ?a = Some (?st, rk)"
    using assms d by (auto simp: can_join_mode_k_def data_chan_def key_refused_def Let_def rk_def split: option.splits)
  moreover have "can_join_mode_l cr ?st ?a = Some (?st, rl)"
    using assms d by (simp add: can_join_mode_l_def Let_def rl_def)
  moreover have "\<not> stop_ret rb" "\<not> stop_ret rk" "\<not> stop_ret rl"
    by (simp_all add: rb_def rk_def rl_def stop_ret_def numerics hook_conds)
  ultimately have "ask (core_hooks pton see cr) st ?a [1, 7, 8] = Some (?st, [rb, rk, rl])" and
    "\<not> stop_ret rb" "\<not> stop_ret rk" "\<not> stop_ret rl" by (simp_all add: core_hooks_def)
  moreover from this(2-4) have "verdict [rb, rk, rl] = join_verdict pton cr st ch k ext"
    by (simp add: verdict_def) (simp add: rb_def rk_def rl_def join_verdict_def numerics hook_conds Let_def)
  ultimately show ?thesis using l
    by (intro exI [of _ l]) (simp add: channel_check_access_def core_event_funs del: ask.simps)
qed

theorem join_access_witness:
  "\<exists>st cli chan st'. channel_check_access (core_hooks (\<lambda>_ _. None) (\<lambda>_. False) core_letters) st cli chan None
     (ev_can_join core_events) = Some (st', HOOK_COND_PASS)"
proof -
  obtain st cli chan l ch where st: "ic_cli st cli = Some (demo_client\<lparr>cc_chans := [l]\<rparr>)"
    "ic_chan st chan = Some ch" "ic_link st l = Some \<lparr>cl_cli = cli, cl_chan = chan, cl_flags = 0, cl_bans = 0\<rparr>"
    "ch_str ch = (\<lambda>_. [])" "ch_int ch = (\<lambda>_. 0)" "ch_bans ch = (\<lambda>_. [])"
    "\<forall>m \<in> set ''bkl''. has_data st m" using demo_member by blast
  have lk: "member_link st cli chan = Some \<lparr>cl_cli = cli, cl_chan = chan, cl_flags = 0, cl_bans = 0\<rparr>"
    using st(1,3) by (simp add: member_link_def find_chan_link_def)
  have "has_data st (cr_ban core_letters)" "has_data st (cr_key core_letters)" "has_data st (cr_limit core_letters)"
    using st(7) by (simp_all add: core_letters_def)
  then show ?thesis
    using join_access [OF st(1,2) lk, of core_letters "\<lambda>_ _. None" "\<lambda>_. False" None] st(4-6)
    by (auto simp: join_verdict_def key_refused_def chanmode_getintdata_def check_client_def check_bans_def)
qed

end
