(* ===== verification/ChanBan.thy ===== *)
theory ChanBan
  imports ChanRun
begin

text \<open>
  Bans, keys and the mode changes of clients (\<^verbatim>\<open>addons/core.c\<close>): what a ban mask is, whom a ban keeps
  from speaking, who may change a channel, and which key two servers agree on.
\<close>

section \<open>Counting bans\<close>

lemma recount_ok:
  assumes "recount pton bans st ls = Some st'" "distinct ls"
  shows "ic_chan st' = ic_chan st \<and> ic_cli st' = ic_cli st \<and> ic_cm st' = ic_cm st \<and>
    (\<forall>l. ic_link st' l = (if l \<in> set ls
       then map_option (\<lambda>lk. lk\<lparr>cl_bans := of_nat (check_client pton bans (the (ic_cli st (cl_cli lk))))\<rparr>) (ic_link st l)
       else ic_link st l))"
  using assms
proof (induction ls arbitrary: st)
  case (Cons l ls)
  obtain lk k where lk: "ic_link st l = Some lk" "ic_cli st (cl_cli lk) = Some k"
    using Cons.prems(1) by (auto simp: bind_Some_iff)
  let ?st = "put_link st l (lk\<lparr>cl_bans := of_nat (check_client pton bans k)\<rparr>)"
  have "recount pton bans ?st ls = Some st'" using Cons.prems(1) lk by simp
  from Cons.IH [OF this] Cons.prems(2) show ?case using lk by (auto simp: put_link_def)
qed simp

lemma put_bans_ok:
  assumes "put_bans pton st chan m ch bans = Some st'" "distinct (ch_users ch)"
  shows "ic_cli st' = ic_cli st" "ic_cm st' = ic_cm st"
    "ic_chan st' = (ic_chan st)(chan \<mapsto> ch\<lparr>ch_bans := (ch_bans ch)(m := bans)\<rparr>)"
    "l \<in> set (ch_users ch) \<Longrightarrow> ic_link st l = Some lk \<Longrightarrow> ic_cli st (cl_cli lk) = Some k \<Longrightarrow>
       ic_link st' l = Some (lk\<lparr>cl_bans := of_nat (check_client pton bans k)\<rparr>)"
  using recount_ok [OF assms(1) [unfolded put_bans_def] assms(2)] by (auto simp: put_chan_def)

section \<open>Ban masks\<close>

lemma strchr_cases:
  assumes "c_str s" "c \<noteq> NUL"
  shows "case ith_strchr s c of None \<Rightarrow> c \<notin> set s | Some t \<Rightarrow> \<exists>u. s = u @ t \<and> c \<notin> set u \<and> (\<exists>v. t = c # v)"
  using assms(1)
proof (induction s)
  case Nil
  then show ?case using assms(2) by (subst ith_strchr.simps) auto
next
  case (Cons a s)
  show ?case
  proof (cases "a = c")
    case True
    then show ?thesis by (subst ith_strchr.simps) auto
  next
    case False
    have "a \<noteq> NUL" "c_str s" using Cons.prems by (auto simp: c_str_def)
    then have "ith_strchr (a # s) c = ith_strchr s c" using False by (subst ith_strchr.simps) auto
    then show ?thesis using Cons.IH [OF \<open>c_str s\<close>] False
      by (cases "ith_strchr s c") (auto intro: exI [of _ "a # _"])
  qed
qed

lemma strchr_append: "c \<notin> set u \<Longrightarrow> NUL \<notin> set u \<Longrightarrow> c \<noteq> NUL \<Longrightarrow> ith_strchr (u @ c # v) c = Some (c # v)"
  by (induction u) (subst ith_strchr.simps, auto)+

text \<open>A mask is accepted as a ban exactly when it is a nickname, a user and a host, none of them empty
  and none longer than its array, in the form \<^verbatim>\<open>nick!user@host\<close>, split at the first of each sign.\<close>

theorem split_ban_spec:
  assumes "c_str a"
  shows "split_ban a = Some (n, u, h) \<longleftrightarrow>
    a = n @ ''!'' @ u @ ''@'' @ h \<and> n \<noteq> [] \<and> u \<noteq> [] \<and> h \<noteq> [] \<and> length n \<le> NICKLEN \<and> length u \<le> USERLEN \<and>
    length h \<le> HOSTLEN \<and> CHR ''!'' \<notin> set n \<and> CHR ''@'' \<notin> set n \<union> set u"
proof
  assume s: "split_ban a = Some (n, u, h)"
  then obtain bang at' where b: "ith_strchr a (CHR ''!'') = Some bang" "ith_strchr a (CHR ''@'') = Some at'"
    by (auto simp: split_ban_def split: option.splits)
  obtain x where x: "a = x @ bang" "CHR ''!'' \<notin> set x" "\<exists>v. bang = CHR ''!'' # v"
    using strchr_cases [OF assms, of "CHR ''!''"] b(1) by auto
  obtain y where y: "a = y @ at'" "CHR ''@'' \<notin> set y" "\<exists>v. at' = CHR ''@'' # v"
    using strchr_cases [OF assms, of "CHR ''@''"] b(2) by auto
  have c: "x \<noteq> []" "tl at' \<noteq> []" "length bang \<noteq> length at' + 1" "length at' \<le> length bang" "n = x"
    "u = take (length bang - 1 - length at') (tl bang)" "h = tl at'"
    "length n \<le> NICKLEN" "length u \<le> USERLEN" "length h \<le> HOSTLEN"
    using s b x(1) by (auto simp: split_ban_def Let_def split: if_splits)
  obtain v w where v: "bang = CHR ''!'' # v" "at' = CHR ''@'' # w" using x(3) y(3) by blast
  have "bang \<noteq> at'" by (simp add: v)
  then have "length at' \<noteq> length bang" using x(1) y(1) append_eq_append_conv [of bang at' x y] by auto
  then have lt: "length at' < length bang" using c(4) by simp
  then obtain z where z: "bang = z @ at'" "y = x @ z" using x(1) y(1) by (auto simp: append_eq_append_conv2)
  then obtain z' where z': "z = CHR ''!'' # z'" using v lt by (cases z) auto
  have "tl bang = z' @ at'" "length bang = Suc (length z' + length at')" using z(1) z' by simp_all
  then have u: "u = z'" using c(6) by simp
  have "z' \<noteq> []" using c(3) \<open>length bang = _\<close> by (cases z') simp_all
  then show "a = n @ ''!'' @ u @ ''@'' @ h \<and> n \<noteq> [] \<and> u \<noteq> [] \<and> h \<noteq> [] \<and> length n \<le> NICKLEN \<and> length u \<le> USERLEN \<and>
    length h \<le> HOSTLEN \<and> CHR ''!'' \<notin> set n \<and> CHR ''@'' \<notin> set n \<union> set u"
    using u c(1,2,5,7-10) x(1,2) y(2) z z' v(2) by simp
next
  assume r: "a = n @ ''!'' @ u @ ''@'' @ h \<and> n \<noteq> [] \<and> u \<noteq> [] \<and> h \<noteq> [] \<and> length n \<le> NICKLEN \<and> length u \<le> USERLEN \<and>
    length h \<le> HOSTLEN \<and> CHR ''!'' \<notin> set n \<and> CHR ''@'' \<notin> set n \<union> set u"
  then have "NUL \<notin> set n" "NUL \<notin> set u" using assms by (auto simp: c_str_def)
  then have "ith_strchr a (CHR ''!'') = Some (CHR ''!'' # u @ ''@'' @ h)" "ith_strchr a (CHR ''@'') = Some (CHR ''@'' # h)"
    using r strchr_append [of "CHR ''!''" n "u @ ''@'' @ h"] strchr_append [of "CHR ''@''" "n @ ''!'' @ u" h] by auto
  then show "split_ban a = Some (n, u, h)" using r by (auto simp: split_ban_def Let_def)
qed

theorem split_ban_spec_witness: "split_ban ''*!*@*.net'' = Some (''*'', ''*'', ''*.net'')"
  using split_ban_spec [of "''*!*@*.net''" "''*''" "''*''" "''*.net''"]
  by (simp add: c_str_def NICKLEN_def USERLEN_def HOSTLEN_def)

section \<open>What a ban does\<close>

definition new_ban :: "cstring \<times> cstring \<times> cstring \<Rightarrow> cstring \<Rightarrow> int \<Rightarrow> channel_ban" where
  "new_ban msk who now =
     \<lparr>bn_nick = fst msk, bn_user = fst (snd msk), bn_host = snd (snd msk), bn_who = who, bn_when = now\<rparr>"

lemma chanmode_ban_set:
  assumes "chanmode_ban pton st cli chan m ChSet (Some a) used = Some (st', CHANMODE_OK, r)" "denied st cli chan = Some False"
  shows "\<exists>msk ch who. split_ban a = Some msk \<and> ic_chan st chan = Some ch \<and> has_data st m \<and>
    put_bans pton st chan m ch (new_ban msk who (ic_now st) # ch_bans ch m) = Some st'"
proof -
  obtain msk where m: "split_ban a = Some msk"
    using assms by (cases "split_ban a") (auto simp: chanmode_ban_def chanmode_results)
  obtain ch where ch: "data_chan st chan m = Some ch"
    using assms m by (cases "data_chan st chan m") (auto simp: chanmode_ban_def)
  have "ban_scan (local_client st cli) msk 0 (ch_bans ch m) = BanNew"
    using assms m ch by (cases "ban_scan (local_client st cli) msk 0 (ch_bans ch m)") (auto simp: chanmode_ban_def chanmode_results)
  then obtain who where "put_bans pton st chan m ch (new_ban msk who (ic_now st) # ch_bans ch m) = Some st'"
    using assms m ch by (auto simp: chanmode_ban_def bind_Some_iff Let_def new_ban_def)
  then show ?thesis using m ch by (auto simp: data_chan_Some)
qed

lemma find_link_cong: "lshape st' = lshape st \<Longrightarrow> find_link st' chan ls = find_link st chan ls"
proof (induction ls)
  case (Cons l ls)
  have "lshape st' l = lshape st l" "find_link st' chan ls = find_link st chan ls" using Cons by simp_all
  then show ?case by (cases "ic_link st l"; cases "ic_link st' l") (simp_all add: lshape_def)
qed simp

lemma ban_count_pos:
  assumes "check_client pton (b # bans) k = n" "ban_matches pton b (cc_nick k) (cc_user k) (cc_host k) (cc_ip k) (cc_orighost k)"
    and "length bans < 2 ^ 16 - 1"
  shows "(of_nat n :: short) \<noteq> 0"
proof -
  have "1 \<le> n" "n \<le> Suc (length bans)" using assms(1,2)
    by (auto simp: check_client_def check_bans_def)
  then have "0 < n" "n < 2 ^ 16" using assms(3) by auto
  then show ?thesis by (auto simp: word_of_nat_eq_0_iff dest: dvd_imp_le)
qed

text \<open>C11: after a ban is set, a member that its mask matches, by nickname, user and one of its host, its
  address or its original host, can no longer send to the channel unless it is an operator or voiced.
  The members are counted at once; the count is a \<^verbatim>\<open>short\<close>, so a list of 65536 bans would wrap.\<close>

theorem ban_silences:
  assumes inv: "run_inv st" and op: "denied st by_cli chan = Some False"
    and run: "chanmode_ban pton st by_cli chan (cr_ban cr) ChSet (Some a) used = Some (st', CHANMODE_OK, r)"
    and cli: "ic_cli st cli = Some k" and lk: "member_link st cli chan = Some lk" and plain: "\<not> op_or_voice st cr lk"
    and hit: "split_ban a = Some msk" "ban_matches pton (new_ban msk [] 0) (cc_nick k) (cc_user k) (cc_host k) (cc_ip k) (cc_orighost k)"
    and few: "\<forall>ch. ic_chan st chan = Some ch \<longrightarrow> length (ch_bans ch (cr_ban cr)) < 2 ^ 16 - 1"
  shows "\<exists>v. channel_check_access (core_hooks pton see cr) st' cli chan ext (ev_can_send core_events) = Some (st', v) \<and> 0 \<le> v"
proof -
  obtain ch who where ch: "ic_chan st chan = Some ch" "has_data st (cr_ban cr)"
    "put_bans pton st chan (cr_ban cr) ch (new_ban msk who (ic_now st) # ch_bans ch (cr_ban cr)) = Some st'"
    using chanmode_ban_set [OF run op] hit(1) by auto
  let ?bans = "new_ban msk who (ic_now st) # ch_bans ch (cr_ban cr)"
  obtain l where l: "find_chan_link st cli chan = Some (Some l)" "ic_link st l = Some lk"
    using lk by (auto simp: member_link_def split: option.splits)
  have ks: "kshape st cli = Some (cc_chans k)" using cli by (simp add: kshape_def)
  have chinv: "ch_inv st" using inv by (simp add: run_inv_def)
  have ls: "lshape st l = Some (cli, chan)" using find_chan_link_ok [OF chinv ks, of chan] l(1) by auto
  have lu: "l \<in> set (ch_users ch)" "distinct (ch_users ch)"
    using links_invD(1) [of "cshape st" "kshape st" "lshape st" l cli chan] ls members_linked [OF chinv ch(1)] chinv ch(1)
    by (auto simp: ch_inv_def cshape_def)
  note pb = put_bans_ok [OF ch(3) lu(2)]
  have cl: "cl_cli lk = cli" using ls l(2) by (simp add: lshape_Some)
  have ss: "same_shape st st'" using chanmode_ban_shape [OF run] by simp
  then have sh: "lshape st' = lshape st" and inv': "ch_inv st'" using same_shape_inv [OF ss] chinv by (simp_all add: same_shape_def)
  let ?lk = "lk\<lparr>cl_bans := of_nat (check_client pton ?bans k)\<rparr>"
  have "ic_link st' l = Some ?lk" using pb(4) [OF lu(1) l(2)] cli cl by simp
  then have mem: "member_link st' cli chan = Some ?lk"
    using l(1) pb(1) find_link_cong [OF sh] by (simp add: member_link_def find_chan_link_def)
  have "ban_matches pton (new_ban msk who (ic_now st)) (cc_nick k) (cc_user k) (cc_host k) (cc_ip k) (cc_orighost k)"
    using hit(2) by (simp add: ban_matches_def new_ban_def cong: option.case_cong)
  then have "cl_bans ?lk \<noteq> 0" using ban_count_pos [OF refl] few ch(1) by simp
  moreover have "\<not> op_or_voice st' cr ?lk" using plain pb(2) by (simp add: op_or_voice_def chanlink_ismode_def)
  moreover obtain ch' where "ic_chan st' chan = Some ch'" using pb(3) by simp
  moreover have "kshape st' cli = Some (cc_chans k)" using cli pb(1) by (simp add: kshape_def)
  ultimately show ?thesis using send_decision [OF inv', of cli "cc_chans k" chan ch' pton see cr ext] mem by (auto simp: not_less)
qed

lemma demo_mask: "ban_matches (\<lambda>_ _. None) (new_ban (''*'', ''*'', ''*'') [] 0) ''al'' ''u'' ''h.org'' ''1.2.3.4'' None"
proof -
  have "match ''*'' ''al''" "match ''*'' ''u''" "match ''*'' ''h.org''"
    by (subst match_glob; simp add: c_str_def MAX_MATCH_DEPTH_def)+
  then show ?thesis by (simp add: ban_matches_def new_ban_def)
qed

theorem ban_silences_witness:
  "\<exists>st st' cli chan v. chanmode_ban (\<lambda>_ _. None) st None chan (CHR ''b'') ChSet (Some ''*!*@*'') 0 = Some (st', CHANMODE_OK, 1, Some ''*!*@*'') \<and>
     channel_check_access (core_hooks (\<lambda>_ _. None) (\<lambda>_. False) core_letters) st' cli chan None (ev_can_send core_events) = Some (st', v) \<and> 0 \<le> v"
proof -
  obtain st cli chan l ch where st: "run_inv st" "ic_cli st cli = Some (demo_client\<lparr>cc_chans := [l]\<rparr>)"
    "ic_chan st chan = Some ch" "ic_link st l = Some \<lparr>cl_cli = cli, cl_chan = chan, cl_flags = 0, cl_bans = 0\<rparr>"
    "ch_bans ch = (\<lambda>_. [])" "ch_users ch = [l]"
    "\<forall>m \<in> set ''bkl''. has_data st m" using demo_member by blast
  note e = st(5,6)
  have lk: "member_link st cli chan = Some \<lparr>cl_cli = cli, cl_chan = chan, cl_flags = 0, cl_bans = 0\<rparr>"
    using st(2,4) by (simp add: member_link_def find_chan_link_def)
  have m: "split_ban ''*!*@*'' = Some (''*'', ''*'', ''*'')" by code_simp
  have den: "denied st None chan = Some False" by (simp add: denied_def)
  have "data_chan st chan (CHR ''b'') = Some ch" using st(3,7) by (simp add: data_chan_def)
  then obtain st' where run: "chanmode_ban (\<lambda>_ _. None) st None chan (CHR ''b'') ChSet (Some ''*!*@*'') 0 =
      Some (st', CHANMODE_OK, 1, Some ''*!*@*'')"
    using den m e st by (simp add: chanmode_ban_def ban_who_def put_bans_def Let_def put_chan_def)
  have run2: "chanmode_ban (\<lambda>_ _. None) st None chan (cr_ban core_letters) ChSet (Some ''*!*@*'') 0 =
      Some (st', CHANMODE_OK, 1, Some ''*!*@*'')" using run by (simp add: core_letters_def)
  have "\<not> op_or_voice st core_letters \<lparr>cl_cli = cli, cl_chan = chan, cl_flags = 0, cl_bans = 0\<rparr>"
    by (simp add: op_or_voice_def chanlink_ismode_def)
  from ban_silences [OF st(1) den run2 st(2) lk this m, of "\<lambda>_. False" None]
  obtain v where "channel_check_access (core_hooks (\<lambda>_ _. None) (\<lambda>_. False) core_letters) st' cli chan None
      (ev_can_send core_events) = Some (st', v)" "0 \<le> v" using demo_mask st(3) e by (auto simp: demo_client_def)
  then show ?thesis using run by blast
qed

section \<open>Who may change a channel\<close>

text \<open>C17: a client that is neither an operator of the channel nor on a master server changes nothing with
  any mode of the module: no channel, link or client is touched, and the answer is a refusal.\<close>

theorem plain_member_changes_nothing:
  assumes "core_good (ic_cm st) m" "denied st (Some a) chan = Some True" "act \<noteq> ChClear" "ic_chan st chan \<noteq> None"
  shows "\<exists>st' v used' arg'. call_change (core_funcs pton chase) m st (Some a) chan m act arg used = Some (st', v, used', arg') \<and>
    v \<noteq> CHANMODE_OK \<and> ic_chan st' = ic_chan st \<and> ic_link st' = ic_link st \<and> ic_cli st' = ic_cli st"
proof -
  have reply: "ic_chan (reply_to c n s) = ic_chan s" "ic_link (reply_to c n s) = ic_link s" "ic_cli (reply_to c n s) = ic_cli s" for c n s
    by (simp_all add: reply_to_def hook_chan_def split: option.split)
  have "ic_chan (foldl (\<lambda>st _. reply_to c n st) s bs) = ic_chan s \<and> ic_link (foldl (\<lambda>st _. reply_to c n st) s bs) = ic_link s \<and>
      ic_cli (foldl (\<lambda>st _. reply_to c n st) s bs) = ic_cli s" for c n s and bs :: "channel_ban list"
    by (induction bs arbitrary: s) (simp_all add: reply)
  note replies = this reply
  obtain name where n: "cm_changefunc (cs_modes (ic_cm st) m) = Some name"
    "name \<in> {''chanmode_ban'', ''chanmode_key'', ''chanmode_limit'', ''chanmode_flag'', ''chanmode_uflag''}"
    "name = ''chanmode_ban'' \<longrightarrow> has_data st m"
    using assms(1) unfolding core_good_def has_data_def by - (elim exE conjE, rule that, assumption, assumption, simp only: has_data_def)
  have "\<exists>r. chanmode_ban pton st (Some a) chan m act arg used = Some r \<and> fst (snd r) \<noteq> CHANMODE_OK \<and>
      ic_chan (fst r) = ic_chan st \<and> ic_link (fst r) = ic_link st \<and> ic_cli (fst r) = ic_cli st" if "has_data st m"
    using that assms(2-4)
    by (cases act; cases arg)
      (auto simp: chanmode_ban_def data_chan_def chanmode_results numerics ban_list_replies_def replies)
  moreover have "\<exists>r. f st (Some a) chan m act arg used = Some r \<and> fst (snd r) \<noteq> CHANMODE_OK \<and>
      ic_chan (fst r) = ic_chan st \<and> ic_link (fst r) = ic_link st \<and> ic_cli (fst r) = ic_cli st"
    if "f \<in> {chanmode_key, chanmode_limit, chanmode_flag, chanmode_uflag chase}" for f
    using that assms(2-4)
    by (cases act; cases arg)
      (auto simp: chanmode_key_def chanmode_limit_def chanmode_flag_def chanmode_uflag_def chanmode_results numerics)
  ultimately have "\<exists>r. call_change (core_funcs pton chase) m st (Some a) chan m act arg used = Some r \<and> fst (snd r) \<noteq> CHANMODE_OK \<and>
      ic_chan (fst r) = ic_chan st \<and> ic_link (fst r) = ic_link st \<and> ic_cli (fst r) = ic_cli st"
    using n by (auto simp: call_change_def core_funcs_def)
  then show ?thesis by auto
qed

theorem plain_member_changes_nothing_witness:
  "\<exists>st cli chan st' v used' arg'. call_change (core_funcs (\<lambda>_ _. None) (\<lambda>_ _. None)) (cr_mod core_letters) st (Some cli) chan (cr_mod core_letters) ChSet None 0 =
     Some (st', v, used', arg') \<and> v \<noteq> CHANMODE_OK"
proof -
  obtain st :: ircd and cli chan l ch where st: "ic_cli st cli = Some (demo_client\<lparr>cc_chans := [l]\<rparr>)"
    "ic_chan st chan = Some ch" "ic_link st l = Some \<lparr>cl_cli = cli, cl_chan = chan, cl_flags = 0, cl_bans = 0\<rparr>"
    "ch_users ch = [l]" "core_good (ic_cm st) (cr_mod core_letters)"
    using demo_member by blast
  then have "denied st (Some cli) chan = Some True" using st(1-4)
    by (simp add: denied_def chanmode_isprefix_def demo_client_def chanlink_ismode_def split: option.split)
  then show ?thesis
    using plain_member_changes_nothing [of st "cr_mod core_letters" cli chan ChSet "\<lambda>_ _. None" "\<lambda>_ _. None" None 0] st(2,5) by blast
qed

section \<open>Keys\<close>

lemma strcmp_antisym: "ith_strcmp b a = - ith_strcmp a b"
proof (induction a b rule: ith_strcmp.induct)
  case (1 a b)
  then show ?case by (subst (1 2) ith_strcmp.simps) auto
qed


text \<open>A channel 1 with a key, for the examples.\<close>

definition demo_keyed :: "u64 \<Rightarrow> cstring \<Rightarrow> ircd" where
  "demo_keyed fl key =
     (let md = (cs_modes init_cmodes (CHR ''k''))\<lparr>cm_avail := False, cm_mask := 1, cm_mdi := Some (PASSWDLEN + 1),
            cm_queryfunc := Some ''chanmode_key_query''\<rparr>;
          h = \<lparr>ht_size = 0, ht_entries = 0, ht_table = [], ht_keylen = CHANLEN, ht_flags = 0, ht_cmp = chancmp\<rparr>
      in put_chan (start_ircd h init_umodes (put_cmode init_cmodes (CHR ''k'') md) ''irc'' 0) 1
           \<lparr>ch_name = ''#a'', ch_created = 0, ch_onchannel = 0, ch_users = [], ch_modes = fl, ch_bans = (\<lambda>_. []),
            ch_str = (\<lambda>_. key), ch_int = (\<lambda>_. 0)\<rparr>)"

lemma demo_keyed_chan:
  "has_data (demo_keyed fl key) (CHR ''k'')"
  "\<exists>ch. ic_chan (demo_keyed fl key) 1 = Some ch \<and> (chanmode_isset (demo_keyed fl key) ch (CHR ''k'') \<longleftrightarrow> fl AND 1 \<noteq> 0) \<and>
     ch_str ch = (\<lambda>_. key)"
  by (simp_all add: demo_keyed_def put_chan_def start_ircd_def has_data_def chanmode_isset_def cmode_exists_def)


text \<open>A channel with a key is opened by any list of keys that starts with a comma: the empty key
  before it is compared over no characters, which finds no difference.\<close>

theorem comma_opens_any_key:
  assumes "ic_chan st (ca_chan a) = Some ch" "has_data st (cr_key cr)" "ca_extra a = Some (CHR '','' # rest)"
  shows "can_join_mode_k cr st a = Some (st, HOOK_COND_OK)"
proof -
  have "ith_strchr (CHR '','' # rest) (CHR '','') = Some (CHR '','' # rest)" by (subst ith_strchr.simps) simp
  then have "key_loop (ch_str ch (cr_key cr)) (CHR '','' # rest)"
    by (subst key_loop.simps) (simp add: ith_strncasecmp_def)
  then show ?thesis using assms by (simp add: can_join_mode_k_def data_chan_def Let_def)
qed

theorem comma_opens_any_key_witness:
  "\<exists>st a. ca_extra a = Some '','' \<and> can_join_mode_k core_letters st a = Some (st, HOOK_COND_OK) \<and>
     (\<exists>ch. ic_chan st (ca_chan a) = Some ch \<and> ch_str ch (CHR ''k'') = ''secret'')"
proof -
  obtain ch where c: "ic_chan (demo_keyed 1 ''secret'') 1 = Some ch" "ch_str ch = (\<lambda>_. ''secret'')"
    using demo_keyed_chan(2) [of 1 "''secret''"] by blast
  have k: "has_data (demo_keyed 1 ''secret'') (cr_key core_letters)" using demo_keyed_chan(1) by (simp add: core_letters_def)
  show ?thesis
    using comma_opens_any_key [of "demo_keyed 1 ''secret''" "\<lparr>ca_chan = 1, ca_cli = 0, ca_clp = None, ca_extra = Some '',''\<rparr>" ch core_letters "[]"]
      c k by (intro exI [of _ "demo_keyed 1 ''secret''"] exI [of _ "\<lparr>ca_chan = 1, ca_cli = 0, ca_clp = None, ca_extra = Some '',''\<rparr>"]) simp
qed

lemma put_chan_fields [simp]:
  "ic_cm (put_chan st c ch) = ic_cm st" "ic_cli (put_chan st c ch) = ic_cli st" "ic_link (put_chan st c ch) = ic_link st"
  "ic_chan (put_chan st c ch) = (ic_chan st)(c \<mapsto> ch)"
  by (simp_all add: put_chan_def)

lemma member_ismode_cong:
  "ic_link st' = ic_link st \<Longrightarrow> ic_cm st' = ic_cm st \<Longrightarrow> member_ismode st' cli md ls = member_ismode st cli md ls"
  by (induction ls) (simp_all add: chanlink_ismode_def cong: if_cong)

lemma denied_data:
  assumes "ic_chan st chan = Some ch" "ch_users ch' = ch_users ch"
  shows "denied (put_chan st chan ch') cli chan = denied st cli chan"
proof -
  have "member_ismode (put_chan st chan ch') a md ls = member_ismode st a md ls" for a md ls
    by (rule member_ismode_cong) simp_all
  then have "chanmode_isprefix (put_chan st chan ch') chan a p = chanmode_isprefix st chan a p" for a p
    using assms by (simp add: chanmode_isprefix_def cong: option.case_cong)
  then show ?thesis by (simp add: denied_def cong: option.case_cong)
qed

lemma isset_setflag:
  assumes "cmode_exists (ic_cm st) m" "cm_mask (cs_modes (ic_cm st) m) \<noteq> 0" "ic_cm st' = ic_cm st"
  shows "chanmode_isset st' (setflag st m ch) m"
proof -
  have "(x OR b) AND b = b" for x b :: u64 by (rule bit_word_eqI) (auto simp: bit_simps)
  then show ?thesis using assms by (simp add: chanmode_isset_def setflag_def)
qed

text \<open>The query for the key gives back the key that the last change put there, and nothing after the
  key was taken off.\<close>

theorem key_query_roundtrip:
  assumes "has_data st m" "cmode_exists (ic_cm st) m" "cm_mask (cs_modes (ic_cm st) m) \<noteq> 0" "ic_chan st chan = Some ch"
    and "denied st cli chan = Some False" "c_str key" "length key \<le> PASSWDLEN" "set key \<inter> {CHR '' '', CHR '',''} = {}"
    and "cli \<noteq> None \<or> \<not> chanmode_isset st ch m" "int (length key) \<le> room"
  shows "\<exists>st1 st2 r1 r2. chanmode_key st cli chan m ChSet (Some key) u = Some (st1, r1) \<and>
    chanmode_key_query st1 chan m room QNull = Some (CHANMODE_OK, int (length key), Some key, QMark) \<and>
    chanmode_key st1 cli chan m ChUnset (Some any) u = Some (st2, r2) \<and>
    chanmode_key_query st2 chan m room QNull = Some (CHANMODE_FAIL, 0, None, QMark)"
proof -
  let ?c1 = "setflag st m (put_key m key ch)"
  let ?s1 = "put_chan st chan ?c1"
  let ?c2 = "unsetflag ?s1 m (put_key m [] ?c1)"
  have no: "ith_strchr key (CHR '' '') = None" "ith_strchr key (CHR '','') = None"
    using strchr_cases [OF assms(6), of "CHR '' ''"] strchr_cases [OF assms(6), of "CHR '',''"] assms(8)
    by (auto split: option.splits)
  have set_: "chanmode_key st cli chan m ChSet (Some key) u = Some (?s1, CHANMODE_OK, 1, Some key)"
    using assms(1,4,5,9) no by (auto simp: chanmode_key_def data_chan_def Let_def)
  have d1: "has_data ?s1 m" using assms(1) by (simp add: has_data_def)
  have c1: "ic_chan ?s1 chan = Some ?c1" "ic_chan (put_chan ?s1 chan ?c2) chan = Some ?c2" by simp_all
  have "chanmode_isset ?s1 ?c1 m" by (rule isset_setflag [OF assms(2,3)]) simp
  then have q1: "chanmode_key_query ?s1 chan m room QNull = Some (CHANMODE_OK, int (length key), Some key, QMark)"
    using c1 d1 assms(7,10) by (simp add: chanmode_key_query_def no_room_def setflag_def put_key_def)
  have "denied ?s1 cli chan = denied st cli chan" by (rule denied_data [OF assms(4)]) simp
  then have unset: "chanmode_key ?s1 cli chan m ChUnset (Some any) u = Some (put_chan ?s1 chan ?c2, CHANMODE_OK, 1, Some any)"
    using assms(5) c1 d1 by (simp add: chanmode_key_def data_chan_def)
  have "(x AND NOT b) AND b = 0" for x b :: u64 by (rule bit_word_eqI) (auto simp: bit_simps)
  then have "\<not> chanmode_isset (put_chan ?s1 chan ?c2) ?c2 m" by (simp add: chanmode_isset_def unsetflag_def)
  then have "chanmode_key_query (put_chan ?s1 chan ?c2) chan m room QNull = Some (CHANMODE_FAIL, 0, None, QMark)"
    using c1 by (simp add: chanmode_key_query_def)
  then show ?thesis using set_ q1 unset by blast
qed

theorem key_query_roundtrip_witness:
  "\<exists>st1 r1. chanmode_key (demo_keyed 0 []) None 1 (CHR ''k'') ChSet (Some ''new'') 0 = Some (st1, r1) \<and>
     chanmode_key_query st1 1 (CHR ''k'') 33 QNull = Some (CHANMODE_OK, 3, Some ''new'', QMark)"
proof -
  obtain ch where c: "ic_chan (demo_keyed 0 []) 1 = Some ch" "\<not> chanmode_isset (demo_keyed 0 []) ch (CHR ''k'')"
    using demo_keyed_chan(2) [of 0 "[]"] by auto
  have e: "cmode_exists (ic_cm (demo_keyed 0 [])) (CHR ''k'')" "cm_mask (cs_modes (ic_cm (demo_keyed 0 [])) (CHR ''k'')) \<noteq> 0"
    by (simp_all add: demo_keyed_def start_ircd_def cmode_exists_def)
  have "denied (demo_keyed 0 []) None 1 = Some False" by (simp add: denied_def)
  from key_query_roundtrip [OF demo_keyed_chan(1) e c(1) this, of "''new''" 33 0 "[]"] c(2)
  show ?thesis by (simp add: c_str_def PASSWDLEN_def) blast
qed

fun query_all :: "query_func \<Rightarrow> ircd \<Rightarrow> nat \<Rightarrow> char \<Rightarrow> int \<Rightarrow> nat \<Rightarrow> qstate \<Rightarrow> cstring list option" where
  "query_all q st chan m room 0 s = None"
| "query_all q st chan m room (Suc n) s =
     do { r \<leftarrow> q st chan m room s;
          (case r of (v, used, txt, s') \<Rightarrow>
             if v \<noteq> CHANMODE_OK then Some []
             else do { t \<leftarrow> txt; map_option ((#) t) (query_all q st chan m room n s') }) }"

lemma query_bans:
  assumes "ic_chan st chan = Some ch" "has_data st m" "\<forall>b \<in> set bs. int (length (ban_mask b)) \<le> room"
  shows "query_all chanmode_ban_query st chan m room (Suc (length bs)) (QBans bs) = Some (map ban_mask bs)"
  using assms(3)
proof (induction bs)
  case Nil
  then show ?case using assms(1,2) by (simp add: chanmode_ban_query_def data_chan_def chanmode_results)
next
  case (Cons b bs)
  then show ?case using assms(1,2)
    by (simp add: chanmode_ban_query_def data_chan_def no_room_def Let_def chanmode_results del: query_all.simps(2))
       (subst query_all.simps, simp add: chanmode_ban_query_def data_chan_def no_room_def Let_def chanmode_results)
qed

text \<open>Asked again and again with room enough, the query for a list of bans gives each ban once, in the
  order of the list, and then fails.\<close>

theorem ban_query_lists_all:
  assumes "ic_chan st chan = Some ch" "has_data st m" "\<forall>b \<in> set (ch_bans ch m). int (length (ban_mask b)) \<le> room"
  shows "query_all chanmode_ban_query st chan m room (Suc (length (ch_bans ch m))) QNull = Some (map ban_mask (ch_bans ch m))"
proof -
  have "chanmode_ban_query st chan m room QNull = chanmode_ban_query st chan m room (QBans (ch_bans ch m))"
    using assms(1,2) by (simp add: chanmode_ban_query_def data_chan_def)
  then have "query_all chanmode_ban_query st chan m room (Suc n) QNull = query_all chanmode_ban_query st chan m room (Suc n) (QBans (ch_bans ch m))" for n
    by simp
  then show ?thesis using query_bans [OF assms] by metis
qed

theorem ban_query_lists_all_witness:
  "\<exists>st chan. has_data st (CHR ''k'') \<and> query_all chanmode_ban_query st chan (CHR ''k'') 105 1 QNull = Some []"
proof -
  obtain ch where c: "ic_chan (demo_keyed 0 []) 1 = Some ch" using demo_keyed_chan(2) [of 0 "[]"] by blast
  then have "ch_bans ch = (\<lambda>_. [])" by (auto simp: demo_keyed_def Let_def)
  then show ?thesis using ban_query_lists_all [OF c demo_keyed_chan(1), of 105] demo_keyed_chan(1) by (intro exI) auto
qed

section \<open>No mode change gets stuck\<close>

lemma denied_some:
  assumes "ch_inv st" "ic_chan st chan = Some ch" "\<forall>a. cli = Some a \<longrightarrow> ic_cli st a \<noteq> None"
  shows "\<exists>b. denied st cli chan = Some b"
proof -
  have "\<exists>b. member_ismode st a md ls = Some b" if "set ls \<subseteq> set (ch_users ch)" for a md ls
    using that members_linked [OF assms(1,2)] by (induction ls) fastforce+
  then have "chanmode_isprefix st chan a p \<noteq> None" for a p
    using assms(2) by (cases "cs_pfxmap (ic_cm st) p") (simp_all add: chanmode_isprefix_def)
  note pfx = this
  show ?thesis
  proof (cases cli)
    case (Some a)
    obtain k op where "ic_cli st a = Some k" "chanmode_isprefix st chan a (CHR ''@'') = Some op"
      using assms(3) pfx [of a "CHR ''@''"] Some by auto
    then show ?thesis using Some by (simp add: denied_def)
  qed (auto simp: denied_def)
qed

lemma recount_some:
  assumes "\<forall>l \<in> set ls. \<exists>lk. ic_link st l = Some lk \<and> ic_cli st (cl_cli lk) \<noteq> None" "distinct ls"
  shows "\<exists>st'. recount pton bans st ls = Some st'"
  using assms
proof (induction ls arbitrary: st)
  case (Cons l ls)
  then obtain lk k where lk: "ic_link st l = Some lk" "ic_cli st (cl_cli lk) = Some k" by auto
  let ?st = "put_link st l (lk\<lparr>cl_bans := of_nat (check_client pton bans k)\<rparr>)"
  have "\<forall>l' \<in> set ls. \<exists>lk. ic_link ?st l' = Some lk \<and> ic_cli ?st (cl_cli lk) \<noteq> None"
    using Cons.prems by (auto simp: put_link_def)
  then show ?case using Cons.IH [of ?st] Cons.prems(2) lk by simp
qed simp

lemma put_bans_some:
  assumes "ch_inv st" "ic_chan st chan = Some ch"
  shows "\<exists>st'. put_bans pton st chan m ch bans = Some st'"
  unfolding put_bans_def
  by (rule recount_some) (use members_linked [OF assms] in \<open>fastforce simp: put_chan_def\<close>)+

lemma handlers_return:
  assumes inv: "ch_inv st" and ch: "ic_chan st chan = Some ch" and cli: "\<forall>a. cli = Some a \<longrightarrow> ic_cli st a \<noteq> None"
  shows "has_data st m \<Longrightarrow> chanmode_ban pton st cli chan m act arg used \<noteq> None"
    and "has_data st m \<Longrightarrow> chanmode_key st cli chan m act arg used \<noteq> None"
    and "has_data st m \<Longrightarrow> chanmode_limit st cli chan m act arg used \<noteq> None"
    and "chanmode_flag st cli chan m act arg used \<noteq> None"
    and "\<forall>s a. chase st s = Some a \<longrightarrow> ic_cli st a \<noteq> None \<Longrightarrow> chanmode_uflag chase st cli chan m act arg used \<noteq> None"
proof -
  obtain b where b: "denied st cli chan = Some b" using denied_some [OF inv ch cli] by blast
  have who: "\<exists>w. ban_who st cli = Some w" using cli by (cases cli) (auto simp: ban_who_def)
  show "chanmode_ban pton st cli chan m act arg used \<noteq> None" if d: "has_data st m"
  proof (cases "act = ChClear \<or> arg = None \<or> b")
    case True
    then show ?thesis using b d ch by (cases act; cases arg) (auto simp: chanmode_ban_def data_chan_def)
  next
    case False
    then obtain a where a: "arg = Some a" "act \<noteq> ChClear" "\<not> b" by auto
    obtain w where w: "ban_who st cli = Some w" using who by blast
    have put: "put_bans pton st chan m ch bs = None \<longleftrightarrow> False" for bs using put_bans_some [OF inv ch, of pton m bs] by auto
    show ?thesis
    proof (cases "split_ban (the arg)")
      case None
      then show ?thesis using a b by (cases act) (simp_all add: chanmode_ban_def)
    next
      case (Some msk)
      show ?thesis
      proof (cases "act = ChSet")
        case True
        then show ?thesis using a b d ch w Some
          by (cases "ban_scan (local_client st cli) msk 0 (ch_bans ch m)")
            (simp_all add: chanmode_ban_def data_chan_def Let_def bind_eq_None_conv put)
      next
        case False
        then have "act = ChUnset" using a(2) by (cases act) simp_all
        then show ?thesis using a b d ch Some
          by (cases "find (same_ban msk) (ch_bans ch m)")
            (simp_all add: chanmode_ban_def data_chan_def bind_eq_None_conv put)
      qed
    qed
  qed
  show "chanmode_key st cli chan m act arg used \<noteq> None" if "has_data st m"
    using b that ch by (cases act; cases arg) (auto simp: chanmode_key_def data_chan_def Let_def)
  show "chanmode_limit st cli chan m act arg used \<noteq> None" if "has_data st m"
    using b that ch by (cases act; cases arg) (auto simp: chanmode_limit_def data_chan_def Let_def)
  show "chanmode_flag st cli chan m act arg used \<noteq> None"
    using b ch by (cases act) (auto simp: chanmode_flag_def)
  show "chanmode_uflag chase st cli chan m act arg used \<noteq> None" if ck: "\<forall>s a. chase st s = Some a \<longrightarrow> ic_cli st a \<noteq> None"
  proof -
    show ?thesis
    proof (cases "b \<or> act = ChClear \<or> arg = None \<or> chase st (the arg) = None")
      case True
      then show ?thesis using b by (cases act; cases arg) (auto simp: chanmode_uflag_def)
    next
      case False
      then obtain s a where a: "arg = Some s" "chase st s = Some a" "\<not> b" "act \<noteq> ChClear" by auto
      then obtain k where k: "ic_cli st a = Some k" using ck by blast
      then have ks: "kshape st a = Some (cc_chans k)" by (simp add: kshape_def)
      obtain r where r: "find_chan_link st a chan = Some r" using find_chan_link_ok [OF inv ks, of chan] by blast
      show ?thesis
      proof (cases r)
        case None
        then show ?thesis using a b k r by (simp add: chanmode_uflag_def)
      next
        case (Some l)
        then have "ic_link st l \<noteq> None" using find_chan_link_ok [OF inv ks, of chan] r by (auto simp: lshape_def)
        then show ?thesis using a b k r Some by (auto simp: chanmode_uflag_def Let_def)
      qed
    qed
  qed
qed

text \<open>C4: a mode that the module has registered, with the data its handler works on, never gets stuck: on
  any channel that exists, for the server and for any client, set, unset or cleared, with or without
  an argument, the handler returns, no freed or null pointer is followed, and the state stays sound.\<close>

theorem core_modes_sound:
  assumes "run_inv st" "core_typed (ic_cm st) m" "ic_chan st chan \<noteq> None"
    and "\<forall>a. cli = Some a \<longrightarrow> ic_cli st a \<noteq> None" "\<forall>s a. chase st s = Some a \<longrightarrow> ic_cli st a \<noteq> None"
  shows "\<exists>r. call_change (core_funcs pton chase) m st cli chan m act arg used = Some r \<and> run_inv (fst r)"
proof -
  have inv: "ch_inv st" using assms(1) by (simp add: run_inv_def)
  obtain ch where ch: "ic_chan st chan = Some ch" using assms(3) by blast
  obtain name where n: "cm_changefunc (cs_modes (ic_cm st) m) = Some name" "\<not> cm_avail (cs_modes (ic_cm st) m)"
    "(name, cm_mdi (cs_modes (ic_cm st) m)) \<in>
           {(''chanmode_ban'', Some 8), (''chanmode_key'', Some (PASSWDLEN + 1)), (''chanmode_limit'', Some 4),
            (''chanmode_flag'', None), (''chanmode_uflag'', None)}"
    using assms(2) unfolding core_typed_def by - (elim exE conjE, rule that, assumption+)
  note ret = handlers_return(1-4) [OF inv ch assms(4)] handlers_return(5) [of st chan ch cli chase, OF inv ch assms(4,5)]
  have d: "cm_mdi (cs_modes (ic_cm st) m) \<noteq> None \<Longrightarrow> has_data st m" using n(2) by (simp add: has_data_def)
  have "\<exists>f. core_funcs pton chase name = Some f \<and> f st cli chan m act arg used \<noteq> None"
    using n(3) d ret
    by (elim insertE emptyE) (simp_all add: core_funcs_def)
  then obtain r where r: "call_change (core_funcs pton chase) m st cli chan m act arg used = Some r"
    using n(1) by (auto simp: call_change_def)
  moreover have "run_inv (fst r)" using chan_step_inv [OF chan_step.mode [OF r] assms(1)] .
  ultimately show ?thesis by blast
qed

theorem core_modes_sound_witness:
  "\<exists>st chan r. call_change (core_funcs (\<lambda>_ _. None) (\<lambda>_ _. None)) (CHR ''k'') st None chan (CHR ''k'') ChSet (Some ''key'') 0 = Some r"
proof -
  obtain st where st: "ircd_start ''irc'' 0 = Some st" "\<forall>m \<in> set ''bklmnosv''. core_typed (ic_cm st) m"
    using ircd_start_ok by blast
  obtain st' cli chan l ch where s: "run_inv st'" "ic_cm st' = ic_cm st" "ic_chan st' chan = Some ch"
    using first_member [OF st(1) demo_name, of demo_client "\<lambda>_ _. None" "\<lambda>_ _. None"] by (auto simp: demo_client_def)
  have "core_typed (ic_cm st') (CHR ''k'')" using bspec [OF st(2), of "CHR ''k''"] s(2) by simp
  then obtain r where "call_change (core_funcs (\<lambda>_ _. None) (\<lambda>_ _. None)) (CHR ''k'') st' None chan (CHR ''k'') ChSet (Some ''key'') 0 = Some r"
    using core_modes_sound [OF s(1), of "CHR ''k''" chan None "\<lambda>_ _. None" "\<lambda>_ _. None" ChSet "Some ''key''" 0] s(3) by auto
  then show ?thesis by blast
qed

end
