(* ===== verification/Message.thy ===== *)
theory Message
  imports Format CBuffer
begin

text \<open>
  Messages of the client protocol (\<^verbatim>\<open>protocols/shared/rfc1459_io.c\<close>, \<^verbatim>\<open>protocols/rfc1459.c\<close> and the
  reading half of \<^verbatim>\<open>ircd_connection_datahook\<close> in \<^verbatim>\<open>connection.c\<close>): the buffer of a connection
  and its division into lines, the division of a line into arguments, and the line that is sent.

  The socket is the list of what successive reads find waiting. The parser of a protocol is a
  function on a state of its own, so that the reading of lines is one development for every
  protocol that includes \<^verbatim>\<open>rfc1459_io.c\<close>. The counters \<^verbatim>\<open>stats\<close> are left out.
\<close>

section \<open>The buffer of a connection\<close>

abbreviation NL :: char where "NL \<equiv> CHR 0x0A"
abbreviation CR :: char where "CR \<equiv> CHR 0x0D"

definition RFC1459_PKT_LEN :: nat where "RFC1459_PKT_LEN = 512"
definition RFC1459_MAXARGS :: nat where "RFC1459_MAXARGS = 15"
definition COMMAND_MAXARGS :: nat where "COMMAND_MAXARGS = 32"
definition COMMAND_MAXARGLEN :: nat where "COMMAND_MAXARGLEN = 511"
definition IRCD_CONNECTION_CLOSED :: int where "IRCD_CONNECTION_CLOSED = - 1"
definition IRCD_PROTOCOL_CHANGED :: int where "IRCD_PROTOCOL_CHANGED = - 2"

text \<open>The bytes read so far (\<^verbatim>\<open>buflen\<close> is their number), \<^verbatim>\<open>bufsize\<close>, and the flag
  \<^verbatim>\<open>IRCD_CONNFL_DIRTYBUFFER\<close>.\<close>

record conn =
  cn_buf :: "char list"
  cn_size :: nat
  cn_dirty :: bool

type_synonym 's parser = "cstring \<Rightarrow> 's \<Rightarrow> (int \<times> 's) option"

text \<open>The end of the first line, with the buffer it is in and whether the line was cut. A buffer
  that is not full is searched as a C string.\<close>

definition line_end :: "conn \<Rightarrow> (nat \<times> char list \<times> bool) option" where
  "line_end c =
     (let b = cn_buf c; n = length b in
      if n = cn_size c then
        (let i = length (takeWhile (\<lambda>x. x \<noteq> NL) b) in
         if i = n then Some (n - 1, b[n - 1 := NL], True) else Some (i, b, False))
      else
        (let i = length (takeWhile (\<lambda>x. x \<noteq> NL \<and> x \<noteq> NUL) b) in
         if i < n \<and> b ! i = NL then Some (i, b, False) else None))"

definition end_line :: "char list \<Rightarrow> nat \<Rightarrow> char list" where
  "end_line b i = (if 0 < i \<and> b ! (i - 1) = CR then b[i - 1 := NUL] else b[i := NUL])"

lemma line_end_bounds:
  assumes "line_end c = Some (i, b, db)" "cn_buf c \<noteq> []"
  shows "i < length b \<and> length b = length (cn_buf c)"
proof -
  have "Suc 0 \<le> length (cn_buf c)" using assms(2) by (cases "cn_buf c") auto
  then show ?thesis using assms(1) length_takeWhile_le [of "\<lambda>x. x \<noteq> NL" "cn_buf c"]
    by (auto simp: line_end_def Let_def split: if_splits)
qed

datatype 's drained = Closed 's | Changed conn 's | Drained conn 's

function drain :: "'s parser \<Rightarrow> int \<Rightarrow> conn \<Rightarrow> 's \<Rightarrow> 's drained option" where
  "drain packet_parse ret c s =
     (if cn_buf c = [] then Some (Drained c s)
      else
        (case line_end c of
           None \<Rightarrow> Some (Drained c s)
         | Some (i, b, dirtybuffer) \<Rightarrow>
             (case (if cn_dirty c then Some (ret, s) else packet_parse (buf_str (end_line b i) 0) s) of
                None \<Rightarrow> None
              | Some (ret', s') \<Rightarrow>
                  if \<not> cn_dirty c \<and> ret' = IRCD_CONNECTION_CLOSED then Some (Closed s')
                  else
                    (let c' = c\<lparr>cn_buf := drop (i + 1) (end_line b i), cn_dirty := dirtybuffer\<rparr> in
                     if ret' = IRCD_PROTOCOL_CHANGED then Some (Changed c' s')
                     else drain packet_parse ret' c' s'))))"
  by pat_completeness auto
termination
  by (relation "measure (\<lambda>(p, ret, c, s). length (cn_buf c))")
    (auto simp: end_line_def dest!: line_end_bounds)

declare drain.simps [simp del]

text \<open>One round of the outer loop for each read; a read of nothing ends it.\<close>

function input_loop :: "'s parser \<Rightarrow> conn \<Rightarrow> 's \<Rightarrow> char list list \<Rightarrow> ('s drained \<times> char list list) option" where
  "input_loop packet_parse c s [] = Some (Drained c s, [])"
| "input_loop packet_parse c s (d # ds) =
     (let room = cn_size c - length (cn_buf c); got = take room d;
          ds' = (if length d \<le> room then ds else drop room d # ds) in
      if got = [] then Some (Drained c s, d # ds)
      else
        (case drain packet_parse (int (length got)) (c\<lparr>cn_buf := cn_buf c @ got\<rparr>) s of
           Some (Drained c' s') \<Rightarrow> input_loop packet_parse c' s' ds'
         | r \<Rightarrow> map_option (\<lambda>r. (r, ds')) r))"
  by pat_completeness auto
termination
  by (relation "measure (\<lambda>(p, c, s, ds). length (concat ds))") (auto simp: min_def)

definition input :: "'s parser \<Rightarrow> bool \<Rightarrow> conn \<Rightarrow> 's \<Rightarrow> char list list \<Rightarrow> ('s drained \<times> char list list) option" where
  "input packet_parse forced c s ds =
     (if forced \<and> cn_buf c \<noteq> [] \<or> length (cn_buf c) = cn_size c then
        (case drain packet_parse 0 c s of
           Some (Drained c' s') \<Rightarrow> input_loop packet_parse c' s' ds
         | r \<Rightarrow> map_option (\<lambda>r. (r, ds)) r)
      else input_loop packet_parse c s ds)"

section \<open>Lines, one character at a time\<close>

text \<open>
  The specification of the reader: the line so far, whether the rest of it is to be dropped, and
  the next character. A line that reaches the size of the buffer is delivered without what follows.
\<close>

definition chomp :: "cstring \<Rightarrow> cstring" where
  "chomp l = (if l \<noteq> [] \<and> last l = CR then butlast l else l)"

definition scan_step :: "nat \<Rightarrow> cstring \<times> bool \<Rightarrow> char \<Rightarrow> cstring option \<times> cstring \<times> bool" where
  "scan_step n pd x =
     (case pd of (p, d) \<Rightarrow>
       if x = NL then (if d then None else Some (chomp p), [], False)
       else if n \<le> length p + 1 then (if d then None else Some (chomp p), [], True)
       else (None, p @ [x], d))"

datatype 's fed = Gone 's | Switched "cstring \<times> bool" cstring 's | Waiting "cstring \<times> bool" 's

fun feed :: "'s parser \<Rightarrow> nat \<Rightarrow> cstring \<times> bool \<Rightarrow> 's \<Rightarrow> cstring \<Rightarrow> 's fed option" where
  "feed parse n pd s [] = Some (Waiting pd s)"
| "feed parse n pd s (x # xs) =
     (case scan_step n pd x of
        (None, pd') \<Rightarrow> feed parse n pd' s xs
      | (Some l, pd') \<Rightarrow>
          (case parse l s of
             None \<Rightarrow> None
           | Some (r, s') \<Rightarrow>
               if r = IRCD_CONNECTION_CLOSED then Some (Gone s')
               else if r = IRCD_PROTOCOL_CHANGED then Some (Switched pd' xs s')
               else feed parse n pd' s' xs))"

text \<open>What a call of \<^const>\<open>input\<close> leaves, in terms of the specification.\<close>

fun seen :: "'s drained \<times> char list list \<Rightarrow> nat \<Rightarrow> 's fed" where
  "seen (Closed s, ds) n = Gone s"
| "seen (Changed c s, ds) n = Switched ([], cn_dirty c) (cn_buf c @ concat ds) s"
| "seen (Drained c s, ds) n = Waiting (cn_buf c, cn_dirty c) s"

lemma feed_append:
  "feed parse n pd s (xs @ ys) =
     (case feed parse n pd s xs of
        Some (Waiting pd' s') \<Rightarrow> feed parse n pd' s' ys
      | Some (Switched pd' zs s') \<Rightarrow> Some (Switched pd' (zs @ ys) s')
      | r \<Rightarrow> r)"
  by (induction xs arbitrary: pd s) (auto split: prod.splits option.splits)

lemma feed_prefix:
  "NL \<notin> set l \<Longrightarrow> length p + length l < n \<Longrightarrow> feed parse n (p, d) s (l @ xs) = feed parse n (p @ l, d) s xs"
  by (induction l arbitrary: p) (auto simp: scan_step_def)

lemmas feed_short = feed_prefix [of _ "[]", simplified]

lemma chomp_snoc [simp]: "chomp (l @ [CR]) = l" "x \<noteq> CR \<Longrightarrow> chomp (l @ [x]) = l @ [x]" "chomp [] = []"
  by (simp_all add: chomp_def)

lemma buf_str_until: "c_str l \<Longrightarrow> buf_str (l @ NUL # xs) 0 = l"
  unfolding buf_str_def c_str_def by (subst drop_0, subst takeWhile_append2) auto

lemma end_line_str:
  assumes "c_str l"
  shows "buf_str (end_line (l @ NL # xs) (length l)) 0 = chomp l"
proof (cases l rule: rev_cases)
  case Nil
  then show ?thesis by (simp add: end_line_def buf_str_def)
next
  case (snoc l' x)
  have a: "(l' @ CR # NL # xs)[length l' := NUL] = l' @ NUL # NL # xs" by simp
  have b: "((l' @ [x]) @ NL # xs)[length (l' @ [x]) := NUL] = (l' @ [x]) @ NUL # xs"
    by (simp only: list_update_length)
  show ?thesis
  proof (cases "x = CR")
    case True
    then show ?thesis using snoc assms buf_str_until [of l' "NL # xs"] by (simp add: end_line_def nth_append)
  next
    case False
    then show ?thesis using snoc assms b buf_str_until [of "l' @ [x]" xs]
      by (simp add: end_line_def nth_append)
  qed
qed

lemma end_line_drop: "i < length b \<Longrightarrow> drop (i + 1) (end_line b i) = drop (i + 1) b"
  by (simp add: end_line_def)

section \<open>The reader does what the specification says\<close>

lemma feed_line:
  assumes "NL \<notin> set l" "length l < n"
  shows "feed parse n ([], d) s (l @ NL # xs) =
    (if d then feed parse n ([], False) s xs
     else case parse (chomp l) s of
       None \<Rightarrow> None
     | Some (r, s') \<Rightarrow>
         if r = IRCD_CONNECTION_CLOSED then Some (Gone s')
         else if r = IRCD_PROTOCOL_CHANGED then Some (Switched ([], False) xs s')
         else feed parse n ([], False) s' xs)"
  using assms by (simp add: feed_short scan_step_def)

lemma feed_cut:
  assumes "NL \<notin> set l" "Suc (length l) = n" "x \<noteq> NL"
  shows "feed parse n ([], d) s (l @ x # xs) =
    (if d then feed parse n ([], True) s xs
     else case parse (chomp l) s of
       None \<Rightarrow> None
     | Some (r, s') \<Rightarrow>
         if r = IRCD_CONNECTION_CLOSED then Some (Gone s')
         else if r = IRCD_PROTOCOL_CHANGED then Some (Switched ([], True) xs s')
         else feed parse n ([], True) s' xs)"
  using assms by (simp add: feed_short scan_step_def)

lemma split_at_NL: "x \<in> set b \<Longrightarrow> \<exists>l r. b = l @ x # r \<and> x \<notin> set l"
  by (drule split_list_first) blast

lemma takeWhile_line: "c_str l \<Longrightarrow> NL \<notin> set l \<Longrightarrow> takeWhile (\<lambda>x. x \<noteq> NL \<and> x \<noteq> NUL) (l @ NL # r) = l"
  by (subst takeWhile_append2) (auto simp: c_str_def)

lemma takeWhile_nl: "NL \<notin> set l \<Longrightarrow> takeWhile (\<lambda>x. x \<noteq> NL) (l @ NL # r) = l"
  by (subst takeWhile_append2) auto

text \<open>The three outcomes of the search, on a buffer without terminators.\<close>

lemma line_end_cases:
  assumes "c_str (cn_buf c)" "length (cn_buf c) \<le> cn_size c" "cn_buf c \<noteq> []"
  obtains (line) l r where "cn_buf c = l @ NL # r" "NL \<notin> set l" "length l < cn_size c"
      "line_end c = Some (length l, l @ NL # r, False)"
  | (full) l x where "cn_buf c = l @ [x]" "NL \<notin> set l" "x \<noteq> NL" "Suc (length l) = cn_size c"
      "line_end c = Some (length l, l @ [NL], True)"
  | (wait) "NL \<notin> set (cn_buf c)" "length (cn_buf c) < cn_size c" "line_end c = None"
proof (cases "NL \<in> set (cn_buf c)")
  case True
  then obtain l r where b: "cn_buf c = l @ NL # r" and l: "NL \<notin> set l" using split_at_NL by metis
  have "c_str l" using assms(1) b by simp
  then have "line_end c = Some (length l, l @ NL # r, False)"
    using b l by (simp add: line_end_def Let_def takeWhile_nl takeWhile_line)
  then show thesis using b l assms(2) by (intro line) auto
next
  case False
  have tw: "takeWhile (\<lambda>x. x \<noteq> NL) (cn_buf c) = cn_buf c" using False by (auto simp: takeWhile_eq_all_conv)
  have tw2: "takeWhile (\<lambda>x. x \<noteq> NL \<and> x \<noteq> NUL) (cn_buf c) = cn_buf c"
    using False assms(1) by (auto simp: takeWhile_eq_all_conv c_str_def)
  show thesis
  proof (cases "length (cn_buf c) = cn_size c")
    case True
    obtain l x where b: "cn_buf c = l @ [x]" using assms(3) by (cases "cn_buf c" rule: rev_cases) auto
    have "line_end c = Some (length l, l @ [NL], True)"
      using True [symmetric] tw b by (simp add: line_end_def Let_def)
    then show thesis using b False True by (intro full) auto
  next
    case short: False
    have "line_end c = None" using short tw2 by (simp add: line_end_def Let_def)
    then show thesis using False short assms(2) by (intro wait) auto
  qed
qed

text \<open>One round of the inner loop.\<close>

lemma drain_wait: "line_end c = None \<Longrightarrow> drain parse ret c s = Some (Drained c s)"
  by (simp add: drain.simps [of parse ret c s])

lemma drain_nil: "cn_buf c = [] \<Longrightarrow> drain parse ret c s = Some (Drained c s)"
  by (simp add: drain.simps [of parse ret c s])

lemma drain_line:
  assumes "cn_buf c = l @ NL # r" "c_str l" "line_end c = Some (length l, l @ NL # r, False)"
    "ret \<noteq> IRCD_PROTOCOL_CHANGED"
  shows "drain parse ret c s =
    (let c' = c\<lparr>cn_buf := r, cn_dirty := False\<rparr> in
     if cn_dirty c then drain parse ret c' s
     else case parse (chomp l) s of
       None \<Rightarrow> None
     | Some (r', s') \<Rightarrow>
         if r' = IRCD_CONNECTION_CLOSED then Some (Closed s')
         else if r' = IRCD_PROTOCOL_CHANGED then Some (Changed c' s')
         else drain parse r' c' s')"
proof -
  have b: "buf_str (end_line (l @ NL # r) (length l)) 0 = chomp l" by (rule end_line_str [OF assms(2)])
  have d: "drop (length l + 1) (end_line (l @ NL # r) (length l)) = r" by (subst end_line_drop) simp_all
  have ne: "cn_buf c \<noteq> []" using assms(1) by simp
  show ?thesis
    unfolding drain.simps [of parse ret c s] assms(3) option.case prod.case b d Let_def if_not_P [OF ne]
    using assms(4) by (auto split: option.splits prod.splits)
qed

lemma drain_cut:
  assumes "cn_buf c = l @ [x]" "c_str l" "line_end c = Some (length l, l @ [NL], True)"
    "ret \<noteq> IRCD_PROTOCOL_CHANGED"
  shows "drain parse ret c s =
    (let c' = c\<lparr>cn_buf := [], cn_dirty := True\<rparr> in
     if cn_dirty c then Some (Drained c' s)
     else case parse (chomp l) s of
       None \<Rightarrow> None
     | Some (r', s') \<Rightarrow>
         if r' = IRCD_CONNECTION_CLOSED then Some (Closed s')
         else if r' = IRCD_PROTOCOL_CHANGED then Some (Changed c' s')
         else Some (Drained c' s'))"
proof -
  have b: "buf_str (end_line (l @ [NL]) (length l)) 0 = chomp l" by (rule end_line_str [OF assms(2)])
  have d: "drop (length l + 1) (end_line (l @ [NL]) (length l)) = []" by (simp add: end_line_def)
  have ne: "cn_buf c \<noteq> []" using assms(1) by simp
  show ?thesis
    unfolding drain.simps [of parse ret c s] assms(3) option.case prod.case b d Let_def if_not_P [OF ne]
    using assms(4) by (auto simp: drain_nil split: option.splits prod.splits)
qed

text \<open>What the rounds leave: the state the specification is in, and a buffer with room in it.\<close>

fun tidy :: "nat \<Rightarrow> 's drained \<Rightarrow> bool" where
  "tidy n (Closed s) \<longleftrightarrow> True"
| "tidy n (Changed c s) \<longleftrightarrow> cn_size c = n \<and> c_str (cn_buf c) \<and> length (cn_buf c) < n"
| "tidy n (Drained c s) \<longleftrightarrow> cn_size c = n \<and> c_str (cn_buf c) \<and> length (cn_buf c) < n \<and> NL \<notin> set (cn_buf c)"

lemma drain_feed:
  assumes "c_str (cn_buf c)" "length (cn_buf c) \<le> cn_size c" "0 < cn_size c" "ret \<noteq> IRCD_PROTOCOL_CHANGED"
  shows "map_option (\<lambda>r. seen (r, []) (cn_size c)) (drain parse ret c s)
      = feed parse (cn_size c) ([], cn_dirty c) s (cn_buf c) \<and>
    pred_option (tidy (cn_size c)) (drain parse ret c s)"
  using assms
proof (induction "length (cn_buf c)" arbitrary: c ret s rule: less_induct)
  case less
  show ?case
  proof (cases "cn_buf c = []")
    case True
    then show ?thesis using less.prems by (simp add: drain_nil)
  next
    case ne: False
    from less.prems(1,2) ne show ?thesis
    proof (cases rule: line_end_cases)
      case wait
      then show ?thesis using less.prems(1) feed_short [of "cn_buf c" "cn_size c" parse "cn_dirty c" s "[]"]
        by (simp add: drain_wait)
    next
      case (line l r)
      have cs: "c_str l" "c_str r" using line(1) less.prems(1) by auto
      let ?c = "c\<lparr>cn_buf := r, cn_dirty := False\<rparr>"
      have len: "length r < cn_size c" using line(1) less.prems(2) by simp
      have IH: "map_option (\<lambda>r. seen (r, []) (cn_size c)) (drain parse k ?c t)
            = feed parse (cn_size c) ([], False) t r \<and> pred_option (tidy (cn_size c)) (drain parse k ?c t)"
        if "k \<noteq> IRCD_PROTOCOL_CHANGED" for k t
        using less.hyps [of ?c k t] that line(1) less.prems(3) cs(2) len by simp
      show ?thesis unfolding drain_line [OF line(1) cs(1) line(4) less.prems(4)] line(1)
          feed_line [OF line(2,3)] Let_def
        using IH [OF less.prems(4), of s] IH cs(2) len less.prems(4)
        by (simp split: option.split prod.split)
    next
      case (full l x)
      have cs: "c_str l" using full(1) less.prems(1) by auto
      show ?thesis unfolding drain_cut [OF full(1) cs full(5) less.prems(4)] full(1)
          feed_cut [OF full(2,4,3)] Let_def
        using less.prems(3) by (simp split: option.split prod.split)
    qed
  qed
qed

text \<open>The outer loop: what is left unread stays in front of what the specification has not seen.\<close>

lemma input_loop_feed:
  assumes "c_str (cn_buf c)" "c_str (concat ds)" "[] \<notin> set ds" "length (cn_buf c) < cn_size c"
    "NL \<notin> set (cn_buf c)"
  shows "map_option (\<lambda>r. seen r (cn_size c)) (input_loop parse c s ds)
      = feed parse (cn_size c) (cn_buf c, cn_dirty c) s (concat ds) \<and>
    pred_option (\<lambda>(r, ds'). tidy (cn_size c) r \<and> c_str (concat ds') \<and> [] \<notin> set ds' \<and>
      (case r of Drained _ _ \<Rightarrow> ds' = [] | _ \<Rightarrow> True)) (input_loop parse c s ds)"
  using assms
proof (induction parse c s ds rule: input_loop.induct)
  case (1 parse c s)
  then show ?case by simp
next
  case (2 parse c s d ds)
  let ?n = "cn_size c" let ?room = "cn_size c - length (cn_buf c)"
  let ?got = "take ?room d" let ?ds = "if length d \<le> ?room then ds else drop ?room d # ds"
  let ?c = "c\<lparr>cn_buf := cn_buf c @ ?got\<rparr>"
  have got: "?got \<noteq> []" using "2.prems"(3,4) by auto
  have all: "concat (d # ds) = ?got @ concat ?ds" by (simp add: append_assoc [symmetric] del: append_assoc)
  have cs: "c_str ?got" "c_str (concat ?ds)" "[] \<notin> set ?ds" using "2.prems"(2,3) unfolding all by auto
  have dr: "map_option (\<lambda>r. seen (r, []) ?n) (drain parse (int (length ?got)) ?c s)
      = feed parse ?n ([], cn_dirty c) s (cn_buf c @ ?got) \<and>
    pred_option (tidy ?n) (drain parse (int (length ?got)) ?c s)"
    using drain_feed [of ?c "int (length ?got)" parse s] "2.prems"(1,4) cs(1)
    by (simp add: IRCD_PROTOCOL_CHANGED_def)
  have start: "feed parse ?n (cn_buf c, cn_dirty c) s xs = feed parse ?n ([], cn_dirty c) s (cn_buf c @ xs)" for xs
    using feed_short [OF "2.prems"(5,4), of parse "cn_dirty c" s xs] by simp
  have loop: "input_loop parse c s (d # ds) =
      (case drain parse (int (length ?got)) ?c s of
         Some (Drained c' s') \<Rightarrow> input_loop parse c' s' ?ds
       | r \<Rightarrow> map_option (\<lambda>r. (r, ?ds)) r)"
    using got by (simp add: Let_def)
  have fed: "feed parse ?n (cn_buf c, cn_dirty c) s (concat (d # ds)) =
      (case feed parse ?n ([], cn_dirty c) s (cn_buf c @ ?got) of
        Some (Waiting pd' s') \<Rightarrow> feed parse ?n pd' s' (concat ?ds)
      | Some (Switched pd' zs s') \<Rightarrow> Some (Switched pd' (zs @ concat ?ds) s')
      | r \<Rightarrow> r)"
    unfolding all start using feed_append [of parse ?n "([], cn_dirty c)" s "cn_buf c @ ?got" "concat ?ds"] by simp
  show ?case
  proof (cases "drain parse (int (length ?got)) ?c s")
    case None
    then show ?thesis using dr unfolding loop fed by simp
  next
    case (Some r)
    show ?thesis
    proof (cases r)
      case (Drained c' s')
      have t: "cn_size c' = ?n" "c_str (cn_buf c')" "length (cn_buf c') < ?n" "NL \<notin> set (cn_buf c')"
        and f: "feed parse ?n ([], cn_dirty c) s (cn_buf c @ ?got) = Some (Waiting (cn_buf c', cn_dirty c') s')"
        using dr Some Drained by auto
      have "map_option (\<lambda>r. seen r (cn_size c')) (input_loop parse c' s' ?ds)
          = feed parse (cn_size c') (cn_buf c', cn_dirty c') s' (concat ?ds) \<and>
        pred_option (\<lambda>(r, ds'). tidy (cn_size c') r \<and> c_str (concat ds') \<and> [] \<notin> set ds' \<and>
          (case r of Drained _ _ \<Rightarrow> ds' = [] | _ \<Rightarrow> True)) (input_loop parse c' s' ?ds)"
        using "2.IH" [OF refl refl refl got Some Drained] t cs by simp
      then show ?thesis unfolding loop fed f Some Drained by (simp add: t(1))
    next
      case (Closed s')
      have f: "feed parse ?n ([], cn_dirty c) s (cn_buf c @ ?got) = Some (Gone s')" using dr Some Closed by simp
      show ?thesis unfolding loop fed f Some Closed using cs by simp
    next
      case (Changed c' s')
      have f: "feed parse ?n ([], cn_dirty c) s (cn_buf c @ ?got) = Some (Switched ([], cn_dirty c') (cn_buf c') s')"
        using dr Some Changed by simp
      have t: "tidy ?n (Changed c' s')" using dr Some Changed by simp
      show ?thesis unfolding loop fed f Some Changed using cs t by simp
    qed
  qed
qed

text \<open>A state between two calls of the reader.\<close>

definition conn_ok :: "conn \<Rightarrow> bool" where
  "conn_ok c \<longleftrightarrow> c_str (cn_buf c) \<and> length (cn_buf c) < cn_size c"

lemma input_feed:
  assumes "conn_ok c" "c_str (concat ds)" "[] \<notin> set ds" "forced \<or> NL \<notin> set (cn_buf c)"
  shows "map_option (\<lambda>r. seen r (cn_size c)) (input parse forced c s ds)
      = feed parse (cn_size c) ([], cn_dirty c) s (cn_buf c @ concat ds)"
    and "input parse forced c s ds = Some (r, ds') \<Longrightarrow>
      tidy (cn_size c) r \<and> c_str (concat ds') \<and> [] \<notin> set ds' \<and> (case r of Drained _ _ \<Rightarrow> ds' = [] | _ \<Rightarrow> True)"
proof -
  let ?n = "cn_size c"
  have ok: "c_str (cn_buf c)" "length (cn_buf c) < ?n" using assms(1) by (auto simp: conn_ok_def)
  have dr: "map_option (\<lambda>r. seen (r, []) ?n) (drain parse 0 c s) = feed parse ?n ([], cn_dirty c) s (cn_buf c) \<and>
      pred_option (tidy ?n) (drain parse 0 c s)"
    using drain_feed [of c 0 parse s] ok by (simp add: IRCD_PROTOCOL_CHANGED_def)
  have both: "map_option (\<lambda>r. seen r ?n) (input parse forced c s ds) = feed parse ?n ([], cn_dirty c) s (cn_buf c @ concat ds) \<and>
    pred_option (\<lambda>(r, ds'). tidy ?n r \<and> c_str (concat ds') \<and> [] \<notin> set ds' \<and>
      (case r of Drained _ _ \<Rightarrow> ds' = [] | _ \<Rightarrow> True)) (input parse forced c s ds)"
  proof (cases "forced \<and> cn_buf c \<noteq> []")
    case False
    then have nl: "NL \<notin> set (cn_buf c)" using assms(4) by auto
    have "input parse forced c s ds = input_loop parse c s ds" using False ok(2) by (auto simp: input_def)
    then show ?thesis using input_loop_feed [OF ok(1) assms(2,3) ok(2) nl, of parse s]
        feed_short [OF nl ok(2), of parse "cn_dirty c" s "concat ds"] by simp
  next
    case True
    have i: "input parse forced c s ds = (case drain parse 0 c s of
           Some (Drained c' s') \<Rightarrow> input_loop parse c' s' ds
         | r \<Rightarrow> map_option (\<lambda>r. (r, ds)) r)" using True by (simp add: input_def)
    note f = feed_append [of parse ?n "([], cn_dirty c)" s "cn_buf c" "concat ds"]
    show ?thesis
    proof (cases "drain parse 0 c s")
      case None
      then show ?thesis using dr unfolding i f by simp
    next
      case (Some r)
      show ?thesis
      proof (cases r)
        case (Drained c' s')
        have t: "cn_size c' = ?n" "c_str (cn_buf c')" "length (cn_buf c') < ?n" "NL \<notin> set (cn_buf c')"
          and e: "feed parse ?n ([], cn_dirty c) s (cn_buf c) = Some (Waiting (cn_buf c', cn_dirty c') s')"
          using dr Some Drained by auto
        show ?thesis using input_loop_feed [of c' ds parse s'] t assms(2,3) unfolding i f e Some Drained by simp
      next
        case (Closed s')
        have e: "feed parse ?n ([], cn_dirty c) s (cn_buf c) = Some (Gone s')" using dr Some Closed by simp
        show ?thesis unfolding i f e Some Closed using assms(2,3) by simp
      next
        case (Changed c' s')
        have e: "feed parse ?n ([], cn_dirty c) s (cn_buf c) = Some (Switched ([], cn_dirty c') (cn_buf c') s')"
          using dr Some Changed by simp
        have t: "tidy ?n (Changed c' s')" using dr Some Changed by simp
        show ?thesis unfolding i f e Some Changed using assms(2,3) t by simp
      qed
    qed
  qed
  show "map_option (\<lambda>r. seen r ?n) (input parse forced c s ds) = feed parse ?n ([], cn_dirty c) s (cn_buf c @ concat ds)"
    using both by simp
  show "tidy ?n r \<and> c_str (concat ds') \<and> [] \<notin> set ds' \<and> (case r of Drained _ _ \<Rightarrow> ds' = [] | _ \<Rightarrow> True)"
    if "input parse forced c s ds = Some (r, ds')" using both that by simp
qed

section \<open>Reading across a change of protocol\<close>

lemma drain_shorter:
  "drain parse ret c s = Some (Changed c' s') \<Longrightarrow> length (cn_buf c') < length (cn_buf c)"
proof (induction "length (cn_buf c)" arbitrary: c ret s rule: less_induct)
  case less
  have ne: "cn_buf c \<noteq> []" using less.prems by (auto simp: drain_nil)
  obtain i b db where l: "line_end c = Some (i, b, db)" using less.prems by (cases "line_end c") (auto simp: drain_wait)
  let ?c = "c\<lparr>cn_buf := drop (i + 1) (end_line b i), cn_dirty := db\<rparr>"
  have sh: "length (cn_buf ?c) < length (cn_buf c)"
    using line_end_bounds [OF l ne] by (simp add: end_line_def) linarith
  show ?case using less.prems less.hyps [OF sh] sh ne l
    by (fastforce simp: drain.simps [of parse ret c s] Let_def split: option.splits if_splits prod.splits)
qed

lemma drain_not_longer:
  "drain parse ret c s = Some (Drained c' s') \<Longrightarrow> length (cn_buf c') \<le> length (cn_buf c)"
proof (induction "length (cn_buf c)" arbitrary: c ret s rule: less_induct)
  case less
  show ?case
  proof (cases "cn_buf c = [] \<or> line_end c = None")
    case True
    then show ?thesis using less.prems by (auto simp: drain_nil drain_wait)
  next
    case False
    then obtain i b db where ne: "cn_buf c \<noteq> []" and l: "line_end c = Some (i, b, db)" by auto
    let ?c = "c\<lparr>cn_buf := drop (i + 1) (end_line b i), cn_dirty := db\<rparr>"
    have sh: "length (cn_buf ?c) < length (cn_buf c)"
      using line_end_bounds [OF l ne] by (simp add: end_line_def) linarith
    show ?thesis using less.prems less.hyps [OF sh] sh ne l
      by (fastforce simp: drain.simps [of parse ret c s] Let_def split: option.splits if_splits prod.splits)
  qed
qed

lemma input_loop_shorter:
  "input_loop parse c s ds = Some (Changed c' s', ds') \<Longrightarrow>
     length (cn_buf c') + length (concat ds') < length (cn_buf c) + length (concat ds)"
proof (induction parse c s ds rule: input_loop.induct)
  case (2 parse c s d ds)
  let ?room = "cn_size c - length (cn_buf c)"
  let ?got = "take ?room d" let ?ds = "if length d \<le> ?room then ds else drop ?room d # ds"
  let ?c = "c\<lparr>cn_buf := cn_buf c @ ?got\<rparr>"
  have sum: "length ?got + length (concat ?ds) = length (concat (d # ds))" by simp
  have got: "?got \<noteq> []" using "2.prems" by (auto simp: Let_def)
  have r: "(case drain parse (int (length ?got)) ?c s of
         Some (Drained c' s') \<Rightarrow> input_loop parse c' s' ?ds
       | r \<Rightarrow> map_option (\<lambda>r. (r, ?ds)) r) = Some (Changed c' s', ds')"
    using "2.prems" got by (simp add: Let_def)
  show ?case
  proof (cases "drain parse (int (length ?got)) ?c s")
    case (Some x)
    show ?thesis
    proof (cases x)
      case (Changed c1 s1)
      then show ?thesis using r Some sum drain_shorter [of parse "int (length ?got)" ?c s c' s'] by auto
    next
      case (Drained c1 s1)
      then show ?thesis
        using "2.IH" [OF refl refl refl got Some Drained] r Some sum
          drain_not_longer [of parse "int (length ?got)" ?c s c1 s1] by auto
    qed (use r Some in simp)
  qed (use r in simp)
qed simp

lemma input_shorter:
  assumes "input parse forced c s ds = Some (Changed c' s', ds')"
  shows "length (cn_buf c') + length (concat ds') < length (cn_buf c) + length (concat ds)"
  using assms drain_shorter [of parse 0 c s] drain_not_longer [of parse 0 c s]
    input_loop_shorter [of parse _ _ ds c' s' ds']
  by (fastforce simp: input_def split: if_splits option.splits drained.splits)

text \<open>
  \<^verbatim>\<open>ircd_connection_datahook\<close>, the reading: the protocol is part of the parser's state, and
  \<open>psize\<close> is the size of the buffer it asks for.
\<close>

function proto_loop :: "'s parser \<Rightarrow> ('s \<Rightarrow> nat) \<Rightarrow> 's drained \<times> char list list \<Rightarrow> ('s drained \<times> char list list) option" where
  "proto_loop parse psize (Changed c s, ds) =
     (let c' = (if cn_size c < psize s then c\<lparr>cn_size := psize s\<rparr> else c) in
      if cn_buf c' \<noteq> [] then
        (case input parse True c' s ds of
           None \<Rightarrow> None
         | Some r \<Rightarrow> proto_loop parse psize r)
      else Some (Drained c' s, ds))"
| "proto_loop parse psize (Closed s, ds) = Some (Closed s, ds)"
| "proto_loop parse psize (Drained c s, ds) = Some (Drained c s, ds)"
  by pat_completeness auto
termination
proof (relation "measure (\<lambda>(p, q, r, ds). case r of Changed c s \<Rightarrow> Suc (length (cn_buf c) + length (concat ds)) | _ \<Rightarrow> 0)",
    goal_cases)
  case (2 parse psize c s ds c' r)
  then show ?case
    using input_shorter [of parse True c' s ds] by (cases r) (auto split: drained.splits if_splits)
qed simp

definition read_hook :: "'s parser \<Rightarrow> ('s \<Rightarrow> nat) \<Rightarrow> conn \<Rightarrow> 's \<Rightarrow> char list list \<Rightarrow> ('s drained \<times> char list list) option" where
  "read_hook parse psize c s ds =
     (case input parse False c s ds of None \<Rightarrow> None | Some r \<Rightarrow> proto_loop parse psize r)"

lemma feed_rest_shorter: "feed parse n pd s xs = Some (Switched pd' ys s') \<Longrightarrow> length ys < length xs"
proof (induction xs arbitrary: pd s)
  case (Cons x xs)
  then show ?case by (fastforce split: prod.splits option.splits if_splits)
qed simp

text \<open>The specification over a whole conversation: the line buffer grows when the protocol asks for it,
  and the next protocol goes on with the very next character.\<close>

function feed_all :: "'s parser \<Rightarrow> ('s \<Rightarrow> nat) \<Rightarrow> nat \<Rightarrow> cstring \<times> bool \<Rightarrow> 's \<Rightarrow> cstring \<Rightarrow> (nat \<times> 's fed) option" where
  "feed_all parse psize n pd s xs =
     (case feed parse n pd s xs of
        None \<Rightarrow> None
      | Some (Switched pd' ys s') \<Rightarrow> feed_all parse psize (max n (psize s')) pd' s' ys
      | Some r \<Rightarrow> Some (n, r))"
  by pat_completeness auto
termination
  by (relation "measure (\<lambda>(p, q, n, pd, s, xs). length xs)") (auto dest: feed_rest_shorter)

declare feed_all.simps [simp del]

lemma feed_all_gone: "feed parse n pd s xs = Some (Gone s') \<Longrightarrow> feed_all parse psize n pd s xs = Some (n, Gone s')"
  by (simp add: feed_all.simps [of parse psize n pd s xs])

lemma feed_all_none: "feed parse n pd s xs = None \<Longrightarrow> feed_all parse psize n pd s xs = None"
  by (simp add: feed_all.simps [of parse psize n pd s xs])

lemma feed_all_switched:
  "feed parse n pd s xs = Some (Switched pd' ys s') \<Longrightarrow>
     feed_all parse psize n pd s xs = feed_all parse psize (max n (psize s')) pd' s' ys"
  by (simp add: feed_all.simps [of parse psize n pd s xs])

lemma feed_all_waiting: "feed parse n pd s xs = Some (Waiting pd' s') \<Longrightarrow>
    feed_all parse psize n pd s xs = feed_all parse psize n pd' s' []"
  by (simp add: feed_all.simps [of parse psize n pd s xs] feed_all.simps [of parse psize n pd' s' "[]"])

text \<open>What is left to do after the hook is what the specification still has to do.\<close>

fun left_over :: "'s parser \<Rightarrow> ('s \<Rightarrow> nat) \<Rightarrow> nat \<Rightarrow> 's drained \<times> char list list \<Rightarrow> (nat \<times> 's fed) option" where
  "left_over parse psize n (Closed s, ds) = map_option (\<lambda>_. (n, Gone s)) (Some ())"
| "left_over parse psize n (Changed c s, ds) = feed_all parse psize (cn_size c) ([], cn_dirty c) s (cn_buf c @ concat ds)"
| "left_over parse psize n (Drained c s, ds) = feed_all parse psize (cn_size c) ([], cn_dirty c) s (cn_buf c @ concat ds)"

lemma left_over_seen:
  assumes "tidy n r" "case r of Drained _ _ \<Rightarrow> ds = [] | _ \<Rightarrow> True" "feed parse n pd s xs = Some (seen (r, ds) n)"
  shows "map_option snd (feed_all parse psize n pd s xs) =
    map_option snd (case r of Changed c s' \<Rightarrow> feed_all parse psize (max n (psize s')) ([], cn_dirty c) s' (cn_buf c @ concat ds)
      | _ \<Rightarrow> left_over parse psize n (r, ds))"
proof (cases r)
  case (Drained c s')
  have "feed parse n ([], cn_dirty c) s' (cn_buf c) = Some (Waiting (cn_buf c, cn_dirty c) s')"
    using Drained assms(1) feed_short [of "cn_buf c" n parse "cn_dirty c" s' "[]"] by simp
  from feed_all_waiting [OF this, of psize]
  have "feed_all parse psize n ([], cn_dirty c) s' (cn_buf c) = feed_all parse psize n (cn_buf c, cn_dirty c) s' []" .
  moreover have "feed_all parse psize n pd s xs = feed_all parse psize n (cn_buf c, cn_dirty c) s' []"
    by (rule feed_all_waiting) (use Drained assms in simp)
  ultimately show ?thesis using Drained assms(1,2) by simp
qed (use assms in \<open>auto simp: feed_all_gone feed_all_switched\<close>)

lemma proto_loop_feed:
  assumes "tidy n r" "n = (case r of Changed c s \<Rightarrow> cn_size c | Drained c s \<Rightarrow> cn_size c | _ \<Rightarrow> n)"
    "c_str (concat ds)" "[] \<notin> set ds" "case r of Drained _ _ \<Rightarrow> ds = [] | _ \<Rightarrow> True"
    "proto_loop parse psize (r, ds) = Some (r', ds')"
  shows "map_option snd (case r of Changed c s' \<Rightarrow> feed_all parse psize (max n (psize s')) ([], cn_dirty c) s' (cn_buf c @ concat ds)
      | _ \<Rightarrow> left_over parse psize n (r, ds)) = map_option snd (left_over parse psize n (r', ds'))"
  using assms
proof (induction parse psize "(r, ds)" arbitrary: n r ds rule: proto_loop.induct)
  case (1 parse psize c s ds)
  let ?c = "if cn_size c < psize s then c\<lparr>cn_size := psize s\<rparr> else c"
  have n: "n = cn_size c" using "1.prems"(2) by simp
  have c: "cn_size ?c = max n (psize s)" "cn_buf ?c = cn_buf c" "cn_dirty ?c = cn_dirty c" using n by auto
  show ?case
  proof (cases "cn_buf c = []")
    case True
    then have "r' = Drained ?c s \<and> ds' = ds" using "1.prems"(6) c(2) by (simp add: Let_def del: if_not_P split del: if_split)
    then show ?thesis using True c by simp
  next
    case False
    then obtain r1 ds1 where i: "input parse True ?c s ds = Some (r1, ds1)"
      and h: "proto_loop parse psize (r1, ds1) = Some (r', ds')"
      using "1.prems"(6) c(2) by (auto simp: Let_def split: option.splits)
    have ok: "conn_ok ?c" using "1.prems"(1) n by (auto simp: conn_ok_def)
    note f = input_feed(1) [OF ok "1.prems"(3,4), of True parse s] input_feed(2) [OF ok "1.prems"(3,4) _ i]
    have t: "tidy (cn_size ?c) r1" "c_str (concat ds1)" "[] \<notin> set ds1" "case r1 of Drained _ _ \<Rightarrow> ds1 = [] | _ \<Rightarrow> True"
      using f(2) by auto
    have e: "feed parse (cn_size ?c) ([], cn_dirty c) s (cn_buf c @ concat ds) = Some (seen (r1, ds1) (cn_size ?c))"
      using f(1) i c by simp
    have sz: "cn_size ?c = (case r1 of Changed c s \<Rightarrow> cn_size c | Drained c s \<Rightarrow> cn_size c | _ \<Rightarrow> cn_size ?c)"
      using t(1) by (cases r1) auto
    have "map_option snd (left_over parse psize (cn_size ?c) (r', ds')) = map_option snd (left_over parse psize n (r', ds'))"
      by (cases r') auto
    then show ?thesis
      using "1.hyps" [OF refl _ i t(1) sz t(2-4) h] False left_over_seen [OF t(1,4) e, of psize] c by simp
  qed
qed auto


definition demo_parse :: "cstring list parser" where
  "demo_parse l log = Some (if l = ''P'' then IRCD_PROTOCOL_CHANGED else 0, log @ [l])"


section \<open>Lines of a stream\<close>

text \<open>The packet a line becomes.\<close>

definition packet_of :: "nat \<Rightarrow> cstring \<Rightarrow> cstring" where
  "packet_of n l = chomp (take (n - 1) l)"

text \<open>A parser that keeps what it is given.\<close>

fun fold_parse :: "'s parser \<Rightarrow> 's \<Rightarrow> cstring list \<Rightarrow> 's option" where
  "fold_parse parse s [] = Some s"
| "fold_parse parse s (l # ls) = (case parse l s of None \<Rightarrow> None | Some (r, s') \<Rightarrow> fold_parse parse s' ls)"

definition keeps_open :: "'s parser \<Rightarrow> bool" where
  "keeps_open parse \<longleftrightarrow>
     (\<forall>l s r s'. parse l s = Some (r, s') \<longrightarrow> r \<noteq> IRCD_CONNECTION_CLOSED \<and> r \<noteq> IRCD_PROTOCOL_CHANGED)"

lemma keeps_openD:
  "keeps_open parse \<Longrightarrow> parse l s = Some (r, s') \<Longrightarrow> r \<noteq> IRCD_CONNECTION_CLOSED \<and> r \<noteq> IRCD_PROTOCOL_CHANGED"
  unfolding keeps_open_def by blast

lemma feed_dirty: "NL \<notin> set l \<Longrightarrow> 0 < n \<Longrightarrow> \<exists>p. feed parse n (p0, True) s (l @ xs) = feed parse n (p, True) s xs"
proof (induction l arbitrary: p0)
  case (Cons x l)
  then show ?case by (cases "n \<le> length p0 + 1") (auto simp: scan_step_def)
qed auto

text \<open>A line of any length is one packet, and the reader is ready for the next one.\<close>

lemma feed_any_line:
  assumes "NL \<notin> set l" "0 < n" "keeps_open parse"
  shows "feed parse n ([], False) s (l @ NL # xs) =
    (case parse (packet_of n l) s of None \<Rightarrow> None | Some (r, s') \<Rightarrow> feed parse n ([], False) s' xs)"
proof (cases "length l < n")
  case True
  then have "packet_of n l = chomp l" by (simp add: packet_of_def)
  then show ?thesis using feed_line [OF assms(1) True, of parse False s xs] keeps_openD [OF assms(3), of "chomp l" s]
    by (cases "parse (chomp l) s") auto
next
  case False
  define a where "a = take (n - 1) l" define b where "b = drop (n - 1) l"
  have l: "l = a @ b" by (simp add: a_def b_def)
  obtain x m where b: "b = x # m" using False assms(2) by (cases b) (auto simp: b_def)
  have "set l = set a \<union> insert x (set m)" by (subst l) (simp add: b)
  then have nl: "NL \<notin> set a" "x \<noteq> NL" "NL \<notin> set m" using assms(1) by auto
  have len: "Suc (length a) = n" using assms(2) False by (simp add: a_def)
  have e: "feed parse n ([], True) s' (m @ NL # xs) = feed parse n ([], False) s' xs" for s'
    using feed_dirty [OF nl(3) assms(2), of parse "[]" s' "NL # xs"] by (auto simp: scan_step_def)
  have p: "packet_of n l = chomp a" by (simp add: packet_of_def a_def)
  have split: "l @ NL # xs = a @ x # m @ NL # xs" using l b by simp
  show ?thesis unfolding split p feed_cut [OF nl(1) len nl(2)] e
    using keeps_openD [OF assms(3), of "chomp a" s] by (cases "parse (chomp a) s") auto
qed

definition stream_of :: "cstring list \<Rightarrow> cstring" where
  "stream_of ls = concat (map (\<lambda>l. l @ [NL]) ls)"

lemma stream_of_simps [simp]: "stream_of [] = []" "stream_of (l # ls) = l @ NL # stream_of ls"
  by (simp_all add: stream_of_def)

lemma feed_stream:
  assumes "\<forall>l\<in>set ls. NL \<notin> set l" "NL \<notin> set part" "length part < n" "keeps_open parse"
  shows "feed parse n ([], False) s (stream_of ls @ part) =
    map_option (Waiting (part, False)) (fold_parse parse s (map (packet_of n) ls))"
  using assms
proof (induction ls arbitrary: s)
  case Nil
  then show ?case using feed_short [of part n parse False s "[]"] by simp
next
  case (Cons l ls)
  then show ?case using feed_any_line [of l n parse s "stream_of ls @ part"]
    by (auto split: option.splits)
qed

text \<open>A connection whose buffer is empty delivers one packet for each line of the stream, in order and
  whatever the sizes of the reads, cut to the buffer and without the end of the line; the unfinished
  line stays in the buffer.\<close>

lemma input_lines:
  assumes "cn_buf c = []" "\<not> cn_dirty c" "length part < cn_size c" "keeps_open parse"
    "\<forall>l\<in>set ls. NL \<notin> set l" "NL \<notin> set part" "c_str (concat ds)" "[] \<notin> set ds"
    "concat ds = stream_of ls @ part"
  shows "input parse forced c s ds =
    map_option (\<lambda>s'. (Drained (c\<lparr>cn_buf := part\<rparr>) s', [])) (fold_parse parse s (map (packet_of (cn_size c)) ls))"
proof -
  have ok: "conn_ok c" using assms(1,3) by (simp add: conn_ok_def)
  have e: "map_option (\<lambda>r. seen r (cn_size c)) (input parse forced c s ds) =
      map_option (Waiting (part, False)) (fold_parse parse s (map (packet_of (cn_size c)) ls))"
    using input_feed(1) [OF ok assms(7,8), of forced parse s] feed_stream [OF assms(5,6,3,4)] assms(1,2,9) by simp
  show ?thesis
  proof (cases "input parse forced c s ds")
    case None
    then show ?thesis using e by simp
  next
    case (Some rd)
    obtain r ds' where rd: "rd = (r, ds')" by (cases rd)
    have t: "tidy (cn_size c) r \<and> (case r of Drained _ _ \<Rightarrow> ds' = [] | _ \<Rightarrow> True)"
      using input_feed(2) [OF ok assms(7,8), of forced parse s r ds'] Some rd assms(1) by simp
    show ?thesis
    proof (cases r)
      case (Drained c' s')
      then have "cn_buf c' = part" "\<not> cn_dirty c'" "cn_size c' = cn_size c" "ds' = []"
        "fold_parse parse s (map (packet_of (cn_size c)) ls) = Some s'"
        using e t Some rd by (cases "fold_parse parse s (map (packet_of (cn_size c)) ls)"; simp)+
      moreover from this have "c' = c\<lparr>cn_buf := part\<rparr>" using assms(2) by (cases c; cases c') simp
      ultimately show ?thesis using Some rd Drained by simp
    qed (use e Some rd in \<open>cases "fold_parse parse s (map (packet_of (cn_size c)) ls)"; simp\<close>)+
  qed
qed

section \<open>Arguments\<close>

text \<open>
  \<^verbatim>\<open>ircd.argv\<close> is an array of buffers that live as long as the server; an argument is copied into
  its buffer with \<^verbatim>\<open>strncpy\<close>, which ends it with a terminator only when it is shorter than the limit.
\<close>

lemmas put_bytes_Suc = put_bytes_snoc [simplified]

lemma strncpy_pad_eq:
  "i + k \<le> length b \<Longrightarrow> strncpy_pad b i (int k + 1) = Some (put_bytes b i (replicate k NUL))"
proof (induction k arbitrary: b i)
  case 0
  then show ?case by (simp add: strncpy_pad.simps)
next
  case (Suc k)
  have "strncpy_pad b i (int (Suc k) + 1) = strncpy_pad (b[i := NUL]) (Suc i) (int k + 1)"
    using Suc.prems by (simp add: strncpy_pad.simps [of b i] add.commute)
  also have "\<dots> = Some (put_bytes (b[i := NUL]) (i + 1) (replicate k NUL))" using Suc by simp
  also have "\<dots> = Some (put_bytes b i (replicate (Suc k) NUL))" using Suc.prems by (simp add: put_bytes_Suc)
  finally show ?case .
qed

lemma strncpy_loop_eq:
  "c_str t \<Longrightarrow> i + n \<le> length b \<Longrightarrow> 0 < n \<Longrightarrow>
     strncpy_loop b i t (int n) = Some (put_bytes b i (take n (t @ replicate n NUL)))"
proof (induction t arbitrary: b i n)
  case Nil
  then obtain k where n: "n = Suc k" by (cases n) auto
  have "strncpy_loop b i [] (int n) = strncpy_pad (b[i := NUL]) (Suc i) (int k + 1)"
    using Nil n by (simp add: strncpy_loop.simps [of b i] add.commute)
  also have "\<dots> = Some (put_bytes (b[i := NUL]) (i + 1) (replicate k NUL))"
    using strncpy_pad_eq [of "Suc i" k "b[i := NUL]"] Nil n by simp
  finally show ?case using Nil n by (simp add: put_bytes_Suc)
next
  case (Cons x t)
  then obtain k where n: "n = Suc k" by (cases n) auto
  show ?case
  proof (cases "k = 0")
    case True
    then show ?thesis using Cons.prems n put_bytes_Suc [of i b x "[]"]
      by (simp add: strncpy_loop.simps [of b i])
  next
    case False
    have "strncpy_loop b i (x # t) (int n) = strncpy_loop (b[i := x]) (Suc i) t (int k)"
      using Cons.prems n False by (simp add: strncpy_loop.simps [of b i])
    also have "\<dots> = Some (put_bytes (b[i := x]) (i + 1) (take k (t @ replicate k NUL)))"
      using Cons.IH [of "Suc i" k "b[i := x]"] Cons.prems n False by simp
    also have "take k (t @ replicate k NUL) = take k (t @ replicate n NUL)"
      using n by (simp add: take_replicate del: replicate.simps)
    finally show ?thesis using Cons.prems n by (simp add: put_bytes_Suc)
  qed
qed

definition put_arg :: "char list list \<Rightarrow> nat \<Rightarrow> cstring \<Rightarrow> char list list option" where
  "put_arg argv i t =
     (if i < length argv then map_option (\<lambda>b. argv[i := b]) (ith_strncpy (argv ! i) t (int COMMAND_MAXARGLEN))
      else None)"

text \<open>The string in an argument's buffer; without a terminator in it the reader of the string leaves the buffer.\<close>

definition get_arg :: "char list \<Rightarrow> cstring option" where
  "get_arg b = (if NUL \<in> set b then Some (buf_str b 0) else None)"

definition argv_ok :: "char list list \<Rightarrow> bool" where
  "argv_ok argv \<longleftrightarrow> length argv = COMMAND_MAXARGS \<and> (\<forall>b\<in>set argv. length b = COMMAND_MAXARGLEN + 1)"

function parse_args :: "char list list \<Rightarrow> nat \<Rightarrow> cstring \<Rightarrow> (char list list \<times> nat) option" where
  "parse_args argv i s =
     (if i < RFC1459_MAXARGS - 1 then
        (if chd s = CHR '':'' then map_option (\<lambda>a. (a, i)) (put_arg argv i (tl s))
         else
           (let s2 = takeWhile (\<lambda>c. \<not> isspace c) s; s' = dropWhile isspace (drop (length s2) s) in
            case put_arg argv i s2 of
              None \<Rightarrow> None
            | Some argv' \<Rightarrow> if s' = [] then Some (argv', i) else parse_args argv' (i + 1) s'))
      else if s \<noteq> [] then map_option (\<lambda>a. (a, i)) (put_arg argv i s)
      else Some (argv, i))"
  by pat_completeness auto
termination
  by (relation "measure (\<lambda>(argv, i, s). RFC1459_MAXARGS - i)") auto

declare parse_args.simps [simp del]

text \<open>Leading white space and the prefix.\<close>

definition message_start :: "cstring \<Rightarrow> cstring" where
  "message_start s =
     (let s = dropWhile isspace s in
      if chd s = CHR '':'' then dropWhile isspace (dropWhile (\<lambda>c. \<not> isspace c) s) else s)"

type_synonym 's exec = "nat \<Rightarrow> char list list \<Rightarrow> 's \<Rightarrow> (int \<times> char list list \<times> 's) option"

definition packet_parse :: "'s exec \<Rightarrow> (char list list \<times> 's) parser" where
  "packet_parse command_exec_client buf as =
     (case as of (argv, st) \<Rightarrow>
       let s = message_start buf in
       if s = [] then Some (1, argv, st)
       else
         (case parse_args argv 0 s of
            None \<Rightarrow> None
          | Some (argv', i) \<Rightarrow> command_exec_client (i + 1) argv' st))"

text \<open>The words of a message, and the message a list of words is written as.\<close>

fun split_args :: "nat \<Rightarrow> cstring \<Rightarrow> cstring list" where
  "split_args 0 s = [s]"
| "split_args (Suc n) s =
     (if chd s = CHR '':'' then [tl s]
      else
        (let w = takeWhile (\<lambda>c. \<not> isspace c) s; r = dropWhile isspace (drop (length w) s) in
         if r = [] then [w] else w # split_args n r))"

definition words_line :: "cstring list \<Rightarrow> cstring \<Rightarrow> cstring" where
  "words_line ws t = concat (map (\<lambda>w. w @ '' '') ws) @ CHR '':'' # t"

definition word_ok :: "cstring \<Rightarrow> bool" where
  "word_ok w \<longleftrightarrow> w \<noteq> [] \<and> hd w \<noteq> CHR '':'' \<and> (\<forall>c\<in>set w. \<not> isspace c \<and> c \<noteq> NUL)"

lemma words_line_simps [simp]:
  "words_line [] t = CHR '':'' # t" "words_line (w # ws) t = w @ CHR '' '' # words_line ws t"
  by (simp_all add: words_line_def)

lemma isspace_simps [simp]: "isspace (CHR '' '')" "isspace CR" "isspace NL" "\<not> isspace (CHR '':'')"
  by (simp_all add: isspace_def uchar_def)

lemma words_line_start: "\<forall>w\<in>set ws. word_ok w \<Longrightarrow> dropWhile isspace (words_line ws t) = words_line ws t"
  by (cases ws) (auto simp: word_ok_def dropWhile_append3 dropWhile_eq_self_iff hd_append)

lemma word_split:
  assumes "word_ok w"
  shows "takeWhile (\<lambda>c. \<not> isspace c) (w @ CHR '' '' # r) = w" "chd (w @ r) \<noteq> CHR '':''"
proof -
  show "takeWhile (\<lambda>c. \<not> isspace c) (w @ CHR '' '' # r) = w"
    using assms by (subst takeWhile_append2) (auto simp: word_ok_def)
  show "chd (w @ r) \<noteq> CHR '':''" using assms by (cases w) (auto simp: word_ok_def)
qed

lemma split_words_line:
  assumes "\<forall>w\<in>set ws. word_ok w" "length ws \<le> n" "0 < n - length ws"
  shows "split_args n (words_line ws t) = ws @ [t]"
  using assms
proof (induction ws arbitrary: n)
  case Nil
  then show ?case by (cases n) auto
next
  case (Cons w ws)
  obtain k where n: "n = Suc k" using Cons.prems(3) by (cases n) auto
  have ne: "\<exists>x\<in>set (words_line ws t). \<not> isspace x"
    by (rule bexI [of _ "CHR '':''"]) (simp_all add: words_line_def)
  have "split_args k (words_line ws t) = ws @ [t]" using Cons n by simp
  then show ?case using Cons.prems(1) n ne word_split [of w] words_line_start [of ws t]
    by (simp add: Let_def)
qed

lemma put_arg_ok:
  assumes "argv_ok argv" "i < COMMAND_MAXARGS" "c_str t"
  obtains b where "put_arg argv i t = Some (argv[i := b])" "argv_ok (argv[i := b])"
    "length t < COMMAND_MAXARGLEN \<Longrightarrow> get_arg b = Some t"
proof -
  let ?m = "COMMAND_MAXARGLEN" let ?b = "put_bytes (argv ! i) 0 (take ?m (t @ replicate ?m NUL))"
  have len: "i < length argv" "length (argv ! i) = ?m + 1" using assms(1,2) by (auto simp: argv_ok_def)
  have "ith_strncpy (argv ! i) t (int ?m) = Some ?b"
    using strncpy_loop_eq [OF assms(3), of 0 ?m "argv ! i"] len by (simp add: ith_strncpy_def COMMAND_MAXARGLEN_def)
  then have p: "put_arg argv i t = Some (argv[i := ?b])" using len by (simp add: put_arg_def)
  have "length ?b = ?m + 1" using len by (simp add: put_bytes_def)
  then have ok: "argv_ok (argv[i := ?b])" using assms(1) by (auto simp: argv_ok_def dest: set_update_subset_insert [THEN subsetD])
  have "get_arg ?b = Some t" if short: "length t < ?m"
  proof -
    obtain k where k: "?m = length t + Suc k" using short less_iff_Suc_add by auto
    have "take ?m (t @ replicate ?m NUL) = t @ NUL # replicate k NUL"
    proof -
      have "?m - length t = Suc k" using k by linarith
      then show ?thesis using short by (simp add: take_replicate)
    qed
    then have "?b = t @ NUL # (replicate k NUL @ drop ?m (argv ! i))"
      using k by (simp add: put_bytes_def)
    then show ?thesis using buf_str_until [OF assms(3)] by (simp add: get_arg_def)
  qed
  then show thesis using that p ok by blast
qed

lemma split_args_cases:
  fixes s defines "w \<equiv> takeWhile (\<lambda>c. \<not> isspace c) s"
  defines "r \<equiv> dropWhile isspace (drop (length w) s)"
  shows "chd s = CHR '':'' \<and> split_args (Suc n) s = [tl s] \<or>
    chd s \<noteq> CHR '':'' \<and> r = [] \<and> split_args (Suc n) s = [w] \<or>
    chd s \<noteq> CHR '':'' \<and> r \<noteq> [] \<and> split_args (Suc n) s = w # split_args n r"
  unfolding split_args.simps(2) Let_def w_def [symmetric] r_def [symmetric]
  by (simp only: split: if_split) blast

lemma split_args_shape: "split_args n s \<noteq> [] \<and> length (split_args n s) \<le> Suc n"
proof (induction n arbitrary: s)
  case (Suc n)
  have "\<exists>w r. split_args (Suc n) s = [w] \<or> split_args (Suc n) s = w # split_args n r"
    using split_args_cases [of s n] by blast
  then obtain w r where "split_args (Suc n) s = [w] \<or> split_args (Suc n) s = w # split_args n r" by (elim exE)
  then show ?case using Suc.IH [of r] by (elim disjE) (simp_all del: split_args.simps)
qed simp

lemma c_str_words: "c_str s \<Longrightarrow> c_str (takeWhile P s) \<and> c_str (dropWhile P s)"
  by (auto simp: c_str_def dest: set_takeWhileD set_dropWhileD)

lemma split_args_c_str: "c_str s \<Longrightarrow> \<forall>t\<in>set (split_args n s). c_str t"
proof (induction n arbitrary: s)
  case (Suc n)
  note c = c_str_words [OF Suc.prems] c_str_words [OF c_str_drop [OF Suc.prems]] c_str_tl [OF Suc.prems]
  show ?case using split_args_cases [of s n]
    by (elim disjE conjE) (simp_all only: list.set ball_simps simp_thms c, rule Suc.IH [OF conjunct2 [OF c(2)]])
qed simp

lemma parse_args_split:
  assumes "argv_ok argv" "c_str s" "s \<noteq> []" "i \<le> RFC1459_MAXARGS - 1" "ts = split_args (RFC1459_MAXARGS - 1 - i) s"
  shows "\<exists>argv'. parse_args argv i s = Some (argv', i + length ts - 1) \<and> argv_ok argv' \<and>
    (\<forall>j<i. argv' ! j = argv ! j) \<and>
    (\<forall>j<length ts. length (ts ! j) < COMMAND_MAXARGLEN \<longrightarrow> get_arg (argv' ! (i + j)) = Some (ts ! j))"
  using assms
proof (induction argv i s arbitrary: ts rule: parse_args.induct)
  case (1 argv i s)
  have i: "i < COMMAND_MAXARGS" "i < length argv"
    using "1.prems"(1,4) by (auto simp: argv_ok_def RFC1459_MAXARGS_def COMMAND_MAXARGS_def)
  have one: "\<exists>argv'. map_option (\<lambda>a. (a, i)) (put_arg argv i t) = Some (argv', i + length [t] - 1) \<and> argv_ok argv' \<and>
      (\<forall>j<i. argv' ! j = argv ! j) \<and>
      (\<forall>j<length [t]. length ([t] ! j) < COMMAND_MAXARGLEN \<longrightarrow> get_arg (argv' ! (i + j)) = Some ([t] ! j))"
    if t: "c_str t" for t
  proof -
    obtain b where b: "put_arg argv i t = Some (argv[i := b])" "argv_ok (argv[i := b])"
      "length t < COMMAND_MAXARGLEN \<Longrightarrow> get_arg b = Some t" using put_arg_ok [OF "1.prems"(1) i(1) t] by blast
    then show ?thesis using i(2) by (intro exI [of _ "argv[i := b]"]) simp
  qed
  show ?case
  proof (cases "i < RFC1459_MAXARGS - 1")
    case False
    then have "RFC1459_MAXARGS - 1 - i = 0" by simp
    then have "ts = [s]" using "1.prems"(5) by simp
    then show ?thesis using one [OF "1.prems"(2)] False "1.prems"(3) by (simp add: parse_args.simps [of argv i s])
  next
    case less: True
    then obtain k where k: "RFC1459_MAXARGS - 1 - i = Suc k" by (metis Suc_diff_Suc)
    show ?thesis
    proof (cases "chd s = CHR '':''")
      case True
      then have "ts = [tl s]" using "1.prems"(5) k by simp
      then show ?thesis using one [OF c_str_tl [OF "1.prems"(2)]] True less by (simp add: parse_args.simps [of argv i s])
    next
      case word: False
      define w where "w = takeWhile (\<lambda>c. \<not> isspace c) s"
      define r where "r = dropWhile isspace (drop (length w) s)"
      have cs: "c_str w" "c_str r" unfolding w_def r_def
        using c_str_words [OF "1.prems"(2)] c_str_words [OF c_str_drop [OF "1.prems"(2)]] by blast+
      note IH = "1.IH" [OF less word w_def]
      have pa: "parse_args argv i s =
          (case put_arg argv i w of None \<Rightarrow> None
           | Some argv' \<Rightarrow> if r = [] then Some (argv', i) else parse_args argv' (i + 1) r)"
        unfolding parse_args.simps [of argv i s] if_P [OF less] if_not_P [OF word] Let_def w_def r_def ..
      have sp: "ts = (if r = [] then [w] else w # split_args k r)"
        unfolding "1.prems"(5) k split_args.simps(2) if_not_P [OF word] Let_def w_def r_def ..
      show ?thesis
      proof (cases "r = []")
        case True
        then have "ts = [w]" using sp by simp
        moreover have "parse_args argv i s = map_option (\<lambda>a. (a, i)) (put_arg argv i w)"
          unfolding pa using True by (simp split: option.split)
        ultimately show ?thesis using one [OF cs(1)] by simp
      next
        case more: False
        obtain b where b: "put_arg argv i w = Some (argv[i := b])" "argv_ok (argv[i := b])"
          "length w < COMMAND_MAXARGLEN \<Longrightarrow> get_arg b = Some w" using put_arg_ok [OF "1.prems"(1) i(1) cs(1)] by blast
        define us where "us = split_args (RFC1459_MAXARGS - 1 - (i + 1)) r"
        have k': "k = RFC1459_MAXARGS - 1 - (i + 1)" using k by simp
        have ts: "ts = w # us" using sp more us_def k' by simp
        have us: "us \<noteq> []" using split_args_shape by (simp add: us_def)
        obtain argv' where a: "parse_args (argv[i := b]) (i + 1) r = Some (argv', i + 1 + length us - 1)" "argv_ok argv'"
            "\<forall>j<i + 1. argv' ! j = argv[i := b] ! j"
            "\<forall>j<length us. length (us ! j) < COMMAND_MAXARGLEN \<longrightarrow> get_arg (argv' ! (i + 1 + j)) = Some (us ! j)"
          using IH [OF r_def b(1) more b(2) cs(2) more _ us_def] less by auto
        have p: "parse_args argv i s = parse_args (argv[i := b]) (i + 1) r"
          unfolding pa using more b(1) by simp
        have "get_arg (argv' ! (i + j)) = Some (ts ! j)" if "j < length ts" "length (ts ! j) < COMMAND_MAXARGLEN" for j
        proof (cases j)
          case 0
          then show ?thesis using that a(3) b(3) i(2) unfolding ts by simp
        next
          case (Suc j')
          then show ?thesis using that a(4) unfolding ts by simp
        qed
        then show ?thesis using a(1-3) p us unfolding ts by (intro exI [of _ argv']) simp
      qed
    qed
  qed
qed

section \<open>From the stream of a client to its commands\<close>

text \<open>A command that looks at its arguments as strings, and does not close the connection.\<close>

definition run_handler :: "(cstring list \<Rightarrow> 's \<Rightarrow> int \<times> 's) \<Rightarrow> 's exec" where
  "run_handler h argc argv st =
     (if \<exists>b\<in>set (take argc argv). get_arg b = None then None
      else (case h (map (\<lambda>b. the (get_arg b)) (take argc argv)) st of (r, st') \<Rightarrow> Some (r, argv, st')))"

definition message_ok :: "cstring list \<times> cstring \<Rightarrow> bool" where
  "message_ok m \<longleftrightarrow>
     (case m of (ws, t) \<Rightarrow>
        ws \<noteq> [] \<and> length ws < RFC1459_MAXARGS - 1 \<and> (\<forall>w\<in>set ws. word_ok w) \<and> c_str t \<and> NL \<notin> set t \<and>
        length (words_line ws t) \<le> RFC1459_PKT_LEN - 2)"

lemma words_line_set: "x \<in> set (words_line ws t) \<Longrightarrow> x \<in> \<Union> (set ` set ws) \<or> x = CHR '' '' \<or> x = CHR '':'' \<or> x \<in> set t"
  by (auto simp: words_line_def split: if_splits)

lemma message_chars:
  assumes "message_ok (ws, t)"
  shows "c_str (words_line ws t)" "NL \<notin> set (words_line ws t)"
proof -
  have w: "isspace c = False" "c \<noteq> NUL" if "w \<in> set ws" "c \<in> set w" for w c
    using assms that by (auto simp: message_ok_def word_ok_def)
  have t: "c_str t" "NL \<notin> set t" using assms by (auto simp: message_ok_def)
  show "c_str (words_line ws t)" using w(2) t(1) unfolding c_str_def by (auto dest!: words_line_set)
  show "NL \<notin> set (words_line ws t)" using w(1) [of _ NL] t(2) by (auto dest!: words_line_set)
qed

lemma words_line_long: "w \<in> set ws \<Longrightarrow> length w < length (words_line ws t)" "length t < length (words_line ws t)"
  by (induction ws) auto

lemma packet_parse_message:
  assumes "message_ok (ws, t)" "argv_ok argv"
  shows "\<exists>argv'. packet_parse (run_handler h) (words_line ws t) (argv, st) =
      Some (fst (h (ws @ [t]) st), argv', snd (h (ws @ [t]) st)) \<and> argv_ok argv'"
proof -
  let ?s = "words_line ws t" let ?ts = "ws @ [t]"
  have ok: "ws \<noteq> []" "length ws < RFC1459_MAXARGS - 1" "\<forall>w\<in>set ws. word_ok w" "length ?s \<le> 510"
    using assms(1) by (auto simp: message_ok_def RFC1459_PKT_LEN_def)
  obtain w ws' where ws: "ws = w # ws'" using ok(1) by (cases ws) auto
  have "chd ?s \<noteq> CHR '':''" using word_split(2) [of w] ok(3) by (simp add: ws)
  then have start: "message_start ?s = ?s" using words_line_start [OF ok(3)] by (simp add: message_start_def)
  have ne: "?s \<noteq> []" by (simp add: words_line_def)
  have ts: "?ts = split_args (RFC1459_MAXARGS - 1 - 0) ?s"
    using split_words_line [of ws "RFC1459_MAXARGS - 1" t] ok(2,3) by simp
  from parse_args_split [OF assms(2) message_chars(1) [OF assms(1)] ne _ ts]
  obtain argv' where a: "parse_args argv 0 ?s = Some (argv', length ws)" "argv_ok argv'"
    "\<forall>j<length ?ts. length (?ts ! j) < COMMAND_MAXARGLEN \<longrightarrow> get_arg (argv' ! j) = Some (?ts ! j)"
    by auto
  have short: "length (?ts ! j) < COMMAND_MAXARGLEN" if "j < length ?ts" for j
  proof -
    have "?ts ! j \<in> set ?ts" using that nth_mem by blast
    then have "length (?ts ! j) < length ?s" using words_line_long by auto
    then show ?thesis using ok(4) by (simp add: COMMAND_MAXARGLEN_def)
  qed
  have len: "length ?ts \<le> length argv'"
    using a(2) ok(2) by (simp add: argv_ok_def COMMAND_MAXARGS_def RFC1459_MAXARGS_def)
  have get: "map get_arg (take (length ws + 1) argv') = map Some ?ts"
    by (rule nth_equalityI) (use a(3) short len in \<open>auto simp del: map_append\<close>)
  have "get_arg b \<noteq> None" if "b \<in> set (take (length ws + 1) argv')" for b
  proof -
    have "get_arg b \<in> set (map get_arg (take (length ws + 1) argv'))"
      unfolding set_map by (rule imageI [OF that])
    then show ?thesis unfolding get set_map by (elim imageE) simp
  qed
  moreover have "map (\<lambda>b. the (get_arg b)) (take (length ws + 1) argv') = ?ts"
    using arg_cong [OF get, of "map the"] by (simp add: comp_def)
  ultimately have "run_handler h (length ws + 1) argv' st =
      (case h ?ts st of (r, st') \<Rightarrow> Some (r, argv', st'))"
    unfolding run_handler_def by (subst if_not_P) (blast, simp only:)
  then show ?thesis using a(1,2) start ne by (simp add: packet_parse_def Let_def split: prod.split)
qed

definition message_line :: "cstring list \<times> cstring \<Rightarrow> cstring" where
  "message_line m = words_line (fst m) (snd m) @ [CR]"

lemma fold_messages:
  assumes "\<forall>m\<in>set ms. message_ok m" "argv_ok argv"
  shows "\<exists>argv'. fold_parse (packet_parse (run_handler h)) (argv, st)
      (map (packet_of RFC1459_PKT_LEN) (map message_line ms)) =
    Some (argv', fold (\<lambda>m st. snd (h (fst m @ [snd m]) st)) ms st) \<and> argv_ok argv'"
  using assms
proof (induction ms arbitrary: argv st)
  case (Cons m ms)
  obtain ws t where m: "m = (ws, t)" by (cases m)
  have ok: "message_ok (ws, t)" using Cons.prems m by simp
  have "length (words_line ws t) + 1 \<le> 511" using ok by (simp add: message_ok_def RFC1459_PKT_LEN_def)
  then have "packet_of RFC1459_PKT_LEN (message_line m) = words_line ws t"
    by (simp add: packet_of_def message_line_def m RFC1459_PKT_LEN_def)
  moreover obtain argv1 where "packet_parse (run_handler h) (words_line ws t) (argv, st) =
      Some (fst (h (ws @ [t]) st), argv1, snd (h (ws @ [t]) st))" "argv_ok argv1"
    using packet_parse_message [OF ok Cons.prems(2), of h st] by (elim exE conjE)
  moreover from Cons.IH [OF _ this(2), of "snd (h (ws @ [t]) st)"] Cons.prems(1)
  obtain argv2 where "fold_parse (packet_parse (run_handler h)) (argv1, snd (h (ws @ [t]) st))
      (map (packet_of RFC1459_PKT_LEN) (map message_line ms)) =
    Some (argv2, fold (\<lambda>m st. snd (h (fst m @ [snd m]) st)) ms (snd (h (ws @ [t]) st)))" "argv_ok argv2"
    by auto
  ultimately show ?case
    by (intro exI [of _ argv2]) (simp only: list.map fold_parse.simps option.case prod.case m fold_simps fst_conv snd_conv
        simp_thms o_apply)
qed simp

text \<open>C3: what a client writes is what its commands see: a stream of messages, each of words and a last
  argument in the 512 bytes the protocol allows, executes each command once, in order and with exactly
  the arguments written, whatever the reads cut the stream into and whatever old arguments are still in
  the argument buffers.\<close>

theorem messages_arrive:
  assumes "cn_buf c = []" "\<not> cn_dirty c" "cn_size c = RFC1459_PKT_LEN" "argv_ok argv"
    "\<forall>m\<in>set ms. message_ok m" "\<forall>as st. 0 \<le> fst (h as st)"
    "[] \<notin> set ds" "concat ds = stream_of (map message_line ms)"
  shows "\<exists>argv'. input (packet_parse (run_handler h)) forced c (argv, st) ds =
    Some (Drained c (argv', fold (\<lambda>m st. snd (h (fst m @ [snd m]) st)) ms st), [])"
proof -
  have open_p: "keeps_open (packet_parse (run_handler h))"
    unfolding keeps_open_def
  proof (intro allI impI)
    fix l :: cstring and s r s'
    assume p: "packet_parse (run_handler h) l s = Some (r, s')"
    have "0 \<le> r" using p assms(6)
      by (auto simp: packet_parse_def run_handler_def Let_def split: prod.splits if_splits option.splits; metis fst_conv)
    then show "r \<noteq> IRCD_CONNECTION_CLOSED \<and> r \<noteq> IRCD_PROTOCOL_CHANGED"
      by (simp add: IRCD_CONNECTION_CLOSED_def IRCD_PROTOCOL_CHANGED_def)
  qed
  have chars: "NL \<notin> set (message_line m)" "c_str (message_line m)" if "m \<in> set ms" for m
  proof -
    have "message_ok (fst m, snd m)" using assms(5) that by simp
    from message_chars [OF this] show "NL \<notin> set (message_line m)" "c_str (message_line m)"
      by (auto simp: message_line_def)
  qed
  have "c_str (stream_of (map message_line ms))" using chars(2) by (auto simp: stream_of_def c_str_def)
  then have cs: "c_str (concat ds)" using assms(8) by simp
  have nl: "\<forall>l\<in>set (map message_line ms). NL \<notin> set l" using chars(1) by auto
  obtain argv' where "fold_parse (packet_parse (run_handler h)) (argv, st)
      (map (packet_of RFC1459_PKT_LEN) (map message_line ms)) =
    Some (argv', fold (\<lambda>m st. snd (h (fst m @ [snd m]) st)) ms st)"
    using fold_messages [OF assms(5,4), of h st] by (elim exE conjE)
  moreover have "input (packet_parse (run_handler h)) forced c (argv, st) ds =
    map_option (\<lambda>s'. (Drained (c\<lparr>cn_buf := []\<rparr>) s', []))
      (fold_parse (packet_parse (run_handler h)) (argv, st) (map (packet_of (cn_size c)) (map message_line ms)))"
    by (rule input_lines [OF assms(1,2) _ open_p nl _ cs assms(7)])
      (simp_all add: assms(3,8) RFC1459_PKT_LEN_def del: map_map)
  moreover have "c\<lparr>cn_buf := []\<rparr> = c" using assms(1) by (cases c) simp
  ultimately show ?thesis by (intro exI [of _ argv']) (simp only: assms(3) option.map)
qed

definition demo_handler :: "cstring list \<Rightarrow> cstring list list \<Rightarrow> int \<times> cstring list list" where
  "demo_handler as log = (0, log @ [as])"

theorem messages_arrive_witness:
  "\<exists>argv'. input (packet_parse (run_handler demo_handler)) False \<lparr>cn_buf = [], cn_size = 512, cn_dirty = False\<rparr>
      (replicate 32 (replicate 512 NUL), []) [''NICK '', '':ann'' @ [CR, NL] @ ''JOIN #a :k'', [CR, NL]] =
    Some (Drained \<lparr>cn_buf = [], cn_size = 512, cn_dirty = False\<rparr>
      (argv', [[''NICK'', ''ann''], [''JOIN'', ''#a'', ''k'']]), [])"
proof -
  have "message_ok ([''NICK''], ''ann'')" "message_ok ([''JOIN'', ''#a''], ''k'')" by code_simp+
  moreover have "argv_ok (replicate 32 (replicate 512 NUL))"
    by (simp add: argv_ok_def COMMAND_MAXARGS_def COMMAND_MAXARGLEN_def)
  moreover have "concat [''NICK '', '':ann'' @ [CR, NL] @ ''JOIN #a :k'', [CR, NL]] =
      stream_of (map message_line [([''NICK''], ''ann''), ([''JOIN'', ''#a''], ''k'')])"
    by (simp add: message_line_def)
  ultimately show ?thesis
    using messages_arrive [of "\<lparr>cn_buf = [], cn_size = 512, cn_dirty = False\<rparr>"
        "replicate 32 (replicate 512 NUL)" "[([''NICK''], ''ann''), ([''JOIN'', ''#a''], ''k'')]" demo_handler
        "[''NICK '', '':ann'' @ [CR, NL] @ ''JOIN #a :k'', [CR, NL]]" False "[]"]
    by (simp add: RFC1459_PKT_LEN_def demo_handler_def)
qed

section \<open>The line that is sent\<close>

text \<open>\<^verbatim>\<open>sprintf\<close> (size 0) and \<^verbatim>\<open>vsnprintf\<close> into the buffer from a cell on.\<close>

definition format_at :: "char list \<Rightarrow> nat \<Rightarrow> nat \<Rightarrow> cstring \<Rightarrow> farg list \<Rightarrow> (char list \<times> nat) option" where
  "format_at buf i sz format args =
     (case ith_vsnprintf (drop i buf) sz format args of
        Some (Some (b, n)) \<Rightarrow> Some (take i buf @ b, i + n)
      | _ \<Rightarrow> None)"

datatype protocol_sender = From_client cstring cstring cstring | From_server cstring | From_none

text \<open>With \<open>long\<close>, \<^verbatim>\<open>RFC1459_SEND_MSG_LONG\<close> is defined.\<close>

fun put_sender :: "bool \<Rightarrow> protocol_sender \<Rightarrow> cstring \<Rightarrow> char list \<Rightarrow> (char list \<times> nat) option" where
  "put_sender long (From_client nick user host) cmd buf =
     (if long then
        format_at buf 0 0 '':%s!%s@%s %s'' [FStr (Some nick), FStr (Some user), FStr (Some host), FStr (Some cmd)]
      else format_at buf 0 0 '':%s %s'' [FStr (Some nick), FStr (Some cmd)])"
| "put_sender long (From_server name) cmd buf = format_at buf 0 0 '':%s %s'' [FStr (Some name), FStr (Some cmd)]"
| "put_sender long From_none cmd buf = format_at buf 0 0 ''%s'' [FStr (Some cmd)]"

definition put_to :: "cstring option \<Rightarrow> bool \<Rightarrow> char list \<times> nat \<Rightarrow> (char list \<times> nat) option" where
  "put_to to has_msg bn =
     (case bn of (b, n) \<Rightarrow>
       (case to of
          None \<Rightarrow> if has_msg then map_option (\<lambda>b. (b, n + 1)) (buf_put b n (CHR '' '')) else Some (b, n)
        | Some t \<Rightarrow>
            if \<not> has_msg then format_at b n 0 '' :%s'' [FStr (Some t)]
            else format_at b n 0 '' %s '' [FStr (Some t)]))"

definition put_msg :: "(cstring \<times> farg list) option \<Rightarrow> char list \<times> nat \<Rightarrow> (char list \<times> nat) option" where
  "put_msg msg bn =
     (case bn of (b, n) \<Rightarrow>
       (case msg of None \<Rightarrow> Some (b, n)
        | Some (format, args) \<Rightarrow> format_at b n (RFC1459_PKT_LEN - n) format args))"

definition put_end :: "char list \<times> nat \<Rightarrow> cstring option" where
  "put_end bn =
     (case bn of (b, n) \<Rightarrow>
       (let n' = (if RFC1459_PKT_LEN - 2 < n then RFC1459_PKT_LEN - 2 else n) in
        (case buf_put b n' CR of None \<Rightarrow> None
         | Some b \<Rightarrow> map_option (take (n' + 2)) (buf_put b (n' + 1) NL))))"

definition rfc1459_output ::
  "bool \<Rightarrow> protocol_sender \<Rightarrow> cstring \<Rightarrow> cstring option \<Rightarrow> (cstring \<times> farg list) option \<Rightarrow> char list \<Rightarrow> cstring option" where
  "rfc1459_output long src cmd to msg buf =
     (let to = (if to = Some [] then Some ''*'' else to) in
      (case put_sender long src cmd buf of None \<Rightarrow> None
       | Some bn \<Rightarrow>
           (case put_to to (msg \<noteq> None) bn of None \<Rightarrow> None
            | Some bn \<Rightarrow> (case put_msg msg bn of None \<Rightarrow> None | Some bn \<Rightarrow> put_end bn))))"

text \<open>The text it stands for.\<close>

fun sender_text :: "bool \<Rightarrow> protocol_sender \<Rightarrow> cstring" where
  "sender_text long (From_client nick user host) =
     (if long then '':'' @ nick @ ''!'' @ user @ ''@'' @ host @ '' '' else '':'' @ nick @ '' '')"
| "sender_text long (From_server name) = '':'' @ name @ '' ''"
| "sender_text long From_none = []"

fun to_text :: "cstring option \<Rightarrow> bool \<Rightarrow> cstring" where
  "to_text None has_msg = (if has_msg then '' '' else [])"
| "to_text (Some t) has_msg = (let t = (if t = [] then ''*'' else t) in if has_msg then '' '' @ t @ '' '' else '' :'' @ t)"

definition output_text :: "bool \<Rightarrow> protocol_sender \<Rightarrow> cstring \<Rightarrow> cstring option \<Rightarrow> cstring option \<Rightarrow> cstring" where
  "output_text long src cmd to body =
     sender_text long src @ cmd @ to_text to (body \<noteq> None) @ (case body of None \<Rightarrow> [] | Some t \<Rightarrow> t)"

definition holds :: "cstring \<Rightarrow> char list \<times> nat \<Rightarrow> bool" where
  "holds t bn \<longleftrightarrow> (case bn of (b, n) \<Rightarrow> n = length t \<and> take n b = t \<and> length b = RFC1459_PKT_LEN \<and> n < RFC1459_PKT_LEN)"

lemma format_at_holds:
  assumes "render format args = Some out" "holds t (b, n) \<or> t = [] \<and> n = 0 \<and> length b = RFC1459_PKT_LEN"
    "sz = 0 \<or> sz = RFC1459_PKT_LEN - n"
  shows "if length t + length out < RFC1459_PKT_LEN then \<exists>bn. format_at b n sz format args = Some bn \<and> holds (t @ out) bn
    else format_at b n sz format args = None"
proof -
  have b: "length b = 512" "n = length t" "take n b = t" "n < 512"
    using assms(2) by (auto simp: holds_def RFC1459_PKT_LEN_def)
  let ?lim = "if sz = 0 then 0x7fffffff else sz"
  have lim: "?lim = 0x7fffffff \<or> ?lim = 512 - n" using assms(3) by (auto simp: RFC1459_PKT_LEN_def)
  show ?thesis
  proof (cases "length t + length out < 512")
    case True
    then have m: "min ?lim (length out) = length out" using lim b by auto
    have l: "length out < length (drop n b)" using True b by simp
    have "format_at b n sz format args = Some (take n b @ put_bytes (drop n b) 0 (out @ [NUL]), n + length out)"
      unfolding format_at_def vsnprintf_eq [OF assms(1)] m Let_def using l by simp
    moreover have "holds (t @ out) (take n b @ put_bytes (drop n b) 0 (out @ [NUL]), n + length out)"
      using b True by (simp add: holds_def put_bytes_def RFC1459_PKT_LEN_def)
    ultimately show ?thesis using True by (simp add: RFC1459_PKT_LEN_def)
  next
    case False
    then have "\<not> min ?lim (length out) < length (drop n b)" using lim b by auto
    then have "format_at b n sz format args = None"
      unfolding format_at_def vsnprintf_eq [OF assms(1)] Let_def by (simp only: if_False) simp
    then show ?thesis using False by (simp add: RFC1459_PKT_LEN_def)
  qed
qed

lemma render_step:
  "chd f = CHR ''%'' \<Longrightarrow> chd (tl f) = CHR ''s'' \<Longrightarrow>
     render f (FStr (Some s) # as) = map_option (\<lambda>r. s @ r) (render (tl (tl f)) as)"
  "f \<noteq> [] \<Longrightarrow> chd f \<noteq> CHR ''%'' \<Longrightarrow> chd f \<noteq> NUL \<Longrightarrow> render f as' = map_option (\<lambda>r. chd f # r) (render (tl f) as')"
  "render [] as' = Some []"
  by (simp_all add: render.simps [of f] render.simps [of "[]"] conversion_def Let_def)

lemma render_formats:
  "render '':%s!%s@%s %s'' [FStr (Some a), FStr (Some b), FStr (Some c), FStr (Some d)] =
     Some ('':'' @ a @ ''!'' @ b @ ''@'' @ c @ '' '' @ d)"
  "render '':%s %s'' [FStr (Some a), FStr (Some d)] = Some ('':'' @ a @ '' '' @ d)"
  "render ''%s'' [FStr (Some a)] = Some a"
  "render '' :%s'' [FStr (Some a)] = Some ('' :'' @ a)"
  "render '' %s '' [FStr (Some a)] = Some ('' '' @ a @ '' '')"
  by (simp_all add: render_step)

lemma put_end_holds: "holds t bn \<Longrightarrow> put_end bn = Some (take 510 t @ [CR, NL])"
proof -
  assume h: "holds t bn"
  obtain b n where bn: "bn = (b, n)" by (cases bn)
  have b: "length b = 512" "n = length t" "take n b = t" "n < 512" using h by (auto simp: holds_def bn RFC1459_PKT_LEN_def)
  let ?k = "if 510 < n then 510 else n"
  have "take ?k b = take ?k (take n b)" by simp
  then have k: "?k + 1 < length b" "take ?k b = take 510 t" unfolding b(3) using b(1,2,4) by auto
  have "take (?k + 2) ((b[?k := CR])[?k + 1 := NL]) = take ?k b @ [CR, NL]"
    using k(1) by (simp add: take_Suc_conv_app_nth take_update_swap upd_conv_take_nth_drop)
  then have "map_option (take (?k + 2)) (buf_put (b[?k := CR]) (?k + 1) NL) = Some (take 510 t @ [CR, NL])"
    using k by simp
  moreover have "buf_put b ?k CR = Some (b[?k := CR])" using k(1) by (intro buf_put_Some) linarith
  moreover have "RFC1459_PKT_LEN - 2 = 510" by (simp add: RFC1459_PKT_LEN_def)
  ultimately show ?thesis unfolding put_end_def bn prod.case Let_def by (simp only: option.case)
qed

lemma put_sender_holds:
  assumes "length buf = RFC1459_PKT_LEN"
  shows "if length (sender_text long src @ cmd) < RFC1459_PKT_LEN
    then \<exists>bn. put_sender long src cmd buf = Some bn \<and> holds (sender_text long src @ cmd) bn
    else put_sender long src cmd buf = None"
proof -
  note f = format_at_holds [where t = "[]" and b = buf and n = 0 and sz = 0, OF _ disjI2 disjI1, simplified]
  show ?thesis
  proof (cases src)
    case (From_client nick user host)
    then show ?thesis
      using f [OF render_formats(1) [of nick user host cmd] assms] f [OF render_formats(2) [of nick cmd] assms]
      by (cases long) (simp_all cong: if_cong del: split_paired_Ex)
  next
    case (From_server name)
    then show ?thesis using f [OF render_formats(2) [of name cmd] assms] by (simp cong: if_cong del: split_paired_Ex)
  next
    case From_none
    then show ?thesis using f [OF render_formats(3) [of cmd] assms] by (simp cong: if_cong del: split_paired_Ex)
  qed
qed

lemma put_to_holds:
  assumes "holds t bn" "to \<noteq> Some []"
  shows "if length (t @ to_text to m) < RFC1459_PKT_LEN
    then \<exists>bn'. put_to to m bn = Some bn' \<and> holds (t @ to_text to m) bn'
    else put_to to m bn = None \<or> m \<and> to = None \<and> (\<exists>b. put_to to m bn = Some (b, length b))"
proof -
  obtain b n where bn: "bn = (b, n)" by (cases bn)
  note f = format_at_holds [where t = t and b = b and n = n and sz = 0, OF _ disjI1 disjI1, simplified]
  show ?thesis
  proof (cases to)
    case None
    have b: "length b = RFC1459_PKT_LEN" "n = length t" "take n b = t" "n < RFC1459_PKT_LEN"
      using assms(1) by (auto simp: holds_def bn)
    then have "holds (t @ '' '') (b[n := CHR '' ''], n + 1)" if "n + 1 < RFC1459_PKT_LEN"
      using that by (simp add: holds_def take_Suc_conv_app_nth)
    then show ?thesis using None b assms(1) by (auto simp: put_to_def bn)
  next
    case (Some u)
    then show ?thesis using f [OF render_formats(4) [of u]] f [OF render_formats(5) [of u]] assms
      by (cases m) (simp_all add: put_to_def bn cong: if_cong del: split_paired_Ex)
  qed
qed

lemma put_msg_holds:
  assumes "holds t bn" "case msg of None \<Rightarrow> body = [] | Some (f, as) \<Rightarrow> render f as = Some body"
  shows "if length (t @ body) < RFC1459_PKT_LEN then \<exists>bn'. put_msg msg bn = Some bn' \<and> holds (t @ body) bn'
    else put_msg msg bn = None"
proof -
  obtain b n where bn: "bn = (b, n)" by (cases bn)
  show ?thesis
  proof (cases msg)
    case None
    then show ?thesis using assms by (auto simp: put_msg_def bn holds_def)
  next
    case (Some fa)
    obtain f as where fa: "fa = (f, as)" by (cases fa)
    have r: "render f as = Some body" using assms(2) Some fa by simp
    show ?thesis
      using format_at_holds [OF r disjI1 [OF assms(1) [unfolded bn]] disjI2 [OF refl]] Some fa
      by (simp add: put_msg_def bn cong: if_cong del: split_paired_Ex)
  qed
qed

text \<open>C39: the line that is sent is the text of the message in at most 510 bytes, and the end of the line;
  a text that fills the buffer makes the formatting write behind the buffer.\<close>

theorem output_line:
  assumes "length buf = RFC1459_PKT_LEN"
    "case msg of None \<Rightarrow> body = None | Some (f, as) \<Rightarrow> body \<noteq> None \<and> render f as = body"
  shows "rfc1459_output long src cmd to msg buf =
    (let t = output_text long src cmd to body in
     if length t < RFC1459_PKT_LEN then Some (take 510 t @ [CR, NL]) else None)"
proof -
  let ?to = "if to = Some [] then Some ''*'' else to" let ?m = "msg \<noteq> None"
  let ?t1 = "sender_text long src @ cmd" let ?t2 = "?t1 @ to_text ?to ?m"
  let ?body = "case body of None \<Rightarrow> [] | Some t \<Rightarrow> t"
  have tt: "to_text ?to (body \<noteq> None) = to_text to (body \<noteq> None)" by simp
  have mb: "(msg \<noteq> None) = (body \<noteq> None)" using assms(2) by (auto split: option.splits)
  have t: "output_text long src cmd to body = ?t2 @ ?body"
    unfolding output_text_def mb tt by simp
  have msg: "case msg of None \<Rightarrow> ?body = [] | Some (f, as) \<Rightarrow> render f as = Some ?body"
    using assms(2) by (auto split: option.splits)
  note s1 = put_sender_holds [OF assms(1), of long src cmd]
  show ?thesis
  proof (cases "length ?t1 < RFC1459_PKT_LEN")
    case False
    then show ?thesis using s1 unfolding t by (simp add: rfc1459_output_def Let_def)
  next
    case True
    then obtain bn where b1: "put_sender long src cmd buf = Some bn" "holds ?t1 bn" using s1 by auto
    have e: "rfc1459_output long src cmd to msg buf =
        (case put_to ?to ?m bn of None \<Rightarrow> None
         | Some bn \<Rightarrow> (case put_msg msg bn of None \<Rightarrow> None | Some bn \<Rightarrow> put_end bn))"
      by (simp add: rfc1459_output_def b1(1) Let_def)
    have s2: "if length ?t2 < RFC1459_PKT_LEN then \<exists>bn'. put_to ?to ?m bn = Some bn' \<and> holds ?t2 bn'
        else put_to ?to ?m bn = None \<or> ?m \<and> ?to = None \<and> (\<exists>b. put_to ?to ?m bn = Some (b, length b))"
      by (rule put_to_holds [OF b1(2)]) simp
    show ?thesis
    proof (cases "length ?t2 < RFC1459_PKT_LEN")
      case True
      then obtain bn' where b2: "put_to ?to ?m bn = Some bn'" "holds ?t2 bn'" using s2 by auto
      show ?thesis using put_msg_holds [OF b2(2) msg] put_end_holds unfolding e b2(1) t Let_def
        by (auto split: if_splits)
    next
      case full: False
      have "put_msg msg (b, length b) = None" if "?m" for b
        using that msg by (auto simp: put_msg_def format_at_def vsnprintf_eq Let_def)
      then have "rfc1459_output long src cmd to msg buf = None" using s2 full unfolding e by auto
      moreover have "\<not> length (?t2 @ ?body) < RFC1459_PKT_LEN" using full by simp
      ultimately show ?thesis unfolding t Let_def by (simp only: if_False)
    qed
  qed
qed

theorem output_line_witness:
  "rfc1459_output True (From_client ''ann'' ''a'' ''h'') ''PRIVMSG'' (Some ''#c'') (Some ('':%s'', [FStr (Some ''hi'')])) (replicate 512 NUL)
     = Some ('':ann!a@h PRIVMSG #c :hi'' @ [CR, NL])"
proof -
  have "render '':%s'' [FStr (Some ''hi'')] = Some '':hi''" by code_simp
  then show ?thesis
    using output_line [where buf = "replicate 512 NUL" and msg = "Some ('':%s'', [FStr (Some ''hi'')])"
        and body = "Some '':hi''" and long = True and src = "From_client ''ann'' ''a'' ''h''"
        and cmd = "''PRIVMSG''" and to = "Some ''#c''"]
    by (simp add: RFC1459_PKT_LEN_def output_text_def)
qed

section \<open>What goes wrong\<close>

text \<open>A byte 0 in front of the end of a line hides the line until the buffer is full.\<close>

lemma NUL_hides_line:
  assumes "cn_buf c = a @ NUL # r" "NL \<notin> set a" "length (cn_buf c) < cn_size c"
  shows "drain parse ret c s = Some (Drained c s)"
proof -
  let ?i = "length (takeWhile (\<lambda>x. x \<noteq> NL \<and> x \<noteq> NUL) (cn_buf c))"
  have "?i \<le> length a" unfolding assms(1) by (induction a) auto
  then have "cn_buf c ! ?i \<noteq> NL" if "?i < length (cn_buf c)"
  proof (cases "?i = length a")
    case True
    then show ?thesis unfolding assms(1) by simp
  next
    case False
    then have "cn_buf c ! ?i \<in> set a"
      using \<open>?i \<le> length a\<close> unfolding assms(1) by (simp add: nth_append)
    then show ?thesis using assms(2) by auto
  qed
  then have "line_end c = None" using assms(3) by (auto simp: line_end_def Let_def)
  then show ?thesis by (rule drain_wait)
qed

text \<open>The fifteenth argument keeps the colon of a last argument.\<close>

lemma fifteenth_keeps_colon:
  assumes "\<forall>w\<in>set ws. word_ok w" "length ws = n"
  shows "split_args n (words_line ws t) = ws @ [CHR '':'' # t]"
  using assms
proof (induction ws arbitrary: n)
  case Nil
  then show ?case by simp
next
  case (Cons w ws)
  obtain k where n: "n = Suc k" using Cons.prems(2) by (cases n) auto
  have ne: "\<exists>x\<in>set (words_line ws t). \<not> isspace x"
    by (rule bexI [of _ "CHR '':''"]) (simp_all add: words_line_def)
  have "split_args k (words_line ws t) = ws @ [CHR '':'' # t]" using Cons n by simp
  then show ?case using Cons.prems(1) n ne word_split [of w] words_line_start [of ws t]
    by (simp add: Let_def)
qed

text \<open>An argument of 511 characters has no end when the last cell of its buffer happens not to be 0.\<close>

lemma longest_argument_unterminated:
  assumes "argv_ok argv" "i < COMMAND_MAXARGS" "c_str t" "length t = COMMAND_MAXARGLEN"
    "(argv ! i) ! COMMAND_MAXARGLEN \<noteq> NUL"
  shows "\<exists>argv'. put_arg argv i t = Some argv' \<and> get_arg (argv' ! i) = None"
proof -
  let ?m = COMMAND_MAXARGLEN let ?b = "put_bytes (argv ! i) 0 t"
  have len: "i < length argv" "length (argv ! i) = ?m + 1" using assms(1,2) by (auto simp: argv_ok_def)
  have "ith_strncpy (argv ! i) t (int ?m) = Some ?b"
    using strncpy_loop_eq [OF assms(3), of 0 ?m "argv ! i"] len assms(4)
    by (simp add: ith_strncpy_def COMMAND_MAXARGLEN_def)
  then have "put_arg argv i t = Some (argv[i := ?b])" using len by (simp add: put_arg_def)
  moreover have "drop ?m (argv ! i) = [(argv ! i) ! ?m]"
    using len Cons_nth_drop_Suc [of ?m "argv ! i"] by simp
  then have "get_arg ?b = None" using assms(3-5) by (auto simp: get_arg_def put_bytes_def c_str_def)
  ultimately show ?thesis using len by simp
qed

end
