(* ===== verification/CommandTable.thy ===== *)
theory CommandTable
  imports HashTable Event Convert
begin

text \<open>
  The commands of the server (\<^verbatim>\<open>command.c\<close>): adding a command from its module, aliases, removal, and
  the hooks on a command. The commands are in memory, in a list and in a hash table by name. An
  address is never used twice, so that a use after \<^verbatim>\<open>free\<close> is visible; it gives \<open>None\<close>, as a write
  outside a buffer does. The entry of the hash table is the address with the name, which does not
  change while the command lives. Loading a module and looking up its symbols, the configuration
  and the creation of a privilege are parameters.
\<close>

section \<open>Commands\<close>

definition COMMAND_FL_ALIAS :: u32 where "COMMAND_FL_ALIAS = 0x0001"
definition COMMAND_FL_FOLDMAX :: u32 where "COMMAND_FL_FOLDMAX = 0x0001"
definition COMMAND_FL_UNREGISTERED :: u32 where "COMMAND_FL_UNREGISTERED = 0x0002"
definition COMMAND_FL_REGISTERED :: u32 where "COMMAND_FL_REGISTERED = 0x0004"
definition COMMAND_FL_OPERATOR :: u32 where "COMMAND_FL_OPERATOR = 0x0008"
definition COMMAND_FL_HOOKED :: u32 where "COMMAND_FL_HOOKED = 0x0100"
definition COMMAND_FL_EXCL_HOOK :: u32 where "COMMAND_FL_EXCL_HOOK = 0x0200"

definition COMMAND_WEIGHT_NONE :: int where "COMMAND_WEIGHT_NONE = 0"
definition COMMAND_WEIGHT_LOW :: int where "COMMAND_WEIGHT_LOW = 2"
definition COMMAND_WEIGHT_MEDIUM :: int where "COMMAND_WEIGHT_MEDIUM = 5"
definition COMMAND_WEIGHT_HIGH :: int where "COMMAND_WEIGHT_HIGH = 10"
definition COMMAND_WEIGHT_EXTREME :: int where "COMMAND_WEIGHT_EXTREME = 20"

text \<open>The event of a half: not yet made, made, or a pointer to freed memory.\<close>

datatype evptr = Ev_null | Ev event | Ev_freed

record 'f half =
  hf_min :: int
  hf_max :: int
  hf_flags :: u32
  hf_cmd :: "'f option"
  hf_ev :: evptr

text \<open>\<^verbatim>\<open>dll\<close> is the module of a command, and the command itself of an alias.\<close>

datatype cmd_dll = No_dll | Module cstring | Alias_of nat

record 'f command =
  cm_weight :: int
  cm_name :: cstring
  cm_dll :: cmd_dll
  cm_priv :: int
  cm_flags :: u32
  cm_client :: "'f half"
  cm_server :: "'f half"

text \<open>Memory, the list, the hash table, the next address, the command modules that are loaded, and what
  was unloaded and destroyed.\<close>

record 'f cmdtab =
  ct_mem :: "nat \<Rightarrow> 'f command option"
  ct_list :: "nat list"
  ct_hash :: "(nat \<times> cstring) hashtable"
  ct_next :: nat
  ct_loaded :: "cstring list"
  ct_unloaded :: "cstring list"
  ct_privs_gone :: "int list"

definition is_alias :: "'f command \<Rightarrow> bool" where
  "is_alias c \<longleftrightarrow> cm_flags c AND COMMAND_FL_ALIAS \<noteq> 0"

definition find_command :: "'f cmdtab \<Rightarrow> cstring \<Rightarrow> nat option" where
  "find_command st name = map_option fst (hash_find snd (ct_hash st) name)"

text \<open>\<^verbatim>\<open>hash_insert\<close> and \<^verbatim>\<open>LIST_INSERT_HEAD\<close> of a new command.\<close>

definition put_command :: "'f command \<Rightarrow> 'f cmdtab \<Rightarrow> 'f cmdtab option" where
  "put_command c st =
     (case hash_insert snd (ct_hash st) (ct_next st, cm_name c) of
        None \<Rightarrow> None
      | Some t \<Rightarrow>
          Some (st\<lparr>ct_mem := (ct_mem st)(ct_next st \<mapsto> c), ct_hash := t, ct_list := ct_next st # ct_list st,
                   ct_next := ct_next st + 1\<rparr>))"

definition no_half :: "'f half" where
  "no_half = \<lparr>hf_min = 0, hf_max = 0, hf_flags = 0, hf_cmd = None, hf_ev = Ev_null\<rparr>"

definition alias_command :: "cstring \<Rightarrow> nat \<Rightarrow> 'f command" where
  "alias_command alias a =
     \<lparr>cm_weight = 0, cm_name = take COMMAND_MAXLEN alias, cm_dll = Alias_of a, cm_priv = 0,
      cm_flags = COMMAND_FL_ALIAS, cm_client = no_half, cm_server = no_half\<rparr>"

definition add_command_alias :: "'f cmdtab \<Rightarrow> cstring \<Rightarrow> cstring \<Rightarrow> 'f cmdtab option" where
  "add_command_alias st cmdname alias =
     (case find_command st cmdname of
        None \<Rightarrow> None
      | Some a \<Rightarrow>
          (case find_command st alias of
             Some _ \<Rightarrow> Some st
           | None \<Rightarrow> put_command (alias_command alias a) st))"

text \<open>Out of the hash and the list, with the command.\<close>

definition unlink_command :: "'f cmdtab \<Rightarrow> nat \<Rightarrow> ('f command \<times> 'f cmdtab) option" where
  "unlink_command st a =
     (case ct_mem st a of
        None \<Rightarrow> None
      | Some c \<Rightarrow>
          Some (c, st\<lparr>ct_hash := fst (hash_delete snd (ct_hash st) (a, cm_name c)),
                      ct_list := remove1 a (ct_list st)\<rparr>))"

text \<open>The walk over the list of commands; \<open>rem\<close> is the recursive call.\<close>

primrec remove_aliases ::
  "('f cmdtab \<Rightarrow> cstring \<Rightarrow> 'f cmdtab option) \<Rightarrow> nat \<Rightarrow> nat list \<Rightarrow> 'f cmdtab \<Rightarrow> 'f cmdtab option" where
  "remove_aliases rem a [] st = Some st"
| "remove_aliases rem a (x # xs) st =
     (case ct_mem st x of
        None \<Rightarrow> None
      | Some c \<Rightarrow>
          (case (if is_alias c \<and> cm_dll c = Alias_of a then rem st (cm_name c) else Some st) of
             None \<Rightarrow> None
           | Some st' \<Rightarrow> remove_aliases rem a xs st'))"

definition free_command :: "'f cmdtab \<Rightarrow> nat \<Rightarrow> 'f cmdtab" where
  "free_command st a = st\<lparr>ct_mem := (ct_mem st)(a := None)\<rparr>"

text \<open>The recursion is bounded by its first argument; aliases have a single depth, so two is enough.\<close>

primrec remove_command_n :: "nat \<Rightarrow> 'f cmdtab \<Rightarrow> cstring \<Rightarrow> 'f cmdtab option" where
  "remove_command_n 0 st name = None"
| "remove_command_n (Suc d) st name =
     (case find_command st name of
        None \<Rightarrow> Some st
      | Some a \<Rightarrow>
          (case unlink_command st a of
             None \<Rightarrow> None
           | Some (c, st1) \<Rightarrow>
               if is_alias c then Some (free_command st1 a)
               else
                 (case remove_aliases (remove_command_n d) a (ct_list st1) st1 of
                    None \<Rightarrow> None
                  | Some st2 \<Rightarrow>
                      Some (free_command
                        (st2\<lparr>ct_privs_gone := (if - 1 < cm_priv c then cm_priv c # ct_privs_gone st2 else ct_privs_gone st2),
                             ct_unloaded := (case cm_dll c of Module m \<Rightarrow> m # ct_unloaded st2 | _ \<Rightarrow> ct_unloaded st2)\<rparr>) a))))"

definition remove_command :: "'f cmdtab \<Rightarrow> cstring \<Rightarrow> 'f cmdtab option" where
  "remove_command st name = remove_command_n 2 st name"

text \<open>The weight of the configuration.\<close>

definition conf_weight :: "cstring \<Rightarrow> int" where
  "conf_weight s =
     (if ith_strcasecmp s ''none'' = 0 then COMMAND_WEIGHT_NONE
      else if ith_strcasecmp s ''low'' = 0 then COMMAND_WEIGHT_LOW
      else if ith_strcasecmp s ''medium'' = 0 then COMMAND_WEIGHT_MEDIUM
      else if ith_strcasecmp s ''high'' = 0 then COMMAND_WEIGHT_HIGH
      else if ith_strcasecmp s ''extreme'' = 0 then COMMAND_WEIGHT_EXTREME
      else str_conv_int (Some s) COMMAND_WEIGHT_NONE)"

primrec add_aliases :: "cstring \<Rightarrow> cstring list \<Rightarrow> 'f cmdtab \<Rightarrow> 'f cmdtab option" where
  "add_aliases name [] st = Some st"
| "add_aliases name (s # ss) st =
     (case add_command_alias st name s of None \<Rightarrow> None | Some st' \<Rightarrow> add_aliases name ss st')"

text \<open>The settings of the configuration: the weight and the aliases, if there are any.\<close>

definition configure_command ::
  "(cstring \<Rightarrow> (cstring option \<times> cstring list) option) \<Rightarrow> nat \<Rightarrow> 'f cmdtab \<Rightarrow> 'f cmdtab option" where
  "configure_command conf a st =
     (case ct_mem st a of
        None \<Rightarrow> None
      | Some c \<Rightarrow>
          (case conf (cm_name c) of
             None \<Rightarrow> Some st
           | Some (weight, aliases) \<Rightarrow>
               add_aliases (cm_name c) aliases
                 (case weight of None \<Rightarrow> st
                  | Some w \<Rightarrow> st\<lparr>ct_mem := (ct_mem st)(a \<mapsto> c\<lparr>cm_weight := conf_weight w\<rparr>)\<rparr>)))"

text \<open>The longest name whose symbols fit into \<^verbatim>\<open>fn_name[33]\<close>, as \<^verbatim>\<open>c_<name>_flags\<close>.\<close>

definition MAX_SYMBOL_NAME :: nat where "MAX_SYMBOL_NAME = 24"

text \<open>The command is made and inserted when its module is there.\<close>

definition insert_command ::
  "(cstring \<Rightarrow> ('f half \<times> 'f half) option) \<Rightarrow> (cstring \<Rightarrow> int)
     \<Rightarrow> (cstring \<Rightarrow> (cstring option \<times> cstring list) option)
     \<Rightarrow> 'f cmdtab \<Rightarrow> cstring \<Rightarrow> ('f cmdtab \<times> bool) option" where
  "insert_command symbols create_privilege conf st name =
     (case symbols name of
        None \<Rightarrow> Some (st, False)
      | Some (client, server) \<Rightarrow>
          if MAX_SYMBOL_NAME < length name then None
          else if hf_cmd client = None \<and> hf_cmd server = None then Some (st, False)
          else
            (case put_command \<lparr>cm_weight = 0, cm_name = take COMMAND_MAXLEN name,
                  cm_dll = Module (''ircd/commands/'' @ name),
                  cm_priv = create_privilege (''command-'' @ name), cm_flags = 0,
                  cm_client = client\<lparr>hf_ev := Ev_null\<rparr>, cm_server = server\<lparr>hf_ev := Ev_null\<rparr>\<rparr> st of
               None \<Rightarrow> None
             | Some st' \<Rightarrow> map_option (\<lambda>s. (s, True)) (configure_command conf (ct_next st) st')))"

text \<open>\<open>load\<close> is the call of \<^verbatim>\<open>load_module\<close> for a module that is not loaded yet.\<close>

definition add_command_with where
  "add_command_with load symbols create_privilege conf st name =
     (if name = [] then Some (st, False)
      else
        (let found = find_command st name; c = (case found of None \<Rightarrow> None | Some a \<Rightarrow> ct_mem st a) in
         if found \<noteq> None \<and> c = None then None
         else if found = None \<or> is_alias (the c) then
           (case (if found = None then Some st else remove_command st (cm_name (the c))) of
              None \<Rightarrow> None
            | Some st \<Rightarrow>
                (case (if name \<in> set (ct_loaded st) then Some (st, True) else load st name) of
                   None \<Rightarrow> None
                 | Some (st, ok) \<Rightarrow>
                     if ok then insert_command symbols create_privilege conf st name else Some (st, False)))
         else map_option (\<lambda>s. (s, True)) (configure_command conf (the found) st)))"

text \<open>
  \<^verbatim>\<open>load_module\<close> of a command module (\<^verbatim>\<open>module.c\<close>), as far as commands go: the module is marked, its event
  calls \<^verbatim>\<open>ircd_loadmodule_hook\<close>, which adds the command, and then its loader runs, which may add
  aliases of it.
\<close>

definition load_command_module where
  "load_command_module symbols create_privilege conf loader st name =
     (if name \<in> set (ct_loaded st) then Some (st, True)
      else
        (case symbols name of
           None \<Rightarrow> Some (st, False)
         | Some _ \<Rightarrow>
             (case add_command_with (\<lambda>s _. Some (s, True)) symbols create_privilege conf
                 (st\<lparr>ct_loaded := name # ct_loaded st\<rparr>) name of
                None \<Rightarrow> None
              | Some (st', _) \<Rightarrow> map_option (\<lambda>s. (s, True)) (add_aliases name (loader name) st'))))"

definition add_command where
  "add_command symbols create_privilege conf loader st name =
     add_command_with (load_command_module symbols create_privilege conf loader) symbols create_privilege conf st name"

text \<open>One entry of \<^verbatim>\<open>ircd_parse_commands\<close> (\<^verbatim>\<open>conf.c\<close>), and the unloading of a command module.\<close>

definition conf_command where
  "conf_command symbols create_privilege conf loader st name =
     (if find_command st name = None then load_command_module symbols create_privilege conf loader st name
      else add_command symbols create_privilege conf loader st name)"

definition unload_command_module :: "'f cmdtab \<Rightarrow> cstring \<Rightarrow> 'f cmdtab option" where
  "unload_command_module st name =
     (if name \<in> set (ct_loaded st) then remove_command (st\<lparr>ct_loaded := removeAll name (ct_loaded st)\<rparr>) name
      else Some st)"

section \<open>Hooks on commands\<close>

definition resolve :: "'f cmdtab \<Rightarrow> cstring \<Rightarrow> nat option option" where
  "resolve st name =
     (case find_command st name of
        None \<Rightarrow> Some None
      | Some a \<Rightarrow>
          (case ct_mem st a of
             None \<Rightarrow> None
           | Some c \<Rightarrow>
               if is_alias c then (case cm_dll c of Alias_of t \<Rightarrow> Some (Some t) | _ \<Rightarrow> None) else Some (Some a)))"

text \<open>The hook is put on the event of one half; a half without a function takes none.\<close>

definition half_add_hook :: "'f half \<Rightarrow> nat \<Rightarrow> u32 \<Rightarrow> ('f half \<times> bool) option" where
  "half_add_hook h hook flags =
     (if hf_cmd h = None then Some (h, False)
      else
        (case (case hf_ev h of Ev_null \<Rightarrow> Some (create_event init_maxhooks 0 EVENT_FL_NORETURN) | Ev e \<Rightarrow> Some e | Ev_freed \<Rightarrow> None) of
           None \<Rightarrow> None
         | Some e \<Rightarrow>
             Some (h\<lparr>hf_ev := Ev (fst (add_hook_after e hook None)), hf_flags := hf_flags h OR flags\<rparr>, True)))"

definition half_remove_hook :: "'f half \<Rightarrow> nat \<Rightarrow> 'f half option" where
  "half_remove_hook h hook =
     (if hf_cmd h = None then Some h
      else
        (case hf_ev h of
           Ev e \<Rightarrow>
             (let e' = fst (remove_hook e hook) in
              if ev_numhooks e' = 0 then
                Some (h\<lparr>hf_ev := Ev_freed,
                        hf_flags := hf_flags h AND NOT (COMMAND_FL_HOOKED OR COMMAND_FL_EXCL_HOOK)\<rparr>)
              else Some (h\<lparr>hf_ev := Ev e'\<rparr>))
         | _ \<Rightarrow> None))"

definition put_half :: "bool \<Rightarrow> 'f half \<Rightarrow> 'f command \<Rightarrow> 'f command" where
  "put_half client h c = (if client then c\<lparr>cm_client := h\<rparr> else c\<lparr>cm_server := h\<rparr>)"

definition get_half :: "bool \<Rightarrow> 'f command \<Rightarrow> 'f half" where
  "get_half client c = (if client then cm_client c else cm_server c)"

definition command_add_hook :: "'f cmdtab \<Rightarrow> cstring \<Rightarrow> bool \<Rightarrow> nat \<Rightarrow> u32 \<Rightarrow> ('f cmdtab \<times> bool) option" where
  "command_add_hook st name client hook flags =
     (case resolve st name of
        None \<Rightarrow> None
      | Some None \<Rightarrow> Some (st, False)
      | Some (Some a) \<Rightarrow>
          (case ct_mem st a of
             None \<Rightarrow> None
           | Some c \<Rightarrow>
               (case half_add_hook (get_half client c) hook (flags OR COMMAND_FL_HOOKED) of
                  None \<Rightarrow> None
                | Some (h, ok) \<Rightarrow> Some (st\<lparr>ct_mem := (ct_mem st)(a \<mapsto> put_half client h c)\<rparr>, ok))))"

definition command_remove_hook :: "'f cmdtab \<Rightarrow> cstring \<Rightarrow> bool \<Rightarrow> nat \<Rightarrow> 'f cmdtab option" where
  "command_remove_hook st name client hook =
     (case resolve st name of
        None \<Rightarrow> None
      | Some None \<Rightarrow> Some st
      | Some (Some a) \<Rightarrow>
          (case ct_mem st a of
             None \<Rightarrow> None
           | Some c \<Rightarrow>
               map_option (\<lambda>h. st\<lparr>ct_mem := (ct_mem st)(a \<mapsto> put_half client h c)\<rparr>)
                 (half_remove_hook (get_half client c) hook)))"

section \<open>The table is consistent\<close>

definition same_name :: "cstring \<Rightarrow> cstring \<Rightarrow> bool" where
  "same_name a b \<longleftrightarrow> same_nocase (take COMMAND_MAXLEN a) (take COMMAND_MAXLEN b)"

lemma same_name_refl [simp]: "same_name a a" and same_name_sym: "same_name a b \<Longrightarrow> same_name b a"
  and same_name_trans: "same_name a b \<Longrightarrow> same_name b c \<Longrightarrow> same_name a c"
  by (simp_all add: same_name_def same_nocase_def)

lemma same_name_take [simp]: "same_name (take COMMAND_MAXLEN a) b = same_name a b" "same_name b (take COMMAND_MAXLEN a) = same_name b a"
  by (simp_all add: same_name_def)

lemma string_cmp_name: "short_str a \<Longrightarrow> short_str b \<Longrightarrow> string_cmp a b COMMAND_MAXLEN = 0 \<longleftrightarrow> same_name a b"
  by (simp add: string_cmp_def same_name_def short_str_def strncasecmp_zero_iff)

text \<open>
  \<open>core_ok X\<close>: the commands of the list are those of the hash table, each name is there once, and
  every alias has a real command for its target; \<open>X\<close> are commands in memory that are out of the
  list already.
\<close>

definition core_ok :: "nat set \<Rightarrow> 'f cmdtab \<Rightarrow> bool" where
  "core_ok X st \<longleftrightarrow>
     string_table snd COMMAND_MAXLEN (ct_hash st) \<and>
     ht_ents (ct_hash st) = mset (map (\<lambda>a. (a, cm_name (the (ct_mem st a)))) (ct_list st)) \<and>
     distinct (ct_list st) \<and> set (ct_list st) \<inter> X = {} \<and> dom (ct_mem st) = set (ct_list st) \<union> X \<and>
     (\<forall>a \<in> dom (ct_mem st). a < ct_next st) \<and>
     (\<forall>a \<in> set (ct_list st). \<forall>b \<in> set (ct_list st).
        same_name (cm_name (the (ct_mem st a))) (cm_name (the (ct_mem st b))) \<longrightarrow> a = b) \<and>
     (\<forall>a c. ct_mem st a = Some c \<longrightarrow>
        (if is_alias c then (\<exists>t d. cm_dll c = Alias_of t \<and> ct_mem st t = Some d \<and> \<not> is_alias d)
         else (\<exists>m. cm_dll c = Module m)))"

abbreviation tab_ok :: "'f cmdtab \<Rightarrow> bool" where
  "tab_ok \<equiv> core_ok {}"

lemma core_okD:
  assumes "core_ok X st"
  shows "string_table snd COMMAND_MAXLEN (ct_hash st)"
    "ht_ents (ct_hash st) = mset (map (\<lambda>a. (a, cm_name (the (ct_mem st a)))) (ct_list st))"
    "distinct (ct_list st)" "set (ct_list st) \<inter> X = {}" "dom (ct_mem st) = set (ct_list st) \<union> X"
    "\<And>a c. ct_mem st a = Some c \<Longrightarrow> a < ct_next st"
    "\<And>a b. a \<in> set (ct_list st) \<Longrightarrow> b \<in> set (ct_list st) \<Longrightarrow>
        same_name (cm_name (the (ct_mem st a))) (cm_name (the (ct_mem st b))) \<Longrightarrow> a = b"
    "\<And>a c. ct_mem st a = Some c \<Longrightarrow> is_alias c \<Longrightarrow> \<exists>t d. cm_dll c = Alias_of t \<and> ct_mem st t = Some d \<and> \<not> is_alias d"
    "\<And>a c. ct_mem st a = Some c \<Longrightarrow> \<not> is_alias c \<Longrightarrow> \<exists>m. cm_dll c = Module m"
  using assms unfolding core_ok_def by (auto split: if_splits)

lemma listed:
  assumes "core_ok X st" "a \<in> set (ct_list st)"
  obtains c where "ct_mem st a = Some c" "short_str (cm_name c)"
proof -
  have "a \<in> dom (ct_mem st)" using core_okD(5) [OF assms(1)] assms(2) by simp
  then obtain c where c: "ct_mem st a = Some c" by auto
  have "(a, cm_name c) \<in># ht_ents (ct_hash st)" unfolding core_okD(2) [OF assms(1)] using assms(2) c by force
  then have "short_str (cm_name c)" using core_okD(1) [OF assms(1)] by (force simp: table_with_def)
  then show thesis using c that by simp
qed

lemma find_command_iff:
  assumes "core_ok X st" "short_str name"
  shows "find_command st name = Some a \<longleftrightarrow> a \<in> set (ct_list st) \<and> same_name (cm_name (the (ct_mem st a))) name"
proof -
  note t = core_okD(1) [OF assms(1)] and e = core_okD(2) [OF assms(1)]
  have ent: "x \<in># ht_ents (ct_hash st) \<longleftrightarrow> fst x \<in> set (ct_list st) \<and> snd x = cm_name (the (ct_mem st (fst x)))" for x
    unfolding e by (cases x) auto
  have cmp: "string_cmp (snd x) name COMMAND_MAXLEN = 0 \<longleftrightarrow> same_name (snd x) name" if "x \<in># ht_ents (ct_hash st)" for x
    using t that assms(2) by (simp add: table_with_def string_cmp_name)
  show ?thesis
  proof
    assume "find_command st name = Some a"
    then obtain x where x: "hash_find snd (ct_hash st) name = Some x" "a = fst x" by (auto simp: find_command_def)
    show "a \<in> set (ct_list st) \<and> same_name (cm_name (the (ct_mem st a))) name"
      using command_table.fnd_Some [OF t assms(2) x(1)] ent [of x] cmp [of x] x(2) by auto
  next
    assume a: "a \<in> set (ct_list st) \<and> same_name (cm_name (the (ct_mem st a))) name"
    let ?x = "(a, cm_name (the (ct_mem st a)))"
    have "?x \<in># ht_ents (ct_hash st)" using a ent [of ?x] by simp
    then obtain y where y: "hash_find snd (ct_hash st) name = Some y"
      using command_table.fnd_None [OF t assms(2), of ?x] cmp [of ?x] a by (cases "hash_find snd (ct_hash st) name") auto
    have yy: "y \<in># ht_ents (ct_hash st)" "same_name (snd y) name"
      using command_table.fnd_Some [OF t assms(2) y] cmp [of y] by simp_all
    then have "fst y \<in> set (ct_list st)" "snd y = cm_name (the (ct_mem st (fst y)))" using ent by auto
    then have "fst y = a"
      using core_okD(7) [OF assms(1), of "fst y" a] a yy(2) same_name_trans same_name_sym by metis
    then show "find_command st name = Some a" using y by (simp add: find_command_def)
  qed
qed

lemma find_command_None:
  assumes "core_ok X st" "short_str name" "find_command st name = None" "a \<in> set (ct_list st)"
  shows "\<not> same_name (cm_name (the (ct_mem st a))) name"
  using find_command_iff [OF assms(1,2), of a] assms(3,4) by auto

lemma find_command_self:
  assumes "core_ok X st" "a \<in> set (ct_list st)" "ct_mem st a = Some c"
  shows "find_command st (cm_name c) = Some a"
  using find_command_iff [OF assms(1), of "cm_name c" a] listed [OF assms(1,2)] assms(2,3) by force

text \<open>A new command, and one taken out.\<close>

lemma put_command_ok:
  assumes ok: "tab_ok st" and c: "short_str (cm_name c)" "find_command st (cm_name c) = None"
    and few: "length (ct_list st) < 2 ^ 28"
    and kind: "if is_alias c then (\<exists>t d. cm_dll c = Alias_of t \<and> ct_mem st t = Some d \<and> \<not> is_alias d)
      else (\<exists>m. cm_dll c = Module m)"
  shows "\<exists>st'. put_command c st = Some st' \<and> tab_ok st' \<and> ct_mem st' = (ct_mem st)(ct_next st \<mapsto> c) \<and>
    ct_list st' = ct_next st # ct_list st"
proof -
  note D = core_okD [OF ok]
  have "unat (ht_entries (ct_hash st)) = length (ct_list st)"
    using D(1) arg_cong [OF D(2), of size] ht_ents_size [of "ct_hash st"]
    by (simp add: table_with_def ht_wf_def)
  then obtain t where t: "hash_insert snd (ct_hash st) (ct_next st, cm_name c) = Some t"
      "string_table snd COMMAND_MAXLEN t" "ht_ents t = add_mset (ct_next st, cm_name c) (ht_ents (ct_hash st))"
    using command_table.ins_ok [OF D(1), of "(ct_next st, cm_name c)"] few c(1) by auto
  let ?st = "st\<lparr>ct_mem := (ct_mem st)(ct_next st \<mapsto> c), ct_hash := t, ct_list := ct_next st # ct_list st,
      ct_next := ct_next st + 1\<rparr>"
  have fresh: "ct_mem st (ct_next st) = None" using D(6) by (cases "ct_mem st (ct_next st)") auto
  then have nl: "ct_next st \<notin> set (ct_list st)" using D(5) by auto
  have ents: "ht_ents t = mset (map (\<lambda>a. (a, cm_name (the (ct_mem ?st a)))) (ct_list ?st))"
    using nl by (auto simp: t(3) D(2) intro!: image_mset_cong)
  have names: "a = b" if "a \<in> set (ct_list ?st)" "b \<in> set (ct_list ?st)"
    "same_name (cm_name (the (ct_mem ?st a))) (cm_name (the (ct_mem ?st b)))" for a b
    using that D(7) [of a b] find_command_None [OF ok c, of a] find_command_None [OF ok c, of b] nl
    by (auto simp: same_name_sym split: if_splits)
  have kinds: "if is_alias d then (\<exists>t e. cm_dll d = Alias_of t \<and> ct_mem ?st t = Some e \<and> \<not> is_alias e)
      else (\<exists>m. cm_dll d = Module m)" if "ct_mem ?st a = Some d" for a d
  proof -
    have old: "\<exists>t e. cm_dll d = Alias_of t \<and> ct_mem ?st t = Some e \<and> \<not> is_alias e"
      if tgt: "\<exists>t e. cm_dll d = Alias_of t \<and> ct_mem st t = Some e \<and> \<not> is_alias e" for d
    proof -
      obtain t e where te: "cm_dll d = Alias_of t" "ct_mem st t = Some e" "\<not> is_alias e" using tgt by blast
      then have "t \<noteq> ct_next st" using fresh by auto
      then show ?thesis using te by auto
    qed
    show ?thesis
    proof (cases "a = ct_next st")
      case True
      then have "d = c" using that by simp
      show ?thesis unfolding \<open>d = c\<close>
      proof (cases "is_alias c")
        case al: True
        have "\<exists>t e. cm_dll c = Alias_of t \<and> ct_mem st t = Some e \<and> \<not> is_alias e"
          using kind unfolding if_P [OF al] .
        from old [OF this] show "if is_alias c then \<exists>t e. cm_dll c = Alias_of t \<and> ct_mem ?st t = Some e \<and> \<not> is_alias e
          else \<exists>m. cm_dll c = Module m" unfolding if_P [OF al] .
      qed (use kind in simp)
    next
      case False
      then have "ct_mem st a = Some d" using that by simp
      then show ?thesis using D(8,9) [of a d] old [of d]
        by (cases "is_alias d") (simp_all only: if_True if_False simp_thms)
    qed
  qed
  have "string_table snd COMMAND_MAXLEN (ct_hash ?st)" "distinct (ct_list ?st)" "set (ct_list ?st) \<inter> {} = {}"
    "dom (ct_mem ?st) = set (ct_list ?st) \<union> {}" "\<forall>x\<in>dom (ct_mem ?st). x < ct_next ?st"
    using t(2) D(3,5,6) nl by (auto simp: less_Suc_eq)
  moreover have "ht_ents (ct_hash ?st) = mset (map (\<lambda>a. (a, cm_name (the (ct_mem ?st a)))) (ct_list ?st))"
    using ents by simp
  moreover have "\<forall>a\<in>set (ct_list ?st). \<forall>b\<in>set (ct_list ?st).
      same_name (cm_name (the (ct_mem ?st a))) (cm_name (the (ct_mem ?st b))) \<longrightarrow> a = b"
    using names by blast
  moreover have "\<forall>b d. ct_mem ?st b = Some d \<longrightarrow>
      (if is_alias d then (\<exists>t e. cm_dll d = Alias_of t \<and> ct_mem ?st t = Some e \<and> \<not> is_alias e)
       else (\<exists>m. cm_dll d = Module m))" using kinds by blast
  ultimately have "tab_ok ?st" unfolding core_ok_def by (intro conjI)
  then show ?thesis using t(1) by (simp add: put_command_def)
qed

text \<open>A command leaves the list: with \<open>X\<close> it may stay in memory for a while.\<close>

lemma unlink_ok:
  assumes ok: "core_ok X st" and a: "a \<in> set (ct_list st)" "ct_mem st a = Some c"
  obtains st' where "unlink_command st a = Some (c, st')" "core_ok (insert a X) st'"
    "ct_mem st' = ct_mem st" "ct_list st' = remove1 a (ct_list st)" "ct_next st' = ct_next st"
    "ct_unloaded st' = ct_unloaded st" "ct_privs_gone st' = ct_privs_gone st"
proof -
  note D = core_okD [OF ok]
  let ?t = "fst (hash_delete snd (ct_hash st) (a, cm_name c))"
  let ?st = "st\<lparr>ct_hash := ?t, ct_list := remove1 a (ct_list st)\<rparr>"
  obtain c' where "ct_mem st a = Some c'" "short_str (cm_name c')" using listed [OF ok a(1)] .
  then have sh: "short_str (snd (a, cm_name c))" using a(2) by simp
  note del = command_table.del_ok [OF D(1) sh]
  have "ht_ents (ct_hash ?st) = mset (map (\<lambda>x. (x, cm_name (the (ct_mem ?st x)))) (ct_list ?st))"
    using del D(2) a by (simp add: image_mset_Diff)
  moreover have "string_table snd COMMAND_MAXLEN (ct_hash ?st)" using del by simp
  moreover have "distinct (ct_list ?st)" "set (ct_list ?st) \<inter> insert a X = {}"
    "dom (ct_mem ?st) = set (ct_list ?st) \<union> insert a X"
    using D(3-5) a by auto
  moreover have "\<forall>x\<in>dom (ct_mem ?st). x < ct_next ?st" using D(6) by auto
  moreover have "\<forall>x\<in>set (ct_list ?st). \<forall>y\<in>set (ct_list ?st).
      same_name (cm_name (the (ct_mem ?st x))) (cm_name (the (ct_mem ?st y))) \<longrightarrow> x = y"
    using D(7) by (auto dest: notin_set_remove1)
  moreover have "\<forall>b d. ct_mem ?st b = Some d \<longrightarrow>
      (if is_alias d then (\<exists>t e. cm_dll d = Alias_of t \<and> ct_mem ?st t = Some e \<and> \<not> is_alias e)
       else (\<exists>m. cm_dll d = Module m))" using ok unfolding core_ok_def by (simp cong: if_cong)
  ultimately have "core_ok (insert a X) ?st" unfolding core_ok_def by (intro conjI)
  then show thesis using that [of ?st] a by (simp add: unlink_command_def)
qed

lemma free_ok:
  assumes ok: "core_ok (insert a X) st" "a \<notin> X"
    and free: "\<And>b d. ct_mem st b = Some d \<Longrightarrow> is_alias d \<Longrightarrow> b \<noteq> a \<Longrightarrow> cm_dll d \<noteq> Alias_of a"
  shows "core_ok X (free_command st a)"
proof -
  note D = core_okD [OF ok(1)]
  have na: "a \<notin> set (ct_list st)" using D(4) by auto
  have e: "map (\<lambda>x. (x, cm_name (the (ct_mem (free_command st a) x)))) (ct_list st) =
      map (\<lambda>x. (x, cm_name (the (ct_mem st x)))) (ct_list st)"
    using na by (auto simp: free_command_def)
  have k: "if is_alias d then (\<exists>t e. cm_dll d = Alias_of t \<and> ct_mem (free_command st a) t = Some e \<and> \<not> is_alias e)
      else (\<exists>m. cm_dll d = Module m)" if m: "ct_mem (free_command st a) b = Some d" for b d
  proof -
    have b: "b \<noteq> a" "ct_mem st b = Some d" using m by (auto simp: free_command_def split: if_splits)
    show ?thesis
    proof (cases "is_alias d")
      case True
      obtain t e where "cm_dll d = Alias_of t" "ct_mem st t = Some e" "\<not> is_alias e" using D(8) [OF b(2) True] by blast
      moreover from this have "t \<noteq> a" using free [OF b(2) True b(1)] by auto
      ultimately show ?thesis using True by (auto simp: free_command_def)
    qed (use D(9) [OF b(2)] in simp)
  qed
  let ?st = "free_command st a"
  have f: "ct_list ?st = ct_list st" "ct_hash ?st = ct_hash st" "ct_next ?st = ct_next st"
    by (simp_all add: free_command_def)
  have "ht_ents (ct_hash ?st) = mset (map (\<lambda>x. (x, cm_name (the (ct_mem ?st x)))) (ct_list ?st))"
    unfolding f e by (rule D(2))
  moreover have "string_table snd COMMAND_MAXLEN (ct_hash ?st)" "distinct (ct_list ?st)" "set (ct_list ?st) \<inter> X = {}"
    using D(1,3,4) f by auto
  moreover have "dom (ct_mem ?st) = set (ct_list ?st) \<union> X"
    using D(5) na ok(2) unfolding f by (auto simp: free_command_def)
  moreover have "\<forall>x\<in>dom (ct_mem ?st). x < ct_next ?st"
    using D(6) unfolding f by (auto simp: free_command_def split: if_splits)
  moreover have "\<forall>x\<in>set (ct_list ?st). \<forall>y\<in>set (ct_list ?st).
      same_name (cm_name (the (ct_mem ?st x))) (cm_name (the (ct_mem ?st y))) \<longrightarrow> x = y"
    using D(7) na unfolding f by (auto simp: free_command_def split: if_splits)
  moreover have "\<forall>b d. ct_mem ?st b = Some d \<longrightarrow>
      (if is_alias d then (\<exists>t e. cm_dll d = Alias_of t \<and> ct_mem ?st t = Some e \<and> \<not> is_alias e)
       else (\<exists>m. cm_dll d = Module m))" using k by blast
  ultimately show ?thesis unfolding core_ok_def by (intro conjI)
qed

lemma remove_alias_ok:
  assumes ok: "core_ok X st" and x: "x \<in> set (ct_list st)" "ct_mem st x = Some c" "is_alias c"
  shows "\<exists>st'. remove_command_n (Suc d) st (cm_name c) = Some st' \<and> core_ok X st' \<and>
    ct_mem st' = (ct_mem st)(x := None) \<and> ct_list st' = remove1 x (ct_list st) \<and>
    ct_unloaded st' = ct_unloaded st \<and> ct_privs_gone st' = ct_privs_gone st"
proof -
  obtain st1 where u: "unlink_command st x = Some (c, st1)" "core_ok (insert x X) st1" "ct_mem st1 = ct_mem st"
    "ct_list st1 = remove1 x (ct_list st)" "ct_next st1 = ct_next st"
    "ct_unloaded st1 = ct_unloaded st" "ct_privs_gone st1 = ct_privs_gone st"
    using unlink_ok [OF ok x(1,2)] .
  have nx: "x \<notin> X" using core_okD(4) [OF ok] x(1) by auto
  have "cm_dll d \<noteq> Alias_of x" if "ct_mem st b = Some d" "is_alias d" for b d
    using core_okD(8) [OF ok that] x(2,3) by auto
  then have f: "core_ok X (free_command st1 x)" using u(3) by (intro free_ok [OF u(2) nx]) auto
  have "remove_command_n (Suc d) st (cm_name c) = Some (free_command st1 x)"
    using find_command_self [OF ok x(1,2)] u(1) x(3) by simp
  then show ?thesis using f u(3,4,6,7) by (auto simp: free_command_def)
qed

lemma remove_aliases_ok:
  assumes "core_ok {a} st" "distinct xs" "set xs \<subseteq> set (ct_list st)"
  shows "\<exists>st'. remove_aliases (remove_command_n (Suc d)) a xs st = Some st' \<and> core_ok {a} st' \<and>
    (\<forall>y. ct_mem st' y = (if y \<in> set xs \<and> (\<exists>c. ct_mem st y = Some c \<and> is_alias c \<and> cm_dll c = Alias_of a)
      then None else ct_mem st y)) \<and>
    ct_unloaded st' = ct_unloaded st \<and> ct_privs_gone st' = ct_privs_gone st"
  using assms
proof (induction xs arbitrary: st)
  case (Cons x xs)
  have x: "x \<in> set (ct_list st)" using Cons.prems(3) by simp
  obtain c where c: "ct_mem st x = Some c" using listed [OF Cons.prems(1) x] by blast
  have xs: "distinct xs" "x \<notin> set xs" using Cons.prems(2) by auto
  show ?case
  proof (cases "is_alias c \<and> cm_dll c = Alias_of a")
    case False
    then show ?thesis using Cons.IH [OF Cons.prems(1) xs(1)] Cons.prems(3) c by auto
  next
    case True
    obtain st1 where r: "remove_command_n (Suc d) st (cm_name c) = Some st1" "core_ok {a} st1"
      "ct_mem st1 = (ct_mem st)(x := None)" "ct_list st1 = remove1 x (ct_list st)"
      "ct_unloaded st1 = ct_unloaded st" "ct_privs_gone st1 = ct_privs_gone st"
      using remove_alias_ok [OF Cons.prems(1) x c, of d] True by blast
    have "set xs \<subseteq> set (ct_list st1)"
      using Cons.prems(3) xs(2) core_okD(3) [OF Cons.prems(1)] r(4) by auto
    from Cons.IH [OF r(2) xs(1) this] obtain st2 where st2:
      "remove_aliases (remove_command_n (Suc d)) a xs st1 = Some st2" "core_ok {a} st2"
      "\<forall>y. ct_mem st2 y = (if y \<in> set xs \<and> (\<exists>c. ct_mem st1 y = Some c \<and> is_alias c \<and> cm_dll c = Alias_of a)
        then None else ct_mem st1 y)"
      "ct_unloaded st2 = ct_unloaded st1" "ct_privs_gone st2 = ct_privs_gone st1" by blast
    have "remove_aliases (remove_command_n (Suc d)) a (x # xs) st = Some st2"
      using c True r(1) st2(1) by (simp del: remove_command_n.simps)
    moreover have "ct_mem st2 y = (if y \<in> set (x # xs) \<and> (\<exists>c. ct_mem st y = Some c \<and> is_alias c \<and> cm_dll c = Alias_of a)
      then None else ct_mem st y)" for y
    using st2(3) [rule_format, of y] r(3) True c xs(2) by (cases "y = x") auto
  ultimately show ?thesis using st2(2,4,5) r(5,6) by (intro exI [of _ st2]) (simp del: remove_aliases.simps remove_command_n.simps)
  qed
qed simp

lemma remove_command_ok:
  assumes ok: "tab_ok st" and f: "find_command st name = Some a" "short_str name"
    and c: "ct_mem st a = Some c" "\<not> is_alias c"
  shows "\<exists>st'. remove_command st name = Some st' \<and> tab_ok st' \<and>
    (\<forall>y. ct_mem st' y = (if y = a \<or> (\<exists>d. ct_mem st y = Some d \<and> is_alias d \<and> cm_dll d = Alias_of a)
      then None else ct_mem st y)) \<and>
    (\<exists>m. cm_dll c = Module m \<and> ct_unloaded st' = m # ct_unloaded st)"
proof -
  have a: "a \<in> set (ct_list st)" using iffD1 [OF find_command_iff [OF ok f(2)] f(1)] by simp
  obtain st1 where u: "unlink_command st a = Some (c, st1)" "core_ok (insert a {}) st1" "ct_mem st1 = ct_mem st"
    "ct_list st1 = remove1 a (ct_list st)" "ct_next st1 = ct_next st"
    "ct_unloaded st1 = ct_unloaded st" "ct_privs_gone st1 = ct_privs_gone st"
    using unlink_ok [OF ok a c(1)] .
  obtain st2 where r: "remove_aliases (remove_command_n (Suc 0)) a (ct_list st1) st1 = Some st2" "core_ok {a} st2"
    "\<forall>y. ct_mem st2 y = (if y \<in> set (ct_list st1) \<and> (\<exists>c. ct_mem st1 y = Some c \<and> is_alias c \<and> cm_dll c = Alias_of a)
      then None else ct_mem st1 y)" "ct_unloaded st2 = ct_unloaded st1"
    using remove_aliases_ok [OF u(2) core_okD(3) [OF u(2)] subset_refl, of 0] by blast
  obtain m where m: "cm_dll c = Module m" using core_okD(9) [OF ok c] by blast
  let ?st2 = "st2\<lparr>ct_privs_gone := (if - 1 < cm_priv c then cm_priv c # ct_privs_gone st2 else ct_privs_gone st2),
      ct_unloaded := m # ct_unloaded st2\<rparr>"
  have "core_ok (insert a {}) ?st2" using r(2) by (simp add: core_ok_def cong: if_cong)
  moreover have l: "y \<in> set (ct_list st1)" if "ct_mem st y = Some d" "y \<noteq> a" for y d
  proof -
    have "y \<in> dom (ct_mem st)" using that by auto
    then show ?thesis using that core_okD(5) [OF ok] u(4) by auto
  qed
  moreover have "cm_dll d \<noteq> Alias_of a" if "ct_mem ?st2 b = Some d" "is_alias d" "b \<noteq> a" for b d
    using that r(3) u(3) l by (auto split: if_splits)
  ultimately have "tab_ok (free_command ?st2 a)" by (intro free_ok) auto
  moreover have "remove_command st name = Some (free_command ?st2 a)"
    unfolding remove_command_def numeral_2_eq_2 remove_command_n.simps(2) [of "Suc 0"]
    using f(1) u(1) c(2) r(1) m by (simp del: remove_command_n.simps)
  moreover have "ct_mem (free_command ?st2 a) y = (if y = a \<or> (\<exists>d. ct_mem st y = Some d \<and> is_alias d \<and> cm_dll d = Alias_of a)
      then None else ct_mem st y)" for y
    using r(3) u(3) l [of y] by (auto simp: free_command_def)
  ultimately show ?thesis using m r(4) u(6) by (intro exI [of _ "free_command ?st2 a"]) (simp add: free_command_def)
qed

text \<open>Changing a command keeps the table consistent when its name and its kind stay.\<close>

lemma change_command_ok:
  assumes ok: "tab_ok st" and c: "ct_mem st a = Some c"
    and same: "cm_name c' = cm_name c" "cm_dll c' = cm_dll c" "cm_flags c' = cm_flags c"
  shows "tab_ok (st\<lparr>ct_mem := (ct_mem st)(a \<mapsto> c')\<rparr>)"
proof -
  note D = core_okD [OF ok]
  let ?st = "st\<lparr>ct_mem := (ct_mem st)(a \<mapsto> c')\<rparr>"
  have n: "cm_name (the (ct_mem ?st x)) = cm_name (the (ct_mem st x))" for x using c same(1) by simp
  have al: "is_alias c' = is_alias c" by (simp add: is_alias_def same(3))
  have tgt: "\<exists>e. ct_mem ?st t = Some e \<and> \<not> is_alias e" if "ct_mem st t = Some e" "\<not> is_alias e" for t e
    using that c al by (cases "t = a") auto
  have "string_table snd COMMAND_MAXLEN (ct_hash ?st)" "distinct (ct_list ?st)" "set (ct_list ?st) \<inter> {} = {}"
    "dom (ct_mem ?st) = set (ct_list ?st) \<union> {}" "\<forall>x\<in>dom (ct_mem ?st). x < ct_next ?st"
    using D(1,3,5,6) c by auto
  moreover have "ht_ents (ct_hash ?st) = mset (map (\<lambda>x. (x, cm_name (the (ct_mem ?st x)))) (ct_list ?st))"
    unfolding n using D(2) by simp
  moreover have "\<forall>x\<in>set (ct_list ?st). \<forall>y\<in>set (ct_list ?st).
      same_name (cm_name (the (ct_mem ?st x))) (cm_name (the (ct_mem ?st y))) \<longrightarrow> x = y"
    unfolding n using D(7) by auto
  moreover have "\<forall>b d. ct_mem ?st b = Some d \<longrightarrow>
      (if is_alias d then (\<exists>t e. cm_dll d = Alias_of t \<and> ct_mem ?st t = Some e \<and> \<not> is_alias e)
       else (\<exists>m. cm_dll d = Module m))"
  proof (intro allI impI)
    fix b d assume m: "ct_mem ?st b = Some d"
    obtain d' where d': "ct_mem st b = Some d'" "is_alias d = is_alias d'" "cm_dll d = cm_dll d'"
      using m c al same(2) by (cases "b = a") auto
    show "if is_alias d then (\<exists>t e. cm_dll d = Alias_of t \<and> ct_mem ?st t = Some e \<and> \<not> is_alias e)
       else (\<exists>m. cm_dll d = Module m)"
    proof (cases "is_alias d")
      case True
      then obtain t e where "cm_dll d = Alias_of t" "ct_mem st t = Some e" "\<not> is_alias e"
        using D(8) [OF d'(1)] d'(2,3) by auto
      with tgt [OF this(2,3)] show ?thesis using True by (simp only: if_True) blast
    qed (use D(9) [OF d'(1)] d'(2,3) in simp)
  qed
  ultimately show ?thesis unfolding core_ok_def by (intro conjI)
qed

lemma list_bound: "tab_ok st \<Longrightarrow> length (ct_list st) \<le> ct_next st"
proof -
  assume ok: "tab_ok st"
  have "set (ct_list st) \<subseteq> {..<ct_next st}"
    using core_okD(5,6) [OF ok] by (metis domD lessThan_iff subsetI sup_bot_right)
  from card_mono [OF finite_lessThan this] show ?thesis using core_okD(3) [OF ok] by (simp add: distinct_card)
qed

definition ADDRESSES :: nat where "ADDRESSES = 2 ^ 28"

lemma put_next: "put_command c st = Some st' \<Longrightarrow> ct_next st' = ct_next st + 1"
  by (auto simp: put_command_def split: option.splits)

lemma put_command_keeps:
  assumes "tab_ok st" "put_command c st = Some st'" "short_str (cm_name c)" "find_command st (cm_name c) = None"
    "ct_next st' \<le> ADDRESSES"
    "if is_alias c then (\<exists>t d. cm_dll c = Alias_of t \<and> ct_mem st t = Some d \<and> \<not> is_alias d)
      else (\<exists>m. cm_dll c = Module m)"
  shows "tab_ok st'" "ct_mem st' = (ct_mem st)(ct_next st \<mapsto> c)"
proof -
  have "length (ct_list st) < 2 ^ 28"
    using list_bound [OF assms(1)] put_next [OF assms(2)] assms(5) by (simp add: ADDRESSES_def)
  from put_command_ok [OF assms(1,3,4) this assms(6)] show "tab_ok st'" "ct_mem st' = (ct_mem st)(ct_next st \<mapsto> c)"
    using assms(2) by auto
qed

lemma short_str_take: "short_str s \<Longrightarrow> short_str (take n s)"
  by (auto simp: short_str_def min_def)

lemma find_command_same:
  assumes "core_ok X st" "short_str a" "short_str b" "same_name a b"
  shows "find_command st a = find_command st b"
proof -
  have "find_command st a = Some x \<longleftrightarrow> find_command st b = Some x" for x
    using find_command_iff [OF assms(1,2)] find_command_iff [OF assms(1,3)] assms(4) same_name_trans same_name_sym
    by blast
  then show ?thesis by (metis not_None_eq)
qed

lemma find_command_take: "tab_ok st \<Longrightarrow> short_str s \<Longrightarrow> find_command st (take COMMAND_MAXLEN s) = find_command st s"
  using find_command_iff [of "{}" st s] find_command_iff [of "{}" st "take COMMAND_MAXLEN s"] short_str_take [of s]
  by (intro option.expand) (auto; metis not_None_eq option.sel)+

definition names_real :: "'f cmdtab \<Rightarrow> cstring \<Rightarrow> bool" where
  "names_real st name \<longleftrightarrow> (\<exists>a c. find_command st name = Some a \<and> ct_mem st a = Some c \<and> \<not> is_alias c)"

lemma add_command_alias_keeps:
  assumes "tab_ok st" "add_command_alias st cmdname alias = Some st'" "short_str cmdname" "short_str alias"
    "names_real st cmdname" "ct_next st' \<le> ADDRESSES"
  shows "tab_ok st' \<and> ct_next st \<le> ct_next st' \<and> names_real st' cmdname"
proof -
  obtain a c where a: "find_command st cmdname = Some a" "ct_mem st a = Some c" "\<not> is_alias c"
    using assms(5) by (auto simp: names_real_def)
  show ?thesis
  proof (cases "find_command st alias")
    case (Some b)
    then show ?thesis using assms(1,2,5) a by (simp add: add_command_alias_def)
  next
    case None
    let ?c = "alias_command alias a"
    have p: "put_command ?c st = Some st'" using assms(2) None a by (simp add: add_command_alias_def)
    have n: "short_str (cm_name ?c)" "find_command st (cm_name ?c) = None"
      using short_str_take [OF assms(4)] find_command_take [OF assms(1,4)] None by (simp_all add: alias_command_def)
    have k: "if is_alias ?c then (\<exists>t d. cm_dll ?c = Alias_of t \<and> ct_mem st t = Some d \<and> \<not> is_alias d)
      else (\<exists>m. cm_dll ?c = Module m)"
      using a by (simp add: alias_command_def is_alias_def COMMAND_FL_ALIAS_def)
    note ok = put_command_keeps [OF assms(1) p n assms(6) k]
    have neq: "a \<noteq> ct_next st" using core_okD(6) [OF assms(1) a(2)] by simp
    have l: "a \<in> set (ct_list st) \<and> same_name (cm_name (the (ct_mem st a))) cmdname"
      using iffD1 [OF find_command_iff [OF assms(1,3)] a(1)] .
    have "ct_list st' = ct_next st # ct_list st" using p by (auto simp: put_command_def split: option.splits)
    then have "find_command st' cmdname = Some a"
      using iffD2 [OF find_command_iff [OF ok(1) assms(3)]] l ok(2) neq by simp
    then show ?thesis using ok a neq put_next [OF p] by (auto simp: names_real_def)
  qed
qed

lemma add_aliases_next: "add_aliases name as st = Some st' \<Longrightarrow> ct_next st \<le> ct_next st'"
proof (induction as arbitrary: st)
  case (Cons b bs)
  obtain u where "add_command_alias st name b = Some u" "add_aliases name bs u = Some st'"
    using Cons.prems by (auto split: option.splits)
  then show ?case using Cons.IH [of u] put_next [of _ st u]
    by (fastforce simp: add_command_alias_def split: option.splits)
qed simp

lemma add_aliases_keep:
  "tab_ok st \<Longrightarrow> add_aliases name as st = Some st' \<Longrightarrow> short_str name \<Longrightarrow> \<forall>a\<in>set as. short_str a \<Longrightarrow>
     names_real st name \<Longrightarrow> ct_next st' \<le> ADDRESSES \<Longrightarrow> tab_ok st' \<and> names_real st' name"
proof (induction as arbitrary: st)
  case (Cons a as)
  then obtain st1 where st1: "add_command_alias st name a = Some st1" "add_aliases name as st1 = Some st'"
    by (auto split: option.splits)
  have "ct_next st1 \<le> ADDRESSES" using add_aliases_next [OF st1(2)] Cons.prems(6) by simp
  from add_command_alias_keeps [OF Cons.prems(1) st1(1) Cons.prems(3) _ Cons.prems(5) this] Cons.prems(4)
  have "tab_ok st1 \<and> names_real st1 name" by simp
  then show ?case using Cons.IH [of st1] st1(2) Cons.prems(3,4,6) by auto
qed simp

definition conf_short :: "(cstring \<Rightarrow> (cstring option \<times> cstring list) option) \<Rightarrow> bool" where
  "conf_short conf \<longleftrightarrow> (\<forall>n w as. conf n = Some (w, as) \<longrightarrow> (\<forall>a\<in>set as. short_str a))"

lemma configure_command_keeps:
  assumes "tab_ok st" "configure_command conf a st = Some st'" "conf_short conf" "ct_next st' \<le> ADDRESSES"
    "a \<in> set (ct_list st)" "ct_mem st a = Some c" "\<not> is_alias c"
  shows "tab_ok st' \<and> names_real st' (cm_name c)"
proof (cases "conf (cm_name c)")
  case None
  then have "st' = st" using assms by (simp add: configure_command_def)
  then show ?thesis using assms find_command_self [OF assms(1,5,6)] by (auto simp: names_real_def)
next
  case (Some wa)
  obtain w as where wa: "wa = (w, as)" by (cases wa)
  let ?c = "case w of None \<Rightarrow> c | Some v \<Rightarrow> c\<lparr>cm_weight := conf_weight v\<rparr>"
  let ?st = "st\<lparr>ct_mem := (ct_mem st)(a \<mapsto> ?c)\<rparr>"
  have same: "cm_name ?c = cm_name c" "cm_dll ?c = cm_dll c" "cm_flags ?c = cm_flags c" by (cases w; simp)+
  have e: "(case w of None \<Rightarrow> st | Some v \<Rightarrow> st\<lparr>ct_mem := (ct_mem st)(a \<mapsto> c\<lparr>cm_weight := conf_weight v\<rparr>)\<rparr>) = ?st"
    using assms(6) by (cases w) (auto simp: fun_upd_idem)
  have r: "add_aliases (cm_name c) as ?st = Some st'"
    using assms(2,6) Some wa e by (simp add: configure_command_def)
  have ok: "tab_ok ?st" by (rule change_command_ok [OF assms(1,6) same])
  obtain d where d: "ct_mem st a = Some d" "short_str (cm_name d)" using listed [OF assms(1,5)] .
  then have short: "short_str (cm_name c)" using assms(6) by simp
  have "find_command ?st (cm_name ?c) = Some a"
    using find_command_self [OF ok, of a ?c] assms(5) by simp
  then have "names_real ?st (cm_name c)" using assms(7) same by (auto simp: names_real_def is_alias_def)
  then show ?thesis using add_aliases_keep [OF ok r short _ _ assms(4)] assms(3) Some wa
    by (auto simp: conf_short_def)
qed

lemma symbol_name: "length name \<le> MAX_SYMBOL_NAME \<Longrightarrow> take COMMAND_MAXLEN name = name"
  by (simp add: MAX_SYMBOL_NAME_def COMMAND_MAXLEN_def)

lemma find_after_remove:
  assumes "tab_ok st" "find_command st name = Some a" "short_str name" "tab_ok st'" "ct_list st' = remove1 a (ct_list st)"
    "ct_mem st' = (ct_mem st)(a := None)"
  shows "find_command st' name = None"
proof (rule ccontr)
  assume "find_command st' name \<noteq> None"
  then obtain b where b: "find_command st' name = Some b" by blast
  have l: "b \<in> set (ct_list st')" "same_name (cm_name (the (ct_mem st' b))) name"
    using iffD1 [OF find_command_iff [OF assms(4,3)] b] by auto
  have a: "a \<in> set (ct_list st)" "same_name (cm_name (the (ct_mem st a))) name"
    using iffD1 [OF find_command_iff [OF assms(1,3)] assms(2)] by auto
  have ba: "b \<noteq> a" using l(1) core_okD(3) [OF assms(1)] unfolding assms(5) by auto
  have "b \<in> set (ct_list st)" using l(1) unfolding assms(5) by (rule subsetD [OF set_remove1_subset])
  moreover have "same_name (cm_name (the (ct_mem st b))) name" using l(2) ba unfolding assms(6) by simp
  ultimately show False using core_okD(7) [OF assms(1)] a ba same_name_trans same_name_sym by metis
qed

lemma configure_command_next: "configure_command conf a st = Some st' \<Longrightarrow> ct_next st \<le> ct_next st'"
  by (auto simp: configure_command_def dest!: add_aliases_next split: option.splits)

lemma insert_command_next: "insert_command symbols priv conf st name = Some (st', b) \<Longrightarrow> ct_next st \<le> ct_next st'"
  by (auto simp: insert_command_def dest!: put_next configure_command_next split: option.splits if_splits)

lemma insert_command_keeps:
  assumes s: "tab_ok s" "find_command s name = None" and n: "short_str name"
    and r: "insert_command symbols priv conf s name = Some (st', b)"
    and conf: "conf_short conf" and few: "ct_next st' \<le> ADDRESSES"
  shows "tab_ok st' \<and> (if b then names_real st' name else st' = s)"
proof (cases "symbols name")
  case None
  then show ?thesis using s(1) r by (simp add: insert_command_def)
next
  case (Some cs)
  obtain client server where cs: "cs = (client, server)" by (cases cs)
  show ?thesis
  proof (cases "hf_cmd client = None \<and> hf_cmd server = None")
    case True
    then show ?thesis using s(1) r Some cs by (auto simp: insert_command_def split: if_splits)
  next
    case False
    let ?c = "\<lparr>cm_weight = 0, cm_name = take COMMAND_MAXLEN name, cm_dll = Module (''ircd/commands/'' @ name),
        cm_priv = priv (''command-'' @ name), cm_flags = 0,
        cm_client = client\<lparr>hf_ev := Ev_null\<rparr>, cm_server = server\<lparr>hf_ev := Ev_null\<rparr>\<rparr>"
    obtain t where t: "put_command ?c s = Some t" "configure_command conf (ct_next s) t = Some st'" b
      "length name \<le> MAX_SYMBOL_NAME"
      using r Some cs False by (auto simp: insert_command_def split: if_splits option.splits)
    have name: "short_str (cm_name ?c)" "find_command s (cm_name ?c) = None"
      using short_str_take [OF n] find_command_take [OF s(1) n] s(2) by simp_all
    have na: "\<not> is_alias ?c" by (simp add: is_alias_def)
    then have kind: "if is_alias ?c then (\<exists>t d. cm_dll ?c = Alias_of t \<and> ct_mem s t = Some d \<and> \<not> is_alias d)
      else (\<exists>m. cm_dll ?c = Module m)" by simp
    have few': "ct_next t \<le> ADDRESSES" using configure_command_next [OF t(2)] few by simp
    note p = put_command_keeps [OF s(1) t(1) name few' kind]
    have "ct_next s \<in> set (ct_list t)" "ct_mem t (ct_next s) = Some ?c"
      using t(1) p(2) by (auto simp: put_command_def split: option.splits)
    from configure_command_keeps [OF p(1) t(2) conf few this na] show ?thesis using t(3) symbol_name [OF t(4)] by simp
  qed
qed

text \<open>A call of \<^verbatim>\<open>add_command\<close> whose loading changes nothing.\<close>

lemma add_command_with_keeps:
  assumes ok: "tab_ok st" and r: "add_command_with load symbols priv conf st name = Some (st', b)" and n: "short_str name"
    and conf: "conf_short conf" and few: "ct_next st' \<le> ADDRESSES"
    and load: "\<And>s. ct_loaded s = ct_loaded st \<Longrightarrow> name \<in> set (ct_loaded st) \<or> load s name = Some (s, True) \<or> load s name = Some (s, False)"
  shows "tab_ok st' \<and> (b \<longrightarrow> names_real st' name) \<and> (\<not> b \<longrightarrow> name = [] \<or> find_command st' name = None)"
proof -
  have new: "tab_ok st' \<and> (b \<longrightarrow> names_real st' name) \<and> (\<not> b \<longrightarrow> name = [] \<or> find_command st' name = None)"
    if s: "tab_ok s" "find_command s name = None" "ct_loaded s = ct_loaded st" and
      r: "(case (if name \<in> set (ct_loaded s) then Some (s, True) else load s name) of
         None \<Rightarrow> None
       | Some (st, ok) \<Rightarrow> if ok then insert_command symbols priv conf st name else Some (st, False)) = Some (st', b)" for s
  proof -
    have "insert_command symbols priv conf s name = Some (st', b) \<or> st' = s \<and> \<not> b"
      using r load [OF s(3)] s(3) by (auto split: if_splits)
    then show ?thesis
    proof
      assume i: "insert_command symbols priv conf s name = Some (st', b)"
      show ?thesis using insert_command_keeps [OF s(1,2) n i conf few] s(2) by (cases b) auto
    qed (use s(1,2) in simp)
  qed
  show ?thesis
  proof (cases "name = []")
    case True
    then show ?thesis using ok r by (simp add: add_command_with_def)
  next
    case ne: False
    show ?thesis
    proof (cases "find_command st name")
      case None
      then show ?thesis using new [OF ok None refl] r ne by (simp add: add_command_with_def Let_def)
    next
      case (Some a)
      have l: "a \<in> set (ct_list st)" using iffD1 [OF find_command_iff [OF ok n] Some] by simp
      obtain c where c: "ct_mem st a = Some c" using listed [OF ok l] by blast
      show ?thesis
      proof (cases "is_alias c")
        case False
        then have "tab_ok st' \<and> names_real st' (cm_name c) \<and> b"
          using configure_command_keeps [OF ok _ conf few l c False] r ne Some c
          by (auto simp: add_command_with_def Let_def)
        moreover have "find_command st' (cm_name c) = find_command st' name" if "tab_ok st'"
          using iffD1 [OF find_command_iff [OF ok n] Some] c n listed [OF ok l]
          by (intro find_command_same [OF that]) auto
        ultimately show ?thesis by (auto simp: names_real_def)
      next
        case True
        obtain s where s: "remove_command st (cm_name c) = Some s" "tab_ok s" "ct_mem s = (ct_mem st)(a := None)"
          "ct_list s = remove1 a (ct_list st)"
          using remove_alias_ok [OF ok l c True, of "Suc 0"] unfolding remove_command_def numeral_2_eq_2 by blast
        have "ct_loaded s = ct_loaded st"
          using s(1) find_command_self [OF ok l c] c True
          by (auto simp: remove_command_def numeral_2_eq_2 unlink_command_def free_command_def)
        moreover have "find_command s name = None" by (rule find_after_remove [OF ok Some n s(2,4,3)])
        ultimately show ?thesis using new [OF s(2)] r ne Some c True s(1)
          by (simp add: add_command_with_def Let_def)
      qed
    qed
  qed
qed

lemma remove_command_keeps:
  assumes "tab_ok st" "short_str name"
  shows "\<exists>st'. remove_command st name = Some st' \<and> tab_ok st'"
proof (cases "find_command st name")
  case None
  then show ?thesis using assms(1) by (simp add: remove_command_def numeral_2_eq_2)
next
  case (Some a)
  have l: "a \<in> set (ct_list st)" using iffD1 [OF find_command_iff [OF assms] Some] by simp
  obtain c where c: "ct_mem st a = Some c" using listed [OF assms(1) l] by blast
  show ?thesis
  proof (cases "is_alias c")
    case False
    then show ?thesis using remove_command_ok [OF assms(1) Some assms(2) c] by blast
  next
    case True
    have "remove_command st name = remove_command st (cm_name c)"
      using Some find_command_self [OF assms(1) l c] by (simp add: remove_command_def numeral_2_eq_2)
    then show ?thesis
      using remove_alias_ok [OF assms(1) l c True, of "Suc 0"] unfolding remove_command_def numeral_2_eq_2 by auto
  qed
qed

section \<open>Runs\<close>

definition loader_short :: "(cstring \<Rightarrow> cstring list) \<Rightarrow> bool" where
  "loader_short loader \<longleftrightarrow> (\<forall>n. \<forall>a\<in>set (loader n). short_str a)"

lemma core_ok_loaded [simp]: "core_ok X (st\<lparr>ct_loaded := l\<rparr>) = core_ok X st" "find_command (st\<lparr>ct_loaded := l\<rparr>) n = find_command st n"
  by (simp_all add: core_ok_def find_command_def)

lemma load_command_keeps:
  assumes ok: "tab_ok st" and r: "load_command_module symbols priv conf loader st name = Some (st', b)"
    and n: "short_str name" "name \<noteq> []" and conf: "conf_short conf" "loader_short loader" and few: "ct_next st' \<le> ADDRESSES"
  shows "tab_ok st'"
proof (cases "name \<in> set (ct_loaded st) \<or> symbols name = None")
  case True
  then have "st' = st" using r by (auto simp: load_command_module_def split: if_splits)
  then show ?thesis using ok by simp
next
  case False
  let ?st = "st\<lparr>ct_loaded := name # ct_loaded st\<rparr>"
  obtain s b' where s: "add_command_with (\<lambda>s _. Some (s, True)) symbols priv conf ?st name = Some (s, b')"
    "add_aliases name (loader name) s = Some st'"
    using r False by (auto simp: load_command_module_def split: option.splits)
  have few': "ct_next s \<le> ADDRESSES" using add_aliases_next [OF s(2)] few by simp
  have ok': "tab_ok ?st" using ok by simp
  have k: "tab_ok s" "b' \<Longrightarrow> names_real s name" "\<not> b' \<Longrightarrow> find_command s name = None"
    using add_command_with_keeps [OF ok' s(1) n(1) conf(1) few'] n(2) by auto
  show ?thesis
  proof (cases b')
    case True
    then show ?thesis using add_aliases_keep [OF k(1) s(2) n(1) _ k(2) few] conf(2) by (simp add: loader_short_def)
  next
    case False
    then show ?thesis using k(1,3) s(2) by (cases "loader name") (auto simp: add_command_alias_def)
  qed
qed

datatype cmd_op = Op_load cstring | Op_conf cstring | Op_unload cstring
  | Op_hook cstring bool nat u32 | Op_unhook cstring bool nat

fun op_name :: "cmd_op \<Rightarrow> cstring" where
  "op_name (Op_load n) = n" | "op_name (Op_conf n) = n" | "op_name (Op_unload n) = n"
| "op_name (Op_hook n c f fl) = n" | "op_name (Op_unhook n c f) = n"

fun cmd_step where
  "cmd_step symbols priv conf loader (Op_load name) st = map_option fst (load_command_module symbols priv conf loader st name)"
| "cmd_step symbols priv conf loader (Op_conf name) st = map_option fst (conf_command symbols priv conf loader st name)"
| "cmd_step symbols priv conf loader (Op_unload name) st = unload_command_module st name"
| "cmd_step symbols priv conf loader (Op_hook name client f fl) st = map_option fst (command_add_hook st name client f fl)"
| "cmd_step symbols priv conf loader (Op_unhook name client f) st = command_remove_hook st name client f"

text \<open>
  The one step that is left out: a \<^verbatim>\<open>command\<close> entry of the configuration for the name of an alias,
  when the module of that name can be loaded and is not loaded yet.
\<close>

fun shadows_alias :: "(cstring \<Rightarrow> ('f half \<times> 'f half) option) \<Rightarrow> 'f cmdtab \<Rightarrow> cmd_op \<Rightarrow> bool" where
  "shadows_alias symbols st (Op_conf name) \<longleftrightarrow>
     find_command st name \<noteq> None \<and> \<not> names_real st name \<and> name \<notin> set (ct_loaded st) \<and> symbols name \<noteq> None"
| "shadows_alias symbols st _ \<longleftrightarrow> False"

text \<open>The table of \<^verbatim>\<open>ircd.c\<close> at the start.\<close>

definition start_commands :: "'f cmdtab option" where
  "start_commands =
     map_option (\<lambda>t. \<lparr>ct_mem = (\<lambda>_. None), ct_list = [], ct_hash = t, ct_next = 0, ct_loaded = [], ct_unloaded = [],
         ct_privs_gone = []\<rparr>)
       (create_hash_table 32 COMMAND_MAXLEN (HASH_FL_NOCASE OR HASH_FL_STRING) string_cmp)"

inductive cmd_reach for symbols :: "cstring \<Rightarrow> ('f half \<times> 'f half) option" and priv conf loader where
  start: "start_commands = Some st \<Longrightarrow> cmd_reach symbols priv conf loader st"
| step: "cmd_reach symbols priv conf loader st \<Longrightarrow> cmd_step symbols priv conf loader p st = Some st' \<Longrightarrow>
    short_str (op_name p) \<Longrightarrow> op_name p \<noteq> [] \<Longrightarrow> \<not> shadows_alias symbols st p \<Longrightarrow> ct_next st' \<le> ADDRESSES \<Longrightarrow>
    cmd_reach symbols priv conf loader st'"

inductive_cases cmd_reachE: "cmd_reach symbols priv conf loader st"

lemma start_commands_ok: "\<exists>st. start_commands = Some st \<and> tab_ok st \<and> ct_list st = [] \<and> ct_mem st = (\<lambda>_. None) \<and> ct_next st = 0 \<and>
    ct_loaded st = []"
proof -
  obtain t :: "(nat \<times> cstring) hashtable" where
    t: "create_hash_table 32 COMMAND_MAXLEN (HASH_FL_NOCASE OR HASH_FL_STRING) string_cmp = Some t"
    "ht_wf snd t" "ht_ents t = {#}" "ht_keylen t = COMMAND_MAXLEN" "ht_flags t = HASH_FL_NOCASE OR HASH_FL_STRING"
    "ht_cmp t = string_cmp"
    using create_ok [of 32 COMMAND_MAXLEN "HASH_FL_NOCASE OR HASH_FL_STRING" string_cmp snd]
    by (auto simp: word_le_nat_alt)
  then show ?thesis by (simp add: start_commands_def core_ok_def table_with_def)
qed

lemma put_half_same: "cm_name (put_half b h c) = cm_name c" "cm_dll (put_half b h c) = cm_dll c"
    "cm_flags (put_half b h c) = cm_flags c" "get_half b (put_half b h c) = h"
  by (simp_all add: put_half_def get_half_def)

lemma remove_command_loaded:
  "remove_command_n d s nm = Some t \<Longrightarrow> ct_loaded t = ct_loaded s"
proof (induction d arbitrary: s t nm)
  case (Suc d)
  have al: "ct_loaded v = ct_loaded u" if "remove_aliases (remove_command_n d) a xs u = Some v" for a xs and u v :: "'a cmdtab"
    using that by (induction xs arbitrary: u) (auto dest: Suc.IH split: option.splits if_splits)
  show ?case using Suc.prems
    by (auto simp: unlink_command_def free_command_def dest!: al split: option.splits if_splits)
qed simp

lemma cmd_step_keeps:
  assumes "tab_ok st" "cmd_step symbols priv conf loader p st = Some st'" "short_str (op_name p)" "op_name p \<noteq> []"
    "\<not> shadows_alias symbols st p" "conf_short conf" "loader_short loader" "ct_next st' \<le> ADDRESSES"
  shows "tab_ok st'"
proof (cases p)
  case (Op_load name)
  then obtain b where "load_command_module symbols priv conf loader st name = Some (st', b)" using assms(2) by auto
  from load_command_keeps [OF assms(1) this _ _ assms(6-8)] show ?thesis using assms(3,4) Op_load by simp
next
  case (Op_conf name)
  show ?thesis
  proof (cases "find_command st name = None")
    case True
    then obtain b where "load_command_module symbols priv conf loader st name = Some (st', b)"
      using assms(2) Op_conf by (auto simp: conf_command_def)
    from load_command_keeps [OF assms(1) this _ _ assms(6-8)] show ?thesis using assms(3,4) Op_conf by simp
  next
    case False
    have n: "short_str name" using assms(3) Op_conf by simp
    obtain b where r: "add_command_with (load_command_module symbols priv conf loader) symbols priv conf st name = Some (st', b)"
      using assms(2) Op_conf False by (auto simp: conf_command_def add_command_def)
    show ?thesis
    proof (cases "names_real st name")
      case True
      then obtain a c where a: "find_command st name = Some a" "ct_mem st a = Some c" "\<not> is_alias c"
        by (auto simp: names_real_def)
      have l: "a \<in> set (ct_list st)" using iffD1 [OF find_command_iff [OF assms(1) n] a(1)] by simp
      show ?thesis using configure_command_keeps [OF assms(1) _ assms(6,8) l a(2,3)] r a assms(4) Op_conf
        by (auto simp: add_command_with_def Let_def)
    next
      case sh: False
      then have "name \<in> set (ct_loaded st) \<or> symbols name = None" using False assms(5) Op_conf
        by (cases "symbols name") auto
      then have "name \<in> set (ct_loaded st) \<or>
          load_command_module symbols priv conf loader s name = Some (s, True) \<or>
          load_command_module symbols priv conf loader s name = Some (s, False)" if "ct_loaded s = ct_loaded st" for s
        by (auto simp: load_command_module_def)
      then show ?thesis using add_command_with_keeps [OF assms(1) r n assms(6,8)] by blast
    qed
  qed
next
  case (Op_unload name)
  show ?thesis
  proof (cases "name \<in> set (ct_loaded st)")
    case True
    have ok: "tab_ok (st\<lparr>ct_loaded := removeAll name (ct_loaded st)\<rparr>)" using assms(1) by simp
    show ?thesis using remove_command_keeps [OF ok, of name] assms(2,3) Op_unload True
      by (auto simp: unload_command_module_def)
  qed (use assms(1,2) Op_unload in \<open>auto simp: unload_command_module_def\<close>)
next
  case (Op_hook name client f fl)
  then show ?thesis using assms(1,2)
    by (auto simp: command_add_hook_def put_half_same change_command_ok split: option.splits)
next
  case (Op_unhook name client f)
  then show ?thesis using assms(1,2)
    by (auto simp: command_remove_hook_def put_half_same change_command_ok split: option.splits)
qed

lemma cmd_reach_ok:
  assumes "cmd_reach symbols priv conf loader st" "conf_short conf" "loader_short loader"
  shows "tab_ok st"
  using assms(1)
proof induction
  case (start st)
  then show ?case using start_commands_ok by (metis option.inject)
next
  case (step st p st')
  then show ?case using cmd_step_keeps assms(2,3) by blast
qed

section \<open>Properties\<close>


definition demo_symbols :: "cstring \<Rightarrow> (nat half \<times> nat half) option" where
  "demo_symbols name = (if name = ''notice'' then Some (no_half\<lparr>hf_cmd := Some 7\<rparr>, no_half) else None)"

definition demo_loader :: "cstring \<Rightarrow> cstring list" where
  "demo_loader name = [''privmsg'']"

definition demo_notice :: "nat command" where
  "demo_notice = \<lparr>cm_weight = 0, cm_name = ''notice'', cm_dll = Module ''ircd/commands/notice'', cm_priv = 0, cm_flags = 0,
     cm_client = no_half\<lparr>hf_cmd := Some 7\<rparr>, cm_server = no_half\<rparr>"

lemma demo_names: "short_str ''notice''" "short_str ''privmsg''" "\<not> same_name ''notice'' ''privmsg''"
  by (simp_all add: short_str_def same_name_def same_nocase_def COMMAND_MAXLEN_def)

lemma demo_reach:
  "\<exists>st. cmd_reach demo_symbols (\<lambda>_. 0) (\<lambda>_. None) demo_loader st \<and> ct_list st = [1, 0] \<and>
     ct_mem st 0 = Some demo_notice \<and> ct_mem st 1 = Some (alias_command ''privmsg'' 0) \<and> ct_loaded st = [''notice'']"
proof -
  obtain st0 :: "nat cmdtab" where s0: "start_commands = Some st0" "tab_ok st0" "ct_list st0 = []" "ct_next st0 = 0"
    "ct_loaded st0 = []"
    using start_commands_ok by blast
  let ?s = "st0\<lparr>ct_loaded := [''notice'']\<rparr>"
  have ok: "tab_ok ?s" using s0(2) by simp
  have nm: "cm_name demo_notice = ''notice''" "\<not> is_alias demo_notice"
    by (simp_all add: demo_notice_def is_alias_def)
  have none: "find_command ?s ''notice'' = None"
    using find_command_iff [OF ok demo_names(1)] s0(3) by (cases "find_command ?s ''notice''") auto
  have kind: "if is_alias demo_notice then (\<exists>t d. cm_dll demo_notice = Alias_of t \<and> ct_mem ?s t = Some d \<and> \<not> is_alias d)
      else (\<exists>m. cm_dll demo_notice = Module m)" using nm(2) by (simp add: demo_notice_def)
  have len: "length (ct_list ?s) < 2 ^ 28" using s0(3) by simp
  have ex: "\<exists>st'. put_command demo_notice ?s = Some st' \<and> tab_ok st' \<and> ct_mem st' = (ct_mem ?s)(ct_next ?s \<mapsto> demo_notice) \<and>
    ct_list st' = ct_next ?s # ct_list ?s"
    by (rule put_command_ok [OF ok _ _ len kind, unfolded nm(1), OF demo_names(1) none])
  have zero: "ct_next ?s = 0" "ct_list ?s = []" using s0(3,4) by simp_all
  obtain s1 where s1: "put_command demo_notice ?s = Some s1" "tab_ok s1" "ct_mem s1 = (ct_mem ?s)(0 \<mapsto> demo_notice)"
    "ct_list s1 = [0]"
    using ex unfolding zero by (elim exE conjE)
  have p1: "ct_next s1 = 1" "ct_loaded s1 = [''notice'']"
    using s1(1) s0(4) by (auto simp: put_command_def split: option.splits)
  have f1: "find_command s1 ''notice'' = Some 0"
    using iffD2 [OF find_command_iff [OF s1(2) demo_names(1)]] s1(3,4) nm by simp
  have f2: "find_command s1 ''privmsg'' = None"
  proof (rule ccontr)
    assume "find_command s1 ''privmsg'' \<noteq> None"
    then obtain x where "find_command s1 ''privmsg'' = Some x" by (elim not_None_eq [THEN iffD1, elim_format] exE)
    from iffD1 [OF find_command_iff [OF s1(2) demo_names(2)] this]
    have "x = 0" "same_name (cm_name (the (ct_mem s1 x))) ''privmsg''" unfolding s1(4) by auto
    then have "same_name (cm_name demo_notice) ''privmsg''" unfolding s1(3) by simp
    then show False unfolding nm(1) using demo_names(3) by simp
  qed
  let ?a = "alias_command ''privmsg'' 0 :: nat command"
  have na: "cm_name ?a = ''privmsg''" "is_alias ?a" "cm_dll ?a = Alias_of 0"
    by (simp_all add: alias_command_def is_alias_def COMMAND_FL_ALIAS_def COMMAND_MAXLEN_def)
  have kind2: "if is_alias ?a then (\<exists>t d. cm_dll ?a = Alias_of t \<and> ct_mem s1 t = Some d \<and> \<not> is_alias d)
      else (\<exists>m. cm_dll ?a = Module m)" using na(2,3) s1(3) nm(2) by simp
  have len2: "length (ct_list s1) < 2 ^ 28" using s1(4) by simp
  obtain s2 where s2: "put_command ?a s1 = Some s2" "tab_ok s2" "ct_mem s2 = (ct_mem s1)(1 \<mapsto> ?a)" "ct_list s2 = [1, 0]"
    using put_command_ok [OF s1(2) _ _ len2 kind2, unfolded na(1), OF demo_names(2) f2, unfolded p1(1) s1(4)]
    by (elim exE conjE)
  have p2: "ct_next s2 = 2" "ct_loaded s2 = [''notice'']"
    using s2(1) p1 by (auto simp: put_command_def split: option.splits)
  have "insert_command demo_symbols (\<lambda>_. 0) (\<lambda>_. None) ?s ''notice'' = Some (s1, True)"
    using s1(1,3) s0(4)
    by (simp add: insert_command_def demo_symbols_def demo_notice_def MAX_SYMBOL_NAME_def COMMAND_MAXLEN_def
        configure_command_def no_half_def)
  then have "add_command_with (\<lambda>s _. Some (s, True)) demo_symbols (\<lambda>_. 0) (\<lambda>_. None) ?s ''notice'' = Some (s1, True)"
    using none by (simp add: add_command_with_def Let_def)
  moreover have "add_aliases ''notice'' (demo_loader ''notice'') s1 = Some s2"
    using f1 f2 s2(1) by (simp add: demo_loader_def add_command_alias_def)
  ultimately have "cmd_step demo_symbols (\<lambda>_. 0) (\<lambda>_. None) demo_loader (Op_load ''notice'') st0 = Some s2"
    using s0(5) by (simp add: load_command_module_def demo_symbols_def)
  then have "cmd_reach demo_symbols (\<lambda>_. 0) (\<lambda>_. None) demo_loader s2"
    by (rule cmd_reach.step [OF cmd_reach.start [OF s0(1)]]) (simp_all add: demo_names p2 ADDRESSES_def)
  then show ?thesis using s1(3) s2(3,4) p2(2) by auto
qed

lemma demo_short: "conf_short (\<lambda>_. None)" "loader_short demo_loader"
  using demo_names by (simp_all add: conf_short_def loader_short_def demo_loader_def)




text \<open>A half of a command whose last hook was removed cannot take a hook again: the pointer to its event
  is kept after the event is freed.\<close>

theorem hook_after_last_removed:
  assumes "hf_cmd h = Some f" "hf_ev h = Ev_null"
  shows "\<exists>h1 h2. half_add_hook h hook flags = Some (h1, True) \<and> half_remove_hook h1 hook = Some h2 \<and>
    hf_ev h2 = Ev_freed \<and> half_add_hook h2 hook' flags' = None"
  using assms
  by (simp add: half_add_hook_def half_remove_hook_def add_hook_after_def add_hook_really_def create_event_def
      remove_hook_def find_hook_def Let_def event_flags)

theorem hook_after_last_removed_witness:
  "\<exists>h2. half_remove_hook (fst (the (half_add_hook (no_half\<lparr>hf_cmd := Some (7 :: nat)\<rparr>) 3 0))) 3 = Some h2 \<and>
     half_add_hook h2 4 0 = None"
  using hook_after_last_removed [of "no_half\<lparr>hf_cmd := Some (7 :: nat)\<rparr>" 7 3 0 4 0]
  by (force simp: no_half_def)

text \<open>A call of \<^verbatim>\<open>add_command\<close> that has to load the module inserts the command twice: the event of the
  loading adds it, and then the call goes on to add it again.\<close>

lemma add_command_twice:
  assumes ok: "tab_ok st" and n: "short_str name" "name \<noteq> []" "length name \<le> MAX_SYMBOL_NAME"
    and new: "find_command st name = None" "name \<notin> set (ct_loaded st)"
    and sym: "symbols name = Some (client, server)" "hf_cmd client \<noteq> None"
    and few: "length (ct_list st) + 1 < 2 ^ 28"
    and plain: "loader name = []"
  shows "\<exists>st' a b. add_command symbols priv (\<lambda>_. None) loader st name = Some (st', True) \<and>
    ct_list st' = a # b # ct_list st \<and> a \<noteq> b \<and>
    ct_mem st' a = ct_mem st' b \<and> ct_mem st' a \<noteq> None"
proof -
  let ?c = "\<lparr>cm_weight = 0, cm_name = take COMMAND_MAXLEN name, cm_dll = Module (''ircd/commands/'' @ name),
      cm_priv = priv (''command-'' @ name), cm_flags = 0,
      cm_client = client\<lparr>hf_ev := Ev_null\<rparr>, cm_server = server\<lparr>hf_ev := Ev_null\<rparr>\<rparr>"
  let ?s = "st\<lparr>ct_loaded := name # ct_loaded st\<rparr>"
  have ok': "tab_ok ?s" using ok by simp
  have cn: "cm_name ?c = name" using symbol_name [OF n(3)] by simp
  have na: "\<not> is_alias ?c" by (simp add: is_alias_def)
  then have kind: "if is_alias ?c then (\<exists>t d. cm_dll ?c = Alias_of t \<and> ct_mem s t = Some d \<and> \<not> is_alias d)
    else (\<exists>m. cm_dll ?c = Module m)" for s by simp
  obtain s1 where s1: "put_command ?c ?s = Some s1" "tab_ok s1" "ct_mem s1 = (ct_mem ?s)(ct_next ?s \<mapsto> ?c)"
    "ct_list s1 = ct_next ?s # ct_list ?s"
    using put_command_ok [OF ok' _ _ _ kind] cn n(1) new(1) few by auto
  have next1: "ct_next s1 = ct_next st + 1" using put_next [OF s1(1)] by simp
  have ins: "insert_command symbols priv (\<lambda>_. None) s name = Some (s', True)" if "put_command ?c s = Some s'" for s s'
    using that sym n(3) by (auto simp: insert_command_def configure_command_def put_command_def split: option.splits)
  have "load_command_module symbols priv (\<lambda>_. None) loader st name = Some (s1, True)"
    using new n(2) sym plain ins [OF s1(1)] by (simp add: load_command_module_def add_command_with_def Let_def)
  moreover obtain t where t: "hash_insert snd (ct_hash s1) (ct_next s1, cm_name ?c) = Some t"
  proof -
    note D = core_okD [OF s1(2)]
    have "unat (ht_entries (ct_hash s1)) = length (ct_list s1)"
      using D(1) arg_cong [OF D(2), of size] ht_ents_size [of "ct_hash s1"] by (simp add: table_with_def ht_wf_def)
    then show thesis
      using command_table.ins_ok [OF D(1), of "(ct_next s1, cm_name ?c)"] few s1(4) cn n(1) that by auto
  qed
  then obtain s2 where s2: "put_command ?c s1 = Some s2" by (simp add: put_command_def)
  ultimately have "add_command symbols priv (\<lambda>_. None) loader st name = Some (s2, True)"
    using new n(2) ins [OF s2] by (simp add: add_command_def add_command_with_def Let_def)
  moreover have "ct_list s2 = (ct_next st + 1) # ct_next st # ct_list st"
    "ct_mem s2 = (ct_mem st)(ct_next st \<mapsto> ?c, ct_next st + 1 \<mapsto> ?c)"
    using s2 s1(3,4) next1 by (auto simp: put_command_def split: option.splits)
  ultimately show ?thesis by (intro exI [of _ s2] exI [of _ "ct_next st + 1"] exI [of _ "ct_next st"]) simp
qed

end
