(* ===== verification/Command.thy ===== *)
theory Command
  imports CommandTable Message
begin

text \<open>
  The execution of commands (\<^verbatim>\<open>command.c\<close>): the checks before a command of a client or a server runs, the
  folding of extra arguments, the flood control of local clients, the routing of a command to another
  server, and the reduction of a list of names. The function of a command and its hooks are
  parameters: they take the number of arguments, the argument buffers, the client and a state of their
  own.
\<close>

section \<open>Folding of extra arguments\<close>

text \<open>\<^verbatim>\<open>strncpy\<close> to a cell of a buffer. A negative count becomes a huge \<^verbatim>\<open>size_t\<close>, and the padding then
  leaves every buffer.\<close>

definition strncpy_at :: "char list \<Rightarrow> nat \<Rightarrow> cstring \<Rightarrow> int \<Rightarrow> char list option" where
  "strncpy_at b i t n =
     (if n < 0 then None else map_option (\<lambda>b'. take i b @ b') (ith_strncpy (drop i b) t n))"

fun fold_loop :: "char list \<Rightarrow> nat \<Rightarrow> char list list \<Rightarrow> char list option" where
  "fold_loop b len [] = Some b"
| "fold_loop b len (a # as) =
     (case buf_put b len (CHR '' '') of
        None \<Rightarrow> None
      | Some b \<Rightarrow>
          (case strncpy_at b (len + 1) (buf_str a 0) (int COMMAND_MAXARGLEN - int (len + 1)) of
             None \<Rightarrow> None
           | Some b \<Rightarrow>
               (case get_arg (drop (len + 1) b) of
                  None \<Rightarrow> None
                | Some u \<Rightarrow> fold_loop b (len + 1 + length u) as)))"

definition fold_args :: "nat \<Rightarrow> nat \<Rightarrow> char list list \<Rightarrow> char list list option" where
  "fold_args mx argc argv =
     (case get_arg (argv ! mx) of
        None \<Rightarrow> None
      | Some s \<Rightarrow>
          (case fold_loop (argv ! mx) (length s) (drop (mx + 1) (take argc argv)) of
             None \<Rightarrow> None
           | Some b \<Rightarrow> map_option (\<lambda>b. argv[mx := b]) (buf_put b COMMAND_MAXARGLEN NUL)))"

section \<open>Clients and flood control\<close>

definition ERR_NOSUCHSERVER :: int where "ERR_NOSUCHSERVER = 402"
definition ERR_UNKNOWNCOMMAND :: int where "ERR_UNKNOWNCOMMAND = 421"
definition ERR_NOTREGISTERED :: int where "ERR_NOTREGISTERED = 451"
definition ERR_NEEDMOREPARAMS :: int where "ERR_NEEDMOREPARAMS = 461"
definition ERR_ALREADYREGISTERED :: int where "ERR_ALREADYREGISTERED = 462"
definition ERR_NOPRIVILEGES :: int where "ERR_NOPRIVILEGES = 481"

definition COMMAND_WEIGHT_MAX :: int where "COMMAND_WEIGHT_MAX = COMMAND_WEIGHT_EXTREME * 2"
definition COMMAND_WEIGHT_SIGNON_GRACE :: int where "COMMAND_WEIGHT_SIGNON_GRACE = 30"
definition COMMAND_WEIGHT_REDUCE_FACTOR :: int where "COMMAND_WEIGHT_REDUCE_FACTOR = 8"

text \<open>\<^verbatim>\<open>co_limit\<close> is the limit \<^verbatim>\<open>flood\<close> of the connection's class.\<close>

record cmd_conn =
  co_last :: int
  co_flood :: int
  co_limit :: int

record cmd_client =
  cc_mine :: bool
  cc_uplink :: nat
  cc_registered :: bool
  cc_oper :: bool
  cc_privs :: "int \<Rightarrow> bool"
  cc_conn :: "cmd_conn option"
  cc_signon :: int

text \<open>The limit in force: one and a half times the class's in the first seconds of a connection; the
  multiplication is one of \<^verbatim>\<open>double\<close>s that is cut to an \<^verbatim>\<open>int\<close>, for a positive limit.\<close>

definition flood_limit :: "int \<Rightarrow> int \<Rightarrow> int \<Rightarrow> int" where
  "flood_limit now signon limit =
     (if now - signon < COMMAND_WEIGHT_SIGNON_GRACE then i32 (limit * 3 div 2) else limit)"

definition flood_decay :: "int \<Rightarrow> int \<Rightarrow> int \<Rightarrow> int" where
  "flood_decay flimit idle flood =
     (if COMMAND_WEIGHT_REDUCE_FACTOR < idle then 0
      else if idle \<noteq> 0 then
        (let delta = i32 (flimit div COMMAND_WEIGHT_REDUCE_FACTOR * idle) in
         if flood < delta then 0 else i32 (flood - delta))
      else flood)"

text \<open>The value returned, the new flood count, and whether the client is destroyed for it.\<close>

definition flood_check :: "int \<Rightarrow> int \<Rightarrow> int \<Rightarrow> int \<Rightarrow> int \<Rightarrow> int \<Rightarrow> int \<times> int \<times> bool" where
  "flood_check now signon limit idle flood ret =
     (let flimit = flood_limit now signon limit; flood = flood_decay flimit idle flood in
      if 0 < ret then
        (let ret = (if COMMAND_WEIGHT_MAX < ret then COMMAND_WEIGHT_MAX else ret); flood = i32 (flood + ret) in
         (ret, flood, flimit \<le> flood))
      else (ret, flood, False))"

section \<open>A command of a client\<close>

type_synonym 's command_fun = "nat \<Rightarrow> char list list \<Rightarrow> cmd_client \<Rightarrow> 's \<Rightarrow> (int \<times> cmd_client \<times> 's) option"

text \<open>The value returned, the numerics sent to the client, the client and the state; or the client is
  destroyed for flooding and \<^verbatim>\<open>IRCD_CONNECTION_CLOSED\<close> is returned.\<close>

datatype 's executed = Returned int "int list" cmd_client 's | Excess_flood cmd_client 's

definition client_refusal :: "'f command \<Rightarrow> cmd_client \<Rightarrow> int option" where
  "client_refusal c cli =
     (let fl = hf_flags (cm_client c) in
      if \<not> cc_mine cli then None
      else if \<not> cc_registered cli \<and> fl AND COMMAND_FL_UNREGISTERED = 0 then Some ERR_NOTREGISTERED
      else if cc_registered cli \<and> fl AND COMMAND_FL_UNREGISTERED \<noteq> 0 \<and> fl AND COMMAND_FL_REGISTERED = 0 then
        Some ERR_ALREADYREGISTERED
      else if fl AND COMMAND_FL_OPERATOR \<noteq> 0 \<and> \<not> cc_oper cli \<or> \<not> cc_privs cli (cm_priv c) then
        Some ERR_NOPRIVILEGES
      else None)"

definition run_client :: "int \<Rightarrow> 's command_fun \<Rightarrow> nat \<Rightarrow> char list list \<Rightarrow> cmd_client \<Rightarrow> 's \<Rightarrow> 's executed option" where
  "run_client now f argc argv cli s =
     (let ours = cc_mine cli;
          idle = (case cc_conn cli of None \<Rightarrow> 0 | Some co \<Rightarrow> now - co_last co);
          cli = cli\<lparr>cc_conn := map_option (co_last_update (\<lambda>_. now)) (cc_conn cli)\<rparr> in
      (case f argc argv cli s of
         None \<Rightarrow> None
       | Some (ret, cli, s) \<Rightarrow>
           if ret = IRCD_CONNECTION_CLOSED \<or> ret = IRCD_PROTOCOL_CHANGED then Some (Returned ret [] cli s)
           else
             (case cc_conn cli of
                None \<Rightarrow> Some (Returned ret [] cli s)
              | Some co \<Rightarrow>
                  if \<not> ours \<or> co_limit co \<le> 0 then Some (Returned ret [] cli s)
                  else
                    (case flood_check now (cc_signon cli) (co_limit co) idle (co_flood co) ret of
                       (ret, flood, over) \<Rightarrow>
                         (let cli = cli\<lparr>cc_conn := Some (co\<lparr>co_flood := flood\<rparr>)\<rparr> in
                          if over then Some (Excess_flood cli s) else Some (Returned ret [] cli s))))))"

definition run_hooks ::
  "(event \<Rightarrow> nat \<Rightarrow> char list list \<Rightarrow> 'c \<Rightarrow> 's \<Rightarrow> 'c \<times> 's) \<Rightarrow> 'f half \<Rightarrow> nat \<Rightarrow> char list list \<Rightarrow> 'c \<Rightarrow> 's \<Rightarrow> ('c \<times> 's) option" where
  "run_hooks hooks h argc argv c s =
     (if hf_flags h AND COMMAND_FL_HOOKED \<noteq> 0 then
        (case hf_ev h of Ev e \<Rightarrow> Some (hooks e argc argv c s) | _ \<Rightarrow> None)
      else Some (c, s))"

definition exclusive :: "'f half \<Rightarrow> bool" where
  "exclusive h \<longleftrightarrow> hf_flags h AND COMMAND_FL_HOOKED \<noteq> 0 \<and> hf_flags h AND COMMAND_FL_EXCL_HOOK \<noteq> 0"

text \<open>The command under a name, aliases resolved.\<close>

definition lookup_command :: "'f cmdtab \<Rightarrow> char list list \<Rightarrow> 'f command option option" where
  "lookup_command tab argv =
     (case argv of
        [] \<Rightarrow> None
      | a # _ \<Rightarrow>
          (case get_arg a of
             None \<Rightarrow> None
           | Some name \<Rightarrow>
               (case resolve tab name of
                  None \<Rightarrow> None
                | Some None \<Rightarrow> Some None
                | Some (Some x) \<Rightarrow> (case ct_mem tab x of None \<Rightarrow> None | Some c \<Rightarrow> Some (Some c)))))"

text \<open>The arguments a command gets: extra ones folded if it asks for it. \<open>flags\<close> are the flags that are
  tested.\<close>

definition arguments :: "u32 \<Rightarrow> 'f half \<Rightarrow> nat \<Rightarrow> char list list \<Rightarrow> char list list option" where
  "arguments flags h argc argv =
     (if hf_max h < int argc - 1 \<and> flags AND COMMAND_FL_FOLDMAX \<noteq> 0 then fold_args (nat (hf_max h)) argc argv
      else Some argv)"

definition command_exec_client ::
  "('s command_fun) cmdtab \<Rightarrow> int \<Rightarrow> nat \<Rightarrow> (event \<Rightarrow> nat \<Rightarrow> char list list \<Rightarrow> cmd_client \<Rightarrow> 's \<Rightarrow> cmd_client \<times> 's)
     \<Rightarrow> nat \<Rightarrow> char list list \<Rightarrow> cmd_client \<Rightarrow> 's \<Rightarrow> 's executed option" where
  "command_exec_client tab now sptr hooks argc argv cli s =
     (case lookup_command tab argv of
        None \<Rightarrow> None
      | Some cmd \<Rightarrow>
          if sptr \<noteq> cc_uplink cli then Some (Returned 0 [] cli s)
          else
            (case cmd of
               None \<Rightarrow> Some (Returned ERR_UNKNOWNCOMMAND [ERR_UNKNOWNCOMMAND] cli s)
             | Some c \<Rightarrow>
                 (case hf_cmd (cm_client c) of
                    None \<Rightarrow> Some (Returned ERR_UNKNOWNCOMMAND [ERR_UNKNOWNCOMMAND] cli s)
                  | Some f \<Rightarrow>
                      if int argc - 1 < hf_min (cm_client c) then
                        Some (Returned ERR_NEEDMOREPARAMS (if cc_mine cli then [ERR_NEEDMOREPARAMS] else []) cli s)
                      else
                        (case arguments (hf_flags (cm_client c)) (cm_client c) argc argv of
                           None \<Rightarrow> None
                         | Some argv \<Rightarrow>
                             (case client_refusal c cli of
                                Some e \<Rightarrow> Some (Returned e [e] cli s)
                              | None \<Rightarrow>
                                  (case run_hooks hooks (cm_client c) argc argv cli s of
                                     None \<Rightarrow> None
                                   | Some (cli, s) \<Rightarrow>
                                       if exclusive (cm_client c) then Some (Returned 0 [] cli s)
                                       else run_client now f argc argv cli s))))))"

section \<open>A command of a server\<close>

record cmd_server =
  cs_mine :: bool
  cs_uplink :: nat
  cs_registered :: bool
  cs_last :: int

definition is_numeric :: "char list \<Rightarrow> bool" where
  "is_numeric b \<longleftrightarrow> b ! 3 = NUL \<and> (\<forall>i<3. 48 \<le> uchar (b ! i) \<and> uchar (b ! i) \<le> 57)"

text \<open>\<open>numeric\<close> is the call of \<^verbatim>\<open>command_exec_numeric\<close>.\<close>

definition command_exec_server ::
  "((nat \<Rightarrow> char list list \<Rightarrow> cmd_server \<Rightarrow> 's \<Rightarrow> (int \<times> cmd_server \<times> 's) option)) cmdtab \<Rightarrow> int \<Rightarrow> nat
     \<Rightarrow> (event \<Rightarrow> nat \<Rightarrow> char list list \<Rightarrow> cmd_server \<Rightarrow> 's \<Rightarrow> cmd_server \<times> 's)
     \<Rightarrow> (nat \<Rightarrow> char list list \<Rightarrow> cmd_server \<Rightarrow> 's \<Rightarrow> (int \<times> cmd_server \<times> 's) option)
     \<Rightarrow> nat \<Rightarrow> char list list \<Rightarrow> cmd_server \<Rightarrow> 's \<Rightarrow> (int \<times> cmd_server \<times> 's) option" where
  "command_exec_server tab now sptr hooks numeric argc argv srv s =
     (case lookup_command tab argv of
        None \<Rightarrow> None
      | Some cmd \<Rightarrow>
          if sptr \<noteq> cs_uplink srv then Some (0, srv, s)
          else
            (let none = (if is_numeric (argv ! 0) then numeric argc argv srv s else Some (ERR_UNKNOWNCOMMAND, srv, s)) in
             case cmd of
               None \<Rightarrow> none
             | Some c \<Rightarrow>
                 (case hf_cmd (cm_server c) of
                    None \<Rightarrow> none
                  | Some f \<Rightarrow>
                      if int argc - 1 < hf_min (cm_server c) then Some (ERR_NEEDMOREPARAMS, srv, s)
                      else
                        (case arguments (hf_flags (cm_client c)) (cm_server c) argc argv of
                           None \<Rightarrow> None
                         | Some argv \<Rightarrow>
                             (let srv = (if cs_mine srv then srv\<lparr>cs_last := now\<rparr> else srv) in
                              if cs_mine srv \<and> \<not> cs_registered srv \<and> hf_flags (cm_server c) AND COMMAND_FL_UNREGISTERED = 0
                              then Some (ERR_NOTREGISTERED, srv, s)
                              else
                                (case run_hooks hooks (cm_server c) argc argv srv s of
                                   None \<Rightarrow> None
                                 | Some (srv, s) \<Rightarrow>
                                     if exclusive (cm_server c) then Some (0, srv, s)
                                     else f argc argv srv s))))))"

section \<open>Routing of a command\<close>

datatype passed = Pass_none | Pass_remote nat | Pass_local

text \<open>
  \<^verbatim>\<open>pass_command\<close>: the searches for servers and clients by name and the directions are parameters; a
  server is its number, and \<open>me\<close> is this server. With \<open>Pass_none\<close> an error was sent unless the server
  lies in the direction the command came from.
\<close>

definition pass_command ::
  "(cstring \<Rightarrow> nat option) \<Rightarrow> (cstring \<Rightarrow> nat option) \<Rightarrow> (nat \<Rightarrow> nat) \<Rightarrow> nat \<Rightarrow> (cstring \<Rightarrow> bool) \<Rightarrow> nat
     \<Rightarrow> cstring list \<Rightarrow> nat \<Rightarrow> passed \<times> int list" where
  "pass_command find_server find_client_server uplink from_conn matches_me me args n =
     (if length args \<le> n \<or> matches_me (args ! n) then (Pass_local, [])
      else
        (let a = args ! n; wild = ith_strchr a (CHR ''*'') \<noteq> None \<or> ith_strchr a (CHR ''?'') \<noteq> None;
             sp = (if wild then find_server a
                   else (case find_server a of Some x \<Rightarrow> Some x | None \<Rightarrow> find_client_server a)) in
         if wild \<and> (case find_server a of Some x \<Rightarrow> uplink x = from_conn | None \<Rightarrow> False) then (Pass_none, [])
         else
           (case sp of
              None \<Rightarrow> (Pass_none, [ERR_NOSUCHSERVER])
            | Some x \<Rightarrow> if x = me then (Pass_local, []) else (Pass_remote x, []))))"

section \<open>Lists of names\<close>

text \<open>
  \<^verbatim>\<open>reduce_string_list\<close> with its static buffer as the string in it. The inner walk cuts the buffer at
  separators and mends each cut with the first separator, which is the only one in the buffer. The
  cell behind the last separator is written too, so a string of 511 characters writes outside.
\<close>

definition in_list :: "cstring \<Rightarrow> cstring \<Rightarrow> cstring \<Rightarrow> bool" where
  "in_list buf sep cur \<longleftrightarrow> (\<exists>t\<in>set (strsep_all (Some buf) sep). t \<noteq> [] \<and> ith_strcasecmp t cur = 0)"

text \<open>The buffer and \<^verbatim>\<open>len\<close>. \<^verbatim>\<open>strlcat\<close> returns the length it tried to make.\<close>

fun reduce_loop :: "cstring \<Rightarrow> cstring list \<Rightarrow> cstring \<times> nat \<Rightarrow> (cstring \<times> nat) option" where
  "reduce_loop sep [] bl = Some bl"
| "reduce_loop sep (cur # ts) (buf, len) =
     (if cur = [] \<or> in_list buf sep cur then reduce_loop sep ts (buf, len)
      else
        (let len' = length buf + length cur in
         if COMMAND_MAXARGLEN < len' + 1 then None
         else reduce_loop sep ts (buf @ cur @ [hd sep], len' + 1)))"

definition reduce_string_list :: "cstring \<Rightarrow> cstring \<Rightarrow> cstring option" where
  "reduce_string_list list sep =
     (case reduce_loop sep (strsep_all (Some list) sep) ([], 0) of
        None \<Rightarrow> None
      | Some (buf, len) \<Rightarrow> if len = 0 then None else Some (take (len - 1) buf))"

section \<open>What a refused command does\<close>

text \<open>C14: a command of a local client that is too short, that the client may not use before or after it is
  registered, or that needs rights the client has not, is not run: the answer is one numeric, and neither
  the client, with its flood count and its time of the last command, nor the state changes.\<close>

theorem refused_command:
  assumes "lookup_command tab argv = Some (Some c)" "hf_cmd (cm_client c) = Some f" "cc_mine cli" "sptr = cc_uplink cli"
    and "arguments (hf_flags (cm_client c)) (cm_client c) argc argv \<noteq> None"
    and "int argc - 1 < hf_min (cm_client c) \<or>
      \<not> cc_registered cli \<and> hf_flags (cm_client c) AND COMMAND_FL_UNREGISTERED = 0 \<or>
      cc_registered cli \<and> hf_flags (cm_client c) AND COMMAND_FL_UNREGISTERED \<noteq> 0 \<and>
        hf_flags (cm_client c) AND COMMAND_FL_REGISTERED = 0 \<or>
      hf_flags (cm_client c) AND COMMAND_FL_OPERATOR \<noteq> 0 \<and> \<not> cc_oper cli \<or> \<not> cc_privs cli (cm_priv c)"
  shows "\<exists>e \<in> {ERR_NEEDMOREPARAMS, ERR_NOTREGISTERED, ERR_ALREADYREGISTERED, ERR_NOPRIVILEGES}.
    command_exec_client tab now sptr hooks argc argv cli s = Some (Returned e [e] cli s)"
proof (cases "int argc - 1 < hf_min (cm_client c)")
  case True
  then show ?thesis using assms(1-4) by (simp add: command_exec_client_def)
next
  case False
  have "\<exists>e. client_refusal c cli = Some e \<and> (e = ERR_NOTREGISTERED \<or> e = ERR_ALREADYREGISTERED \<or> e = ERR_NOPRIVILEGES)"
    using assms(3,6) False by (auto simp: client_refusal_def Let_def)
  then obtain e where e: "client_refusal c cli = Some e"
    "e = ERR_NOTREGISTERED \<or> e = ERR_ALREADYREGISTERED \<or> e = ERR_NOPRIVILEGES" by blast
  obtain argv' where "arguments (hf_flags (cm_client c)) (cm_client c) argc argv = Some argv'" using assms(5) by blast
  then have "command_exec_client tab now sptr hooks argc argv cli s = Some (Returned e [e] cli s)"
    using assms(1,2,4) False e(1) by (simp add: command_exec_client_def)
  then show ?thesis using e(2) by auto
qed

text \<open>A command that passes the checks runs with the client's time set, after its hooks.\<close>

definition demo_arg :: "cstring \<Rightarrow> char list" where
  "demo_arg t = t @ replicate (COMMAND_MAXARGLEN + 1 - length t) NUL"

definition demo_argv :: "cstring list \<Rightarrow> char list list" where
  "demo_argv ts = map demo_arg ts @ replicate (COMMAND_MAXARGS - length ts) (demo_arg [])"

lemma demo_arg_get: "c_str t \<Longrightarrow> length t \<le> COMMAND_MAXARGLEN \<Longrightarrow> get_arg (demo_arg t) = Some t"
  using buf_str_prefix [of t] by (simp add: get_arg_def demo_arg_def Suc_diff_le)

lemma demo_argv_ok: "length ts \<le> COMMAND_MAXARGS \<Longrightarrow> \<forall>t\<in>set ts. length t \<le> COMMAND_MAXARGLEN \<Longrightarrow> argv_ok (demo_argv ts)"
  by (auto simp: argv_ok_def demo_argv_def demo_arg_def)

theorem refused_command_witness:
  "\<exists>tab c f. lookup_command tab (demo_argv [''die'']) = Some (Some c) \<and> hf_cmd (cm_client c) = Some f \<and>
    (\<exists>e\<in>{ERR_NEEDMOREPARAMS, ERR_NOTREGISTERED, ERR_ALREADYREGISTERED, ERR_NOPRIVILEGES}.
      command_exec_client tab 100 3 (\<lambda>_ _ _ c s. (c, s)) 1 (demo_argv [''die''])
        \<lparr>cc_mine = True, cc_uplink = 3, cc_registered = False, cc_oper = False, cc_privs = (\<lambda>_. True),
          cc_conn = None, cc_signon = 0\<rparr> () =
        Some (Returned e [e]
          \<lparr>cc_mine = True, cc_uplink = 3, cc_registered = False, cc_oper = False, cc_privs = (\<lambda>_. True),
            cc_conn = None, cc_signon = 0\<rparr> ()))"
proof -
  obtain st0 :: "unit command_fun cmdtab" where s0: "start_commands = Some st0" "tab_ok st0" "ct_list st0 = []" "ct_next st0 = 0"
    using start_commands_ok by blast
  let ?f = "(\<lambda>_ _ cli s. Some (1, cli, s)) :: unit command_fun"
  let ?c = "\<lparr>cm_weight = 0, cm_name = ''die'', cm_dll = Module ''ircd/commands/die'', cm_priv = 0, cm_flags = 0,
     cm_client = no_half\<lparr>hf_cmd := Some ?f\<rparr>, cm_server = no_half\<rparr>"
  have n: "short_str ''die''" "\<not> is_alias ?c" by (simp_all add: short_str_def COMMAND_MAXLEN_def is_alias_def)
  have none: "find_command st0 ''die'' = None"
    using find_command_iff [OF s0(2) n(1)] s0(3) by (cases "find_command st0 ''die''") auto
  obtain st where st: "put_command ?c st0 = Some st" "tab_ok st" "ct_mem st = (ct_mem st0)(0 \<mapsto> ?c)" "ct_list st = [0]"
    using put_command_ok [OF s0(2), of ?c] n none s0(3,4) by auto
  have "find_command st ''die'' = Some 0"
    using iffD2 [OF find_command_iff [OF st(2) n(1)]] st(3,4) by simp
  then have l: "lookup_command st (demo_argv [''die'']) = Some (Some ?c)"
    using st(3) n(2) by (simp add: lookup_command_def demo_argv_def demo_arg_get COMMAND_MAXARGLEN_def resolve_def)
  have a: "arguments (hf_flags (cm_client ?c)) (cm_client ?c) 1 (demo_argv [''die'']) \<noteq> None"
    by (simp add: arguments_def no_half_def)
  show ?thesis
    using refused_command [OF l, of ?f, OF _ _ _ a, of _ 3] l by (intro exI [of _ st] exI [of _ ?c] exI [of _ ?f] conjI)
      (simp_all add: no_half_def)
qed

lemma accepted_command:
  assumes "lookup_command tab argv = Some (Some c)" "hf_cmd (cm_client c) = Some f" "sptr = cc_uplink cli"
    and "arguments (hf_flags (cm_client c)) (cm_client c) argc argv = Some argv'"
    and "hf_min (cm_client c) \<le> int argc - 1" "client_refusal c cli = None"
    and "hf_flags (cm_client c) AND COMMAND_FL_HOOKED = 0"
  shows "command_exec_client tab now sptr hooks argc argv cli s = run_client now f argc argv' cli s"
  using assms by (simp add: command_exec_client_def run_hooks_def exclusive_def)

section \<open>Flood control\<close>

text \<open>A client's commands one after the other, until one ends it.\<close>

fun client_run :: "'s command_fun \<Rightarrow> (int \<times> nat \<times> char list list) list \<Rightarrow> cmd_client \<Rightarrow> 's \<Rightarrow> 's executed option" where
  "client_run f [] cli s = Some (Returned 0 [] cli s)"
| "client_run f ((now, argc, argv) # xs) cli s =
     (case run_client now f argc argv cli s of
        Some (Returned r ns cli' s') \<Rightarrow> client_run f xs cli' s'
      | r \<Rightarrow> r)"

definition MAX_FLOOD :: int where "MAX_FLOOD = 1000000000"

lemma flood_limit_bounds:
  assumes "0 < L" "L \<le> MAX_FLOOD"
  shows "L \<le> flood_limit now signon L" "flood_limit now signon L \<le> L * 3 div 2" "flood_limit now signon L \<le> 1500000000"
proof -
  have "i32 (L * 3 div 2) = L * 3 div 2" using assms by (intro i32_id) (auto simp: MAX_FLOOD_def)
  then show "L \<le> flood_limit now signon L" "flood_limit now signon L \<le> L * 3 div 2" "flood_limit now signon L \<le> 1500000000"
    using assms by (auto simp: flood_limit_def MAX_FLOOD_def)
qed

lemma flood_decay_le:
  assumes "0 < L" "L \<le> MAX_FLOOD" "1 \<le> idle" "0 \<le> fl" "fl \<le> L div 8"
  shows "flood_decay (flood_limit now signon L) idle fl = 0"
proof -
  let ?m = "flood_limit now signon L"
  have m: "L \<le> ?m" "?m \<le> 1500000000" using flood_limit_bounds [OF assms(1,2)] by auto
  show ?thesis
  proof (cases "8 < idle")
    case True
    then show ?thesis by (simp add: flood_decay_def COMMAND_WEIGHT_REDUCE_FACTOR_def)
  next
    case False
    have d: "?m div 8 \<le> ?m div 8 * idle" "?m div 8 * idle \<le> ?m div 8 * 8"
      using assms(3) False m assms(1) by (auto simp: mult_le_cancel_left1 intro!: mult_left_mono)
    have "?m div 8 * 8 \<le> ?m" by simp
    then have i: "i32 (?m div 8 * idle) = ?m div 8 * idle"
      using d m assms(1) by (intro i32_id) auto
    have "L div 8 \<le> ?m div 8" using m(1) by (simp add: zdiv_mono1)
    then have "fl \<le> ?m div 8 * idle" using d(1) assms(5) by simp
    then show ?thesis using False assms(3,4) m(2) d
      by (auto simp: flood_decay_def COMMAND_WEIGHT_REDUCE_FACTOR_def i Let_def i32_def)
  qed
qed

text \<open>The commands of a function that leaves the client alone and has a bounded weight.\<close>

definition steady :: "int \<Rightarrow> 's command_fun \<Rightarrow> bool" where
  "steady w f \<longleftrightarrow> (\<forall>argc argv cli s. \<exists>r s'. f argc argv cli s = Some (r, cli, s') \<and> 0 \<le> r \<and> r \<le> w)"

lemma run_client_steady:
  assumes "steady w f" "cc_mine cli" "cc_conn cli = Some co" "0 < co_limit co"
  shows "\<exists>r s'. 0 \<le> r \<and> r \<le> w \<and> run_client now f argc argv cli s =
    (case flood_check now (cc_signon cli) (co_limit co) (now - co_last co) (co_flood co) r of
       (ret, flood, over) \<Rightarrow>
         (let cli = cli\<lparr>cc_conn := Some (co\<lparr>co_last := now, co_flood := flood\<rparr>)\<rparr> in
          if over then Some (Excess_flood cli s') else Some (Returned ret [] cli s')))"
proof -
  let ?cli = "cli\<lparr>cc_conn := Some (co\<lparr>co_last := now\<rparr>)\<rparr>"
  obtain r s' where r: "f argc argv ?cli s = Some (r, ?cli, s')" "0 \<le> r" "r \<le> w"
    using assms(1) unfolding steady_def by blast
  have e: "cli\<lparr>cc_conn := map_option (co_last_update (\<lambda>_. now)) (cc_conn cli)\<rparr> = ?cli" using assms(3) by simp
  have "run_client now f argc argv cli s =
    (case flood_check now (cc_signon cli) (co_limit co) (now - co_last co) (co_flood co) r of
       (ret, flood, over) \<Rightarrow>
         (let cli = cli\<lparr>cc_conn := Some (co\<lparr>co_last := now, co_flood := flood\<rparr>)\<rparr> in
          if over then Some (Excess_flood cli s') else Some (Returned ret [] cli s')))"
    unfolding run_client_def Let_def e r(1)
    using assms(2-4) r(2)
    by (simp add: IRCD_CONNECTION_CLOSED_def IRCD_PROTOCOL_CHANGED_def split: prod.split)
  then show ?thesis using r(2,3) by blast
qed

fun seconds_apart :: "int \<Rightarrow> (int \<times> 'a) list \<Rightarrow> bool" where
  "seconds_apart before [] \<longleftrightarrow> True"
| "seconds_apart before ((now, x) # xs) \<longleftrightarrow> before + 1 \<le> now \<and> seconds_apart now xs"

text \<open>C16: a client that waits a second between its commands, each of a weight of at most an eighth of its
  class's limit, is never destroyed for flooding, however many commands it gives.\<close>

theorem steady_client_stays:
  assumes "steady w f" "w \<le> co_limit co div 8" "cc_mine cli" "cc_conn cli = Some co"
    and "8 \<le> co_limit co" "co_limit co \<le> MAX_FLOOD" "0 \<le> co_flood co" "co_flood co \<le> co_limit co div 8"
    and "seconds_apart (co_last co) xs"
  shows "\<exists>r ns cli' s'. client_run f xs cli s = Some (Returned r ns cli' s')"
  using assms(3-9) assms(2)
proof (induction xs arbitrary: cli co s)
  case Nil
  then show ?case by simp
next
  case (Cons x xs)
  obtain now argc argv where x: "x = (now, argc, argv)" by (cases x)
  have L: "0 < co_limit co" using Cons.prems(3) by simp
  obtain r s' where r: "0 \<le> r" "r \<le> w" "run_client now f argc argv cli s =
    (case flood_check now (cc_signon cli) (co_limit co) (now - co_last co) (co_flood co) r of
       (ret, flood, over) \<Rightarrow>
         (let cli = cli\<lparr>cc_conn := Some (co\<lparr>co_last := now, co_flood := flood\<rparr>)\<rparr> in
          if over then Some (Excess_flood cli s') else Some (Returned ret [] cli s')))"
    using run_client_steady [OF assms(1) Cons.prems(1,2) L] by blast
  have idle: "1 \<le> now - co_last co" using Cons.prems(7) x by simp
  note d = flood_decay_le [OF L Cons.prems(4) idle Cons.prems(5,6)]
  have m: "co_limit co \<le> flood_limit now (cc_signon cli) (co_limit co)"
    by (rule flood_limit_bounds(1) [OF L Cons.prems(4)])
  obtain ret fl where fc: "flood_check now (cc_signon cli) (co_limit co) (now - co_last co) (co_flood co) r = (ret, fl, False)"
    "0 \<le> fl" "fl \<le> co_limit co div 8"
  proof -
    have small: "r \<le> co_limit co div 8" using r(2) Cons.prems(8) by simp
    have "co_limit co div 8 < co_limit co" using Cons.prems(3) by linarith
    then have "\<not> flood_limit now (cc_signon cli) (co_limit co) \<le> r" "\<not> flood_limit now (cc_signon cli) (co_limit co) \<le> 40 \<or> r \<le> 40"
      using m small by auto
    moreover have "i32 r = r" "i32 40 = 40" using r(1) small Cons.prems(4) by (auto intro!: i32_id simp: MAX_FLOOD_def)
    ultimately show thesis
      using that [of "if 0 < r then (if 40 < r then 40 else r) else r" "if 0 < r then (if 40 < r then 40 else r) else 0"]
        small r(1) m Cons.prems(3)
      by (auto simp: flood_check_def d Let_def COMMAND_WEIGHT_MAX_def COMMAND_WEIGHT_EXTREME_def split: if_splits)
  qed
  let ?cli = "cli\<lparr>cc_conn := Some (co\<lparr>co_last := now, co_flood := fl\<rparr>)\<rparr>"
  have "client_run f (x # xs) cli s = client_run f xs ?cli s'" by (simp add: x r(3) fc(1) Let_def)
  moreover have "\<exists>r ns cli' s''. client_run f xs ?cli s' = Some (Returned r ns cli' s'')"
    using Cons.prems fc(2,3) x by (intro Cons.IH [of ?cli "co\<lparr>co_last := now, co_flood := fl\<rparr>"]) auto
  ultimately show ?case by simp
qed

theorem steady_client_stays_witness:
  "\<exists>r ns cli' s'. client_run (\<lambda>_ _ cli s. Some (20, cli, s))
     [(100, 1, []), (101, 1, []), (102, 1, []), (103, 1, [])]
     \<lparr>cc_mine = True, cc_uplink = 0, cc_registered = True, cc_oper = False, cc_privs = (\<lambda>_. True),
       cc_conn = Some \<lparr>co_last = 99, co_flood = 0, co_limit = 192\<rparr>, cc_signon = 0\<rparr> () = Some (Returned r ns cli' s')"
  by (rule steady_client_stays [where w = 20 and co = "\<lparr>co_last = 99, co_flood = 0, co_limit = 192\<rparr>"])
    (simp_all add: steady_def MAX_FLOOD_def)

text \<open>Commands in the same second add up.\<close>

lemma flood_check_same_second:
  assumes "0 < L" "L \<le> MAX_FLOOD" "0 < w" "w \<le> COMMAND_WEIGHT_MAX" "0 \<le> fl" "fl < flood_limit now signon L"
  shows "flood_check now signon L 0 fl w = (w, fl + w, flood_limit now signon L \<le> fl + w)"
proof -
  have "fl + w < 2147483648"
    using assms flood_limit_bounds(3) [OF assms(1,2), of now signon]
    by (simp add: COMMAND_WEIGHT_MAX_def COMMAND_WEIGHT_EXTREME_def)
  then have "i32 (fl + w) = fl + w" using assms(3,5) by (intro i32_id) auto
  then show ?thesis using assms(3,4)
    by (simp add: flood_check_def flood_decay_def COMMAND_WEIGHT_REDUCE_FACTOR_def Let_def)
qed



section \<open>What a folded command gets\<close>

lemma c_str_buf_str: "c_str (buf_str b i)"
  by (auto simp: c_str_def buf_str_def dest: set_takeWhileD)

lemma strncpy_at_short:
  assumes "c_str u" "length u < k" "length post = k + 1"
  shows "\<exists>p. strncpy_at (t @ post) (length t) u (int k) = Some (t @ u @ NUL # p) \<and> length (u @ NUL # p) = k + 1"
proof -
  have "take k (u @ replicate k NUL) = u @ NUL # replicate (k - length u - 1) NUL"
  proof -
    have "replicate (k - length u) NUL = NUL # replicate (k - length u - 1) NUL"
      using assms(2) by (metis Suc_diff_Suc Suc_eq_plus1 diff_diff_left replicate_Suc)
    then show ?thesis using assms(2) by (simp add: take_replicate min_def)
  qed
  then show ?thesis
    using assms strncpy_loop_eq [OF assms(1), of 0 k post]
    by (auto simp: strncpy_at_def ith_strncpy_def put_bytes_def)
qed

lemma fold_loop_ok:
  assumes "length b = COMMAND_MAXARGLEN + 1" "b = t @ NUL # post" "c_str t"
    and "length (t @ concat (map (\<lambda>a. CHR '' '' # buf_str a 0) as)) < COMMAND_MAXARGLEN"
  shows "\<exists>p. fold_loop b (length t) as = Some (t @ concat (map (\<lambda>a. CHR '' '' # buf_str a 0) as) @ NUL # p) \<and>
    length (t @ concat (map (\<lambda>a. CHR '' '' # buf_str a 0) as) @ NUL # p) = COMMAND_MAXARGLEN + 1"
  using assms
proof (induction as arbitrary: b t post)
  case Nil
  then show ?case by auto
next
  case (Cons a as)
  let ?u = "buf_str a 0" let ?t = "t @ [CHR '' '']" let ?k = "COMMAND_MAXARGLEN - length ?t"
  have u: "c_str ?u" by (rule c_str_buf_str)
  have len: "length ?u < ?k" "length post = ?k + 1" using Cons.prems(1,2,4) by auto
  obtain p where p: "strncpy_at (?t @ post) (length ?t) ?u (int ?k) = Some (?t @ ?u @ NUL # p)" "length (?u @ NUL # p) = ?k + 1"
    using strncpy_at_short [OF u len, of ?t] by blast
  have k: "int ?k = int COMMAND_MAXARGLEN - int (length t + 1)" using len(1) by simp
  have put: "buf_put b (length t) (CHR '' '') = Some (?t @ post)" using Cons.prems(2) by simp
  have g: "get_arg (drop (length t + 1) (?t @ ?u @ NUL # p)) = Some ?u"
    using buf_str_prefix [OF u] by (simp add: get_arg_def)
  have "fold_loop b (length t) (a # as) = fold_loop ((?t @ ?u) @ NUL # p) (length (?t @ ?u)) as"
    using put p(1) g k by simp
  moreover have "length ((?t @ ?u) @ NUL # p) = COMMAND_MAXARGLEN + 1" using p(2) len by simp
  moreover have "c_str (?t @ ?u)" using Cons.prems(3) u by simp
  ultimately show ?case using Cons.IH [of "(?t @ ?u) @ NUL # p" "?t @ ?u" p] Cons.prems(4) by simp
qed

lemma join_with_concat: "join_with c (t # us) = t @ concat (map (\<lambda>u. c # u) us)"
  by (induction us arbitrary: t) auto

text \<open>C35: the extra arguments of a command that folds them are joined to the last one it takes, with
  a space between two, as long as the text stays below the limit; the other arguments stay.\<close>

theorem fold_args_joins:
  assumes "argv_ok argv" "mx < argc" "argc \<le> COMMAND_MAXARGS" "\<forall>i<argc. get_arg (argv ! i) = Some (text i)"
    and "length (join_with (CHR '' '') (map text [mx..<argc])) < COMMAND_MAXARGLEN"
  shows "\<exists>b. fold_args mx argc argv = Some (argv[mx := b]) \<and> argv_ok (argv[mx := b]) \<and>
    get_arg b = Some (join_with (CHR '' '') (map text [mx..<argc]))"
proof -
  let ?b = "argv ! mx" let ?as = "drop (mx + 1) (take argc argv)"
  have l: "length argv = COMMAND_MAXARGS" "mx < length argv" "length ?b = COMMAND_MAXARGLEN + 1"
    using assms(1-3) by (auto simp: argv_ok_def)
  have "?as = map (\<lambda>i. argv ! i) [mx + 1..<argc]" using l(1) assms(3) by (intro nth_equalityI) auto
  moreover have "buf_str (argv ! i) 0 = text i" "NUL \<in> set (argv ! i)" if "i < argc" for i
    using assms(4) that by (auto simp: get_arg_def split: if_splits)
  ultimately have as: "map (\<lambda>a. CHR '' '' # buf_str a 0) ?as = map (\<lambda>u. CHR '' '' # u) (map text [mx + 1..<argc])" by simp
  have "get_arg ?b = Some (text mx)" using assms(2,4) by blast
  then have tx: "text mx = buf_str ?b 0" "NUL \<in> set ?b"
    unfolding get_arg_def by (metis option.distinct(1) option.inject)+
  have j: "join_with (CHR '' '') (map text [mx..<argc]) = text mx @ concat (map (\<lambda>a. CHR '' '' # buf_str a 0) ?as)"
    unfolding as upt_conv_Cons [OF assms(2)] list.map join_with_concat by simp
  obtain post where post: "?b = text mx @ NUL # post"
  proof -
    have "dropWhile (\<lambda>c. c \<noteq> NUL) ?b \<noteq> []" using tx(2) by (simp add: dropWhile_eq_Nil_conv)
    then have "?b = takeWhile (\<lambda>c. c \<noteq> NUL) ?b @ NUL # tl (dropWhile (\<lambda>c. c \<noteq> NUL) ?b)"
      using hd_dropWhile [of "\<lambda>c. c \<noteq> NUL" ?b] by (metis list.collapse takeWhile_dropWhile_id)
    then show thesis using that tx(1) by (simp add: buf_str_def)
  qed
  have cs: "c_str (text mx)" unfolding tx(1) by (rule c_str_buf_str)
  obtain p where p: "fold_loop ?b (length (text mx)) ?as = Some ((text mx @ concat (map (\<lambda>a. CHR '' '' # buf_str a 0) ?as)) @ NUL # p)"
     "length ((text mx @ concat (map (\<lambda>a. CHR '' '' # buf_str a 0) ?as)) @ NUL # p) = COMMAND_MAXARGLEN + 1"
    using fold_loop_ok [OF l(3) post cs, of ?as] assms(5) unfolding j by auto
  let ?j = "join_with (CHR '' '') (map text [mx..<argc])"
  have cj: "c_str ?j" unfolding j using cs by (auto simp: c_str_def buf_str_def dest: set_takeWhileD)
  let ?c = "(?j @ NUL # p)[COMMAND_MAXARGLEN := NUL]"
  have lc: "length ?c = COMMAND_MAXARGLEN + 1" using p(2) unfolding j [symmetric] by simp
  obtain k where k: "COMMAND_MAXARGLEN = length ?j + Suc k" using less_imp_Suc_add [OF assms(5)] by auto
  have "?c = ?j @ NUL # (p[k := NUL])" unfolding k by (simp add: list_update_append)
  then have "get_arg ?c = Some ?j" using buf_str_prefix [OF cj] by (simp add: get_arg_def)
  moreover have "fold_args mx argc argv = Some (argv[mx := ?c])"
    using p lc l(2) assms(2,4) unfolding j [symmetric] by (simp add: fold_args_def)
  moreover have "argv_ok (argv[mx := ?c])"
    using assms(1) lc by (auto simp: argv_ok_def dest: set_update_subset_insert [THEN subsetD])
  ultimately show ?thesis by blast
qed

theorem fold_args_joins_witness:
  "\<exists>b. fold_args 1 4 (demo_argv [''topic'', ''a'', ''b'', ''c'']) = Some ((demo_argv [''topic'', ''a'', ''b'', ''c''])[1 := b]) \<and>
     get_arg b = Some ''a b c''"
proof -
  let ?ts = "[''topic'', ''a'', ''b'', ''c'']"
  have t: "\<forall>i<4. get_arg (demo_argv ?ts ! i) = Some (?ts ! i)"
    by (simp add: less_Suc_eq numeral_eq_Suc demo_argv_def demo_arg_get COMMAND_MAXARGLEN_def)
  have j: "join_with (CHR '' '') (map ((!) ?ts) [1..<4]) = ''a b c''" by (simp add: upt_rec)
  have "argv_ok (demo_argv ?ts)" by (rule demo_argv_ok) (simp_all add: COMMAND_MAXARGS_def COMMAND_MAXARGLEN_def)
  from fold_args_joins [OF this _ _ t, of 1, unfolded j] show ?thesis
    by (auto simp: COMMAND_MAXARGS_def COMMAND_MAXARGLEN_def)
qed

text \<open>When the joined text reaches the limit and another argument follows, the count of the next copy is
  negative, and the copy leaves the buffer.\<close>

lemma fold_leaves_buffer:
  assumes "length b = COMMAND_MAXARGLEN + 1"
  shows "fold_loop b COMMAND_MAXARGLEN (a # as) = None"
  using assms by (simp add: strncpy_at_def)

section \<open>What the list of names becomes\<close>

text \<open>The first of the entries that differ in case only, empty entries left out.\<close>

definition distinct_entries :: "cstring list \<Rightarrow> cstring list \<Rightarrow> cstring list" where
  "distinct_entries = foldl (\<lambda>us t. if t = [] \<or> (\<exists>u\<in>set us. same_nocase u t) then us else us @ [t])"

lemma distinct_entries_simps [simp]:
  "distinct_entries us [] = us"
  "distinct_entries us (t # ts) =
     distinct_entries (if t = [] \<or> (\<exists>u\<in>set us. same_nocase u t) then us else us @ [t]) ts"
  by (simp_all add: distinct_entries_def)

lemma distinct_entries_grow: "\<exists>vs. distinct_entries us ts = us @ vs"
proof (induction ts arbitrary: us)
  case Nil
  then show ?case by simp
next
  case (Cons t ts)
  from Cons [of us] Cons [of "us @ [t]"] show ?case by auto
qed

text \<open>What the entries are: as a set up to case, without repetition, and in the order of the list.\<close>

lemma distinct_entries_sound:
  "sorted_wrt (\<lambda>u v. \<not> same_nocase u v) us \<Longrightarrow> sorted_wrt (\<lambda>u v. \<not> same_nocase u v) (distinct_entries us ts)"
proof (induction ts arbitrary: us)
  case Nil
  then show ?case by simp
next
  case (Cons t ts)
  have "sorted_wrt (\<lambda>u v. \<not> same_nocase u v) (us @ [t])" if "\<forall>u\<in>set us. \<not> same_nocase u t"
    using Cons.prems that by (auto simp: sorted_wrt_append)
  then show ?case using Cons by auto
qed

lemma distinct_entries_complete:
  "t \<in> set ts \<Longrightarrow> t \<noteq> [] \<Longrightarrow> \<exists>u\<in>set (distinct_entries us ts). same_nocase u t"
proof (induction ts arbitrary: us)
  case Nil
  then show ?case by simp
next
  case (Cons x ts)
  show ?case
  proof (cases "t = x")
    case False
    then show ?thesis using Cons.IH [of "if x = [] \<or> (\<exists>u\<in>set us. same_nocase u x) then us else us @ [x]"] Cons.prems
      by simp
  next
    case True
    define us' where "us' = (if x = [] \<or> (\<exists>u\<in>set us. same_nocase u x) then us else us @ [x])"
    obtain vs where vs: "distinct_entries us' ts = us' @ vs" using distinct_entries_grow by blast
    have "\<exists>u\<in>set us'. same_nocase u t" using True Cons.prems(2) by (auto simp: same_nocase_def us'_def)
    moreover have "distinct_entries us (x # ts) = us' @ vs" using vs by (simp only: distinct_entries_simps us'_def)
    ultimately show ?thesis by (simp only: set_append) blast
  qed
qed

lemma distinct_entries_subset: "set (distinct_entries us ts) \<subseteq> set us \<union> (set ts - {[]})"
proof (induction ts arbitrary: us)
  case Nil
  then show ?case by simp
next
  case (Cons t ts)
  have "set (if t = [] \<or> (\<exists>u\<in>set us. same_nocase u t) then us else us @ [t]) \<subseteq> set us \<union> ({t} - {[]})" by auto
  then show ?case
    using Cons [of "if t = [] \<or> (\<exists>u\<in>set us. same_nocase u t) then us else us @ [t]"]
    unfolding distinct_entries_simps(2) by (force simp only: list.set)
qed

text \<open>The buffer while the list is walked.\<close>

definition entries_text :: "char \<Rightarrow> cstring list \<Rightarrow> cstring" where
  "entries_text c us = concat (map (\<lambda>u. u @ [c]) us)"

definition entry_ok :: "cstring \<Rightarrow> cstring \<Rightarrow> bool" where
  "entry_ok sep u \<longleftrightarrow> c_str u \<and> u \<noteq> [] \<and> set u \<inter> set sep = {}"

lemma entries_text_c_str: "c_str [c] \<Longrightarrow> \<forall>u\<in>set us. entry_ok sep u \<Longrightarrow> c_str (entries_text c us)"
  by (auto simp: entries_text_def entry_ok_def c_str_def)

lemma strsep_all_entries:
  assumes "c_str sep" "c \<in> set sep"
  shows "\<forall>u\<in>set us. entry_ok sep u \<Longrightarrow> strsep_all (Some (entries_text c us)) sep = us @ [[]]"
proof (induction us)
  case Nil
  then show ?case using assms(1) by (simp add: entries_text_def strsep_all_eq strsep_loop_eq)
next
  case (Cons u us)
  have c: "c_str [c]" using assms by (auto simp: c_str_def)
  have cs: "c_str (entries_text c (u # us))" by (rule entries_text_c_str [OF c Cons.prems])
  have e: "entries_text c (u # us) = u @ c # entries_text c us" by (simp add: entries_text_def)
  have u: "\<forall>x\<in>set u. x \<notin> set sep" using Cons.prems by (auto simp: entry_ok_def)
  have "takeWhile (\<lambda>x. x \<notin> set sep) (u @ c # entries_text c us) = u"
    "dropWhile (\<lambda>x. x \<notin> set sep) (u @ c # entries_text c us) = c # entries_text c us"
    using u assms(2) by (simp_all add: takeWhile_append dropWhile_append)
  then have "ith_strsep_loop (entries_text c (u # us)) sep = (u, Some (entries_text c us))"
    using strsep_loop_eq [OF cs assms(1)] assms(2) unfolding e by auto
  then show ?case using Cons by (simp add: strsep_all_eq)
qed

lemma in_list_entries:
  assumes "c_str sep" "c \<in> set sep" "\<forall>u\<in>set us. entry_ok sep u" "c_str cur"
  shows "in_list (entries_text c us) sep cur \<longleftrightarrow> (\<exists>u\<in>set us. same_nocase u cur)"
  using assms strcasecmp_zero_iff
  by (auto simp: in_list_def strsep_all_entries [OF assms(1-3)] entry_ok_def)

lemma strsep_all_tokens:
  "c_str s \<Longrightarrow> c_str sep \<Longrightarrow> t \<in> set (strsep_all (Some s) sep) \<Longrightarrow> t \<noteq> [] \<Longrightarrow> entry_ok sep t"
proof (induction "length s" arbitrary: s rule: less_induct)
  case less
  let ?r = "tl (dropWhile (\<lambda>c. c \<notin> set sep) s)"
  have tk: "entry_ok sep (takeWhile (\<lambda>c. c \<notin> set sep) s)" if "takeWhile (\<lambda>c. c \<notin> set sep) s \<noteq> []"
    using that less.prems(1) by (auto simp: entry_ok_def c_str_def dest: set_takeWhileD)
  show ?case
  proof (cases "\<exists>c\<in>set s. c \<in> set sep")
    case False
    then have "strsep_all (Some s) sep = [takeWhile (\<lambda>c. c \<notin> set sep) s]"
      using less.prems by (simp add: strsep_all_eq strsep_loop_eq)
    then show ?thesis using less.prems(3,4) tk by simp
  next
    case True
    have d: "dropWhile (\<lambda>c. c \<notin> set sep) s \<noteq> []" using True by (auto simp: dropWhile_eq_Nil_conv)
    have "length ?r < length s"
      using d length_dropWhile_le [of "\<lambda>c. c \<notin> set sep" s] by (cases "dropWhile (\<lambda>c. c \<notin> set sep) s") auto
    moreover have "set ?r \<subseteq> set s" using d by (meson list.set_sel(2) set_dropWhileD subsetI)
    then have "c_str ?r" using less.prems(1) unfolding c_str_def by blast
    moreover have "strsep_all (Some s) sep = takeWhile (\<lambda>c. c \<notin> set sep) s # strsep_all (Some ?r) sep"
      using less.prems True by (simp add: strsep_all_eq(2) [of s] strsep_loop_eq)
    ultimately show ?thesis using less tk by (metis set_ConsD)
  qed
qed

lemma reduce_loop_ok:
  assumes "c_str sep" "sep \<noteq> []" "\<forall>t\<in>set ts. t \<noteq> [] \<longrightarrow> entry_ok sep t" "\<forall>u\<in>set us. entry_ok sep u"
    and "length (entries_text (hd sep) (distinct_entries us ts)) \<le> COMMAND_MAXARGLEN"
  shows "reduce_loop sep ts (entries_text (hd sep) us, length (entries_text (hd sep) us)) =
    Some (entries_text (hd sep) (distinct_entries us ts), length (entries_text (hd sep) (distinct_entries us ts)))"
  using assms(3-5)
proof (induction ts arbitrary: us)
  case Nil
  then show ?case by simp
next
  case (Cons t ts)
  have c: "hd sep \<in> set sep" using assms(2) by simp
  show ?case
  proof (cases "t = [] \<or> (\<exists>u\<in>set us. same_nocase u t)")
    case True
    have "t = [] \<or> in_list (entries_text (hd sep) us) sep t"
      using True in_list_entries [OF assms(1) c Cons.prems(2), of t] Cons.prems(1) by (auto simp: entry_ok_def)
    then show ?thesis using Cons.IH [of us] Cons.prems True by auto
  next
    case False
    then have ok: "entry_ok sep t" using Cons.prems(1) by simp
    then have "\<not> in_list (entries_text (hd sep) us) sep t"
      using False in_list_entries [OF assms(1) c Cons.prems(2), of t] by (auto simp: entry_ok_def)
    moreover have e: "entries_text (hd sep) (us @ [t]) = entries_text (hd sep) us @ t @ [hd sep]" by (simp add: entries_text_def)
    moreover obtain vs where "distinct_entries (us @ [t]) ts = (us @ [t]) @ vs" using distinct_entries_grow by blast
    then have "length (entries_text (hd sep) (us @ [t])) \<le> COMMAND_MAXARGLEN"
      using Cons.prems(3) False by (simp add: entries_text_def)
    ultimately show ?thesis
      using Cons.IH [of "us @ [t]"] Cons.prems ok False by (auto simp: Let_def)
  qed
qed

lemma entries_text_join: "us \<noteq> [] \<Longrightarrow> entries_text c us = join_with c us @ [c]"
  by (induction us) (auto simp: entries_text_def)

text \<open>A list of names becomes the list of the different ones, in the order and the spelling of their first
  occurrence, when that fits into the buffer.\<close>

theorem reduce_string_list_distinct:
  assumes "c_str list" "c_str sep" "sep \<noteq> []"
    and "us = distinct_entries [] (strsep_all (Some list) sep)" "us \<noteq> []"
    and "length (join_with (hd sep) us) < COMMAND_MAXARGLEN"
  shows "reduce_string_list list sep = Some (join_with (hd sep) us) \<and>
    sorted_wrt (\<lambda>u v. \<not> same_nocase u v) us \<and> set us \<subseteq> set (strsep_all (Some list) sep) - {[]} \<and>
    (\<forall>t\<in>set (strsep_all (Some list) sep). t \<noteq> [] \<longrightarrow> (\<exists>u\<in>set us. same_nocase u t))"
proof (intro conjI)
  have "length (entries_text (hd sep) us) \<le> COMMAND_MAXARGLEN" using assms(5,6) by (simp add: entries_text_join)
  then show "reduce_string_list list sep = Some (join_with (hd sep) us)"
    using reduce_loop_ok [OF assms(2,3), of "strsep_all (Some list) sep" "[]"]
      strsep_all_tokens [OF assms(1,2)] assms(4,5)
    by (simp add: reduce_string_list_def entries_text_def [of _ "[]"] entries_text_join)
  show "sorted_wrt (\<lambda>u v. \<not> same_nocase u v) us" unfolding assms(4) by (rule distinct_entries_sound) simp
  show "\<forall>t\<in>set (strsep_all (Some list) sep). t \<noteq> [] \<longrightarrow> (\<exists>u\<in>set us. same_nocase u t)"
    unfolding assms(4) using distinct_entries_complete by blast
  show "set us \<subseteq> set (strsep_all (Some list) sep) - {[]}"
    unfolding assms(4) using distinct_entries_subset [of "[]" "strsep_all (Some list) sep"] by auto
qed

theorem reduce_string_list_distinct_witness:
  "reduce_string_list ''#a,#b,,#A,#c'' '','' = Some ''#a,#b,#c''"
proof -
  have t: "strsep_all (Some ''#a,#b,,#A,#c'') '','' = [''#a'', ''#b'', [], ''#A'', ''#c'']"
    by (simp add: strsep_all_eq strsep_loop_eq c_str_def)
  have d: "distinct_entries [] [''#a'', ''#b'', [], ''#A'', ''#c''] = [''#a'', ''#b'', ''#c'']"
    by (simp add: same_nocase_def tolower_def tolowertab_def uchar_def)
  from reduce_string_list_distinct [of "''#a,#b,,#A,#c''" "'',''" "[''#a'', ''#b'', ''#c'']", unfolded t d]
  show ?thesis by (simp add: c_str_def COMMAND_MAXARGLEN_def)
qed

text \<open>Of a list with separators only, the byte before the buffer is written.\<close>

lemma reduce_nothing: "c_str sep \<Longrightarrow> c \<in> set sep \<Longrightarrow> reduce_string_list [c] sep = None"
  using strsep_loop_eq [of "[c]" sep] strsep_loop_eq [of "[]" sep]
  by (cases "c = NUL") (auto simp: reduce_string_list_def strsep_all_eq c_str_def)

end
