(* ===== verification/Sendq.thy ===== *)
theory Sendq
  imports Format
begin

text \<open>
  The send queues of the connections (\<^verbatim>\<open>send.c\<close>, \<^verbatim>\<open>connection.c\<close>): messages are blocks in memory that count
  the queue items that refer to them; an item remembers how much of its block was written. An address
  is never used twice, and a use of a freed block, of a freed connection or of the head of an empty
  queue gives \<open>None\<close>. What \<^verbatim>\<open>socket_write\<close> takes from a connection is kept with it; its results are a list,
  of which a call gives at most the number of bytes it was offered, and a socket takes nothing when the
  list has ended. Counters are unbounded: an item is larger than a
  byte, so \<^verbatim>\<open>int\<close> does not overflow before memory ends.
\<close>

section \<open>Blocks and queues\<close>

definition IRCD_CONNFL_WRITEABLE :: u32 where "IRCD_CONNFL_WRITEABLE = 0x100"
definition IRCD_CONNFL_NOSENDQ :: u32 where "IRCD_CONNFL_NOSENDQ = 0x400"

record sendq_block =
  sb_msg :: "char list"
  sb_refs :: int

text \<open>\<open>sq_items\<close> are the blocks with their offsets, \<open>sq_limit\<close> is the \<^verbatim>\<open>sendq\<close> of the class, \<open>sq_wire\<close> what was written.\<close>

record sendq_conn =
  sq_items :: "(nat \<times> nat) list"
  sq_count :: int
  sq_flags :: u32
  sq_limit :: int
  sq_sent :: int
  sq_psent :: int
  sq_host :: cstring
  sq_wire :: "char list"

record sendq_mem =
  sm_block :: "nat \<Rightarrow> sendq_block option"
  sm_next :: nat
  sm_conn :: "nat \<Rightarrow> sendq_conn option"

definition create_sendq_block :: "char list \<Rightarrow> sendq_mem \<Rightarrow> nat \<times> sendq_mem" where
  "create_sendq_block msg st =
     (sm_next st, st\<lparr>sm_block := (sm_block st)(sm_next st \<mapsto> \<lparr>sb_msg = msg, sb_refs = 0\<rparr>), sm_next := sm_next st + 1\<rparr>)"

definition sendq_push :: "nat \<Rightarrow> nat \<Rightarrow> sendq_mem \<Rightarrow> sendq_mem option" where
  "sendq_push bp c st =
     (case sm_block st bp of
        None \<Rightarrow> None
      | Some b \<Rightarrow>
          (case sm_conn st c of
             None \<Rightarrow> None
           | Some q \<Rightarrow>
               Some (st\<lparr>sm_block := (sm_block st)(bp \<mapsto> b\<lparr>sb_refs := sb_refs b + 1\<rparr>),
                        sm_conn := (sm_conn st)(c \<mapsto> q\<lparr>sq_items := sq_items q @ [(bp, 0)], sq_count := sq_count q + 1\<rparr>)\<rparr>)))"

definition sendq_pop :: "nat \<Rightarrow> sendq_mem \<Rightarrow> sendq_mem option" where
  "sendq_pop c st =
     (case sm_conn st c of
        None \<Rightarrow> None
      | Some q \<Rightarrow>
          (case sq_items q of
             [] \<Rightarrow> None
           | (bp, _) # rest \<Rightarrow>
               (case sm_block st bp of
                  None \<Rightarrow> None
                | Some b \<Rightarrow>
                    Some (st\<lparr>sm_block := (sm_block st)(bp := (if sb_refs b - 1 = 0 then None else Some (b\<lparr>sb_refs := sb_refs b - 1\<rparr>))),
                             sm_conn := (sm_conn st)(c \<mapsto> q\<lparr>sq_items := rest, sq_count := sq_count q - 1\<rparr>)\<rparr>))))"

text \<open>The macro \<^verbatim>\<open>sendto\<close>.\<close>

definition sendto :: "nat \<Rightarrow> char list \<Rightarrow> sendq_mem \<Rightarrow> sendq_mem option" where
  "sendto c msg st = (case create_sendq_block msg st of (b, st) \<Rightarrow> sendq_push b c st)"

section \<open>Writing\<close>

definition upd_conn :: "nat \<Rightarrow> (sendq_conn \<Rightarrow> sendq_conn) \<Rightarrow> sendq_mem \<Rightarrow> sendq_mem" where
  "upd_conn c f st = st\<lparr>sm_conn := (sm_conn st)(c := map_option f (sm_conn st c))\<rparr>"

text \<open>The loop of \<^verbatim>\<open>sendq_flush\<close>: the first item is written from its offset on.\<close>

fun flush_loop :: "int list \<Rightarrow> nat \<Rightarrow> sendq_mem \<Rightarrow> sendq_mem option" where
  "flush_loop [] c st = Some st"
| "flush_loop (r # rs) c st =
     (case sm_conn st c of
        None \<Rightarrow> None
      | Some q \<Rightarrow>
          (case sq_items q of
             [] \<Rightarrow> Some st
           | (bp, off) # rest \<Rightarrow>
               (case sm_block st bp of
                  None \<Rightarrow> None
                | Some b \<Rightarrow>
                    (let data = drop off (sb_msg b); r = min r (int (length data)) in
                     if r \<le> 0 then Some st
                     else if nat r \<noteq> length data then
                       Some (upd_conn c (\<lambda>q. q\<lparr>sq_items := (bp, off + nat r) # rest, sq_wire := sq_wire q @ take (nat r) data\<rparr>) st)
                     else
                       (case sendq_pop c (upd_conn c (\<lambda>q. q\<lparr>sq_wire := sq_wire q @ data,
                            sq_sent := sq_sent q + int (length (sb_msg b)), sq_psent := sq_psent q + 1\<rparr>) st) of
                          None \<Rightarrow> None
                        | Some st \<Rightarrow> flush_loop rs c st)))))"

primrec pop_all :: "nat \<Rightarrow> nat \<Rightarrow> sendq_mem \<Rightarrow> sendq_mem option" where
  "pop_all 0 c st = Some st"
| "pop_all (Suc n) c st = (case sendq_pop c st of None \<Rightarrow> None | Some st \<Rightarrow> pop_all n c st)"

text \<open>The end of a connection whose client or server is gone (their destruction ends here): an error line when nothing waits, \<open>r\<close> is what the
  socket takes of it; otherwise the queue is thrown away.\<close>

definition closing_line :: "cstring \<Rightarrow> cstring \<Rightarrow> cstring" where
  "closing_line host reason =
     take 511 (CHR 0x0D # CHR 0x0A # ''ERROR :Closing Link: '' @ host @ '' ('' @ reason @ '')'' @ [CHR 0x0D, CHR 0x0A])"

definition destroy_connection :: "nat \<Rightarrow> cstring \<Rightarrow> sendq_mem \<Rightarrow> (sendq_mem \<times> char list) option" where
  "destroy_connection c reason st =
     (case sm_conn st c of
        None \<Rightarrow> None
      | Some q \<Rightarrow>
          if sq_items q = [] \<and> reason \<noteq> [] then
            Some (st\<lparr>sm_conn := (sm_conn st)(c := None)\<rparr>, closing_line (sq_host q) reason)
          else map_option (\<lambda>st. (st\<lparr>sm_conn := (sm_conn st)(c := None)\<rparr>, [])) (pop_all (length (sq_items q)) c st))"

text \<open>True says that the connection is still there.\<close>

definition sendq_flush :: "int list \<Rightarrow> nat \<Rightarrow> sendq_mem \<Rightarrow> (sendq_mem \<times> bool) option" where
  "sendq_flush rs c st =
     (case sm_conn st c of
        None \<Rightarrow> None
      | Some q \<Rightarrow>
          (case (if sq_flags q AND IRCD_CONNFL_WRITEABLE \<noteq> 0 then flush_loop rs c st else Some st) of
             None \<Rightarrow> None
           | Some st \<Rightarrow>
               (case sm_conn st c of
                  None \<Rightarrow> None
                | Some q \<Rightarrow>
                    if sq_flags q AND IRCD_CONNFL_NOSENDQ \<noteq> 0 \<and> sq_count q = 0 then
                      Some (upd_conn c (\<lambda>q. q\<lparr>sq_flags := sq_flags q AND NOT IRCD_CONNFL_NOSENDQ\<rparr>) st, True)
                    else if sq_flags q AND IRCD_CONNFL_NOSENDQ = 0 \<and> sq_limit q < sq_count q then
                      map_option (\<lambda>x. (fst x, False)) (destroy_connection c ''SendQ Exceeded'' st)
                    else Some (st, True))))"

text \<open>\<^verbatim>\<open>ircd_writer_hook\<close> over the connections of one list; a connection that is destroyed does not disturb the walk.\<close>

fun writer_loop :: "(nat \<Rightarrow> int list) \<Rightarrow> nat list \<Rightarrow> sendq_mem \<Rightarrow> sendq_mem option" where
  "writer_loop results [] st = Some st"
| "writer_loop results (c # cs) st =
     (case sendq_flush (results c) c st of None \<Rightarrow> None | Some (st, _) \<Rightarrow> writer_loop results cs st)"

definition ircd_writer_hook ::
  "(nat \<Rightarrow> int list) \<Rightarrow> nat list \<Rightarrow> nat list \<Rightarrow> nat list \<Rightarrow> nat list \<Rightarrow> sendq_mem \<Rightarrow> sendq_mem option" where
  "ircd_writer_hook results stage1 stage2 clients servers st =
     (case writer_loop results stage1 st of
        None \<Rightarrow> None
      | Some st \<Rightarrow>
          (case writer_loop results stage2 st of
             None \<Rightarrow> None
           | Some st \<Rightarrow>
               (case writer_loop results clients st of
                  None \<Rightarrow> None
                | Some st \<Rightarrow> writer_loop results servers st)))"

section \<open>The count of references\<close>

definition refs_to :: "sendq_mem \<Rightarrow> nat \<Rightarrow> nat" where
  "refs_to st b = (\<Sum>c\<in>dom (sm_conn st). count_list (map fst (sq_items (the (sm_conn st c)))) b)"

text \<open>What waits on a queue.\<close>

definition item_text :: "sendq_mem \<Rightarrow> nat \<times> nat \<Rightarrow> char list" where
  "item_text st i = drop (snd i) (sb_msg (the (sm_block st (fst i))))"

definition waiting :: "sendq_mem \<Rightarrow> sendq_conn \<Rightarrow> char list" where
  "waiting st q = concat (map (item_text st) (sq_items q))"

text \<open>
  Every block counts its items and is gone with the last one, no item is written to its end, only
  the first item of a queue is begun, and the counter of a queue is its length.
\<close>

definition sendq_ok :: "sendq_mem \<Rightarrow> bool" where
  "sendq_ok st \<longleftrightarrow> finite (dom (sm_conn st)) \<and> (\<forall>b\<in>dom (sm_block st). b < sm_next st) \<and>
     (\<forall>b. refs_to st b = (case sm_block st b of None \<Rightarrow> 0 | Some k \<Rightarrow> nat (sb_refs k))) \<and>
     (\<forall>b k. sm_block st b = Some k \<longrightarrow> 0 < sb_refs k) \<and>
     (\<forall>c q. sm_conn st c = Some q \<longrightarrow> sq_count q = int (length (sq_items q)) \<and>
        (\<forall>i\<in>set (sq_items q). item_text st i \<noteq> []) \<and> (\<forall>i\<in>set (tl (sq_items q)). snd i = 0))"

lemma sum_map_upd:
  assumes "finite (dom m)" "m c = Some q"
  shows "(\<Sum>x\<in>dom (m(c \<mapsto> q')). f (the ((m(c \<mapsto> q')) x))) + f q = (\<Sum>x\<in>dom m. (f (the (m x)) :: nat)) + f q'"
proof -
  have d: "dom (m(c \<mapsto> q')) = insert c (dom m - {c})" "dom m = insert c (dom m - {c})" using assms(2) by auto
  have "(\<Sum>x\<in>dom (m(c \<mapsto> q')). f (the ((m(c \<mapsto> q')) x))) = f q' + (\<Sum>x\<in>dom m - {c}. f (the (m x)))"
  proof -
    have "(\<Sum>x\<in>insert c (dom m - {c}). f (the ((m(c \<mapsto> q')) x))) =
        f q' + (\<Sum>x\<in>dom m - {c}. f (the ((m(c \<mapsto> q')) x)))"
      by (subst sum.insert) (use assms(1) in auto)
    also have "(\<Sum>x\<in>dom m - {c}. f (the ((m(c \<mapsto> q')) x))) = (\<Sum>x\<in>dom m - {c}. f (the (m x)))"
      by (intro sum.cong) auto
    finally show ?thesis unfolding d(1) .
  qed
  moreover have "(\<Sum>x\<in>dom m. f (the (m x))) = f q + (\<Sum>x\<in>dom m - {c}. f (the (m x)))"
    using sum.remove [of "dom m" c "\<lambda>x. f (the (m x))"] assms by auto
  ultimately show ?thesis by simp
qed

lemma refs_to_upd:
  assumes "finite (dom (sm_conn st))" "sm_conn st c = Some q" "sm_conn st' = (sm_conn st)(c \<mapsto> q')"
  shows "refs_to st' b + count_list (map fst (sq_items q)) b = refs_to st b + count_list (map fst (sq_items q')) b"
  unfolding refs_to_def assms(3)
  by (rule sum_map_upd [where f = "\<lambda>q. count_list (map fst (sq_items q)) b", OF assms(1,2)])

lemma refs_to_pos:
  assumes "finite (dom (sm_conn st))" "sm_conn st c = Some q" "(b, off) \<in> set (sq_items q)"
  shows "0 < refs_to st b"
proof -
  have "0 < count_list (map fst (sq_items q)) b"
    using assms(3) count_list_0_iff [of "map fst (sq_items q)" b] by force
  also have "\<dots> \<le> refs_to st b"
    unfolding refs_to_def using member_le_sum [of c "dom (sm_conn st)" "\<lambda>c. count_list (map fst (sq_items (the (sm_conn st c)))) b"]
      assms(1,2) by auto
  finally show ?thesis .
qed

lemma sendq_okD:
  assumes "sendq_ok st"
  shows "finite (dom (sm_conn st))" "sm_block st b = Some k \<Longrightarrow> b < sm_next st"
    "refs_to st b = (case sm_block st b of None \<Rightarrow> 0 | Some k \<Rightarrow> nat (sb_refs k))"
    "sm_block st b = Some k \<Longrightarrow> 0 < sb_refs k"
    "sm_conn st c = Some q \<Longrightarrow> sq_count q = int (length (sq_items q))"
    "sm_conn st c = Some q \<Longrightarrow> i \<in> set (sq_items q) \<Longrightarrow> item_text st i \<noteq> []"
    "sm_conn st c = Some q \<Longrightarrow> i \<in> set (tl (sq_items q)) \<Longrightarrow> snd i = 0"
  using assms unfolding sendq_ok_def by blast+

lemma item_block:
  assumes "sendq_ok st" "sm_conn st c = Some q" "(b, off) \<in> set (sq_items q)"
  obtains k where "sm_block st b = Some k" "0 < sb_refs k"
proof -
  note D = sendq_okD [OF assms(1)]
  have "0 < refs_to st b" by (rule refs_to_pos [OF D(1) assms(2,3)])
  then have "sm_block st b \<noteq> None" using D(3) [of b] by (auto split: option.splits)
  then show ?thesis using that D(4) by blast
qed

lemma push_ok:
  assumes ok: "sendq_ok st" and c: "sm_conn st c = Some q" and m: "msg \<noteq> []"
  shows "\<exists>st'. sendto c msg st = Some st' \<and> sendq_ok st' \<and>
    (\<exists>q'. sm_conn st' = (sm_conn st)(c \<mapsto> q') \<and> q' = q\<lparr>sq_items := sq_items q @ [(sm_next st, 0)], sq_count := sq_count q + 1\<rparr> \<and>
      waiting st' q' = waiting st q @ msg) \<and>
    (\<forall>d p. sm_conn st d = Some p \<longrightarrow> waiting st' p = waiting st p)"
proof -
  note D = sendq_okD [OF ok]
  let ?q' = "q\<lparr>sq_items := sq_items q @ [(sm_next st, 0)], sq_count := sq_count q + 1\<rparr>"
  let ?st' = "st\<lparr>sm_block := (sm_block st)(sm_next st \<mapsto> \<lparr>sb_msg = msg, sb_refs = 1\<rparr>), sm_next := sm_next st + 1,
      sm_conn := (sm_conn st)(c \<mapsto> ?q')\<rparr>"
  have s: "sendto c msg st = Some ?st'" using c by (simp add: sendto_def create_sendq_block_def sendq_push_def)
  have old: "b \<noteq> sm_next st" if "sm_block st b \<noteq> None" for b using that D(2) [of b] by auto
  have new: "sm_block st (sm_next st) = None" using old by blast
  have tx: "item_text ?st' i = item_text st i" if "sm_conn st d = Some p" "i \<in> set (sq_items p)" for d p i
  proof -
    obtain b off where i: "i = (b, off)" by (cases i)
    have "\<exists>k. sm_block st b = Some k" using item_block [OF ok that(1) that(2) [unfolded i]] by metis
    then show ?thesis using old [of b] i by (simp add: item_text_def)
  qed
  have w: "waiting ?st' p = waiting st p" if "sm_conn st d = Some p" for d p
    using tx [OF that] unfolding waiting_def by (metis (no_types, lifting) map_cong)
  have wq: "waiting ?st' ?q' = waiting st q @ msg"
  proof -
    have "waiting ?st' ?q' = waiting ?st' q @ item_text ?st' (sm_next st, 0)" by (simp add: waiting_def)
    then show ?thesis using w [OF c] by (simp add: item_text_def)
  qed
  have r: "refs_to ?st' b + count_list (map fst (sq_items q)) b = refs_to st b + count_list (map fst (sq_items ?q')) b" for b
    by (rule refs_to_upd [OF D(1) c]) simp
  have "sendq_ok ?st'" unfolding sendq_ok_def
  proof (intro conjI allI ballI impI)
    show "finite (dom (sm_conn ?st'))" using D(1) by simp
    show "b < sm_next ?st'" if "b \<in> dom (sm_block ?st')" for b using that D(2) [of b] by (auto split: if_splits)
    show "refs_to ?st' b = (case sm_block ?st' b of None \<Rightarrow> 0 | Some k \<Rightarrow> nat (sb_refs k))" for b
      using r [of b] D(3) [of b] new by (auto split: if_splits)
    show "0 < sb_refs k" if "sm_block ?st' b = Some k" for b k using that D(4) [of b] by (auto split: if_splits)
    fix d p
    assume p: "sm_conn ?st' d = Some p"
    have p': "p = ?q' \<or> sm_conn st d = Some p" using p by (auto split: if_splits)
    show "sq_count p = int (length (sq_items p))" using p' D(5) [OF c] D(5) [of d p] by auto
    show "item_text ?st' i \<noteq> []" if "i \<in> set (sq_items p)" for i
    proof (cases "i \<in> set (sq_items q) \<and> p = ?q'")
      case True
      then show ?thesis using tx [OF c, of i] D(6) [OF c, of i] by metis
    next
      case False
      have "i = (sm_next st, 0) \<or> sm_conn st d = Some p" using p' that False by auto
      then show ?thesis
      proof
        assume "i = (sm_next st, 0)" then show ?thesis using m by (simp add: item_text_def)
      next
        assume "sm_conn st d = Some p" then show ?thesis using tx [of d p i] D(6) [of d p i] that by metis
      qed
    qed
    show "snd i = 0" if "i \<in> set (tl (sq_items p))" for i
      using p' that D(7) [OF c, of i] D(7) [of d p i] by (cases "sq_items q") auto
  qed
  then show ?thesis using s w wq by (intro exI [of _ ?st'] conjI exI [of _ ?q']) auto
qed

lemma waiting_cong:
  assumes "\<And>i. i \<in> set (sq_items q) \<Longrightarrow> item_text st' i = item_text st i"
  shows "waiting st' q = waiting st q"
  using assms unfolding waiting_def by (metis (no_types, lifting) map_cong)

text \<open>A change of the data of a queue that does not touch the items, and the change of the first offset.\<close>

lemma upd_conn_simps [simp]:
  "sm_block (upd_conn c f st) = sm_block st" "sm_next (upd_conn c f st) = sm_next st"
  "sm_conn (upd_conn c f st) = (sm_conn st)(c := map_option f (sm_conn st c))"
  "item_text (upd_conn c f st) = item_text st"
  by (simp_all add: upd_conn_def item_text_def fun_eq_iff)

lemma item_text_conns [simp]: "item_text (st\<lparr>sm_conn := x\<rparr>) = item_text st"
  by (simp add: item_text_def fun_eq_iff)

lemma waiting_conns [simp]: "waiting (st\<lparr>sm_conn := x\<rparr>) = waiting st"
  by (simp add: waiting_def fun_eq_iff)

lemma waiting_upd_conn [simp]: "waiting (upd_conn c f st) = waiting st"
  by (simp add: waiting_def fun_eq_iff)

lemma upd_conn_ok:
  assumes ok: "sendq_ok st" and c: "sm_conn st c = Some q"
    and f: "map fst (sq_items (f q)) = map fst (sq_items q)" "sq_count (f q) = sq_count q"
      "\<forall>i\<in>set (sq_items (f q)). item_text st i \<noteq> []" "\<forall>i\<in>set (tl (sq_items (f q))). snd i = 0"
  shows "sendq_ok (upd_conn c f st)"
proof -
  note D = sendq_okD [OF ok]
  let ?st = "upd_conn c f st"
  have m: "sm_conn ?st = (sm_conn st)(c \<mapsto> f q)" using c by simp
  have r: "refs_to ?st b = refs_to st b" for b using refs_to_upd [OF D(1) c m, of b] f(1) by simp
  have l: "length (sq_items (f q)) = length (sq_items q)" by (metis f(1) length_map)
  show ?thesis unfolding sendq_ok_def m r
    using D f l D(5) [OF c] by (auto split: if_splits)
qed

lemma pop_ok:
  assumes ok: "sendq_ok st" and c: "sm_conn st c = Some q" and items: "sq_items q = i # rest"
  shows "\<exists>st' q'. sendq_pop c st = Some st' \<and> sendq_ok st' \<and> q' = q\<lparr>sq_items := rest, sq_count := sq_count q - 1\<rparr> \<and>
    sm_conn st' = (sm_conn st)(c \<mapsto> q') \<and> sm_next st' = sm_next st \<and> waiting st q = item_text st i @ waiting st' q' \<and>
    (\<forall>d p. d \<noteq> c \<longrightarrow> sm_conn st d = Some p \<longrightarrow> waiting st' p = waiting st p)"
proof -
  note D = sendq_okD [OF ok]
  obtain bp off where i: "i = (bp, off)" by (cases i)
  obtain k where k: "sm_block st bp = Some k" "0 < sb_refs k" using item_block [OF ok c, of bp off] items i by auto
  let ?q' = "q\<lparr>sq_items := rest, sq_count := sq_count q - 1\<rparr>"
  let ?b = "if sb_refs k - 1 = 0 then None else Some (k\<lparr>sb_refs := sb_refs k - 1\<rparr>)"
  let ?st' = "st\<lparr>sm_block := (sm_block st)(bp := ?b), sm_conn := (sm_conn st)(c \<mapsto> ?q')\<rparr>"
  have s: "sendq_pop c st = Some ?st'" using c items i k(1) by (simp add: sendq_pop_def)
  have m: "sm_conn ?st' = (sm_conn st)(c \<mapsto> ?q')" by simp
  have r: "refs_to ?st' b = refs_to st b - (if b = bp then 1 else 0)" for b
  proof -
    have "refs_to ?st' b + (count_list (map fst rest) b + (if b = bp then 1 else 0)) = refs_to st b + count_list (map fst rest) b"
      using refs_to_upd [OF D(1) c m, of b] items i by (simp only: list.map count_list.simps fst_conv) auto
    then show ?thesis by linarith
  qed
  have rb: "refs_to ?st' b = (case sm_block ?st' b of None \<Rightarrow> 0 | Some k \<Rightarrow> nat (sb_refs k))" for b
    using r [of b] D(3) [of b] k by auto
  have fin: "finite (dom (sm_conn ?st'))" using D(1) by simp
  have tx: "item_text ?st' j = item_text st j" if p: "sm_conn ?st' d = Some p" "j \<in> set (sq_items p)" for d p j
  proof -
    obtain b o' where j: "j = (b, o')" by (cases j)
    have "0 < refs_to ?st' b" by (rule refs_to_pos [OF fin p(1) p(2) [unfolded j]])
    then have "sm_block ?st' b \<noteq> None" using rb [of b] by (auto split: option.splits)
    then show ?thesis using j k(1) by (auto simp: item_text_def split: if_splits)
  qed
  have w: "waiting ?st' p = waiting st p" if "sm_conn ?st' d = Some p" for d p
    using tx [OF that] by (intro waiting_cong)
  have "sendq_ok ?st'" unfolding sendq_ok_def
  proof (intro conjI allI ballI impI)
    show "finite (dom (sm_conn ?st'))" by (rule fin)
    show "b < sm_next ?st'" if "b \<in> dom (sm_block ?st')" for b using that D(2) [of b] D(2) [OF k(1)] by (auto split: if_splits)
    show "refs_to ?st' b = (case sm_block ?st' b of None \<Rightarrow> 0 | Some k \<Rightarrow> nat (sb_refs k))" for b by (rule rb)
    show "0 < sb_refs x" if "sm_block ?st' b = Some x" for b x using that D(4) [of b] k by (auto split: if_splits)
    fix d p
    assume p: "sm_conn ?st' d = Some p"
    have p': "p = ?q' \<or> sm_conn st d = Some p" using p by (auto split: if_splits)
    show "sq_count p = int (length (sq_items p))" using p' D(5) [OF c] D(5) [of d p] items by auto
    show "item_text ?st' j \<noteq> []" if "j \<in> set (sq_items p)" for j
      unfolding tx [OF p that] using p' that D(6) [OF c, of j] D(6) [of d p j] items by auto
    show "snd j = 0" if "j \<in> set (tl (sq_items p))" for j
      using p' that D(7) [OF c, of j] D(7) [of d p j] items by (cases rest) auto
  qed
  moreover have "waiting ?st' ?q' = waiting st ?q'" by (rule w [of c]) simp
  moreover have "waiting st q = item_text st i @ waiting st ?q'" using items by (simp add: waiting_def)
  moreover have "waiting ?st' p = waiting st p" if "d \<noteq> c" "sm_conn st d = Some p" for d p
    using w [of d p] that by simp
  ultimately show ?thesis using s by (intro exI [of _ ?st'] exI [of _ ?q'] conjI) auto
qed

lemma flush_loop_ok:
  assumes "sendq_ok st" "sm_conn st c = Some q"
  shows "\<exists>st' q' w. flush_loop rs c st = Some st' \<and> sendq_ok st' \<and> sm_conn st' = (sm_conn st)(c \<mapsto> q') \<and>
    sm_next st' = sm_next st \<and> sq_wire q' = sq_wire q @ w \<and> waiting st q = w @ waiting st' q' \<and>
    sq_flags q' = sq_flags q \<and> sq_limit q' = sq_limit q \<and> sq_host q' = sq_host q \<and>
    (\<forall>d p. d \<noteq> c \<longrightarrow> sm_conn st d = Some p \<longrightarrow> waiting st' p = waiting st p) \<and>
    (length (sq_items q) \<le> length rs \<and> (\<forall>r\<in>set rs. \<forall>i\<in>set (sq_items q). int (length (item_text st i)) \<le> r)
      \<longrightarrow> sq_items q' = [])"
  using assms
proof (induction rs arbitrary: st q)
  case Nil
  then show ?case by (intro exI [of _ st] exI [of _ q] exI [of _ "[]"]) (auto simp: fun_upd_idem)
next
  case (Cons r0 rs)
  note ok = Cons.prems(1) and c = Cons.prems(2)
  note D = sendq_okD [OF ok]
  have stay: ?case if "flush_loop (r0 # rs) c st = Some st" "sq_items q = [] \<or> \<not> (\<forall>i\<in>set (sq_items q). int (length (item_text st i)) \<le> r0)"
    using that ok c by (intro exI [of _ st] exI [of _ q] exI [of _ "[]"]) (auto simp: fun_upd_idem)
  show ?case
  proof (cases "sq_items q")
    case Nil
    then show ?thesis using stay c by simp
  next
    case items: (Cons i rest)
    obtain bp off where i: "i = (bp, off)" by (cases i)
    obtain k where k: "sm_block st bp = Some k" using item_block [OF ok c, of bp off] items i by auto
    have t: "item_text st i = drop off (sb_msg k)" "item_text st i \<noteq> []"
      using D(6) [OF c, of i] items i k by (simp_all add: item_text_def)
    define r where "r = min r0 (int (length (item_text st i)))"
    have step: "flush_loop (r0 # rs) c st =
       (if r \<le> 0 then Some st
        else if nat r \<noteq> length (item_text st i) then
          Some (upd_conn c (\<lambda>q. q\<lparr>sq_items := (bp, off + nat r) # rest, sq_wire := sq_wire q @ take (nat r) (item_text st i)\<rparr>) st)
        else
          (case sendq_pop c (upd_conn c (\<lambda>q. q\<lparr>sq_wire := sq_wire q @ item_text st i,
               sq_sent := sq_sent q + int (length (sb_msg k)), sq_psent := sq_psent q + 1\<rparr>) st) of
             None \<Rightarrow> None
           | Some st \<Rightarrow> flush_loop rs c st))"
      unfolding flush_loop.simps c option.case items i list.case prod.case k t(1) [unfolded i] r_def Let_def by (rule refl)
    consider "r \<le> 0" | "0 < r" "nat r < length (item_text st i)" | "0 < r" "nat r = length (item_text st i)"
      unfolding r_def by linarith
    then show ?thesis
    proof cases
      case 1
      have "flush_loop (r0 # rs) c st = Some st" using 1 by (simp only: step if_True)
      moreover have "\<not> int (length (item_text st i)) \<le> r0" using 1 t(2) by (auto simp: r_def)
      ultimately show ?thesis using stay items by auto
    next
      case 2
      let ?f = "\<lambda>q. q\<lparr>sq_items := (bp, off + nat r) # rest, sq_wire := sq_wire q @ take (nat r) (item_text st i)\<rparr>"
      have l: "flush_loop (r0 # rs) c st = Some (upd_conn c ?f st)"
        unfolding step using 2 by simp
      have x: "item_text st (bp, off + nat r) = drop (nat r) (item_text st i)" using t(1) k by (simp add: item_text_def add.commute)
      have "sendq_ok (upd_conn c ?f st)"
        using D(6,7) [OF c] items i 2(2) x by (intro upd_conn_ok [OF ok c]) auto
      moreover have "waiting st q = take (nat r) (item_text st i) @ waiting st (?f q)"
      proof -
        have "waiting st (?f q) = drop (nat r) (item_text st i) @ concat (map (item_text st) rest)" using x by (simp add: waiting_def)
        then show ?thesis using items by (simp add: waiting_def)
      qed
      moreover have "\<not> int (length (item_text st i)) \<le> r0" using 2 by (auto simp: r_def)
      ultimately show ?thesis using l c items
        by (intro exI [of _ "upd_conn c ?f st"] exI [of _ "?f q"] exI [of _ "take (nat r) (item_text st i)"]) auto
    next
      case 3
      let ?f = "\<lambda>q. q\<lparr>sq_wire := sq_wire q @ item_text st i, sq_sent := sq_sent q + int (length (sb_msg k)), sq_psent := sq_psent q + 1\<rparr>"
      let ?s = "upd_conn c ?f st"
      have oks: "sendq_ok ?s" using D(6,7) [OF c] by (intro upd_conn_ok [OF ok c]) auto
      have cs: "sm_conn ?s c = Some (?f q)" using c by simp
      obtain s1 q1 where s1: "sendq_pop c ?s = Some s1" "sendq_ok s1" "q1 = (?f q)\<lparr>sq_items := rest, sq_count := sq_count (?f q) - 1\<rparr>"
        "sm_conn s1 = (sm_conn ?s)(c \<mapsto> q1)" "sm_next s1 = sm_next ?s" "waiting ?s (?f q) = item_text ?s i @ waiting s1 q1"
        "\<forall>d p. d \<noteq> c \<longrightarrow> sm_conn ?s d = Some p \<longrightarrow> waiting s1 p = waiting ?s p"
        using pop_ok [OF oks cs, of i rest] items by auto
      have l: "flush_loop (r0 # rs) c st = flush_loop rs c s1"
        unfolding step using 3 s1(1) by simp
      have w1: "waiting st q = item_text st i @ waiting s1 q1" using s1(6) by (simp add: waiting_def)
      have c1: "sm_conn s1 c = Some q1" using s1(4) by simp
      obtain st' q' w where I: "flush_loop rs c s1 = Some st'" "sendq_ok st'" "sm_conn st' = (sm_conn s1)(c \<mapsto> q')"
        "sm_next st' = sm_next s1" "sq_wire q' = sq_wire q1 @ w" "waiting s1 q1 = w @ waiting st' q'"
        "sq_flags q' = sq_flags q1" "sq_limit q' = sq_limit q1" "sq_host q' = sq_host q1"
        "\<forall>d p. d \<noteq> c \<longrightarrow> sm_conn s1 d = Some p \<longrightarrow> waiting st' p = waiting s1 p"
        "length (sq_items q1) \<le> length rs \<and> (\<forall>r\<in>set rs. \<forall>i\<in>set (sq_items q1). int (length (item_text s1 i)) \<le> r)
          \<longrightarrow> sq_items q' = []"
        using Cons.IH [OF s1(2) c1] by blast
      have all: "sq_items q' = []" if a: "length (sq_items q) \<le> length (r0 # rs)"
        "\<forall>r\<in>set (r0 # rs). \<forall>i\<in>set (sq_items q). int (length (item_text st i)) \<le> r"
      proof -
        have "item_text s1 j = item_text st j" if j: "j \<in> set rest" for j
        proof -
          have "(fst j, snd j) \<in> set (sq_items q1)" using j s1(3) by simp
          from item_block [OF s1(2) c1 this] have "\<exists>x. sm_block s1 (fst j) = Some x" by metis
          then have "map_option sb_msg (sm_block s1 (fst j)) = map_option sb_msg (sm_block st (fst j))"
            using s1(1) c items i k by (auto simp: sendq_pop_def split: if_splits)
          then show ?thesis by (cases "sm_block st (fst j)"; cases "sm_block s1 (fst j)") (auto simp: item_text_def)
        qed
        then show ?thesis using I(11) a items s1(3) by auto
      qed
      show ?thesis
        using l I(1,2,4-9) s1(3-5,7) c all w1
        by (intro exI [of _ st'] exI [of _ q'] exI [of _ "item_text st i @ w"]) (use I(3,10) in auto)
    qed
  qed
qed

lemma remove_conn_ok:
  assumes ok: "sendq_ok st" and c: "sm_conn st c = Some q" "sq_items q = []"
  shows "sendq_ok (st\<lparr>sm_conn := (sm_conn st)(c := None)\<rparr>)"
proof -
  note D = sendq_okD [OF ok]
  let ?s = "st\<lparr>sm_conn := (sm_conn st)(c := None)\<rparr>"
  have "refs_to ?s b = refs_to st b" for b
  proof -
    have "refs_to st b = count_list (map fst (sq_items q)) b +
        (\<Sum>d\<in>dom (sm_conn st) - {c}. count_list (map fst (sq_items (the (sm_conn st d)))) b)"
      unfolding refs_to_def
      using sum.remove [OF D(1), of c "\<lambda>d. count_list (map fst (sq_items (the (sm_conn st d)))) b"] c(1) by auto
    also have "(\<Sum>d\<in>dom (sm_conn st) - {c}. count_list (map fst (sq_items (the (sm_conn st d)))) b) = refs_to ?s b"
      unfolding refs_to_def by (intro sum.cong) (auto split: if_splits)
    finally show ?thesis using c(2) by simp
  qed
  then show ?thesis unfolding sendq_ok_def using D by auto
qed

lemma pop_all_ok:
  assumes "sendq_ok st" "sm_conn st c = Some q"
  shows "\<exists>st' q'. pop_all (length (sq_items q)) c st = Some st' \<and> sendq_ok st' \<and> sm_conn st' = (sm_conn st)(c \<mapsto> q') \<and>
    sq_items q' = [] \<and> (\<forall>d p. d \<noteq> c \<longrightarrow> sm_conn st d = Some p \<longrightarrow> waiting st' p = waiting st p)"
  using assms
proof (induction "length (sq_items q)" arbitrary: st q)
  case 0
  then show ?case by (intro exI [of _ st] exI [of _ q]) (auto simp: fun_upd_idem)
next
  case (Suc n)
  obtain i rest where items: "sq_items q = i # rest" using Suc.hyps(2) by (cases "sq_items q") auto
  obtain s1 q1 where s1: "sendq_pop c st = Some s1" "sendq_ok s1" "q1 = q\<lparr>sq_items := rest, sq_count := sq_count q - 1\<rparr>"
    "sm_conn s1 = (sm_conn st)(c \<mapsto> q1)" "\<forall>d p. d \<noteq> c \<longrightarrow> sm_conn st d = Some p \<longrightarrow> waiting s1 p = waiting st p"
    using pop_ok [OF Suc.prems items] by blast
  have n: "n = length (sq_items q1)" using Suc.hyps(2) items s1(3) by simp
  have c1: "sm_conn s1 c = Some q1" using s1(4) by simp
  obtain st' q' where I: "pop_all (length (sq_items q1)) c s1 = Some st'" "sendq_ok st'" "sm_conn st' = (sm_conn s1)(c \<mapsto> q')"
    "sq_items q' = []" "\<forall>d p. d \<noteq> c \<longrightarrow> sm_conn s1 d = Some p \<longrightarrow> waiting st' p = waiting s1 p"
    using Suc.hyps(1) [OF n s1(2) c1] by blast
  have "pop_all (length (sq_items q)) c st = Some st'" using s1(1) I(1) n Suc.hyps(2) [symmetric] by simp
  then show ?case using I s1(4,5) by (intro exI [of _ st'] exI [of _ q']) auto
qed

lemma destroy_connection_ok:
  assumes ok: "sendq_ok st" and c: "sm_conn st c = Some q"
  shows "\<exists>st' t. destroy_connection c reason st = Some (st', t) \<and> sendq_ok st' \<and> sm_conn st' = (sm_conn st)(c := None) \<and>
    (\<forall>d p. d \<noteq> c \<longrightarrow> sm_conn st d = Some p \<longrightarrow> waiting st' p = waiting st p)"
proof (cases "sq_items q = [] \<and> reason \<noteq> []")
  case True
  then show ?thesis using remove_conn_ok [OF ok c] c
    by (auto simp: destroy_connection_def)
next
  case False
  obtain s q' where s: "pop_all (length (sq_items q)) c st = Some s" "sendq_ok s" "sm_conn s = (sm_conn st)(c \<mapsto> q')"
    "sq_items q' = []" "\<forall>d p. d \<noteq> c \<longrightarrow> sm_conn st d = Some p \<longrightarrow> waiting s p = waiting st p"
    using pop_all_ok [OF ok c] by blast
  let ?s = "s\<lparr>sm_conn := (sm_conn s)(c := None)\<rparr>"
  have "sendq_ok ?s" using s(3,4) by (intro remove_conn_ok [OF s(2), of c q']) auto
  moreover have "waiting ?s = waiting s" by simp
  moreover have "sm_conn ?s = (sm_conn st)(c := None)" using s(3) by simp
  moreover have "destroy_connection c reason st = Some (?s, [])" using c s(1) False by (auto simp: destroy_connection_def)
  ultimately show ?thesis using s(5) by (intro exI [of _ ?s] exI [of _ "[]"] conjI) (auto simp only:)
qed

text \<open>What \<^verbatim>\<open>sendq_flush\<close> does.\<close>

lemma sendq_flush_ok:
  assumes ok: "sendq_ok st" and c: "sm_conn st c = Some q"
  shows "\<exists>st' alive. sendq_flush rs c st = Some (st', alive) \<and> sendq_ok st' \<and>
    (\<forall>d. d \<noteq> c \<longrightarrow> sm_conn st' d = sm_conn st d) \<and>
    (\<forall>d p. d \<noteq> c \<longrightarrow> sm_conn st d = Some p \<longrightarrow> waiting st' p = waiting st p) \<and>
    (alive \<longrightarrow> (\<exists>q' w. sm_conn st' c = Some q' \<and> sq_wire q' = sq_wire q @ w \<and> waiting st q = w @ waiting st' q' \<and>
        sq_limit q' = sq_limit q \<and> (sq_flags q' AND IRCD_CONNFL_NOSENDQ = 0 \<longrightarrow> sq_items q' \<noteq> [] \<longrightarrow> int (length (sq_items q')) \<le> sq_limit q))) \<and>
    (\<not> alive \<longrightarrow> sm_conn st' c = None \<and> sq_flags q AND IRCD_CONNFL_NOSENDQ = 0)"
proof -
  let ?loop = "if sq_flags q AND IRCD_CONNFL_WRITEABLE \<noteq> 0 then flush_loop rs c st else Some st"
  have ex: "\<exists>s1 q1 w. ?loop = Some s1 \<and> sendq_ok s1 \<and> sm_conn s1 = (sm_conn st)(c \<mapsto> q1) \<and> sq_wire q1 = sq_wire q @ w \<and>
      waiting st q = w @ waiting s1 q1 \<and> sq_flags q1 = sq_flags q \<and> sq_limit q1 = sq_limit q \<and>
      (\<forall>d p. d \<noteq> c \<longrightarrow> sm_conn st d = Some p \<longrightarrow> waiting s1 p = waiting st p)"
  proof (cases "sq_flags q AND IRCD_CONNFL_WRITEABLE \<noteq> 0")
    case True
    then have "?loop = flush_loop rs c st" by (rule if_P)
    then show ?thesis using flush_loop_ok [OF ok c, of rs] by metis
  next
    case False
    then show ?thesis using ok c by (intro exI [of _ st] exI [of _ q] exI [of _ "[]"]) (auto simp: fun_upd_idem)
  qed
  obtain s1 q1 w where s1: "?loop = Some s1" "sendq_ok s1" "sm_conn s1 = (sm_conn st)(c \<mapsto> q1)" "sq_wire q1 = sq_wire q @ w"
      "waiting st q = w @ waiting s1 q1" "sq_flags q1 = sq_flags q" "sq_limit q1 = sq_limit q"
      "\<forall>d p. d \<noteq> c \<longrightarrow> sm_conn st d = Some p \<longrightarrow> waiting s1 p = waiting st p" using ex by blast
  have c1: "sm_conn s1 c = Some q1" using s1(3) by simp
  have cnt: "sq_count q1 = int (length (sq_items q1))" by (rule sendq_okD(5) [OF s1(2) c1])
  have flush: "sendq_flush rs c st =
      (if sq_flags q1 AND IRCD_CONNFL_NOSENDQ \<noteq> 0 \<and> sq_count q1 = 0 then
         Some (upd_conn c (\<lambda>q. q\<lparr>sq_flags := sq_flags q AND NOT IRCD_CONNFL_NOSENDQ\<rparr>) s1, True)
       else if sq_flags q1 AND IRCD_CONNFL_NOSENDQ = 0 \<and> sq_limit q1 < sq_count q1 then
         map_option (\<lambda>x. (fst x, False)) (destroy_connection c ''SendQ Exceeded'' s1)
       else Some (s1, True))"
    unfolding sendq_flush_def c option.case s1(1) c1 by (rule refl)
  let ?f = "\<lambda>q. q\<lparr>sq_flags := sq_flags q AND NOT IRCD_CONNFL_NOSENDQ\<rparr>"
  consider (clear) "sq_flags q1 AND IRCD_CONNFL_NOSENDQ \<noteq> 0" "sq_items q1 = []"
    | (kill) "sq_flags q1 AND IRCD_CONNFL_NOSENDQ = 0" "sq_limit q1 < sq_count q1"
    | (stay) "\<not> (sq_flags q1 AND IRCD_CONNFL_NOSENDQ \<noteq> 0 \<and> sq_count q1 = 0)"
        "\<not> (sq_flags q1 AND IRCD_CONNFL_NOSENDQ = 0 \<and> sq_limit q1 < sq_count q1)"
    using cnt by auto
  then show ?thesis
  proof cases
    case clear
    have "sendq_ok (upd_conn c ?f s1)" by (rule upd_conn_ok [OF s1(2) c1]) (use clear in auto)
    moreover have "sendq_flush rs c st = Some (upd_conn c ?f s1, True)" using clear cnt by (simp add: flush)
    ultimately show ?thesis using s1 clear
      by (intro exI [of _ "upd_conn c ?f s1"] exI [of _ True]) (auto simp: waiting_def intro!: exI [of _ "?f q1"] exI [of _ w])
  next
    case kill
    obtain st' t where d: "destroy_connection c ''SendQ Exceeded'' s1 = Some (st', t)" "sendq_ok st'"
      "sm_conn st' = (sm_conn s1)(c := None)" "\<forall>d p. d \<noteq> c \<longrightarrow> sm_conn s1 d = Some p \<longrightarrow> waiting st' p = waiting s1 p"
      using destroy_connection_ok [OF s1(2) c1] by blast
    have "sendq_flush rs c st = Some (st', False)" using kill d(1) by (simp add: flush)
    then show ?thesis using d(2-4) s1 kill(1) by (intro exI [of _ st'] exI [of _ False]) auto
  next
    case stay
    have "sendq_flush rs c st = Some (s1, True)" using stay by (auto simp: flush)
    then show ?thesis using s1 c1 stay cnt by (intro exI [of _ s1] exI [of _ True]) auto
  qed
qed

section \<open>The stream of a connection\<close>

text \<open>What happens to the queues: a connection is made (\<^verbatim>\<open>ircd_listen_hook\<close>), its flags change, a message is sent to
  it, the writer walks over the connections, and a connection ends.\<close>

datatype sq_op =
    Sq_open nat cstring int
  | Sq_flags nat u32
  | Sq_send nat "char list"
  | Sq_flush nat "int list"
  | Sq_close nat cstring

definition new_sendq_conn :: "cstring \<Rightarrow> int \<Rightarrow> sendq_conn" where
  "new_sendq_conn host limit =
     \<lparr>sq_items = [], sq_count = 0, sq_flags = 0, sq_limit = limit, sq_sent = 0, sq_psent = 0, sq_host = host, sq_wire = []\<rparr>"

fun sq_step :: "sq_op \<Rightarrow> sendq_mem \<Rightarrow> sendq_mem option" where
  "sq_step (Sq_open c host limit) st = Some (st\<lparr>sm_conn := (sm_conn st)(c \<mapsto> new_sendq_conn host limit)\<rparr>)"
| "sq_step (Sq_flags c fl) st = Some (upd_conn c (\<lambda>q. q\<lparr>sq_flags := fl\<rparr>) st)"
| "sq_step (Sq_send c msg) st = sendto c msg st"
| "sq_step (Sq_flush c rs) st = map_option fst (sendq_flush rs c st)"
| "sq_step (Sq_close c reason) st = map_option fst (destroy_connection c reason st)"

text \<open>Only connections that are there are used, and no empty message is sent.\<close>

fun sq_allowed :: "sendq_mem \<Rightarrow> sq_op \<Rightarrow> bool" where
  "sq_allowed st (Sq_open c _ _) \<longleftrightarrow> sm_conn st c = None"
| "sq_allowed st (Sq_flags c _) \<longleftrightarrow> sm_conn st c \<noteq> None"
| "sq_allowed st (Sq_send c msg) \<longleftrightarrow> sm_conn st c \<noteq> None \<and> msg \<noteq> []"
| "sq_allowed st (Sq_flush c _) \<longleftrightarrow> sm_conn st c \<noteq> None"
| "sq_allowed st (Sq_close c _) \<longleftrightarrow> sm_conn st c \<noteq> None"

definition no_sendqs :: sendq_mem where
  "no_sendqs = \<lparr>sm_block = (\<lambda>_. None), sm_next = 0, sm_conn = (\<lambda>_. None)\<rparr>"

text \<open>The operations, the last one first, and the state after them.\<close>

inductive sq_run :: "sq_op list \<Rightarrow> sendq_mem \<Rightarrow> bool" where
  start: "sq_run [] no_sendqs"
| step: "sq_run ops st \<Longrightarrow> sq_allowed st op \<Longrightarrow> sq_step op st = Some st' \<Longrightarrow> sq_run (op # ops) st'"

inductive_cases sq_run_ConsE: "sq_run (op # ops) st"
inductive_simps sq_run_Nil_iff: "sq_run [] st"

text \<open>What was sent to a connection since it was made.\<close>

fun sent_to :: "nat \<Rightarrow> sq_op list \<Rightarrow> char list" where
  "sent_to c [] = []"
| "sent_to c (op # ops) =
     (case op of
        Sq_open d _ _ \<Rightarrow> if d = c then [] else sent_to c ops
      | Sq_send d msg \<Rightarrow> if d = c then sent_to c ops @ msg else sent_to c ops
      | _ \<Rightarrow> sent_to c ops)"

definition stream_ok :: "sq_op list \<Rightarrow> sendq_mem \<Rightarrow> bool" where
  "stream_ok ops st \<longleftrightarrow> sendq_ok st \<and> (\<forall>c q. sm_conn st c = Some q \<longrightarrow> sq_wire q @ waiting st q = sent_to c ops)"

lemma waiting_new [simp]: "sq_wire (new_sendq_conn host limit) = []" "waiting st (new_sendq_conn host limit) = []"
  by (simp_all add: new_sendq_conn_def waiting_def)

lemma open_ok:
  assumes ok: "sendq_ok st" and c: "sm_conn st c = None"
  shows "sendq_ok (st\<lparr>sm_conn := (sm_conn st)(c \<mapsto> new_sendq_conn host limit)\<rparr>)"
proof -
  note D = sendq_okD [OF ok]
  let ?s = "st\<lparr>sm_conn := (sm_conn st)(c \<mapsto> new_sendq_conn host limit)\<rparr>"
  have "refs_to ?s b = refs_to st b" for b
  proof -
    have "dom (sm_conn ?s) = insert c (dom (sm_conn st))" "c \<notin> dom (sm_conn st)" using c by auto
    then have "refs_to ?s b = (\<Sum>d\<in>dom (sm_conn st). count_list (map fst (sq_items (the (sm_conn ?s d)))) b)"
      using D(1) by (simp add: refs_to_def new_sendq_conn_def)
    also have "\<dots> = refs_to st b" unfolding refs_to_def using c by (intro sum.cong) auto
    finally show ?thesis .
  qed
  then show ?thesis unfolding sendq_ok_def using D by (auto simp: new_sendq_conn_def)
qed

lemma sq_step_stream:
  assumes inv: "stream_ok ops st" and al: "sq_allowed st op"
  shows "\<exists>st'. sq_step op st = Some st' \<and> stream_ok (op # ops) st'"
proof -
  have ok: "sendq_ok st" and st: "\<And>c q. sm_conn st c = Some q \<Longrightarrow> sq_wire q @ waiting st q = sent_to c ops"
    using inv by (auto simp: stream_ok_def)
  show ?thesis
  proof (cases op)
    case (Sq_open c host limit)
    then show ?thesis using open_ok [OF ok, of c] al st by (auto simp: stream_ok_def)
  next
    case (Sq_flags c fl)
    then obtain q where c: "sm_conn st c = Some q" using al by auto
    have "sendq_ok (upd_conn c (\<lambda>q. q\<lparr>sq_flags := fl\<rparr>) st)"
      using sendq_okD(6,7) [OF ok c] by (intro upd_conn_ok [OF ok c]) auto
    then show ?thesis using Sq_flags c st by (auto simp: stream_ok_def waiting_def)
  next
    case (Sq_send c msg)
    then obtain q where c: "sm_conn st c = Some q" "msg \<noteq> []" using al by auto
    obtain st' q' where s: "sendto c msg st = Some st'" "sendq_ok st'" "sm_conn st' = (sm_conn st)(c \<mapsto> q')"
      "sq_wire q' = sq_wire q" "waiting st' q' = waiting st q @ msg" "\<forall>d p. sm_conn st d = Some p \<longrightarrow> waiting st' p = waiting st p"
      using push_ok [OF ok c] by force
    show ?thesis using Sq_send s st [OF c(1)] st by (auto simp: stream_ok_def)
  next
    case (Sq_flush c rs)
    then obtain q where c: "sm_conn st c = Some q" using al by auto
    obtain st' alive where s: "sendq_flush rs c st = Some (st', alive)" "sendq_ok st'"
      "\<forall>d. d \<noteq> c \<longrightarrow> sm_conn st' d = sm_conn st d"
      "\<forall>d p. d \<noteq> c \<longrightarrow> sm_conn st d = Some p \<longrightarrow> waiting st' p = waiting st p"
      "alive \<Longrightarrow> \<exists>q' w. sm_conn st' c = Some q' \<and> sq_wire q' = sq_wire q @ w \<and> waiting st q = w @ waiting st' q'"
      "\<not> alive \<Longrightarrow> sm_conn st' c = None"
      using sendq_flush_ok [OF ok c, of rs] by metis
    have "sq_wire p @ waiting st' p = sent_to d ops" if p: "sm_conn st' d = Some p" for d p
    proof (cases "d = c")
      case True
      then show ?thesis using s(5,6) st [OF c] p by (cases alive) auto
    next
      case False
      then show ?thesis using s(3,4) p st [of d p] by auto
    qed
    then show ?thesis using Sq_flush s(1,2) by (auto simp: stream_ok_def)
  next
    case (Sq_close c reason)
    then obtain q where c: "sm_conn st c = Some q" using al by auto
    obtain st' t where "destroy_connection c reason st = Some (st', t)" "sendq_ok st'" "sm_conn st' = (sm_conn st)(c := None)"
      "\<forall>d p. d \<noteq> c \<longrightarrow> sm_conn st d = Some p \<longrightarrow> waiting st' p = waiting st p"
      using destroy_connection_ok [OF ok c] by blast
    then show ?thesis using Sq_close st by (auto simp: stream_ok_def split: if_splits)
  qed
qed

lemma sq_run_stream: "sq_run ops st \<Longrightarrow> stream_ok ops st"
proof (induction rule: sq_run.induct)
  case start
  then show ?case by (simp add: stream_ok_def sendq_ok_def no_sendqs_def refs_to_def)
next
  case (step ops st op st')
  then show ?case using sq_step_stream [of ops st op] by auto
qed

text \<open>C5: however messages are sent, sockets take parts of them, and connections come and go, what a socket took
  and what waits for it are together exactly the messages sent to the connection, in their order.\<close>

theorem sendq_keeps_stream:
  assumes "sq_run ops st" "sm_conn st c = Some q"
  shows "sq_wire q @ waiting st q = sent_to c ops"
  using sq_run_stream [OF assms(1)] assms(2) by (auto simp: stream_ok_def)

text \<open>C18: no operation uses a block or a connection that was freed, and every block counts the items that refer to
  it and goes with the last.\<close>

theorem sendq_blocks_counted:
  assumes "sq_run ops st" "sq_allowed st op"
  shows "\<exists>st'. sq_step op st = Some st' \<and>
    (\<forall>b. sm_block st' b \<noteq> None \<longleftrightarrow> (\<exists>c q off. sm_conn st' c = Some q \<and> (b, off) \<in> set (sq_items q))) \<and>
    (\<forall>b k. sm_block st' b = Some k \<longrightarrow>
      sb_refs k = int (\<Sum>c\<in>dom (sm_conn st'). count_list (map fst (sq_items (the (sm_conn st' c)))) b))"
proof -
  obtain st' where s: "sq_step op st = Some st'" "stream_ok (op # ops) st'"
    using sq_step_stream [OF sq_run_stream [OF assms(1)] assms(2)] by blast
  have ok: "sendq_ok st'" using s(2) by (simp add: stream_ok_def)
  note D = sendq_okD [OF ok]
  have "sm_block st' b \<noteq> None \<longleftrightarrow> (\<exists>c q off. sm_conn st' c = Some q \<and> (b, off) \<in> set (sq_items q))" for b
  proof
    assume "sm_block st' b \<noteq> None"
    then have "refs_to st' b \<noteq> 0" using D(3) [of b] D(4) [of b] by (auto split: option.splits)
    then have "\<not> (\<forall>c\<in>dom (sm_conn st'). count_list (map fst (sq_items (the (sm_conn st' c)))) b = 0)"
      unfolding refs_to_def sum_eq_0_iff [OF D(1)] .
    then obtain c where c: "c \<in> dom (sm_conn st')" "count_list (map fst (sq_items (the (sm_conn st' c)))) b \<noteq> 0"
      by blast
    then have "b \<in> fst ` set (sq_items (the (sm_conn st' c)))" by (simp add: count_list_0_iff)
    then show "\<exists>c q off. sm_conn st' c = Some q \<and> (b, off) \<in> set (sq_items q)" using c(1) by force
  next
    assume "\<exists>c q off. sm_conn st' c = Some q \<and> (b, off) \<in> set (sq_items q)"
    then obtain c q off where "sm_conn st' c = Some q" "(b, off) \<in> set (sq_items q)" by blast
    from item_block [OF ok this] show "sm_block st' b \<noteq> None" by blast
  qed
  moreover have "sb_refs k = int (refs_to st' b)" if "sm_block st' b = Some k" for b k
    using D(3) [of b] D(4) [OF that] that by simp
  ultimately show ?thesis using s(1) by (auto simp: refs_to_def)
qed

text \<open>C19: after a flush a connection that observes its limit has at most as many items as its class allows; when its
  socket takes everything, everything sent is on the wire.\<close>

theorem sendq_flush_limit:
  assumes "sq_run ops st" "sm_conn st c = Some q" "sendq_flush rs c st = Some (st', True)"
  shows "\<exists>q'. sm_conn st' c = Some q' \<and>
    (sq_flags q' AND IRCD_CONNFL_NOSENDQ = 0 \<and> sq_items q' \<noteq> [] \<longrightarrow> int (length (sq_items q')) \<le> sq_limit q) \<and>
    (sq_flags q AND IRCD_CONNFL_WRITEABLE \<noteq> 0 \<and> length (sq_items q) \<le> length rs \<and>
      (\<forall>r\<in>set rs. \<forall>i\<in>set (sq_items q). int (length (item_text st i)) \<le> r) \<longrightarrow> sq_wire q' = sent_to c ops)"
proof -
  have inv: "stream_ok ops st" by (rule sq_run_stream [OF assms(1)])
  then have ok: "sendq_ok st" and str: "sq_wire q @ waiting st q = sent_to c ops" using assms(2) by (auto simp: stream_ok_def)
  obtain q' w where q': "sm_conn st' c = Some q'" "sq_wire q' = sq_wire q @ w" "waiting st q = w @ waiting st' q'"
    "sq_flags q' AND IRCD_CONNFL_NOSENDQ = 0 \<longrightarrow> sq_items q' \<noteq> [] \<longrightarrow> int (length (sq_items q')) \<le> sq_limit q"
  proof -
    obtain s alive where s: "sendq_flush rs c st = Some (s, alive)"
      "alive \<longrightarrow> (\<exists>q' w. sm_conn s c = Some q' \<and> sq_wire q' = sq_wire q @ w \<and> waiting st q = w @ waiting s q' \<and>
        sq_limit q' = sq_limit q \<and> (sq_flags q' AND IRCD_CONNFL_NOSENDQ = 0 \<longrightarrow> sq_items q' \<noteq> [] \<longrightarrow> int (length (sq_items q')) \<le> sq_limit q))"
      using sendq_flush_ok [OF ok assms(2), of rs] by blast
    then have "s = st'" "alive" using assms(3) by simp_all
    then show thesis using s(2) that by blast
  qed
  have "sq_wire q' = sent_to c ops" if wr: "sq_flags q AND IRCD_CONNFL_WRITEABLE \<noteq> 0"
    "length (sq_items q) \<le> length rs \<and> (\<forall>r\<in>set rs. \<forall>i\<in>set (sq_items q). int (length (item_text st i)) \<le> r)"
  proof -
    obtain s1 q1 where s1: "flush_loop rs c st = Some s1" "sendq_ok s1" "sm_conn s1 = (sm_conn st)(c \<mapsto> q1)" "sq_items q1 = []"
      "sq_flags q1 = sq_flags q"
      using flush_loop_ok [OF ok assms(2), of rs] wr(2) by blast
    have "sq_count q1 = 0" using sendq_okD(5) [OF s1(2), of c q1] s1(3,4) by simp
    then have "sq_items q' = []"
      using assms(2,3) wr(1) s1 q'(1) unfolding sendq_flush_def
      by (auto split: if_splits option.splits)
    then show ?thesis using q'(2,3) str by (simp add: waiting_def)
  qed
  then show ?thesis using q'(1,4) by blast
qed

text \<open>A run for the witnesses: a connection, two messages, and a socket that takes three bytes.\<close>

definition demo_sq_ops :: "sq_op list" where
  "demo_sq_ops = [Sq_flush 7 [3, 1], Sq_send 7 ''cd'', Sq_send 7 ''ab'', Sq_flags 7 IRCD_CONNFL_WRITEABLE, Sq_open 7 ''h'' 10]"

fun sq_exec :: "sq_op list \<Rightarrow> sendq_mem option" where
  "sq_exec [] = Some no_sendqs"
| "sq_exec (op # ops) =
     (case sq_exec ops of None \<Rightarrow> None | Some st \<Rightarrow> if sq_allowed st op then sq_step op st else None)"

lemma sq_exec_run: "sq_exec ops = Some st \<Longrightarrow> sq_run ops st"
proof (induction ops arbitrary: st)
  case Nil
  then show ?case by (simp add: sq_run.start)
next
  case (Cons op ops)
  then show ?case by (auto intro: sq_run.step split: option.splits if_splits)
qed

lemma demo_sq_run: "\<exists>st q. sq_run demo_sq_ops st \<and> sm_conn st 7 = Some q \<and> sq_wire q = ''abc'' \<and> sq_items q = [(1, 1)] \<and>
  sq_limit q = 10 \<and> sq_flags q = IRCD_CONNFL_WRITEABLE \<and> item_text st (1, 1) = ''d''"
proof -
  have "\<exists>st q. sq_exec demo_sq_ops = Some st \<and> sm_conn st 7 = Some q \<and> sq_wire q = ''abc'' \<and> sq_items q = [(1, 1)] \<and>
    sq_limit q = 10 \<and> sq_flags q = IRCD_CONNFL_WRITEABLE \<and> item_text st (1, 1) = ''d''"
    unfolding demo_sq_ops_def
    by (simp add: no_sendqs_def new_sendq_conn_def sendto_def create_sendq_block_def sendq_push_def sendq_flush_def
      sendq_pop_def upd_conn_def IRCD_CONNFL_WRITEABLE_def IRCD_CONNFL_NOSENDQ_def item_text_def)
  then show ?thesis using sq_exec_run by blast
qed

theorem sendq_keeps_stream_witness:
  "\<exists>st q. sq_run demo_sq_ops st \<and> sm_conn st 7 = Some q \<and> sq_wire q @ waiting st q = ''abcd''"
proof -
  obtain st q where "sq_run demo_sq_ops st" "sm_conn st 7 = Some q" using demo_sq_run by blast
  then show ?thesis using sendq_keeps_stream [of demo_sq_ops st 7 q] by (auto simp: demo_sq_ops_def)
qed

theorem sendq_blocks_counted_witness:
  "\<exists>st st'. sq_run demo_sq_ops st \<and> sq_step (Sq_close 7 ''bye'') st = Some st' \<and>
    (\<forall>b. sm_block st' b \<noteq> None \<longleftrightarrow> (\<exists>c q off. sm_conn st' c = Some q \<and> (b, off) \<in> set (sq_items q)))"
proof -
  obtain st q where st: "sq_run demo_sq_ops st" "sm_conn st 7 = Some q" using demo_sq_run by blast
  have "sq_allowed st (Sq_close 7 ''bye'')" using st(2) by simp
  from sendq_blocks_counted [OF st(1) this] st(1) show ?thesis by blast
qed

theorem sendq_flush_limit_witness:
  "\<exists>st q st' q'. sq_run demo_sq_ops st \<and> sm_conn st 7 = Some q \<and> sendq_flush [9] 7 st = Some (st', True) \<and>
    sm_conn st' 7 = Some q' \<and> sq_wire q' = ''abcd''"
proof -
  obtain st q where st: "sq_run demo_sq_ops st" "sm_conn st 7 = Some q" "sq_items q = [(1, 1)]" "sq_limit q = 10"
    "sq_flags q = IRCD_CONNFL_WRITEABLE" "item_text st (1, 1) = ''d''" using demo_sq_run by blast
  have ok: "sendq_ok st" using sq_run_stream [OF st(1)] by (simp add: stream_ok_def)
  obtain st' alive where f: "sendq_flush [9] 7 st = Some (st', alive)" "\<not> alive \<longrightarrow> sm_conn st' 7 = None" "sendq_ok st'"
    using sendq_flush_ok [OF ok st(2), of "[9]"] by blast
  obtain s1 q1 where s1: "flush_loop [9] 7 st = Some s1" "sendq_ok s1" "sm_conn s1 = (sm_conn st)(7 \<mapsto> q1)" "sq_items q1 = []"
      "sq_flags q1 = sq_flags q" "sq_limit q1 = sq_limit q"
    using flush_loop_ok [OF ok st(2), of "[9]"] st(3,6) by auto
  have "sq_count q1 = 0" using sendq_okD(5) [OF s1(2), of 7 q1] s1(3,4) by simp
  then have alive: "sendq_flush [9] 7 st = Some (s1, True)"
    using s1 st(2,4,5) by (simp add: sendq_flush_def IRCD_CONNFL_WRITEABLE_def IRCD_CONNFL_NOSENDQ_def)
  have w: "sq_flags q AND IRCD_CONNFL_WRITEABLE \<noteq> 0" using st(5) by (simp add: IRCD_CONNFL_WRITEABLE_def)
  show ?thesis using sendq_flush_limit [OF st(1,2) alive] w st alive
    by (auto simp: demo_sq_ops_def)
qed

section \<open>The writer\<close>

lemma writer_loop_run:
  assumes "sq_run ops st" "distinct cs" "\<forall>c\<in>set cs. sm_conn st c \<noteq> None"
  shows "\<exists>st'. writer_loop results cs st = Some st' \<and> sq_run (rev (map (\<lambda>c. Sq_flush c (results c)) cs) @ ops) st' \<and>
    (\<forall>d. d \<notin> set cs \<longrightarrow> sm_conn st' d = sm_conn st d)"
  using assms
proof (induction cs arbitrary: st ops)
  case Nil
  then show ?case by simp
next
  case (Cons c cs)
  have ok: "sendq_ok st" using sq_run_stream [OF Cons.prems(1)] by (simp add: stream_ok_def)
  obtain q where q: "sm_conn st c = Some q" using Cons.prems(3) by auto
  obtain s alive where s: "sendq_flush (results c) c st = Some (s, alive)" "\<forall>d. d \<noteq> c \<longrightarrow> sm_conn s d = sm_conn st d"
    using sendq_flush_ok [OF ok q, of "results c"] by blast
  have r: "sq_run (Sq_flush c (results c) # ops) s"
    by (rule sq_run.step [OF Cons.prems(1)]) (use q s(1) in auto)
  have l: "\<forall>d\<in>set cs. sm_conn s d \<noteq> None" using Cons.prems(2,3) s(2) by auto
  obtain st' where "writer_loop results cs s = Some st'"
    "sq_run (rev (map (\<lambda>c. Sq_flush c (results c)) cs) @ Sq_flush c (results c) # ops) st'"
    "\<forall>d. d \<notin> set cs \<longrightarrow> sm_conn st' d = sm_conn s d"
    using Cons.IH [OF r _ l] Cons.prems(2) by auto
  then show ?case using s by auto
qed

lemma writer_loop_append:
  "writer_loop results (as @ bs) st = (case writer_loop results as st of None \<Rightarrow> None | Some st \<Rightarrow> writer_loop results bs st)"
  by (induction as arbitrary: st) (auto split: option.splits)

text \<open>The writer flushes every connection once, in the order of the lists.\<close>

lemma ircd_writer_hook_run:
  assumes "sq_run ops st" "distinct (stage1 @ stage2 @ clients @ servers)"
    and "\<forall>c\<in>set (stage1 @ stage2 @ clients @ servers). sm_conn st c \<noteq> None"
  shows "\<exists>st'. ircd_writer_hook results stage1 stage2 clients servers st = Some st' \<and>
    sq_run (rev (map (\<lambda>c. Sq_flush c (results c)) (stage1 @ stage2 @ clients @ servers)) @ ops) st'"
proof -
  have "ircd_writer_hook results stage1 stage2 clients servers st =
      writer_loop results (stage1 @ stage2 @ clients @ servers) st"
    by (auto simp: ircd_writer_hook_def writer_loop_append split: option.splits)
  then show ?thesis using writer_loop_run [OF assms, of results] by metis
qed

end
