(* ===== verification/Send.thy ===== *)
theory Send
  imports Sendq
begin

text \<open>
  Where messages go (\<^verbatim>\<open>send.c\<close>): the direction in which a client or a server lies, and the functions that send
  one message to many. Servers, clients, connections and protocols are numbers. \<open>out\<close> is the text that the
  output function of a protocol makes of the message that is sent. A null or freed pointer that is used and a
  cell outside \<^verbatim>\<open>ircd.sends\<close> give \<open>None\<close>.
\<close>

section \<open>The network as a server sees it\<close>

definition PROTOCOL_MFL_NOCACHE :: u64 where "PROTOCOL_MFL_NOCACHE = push_bit 56 1"

record send_server =
  sv_parent :: "nat option"
  sv_conn :: "nat option"
  sv_name :: cstring

record send_client =
  sl_server :: nat
  sl_conn :: "nat option"
  sl_registered :: bool
  sl_host :: cstring

text \<open>
  Of a connection: the descriptor of its socket, its protocol, and the flags the server behind it supports.
  \<open>sn_sends\<close> are the marks \<^verbatim>\<open>ircd.sends\<close>, one for each descriptor, \<open>sn_temp\<close> is the \<^verbatim>\<open>tmpmsg\<close> of a protocol.
\<close>

record send_net =
  sn_me :: nat
  sn_server :: "nat \<Rightarrow> send_server option"
  sn_client :: "nat \<Rightarrow> send_client option"
  sn_fd :: "nat \<Rightarrow> nat"
  sn_proto :: "nat \<Rightarrow> nat"
  sn_supports :: "nat \<Rightarrow> u64"
  sn_pflags :: "nat \<Rightarrow> u64"
  sn_sends :: "bool list"
  sn_temp :: "nat \<Rightarrow> nat option"
  sn_queues :: sendq_mem

text \<open>\<^verbatim>\<open>MYCLIENT\<close>\<close>

definition my_client :: "send_net \<Rightarrow> send_client \<Rightarrow> bool" where
  "my_client n c \<longleftrightarrow> sl_server c = sn_me n"

text \<open>The loop that goes up to the server whose parent is this one.\<close>

partial_function (option) top_server :: "nat \<Rightarrow> (nat \<Rightarrow> send_server option) \<Rightarrow> nat \<Rightarrow> nat option" where
  "top_server me server s =
     (case server s of
        None \<Rightarrow> None
      | Some v \<Rightarrow>
          (case sv_parent v of
             None \<Rightarrow> Some s
           | Some p \<Rightarrow> if p = me then Some s else top_server me server p))"

definition srv_server_uplink :: "send_net \<Rightarrow> nat option \<Rightarrow> nat option option" where
  "srv_server_uplink n srv =
     (case srv of
        None \<Rightarrow> Some None
      | Some s \<Rightarrow> if s = sn_me n then Some None else map_option Some (top_server (sn_me n) (sn_server n) s))"

definition srv_uplink :: "send_net \<Rightarrow> nat option \<Rightarrow> nat option option" where
  "srv_uplink n srv =
     (case srv of
        None \<Rightarrow> Some None
      | Some s \<Rightarrow>
          if s = sn_me n then Some None
          else (case top_server (sn_me n) (sn_server n) s of None \<Rightarrow> None | Some t \<Rightarrow> map_option sv_conn (sn_server n t)))"

definition cli_uplink :: "send_net \<Rightarrow> nat option \<Rightarrow> nat option option" where
  "cli_uplink n cli =
     (case cli of
        None \<Rightarrow> Some None
      | Some x \<Rightarrow>
          (case sn_client n x of
             None \<Rightarrow> None
           | Some c \<Rightarrow> if my_client n c then Some (sl_conn c) else srv_uplink n (Some (sl_server c))))"

definition cli_server_uplink :: "send_net \<Rightarrow> nat option \<Rightarrow> nat option option" where
  "cli_server_uplink n cli =
     (case cli of
        None \<Rightarrow> Some None
      | Some x \<Rightarrow>
          (case sn_client n x of
             None \<Rightarrow> None
           | Some c \<Rightarrow> if my_client n c then Some (Some (sn_me n)) else srv_server_uplink n (Some (sl_server c))))"

section \<open>One copy of a message\<close>

text \<open>\<^verbatim>\<open>CACHE_MSG\<close>: the operator \<^verbatim>\<open>!\<close> binds tighter than \<^verbatim>\<open>&\<close>.\<close>

definition cache_msg :: "u64 \<Rightarrow> bool" where
  "cache_msg flags \<longleftrightarrow> (if flags = 0 then 1 else 0) AND PROTOCOL_MFL_NOCACHE \<noteq> 0"

text \<open>\<open>sm\<close> is the message the output function made last.\<close>

definition send_copy :: "(nat \<Rightarrow> char list) \<Rightarrow> nat \<Rightarrow> char list option \<times> send_net \<Rightarrow> (char list option \<times> send_net) option" where
  "send_copy out c s =
     (case s of (sm, n) \<Rightarrow>
       (let p = sn_proto n c; sm = (if sn_temp n p = None then Some (out p) else sm) in
        case sm of
          None \<Rightarrow> None
        | Some msg \<Rightarrow>
            (case create_sendq_block msg (sn_queues n) of (b, q) \<Rightarrow>
              (case sendq_push b c q of
                 None \<Rightarrow> None
               | Some q \<Rightarrow>
                   Some (sm, n\<lparr>sn_queues := q,
                     sn_temp := (if cache_msg (sn_pflags n p) then (sn_temp n)(p \<mapsto> b) else sn_temp n)\<rparr>)))))"

text \<open>\<^verbatim>\<open>CLEAR_SEND_TEMPS\<close>\<close>

definition clear_send_temps :: "send_net \<Rightarrow> send_net" where
  "clear_send_temps n = n\<lparr>sn_temp := (\<lambda>_. None), sn_sends := replicate (length (sn_sends n)) False\<rparr>"

text \<open>Over a list: \<open>pick\<close> is the part of a loop that chooses the connection of an element or goes on to the next.\<close>

fun send_each ::
  "('x \<Rightarrow> send_net \<Rightarrow> (nat option \<times> send_net) option) \<Rightarrow> (nat \<Rightarrow> char list) \<Rightarrow> 'x list \<Rightarrow> char list option \<times> send_net
     \<Rightarrow> (char list option \<times> send_net) option" where
  "send_each pick out [] s = Some s"
| "send_each pick out (x # xs) s =
     (case pick x (snd s) of
        None \<Rightarrow> None
      | Some (None, n) \<Rightarrow> send_each pick out xs (fst s, n)
      | Some (Some c, n) \<Rightarrow>
          (case send_copy out c (fst s, n) of None \<Rightarrow> None | Some s \<Rightarrow> send_each pick out xs s))"

definition send_round where
  "send_round pick out xs n = map_option (\<lambda>s. clear_send_temps (snd s)) (send_each pick out xs (None, n))"

text \<open>A connection with the mark of its descriptor is passed over, and marked otherwise.\<close>

definition unmarked :: "nat \<Rightarrow> send_net \<Rightarrow> (nat option \<times> send_net) option" where
  "unmarked c n =
     (let fd = sn_fd n c in
      if \<not> fd < length (sn_sends n) then None
      else if sn_sends n ! fd then Some (None, n)
      else Some (Some c, n\<lparr>sn_sends := (sn_sends n)[fd := True]\<rparr>))"

section \<open>The functions\<close>

text \<open>\<^verbatim>\<open>sendto_common\<close>, to one connection if there is one, and its callers.\<close>

definition sendto_common :: "(nat \<Rightarrow> char list) \<Rightarrow> nat option \<Rightarrow> send_net \<Rightarrow> send_net option" where
  "sendto_common out cp n =
     (case cp of
        None \<Rightarrow> Some n
      | Some c \<Rightarrow> map_option (\<lambda>q. n\<lparr>sn_queues := q\<rparr>) (sendto c (out (sn_proto n c)) (sn_queues n)))"

definition sendto_one :: "(nat \<Rightarrow> char list) \<Rightarrow> nat \<Rightarrow> send_net \<Rightarrow> send_net option" where
  "sendto_one out cp n = (case cli_uplink n (Some cp) of None \<Rightarrow> None | Some c \<Rightarrow> sendto_common out c n)"

definition sendto_serv :: "(nat \<Rightarrow> char list) \<Rightarrow> nat \<Rightarrow> send_net \<Rightarrow> send_net option" where
  "sendto_serv out sp n = (case srv_uplink n (Some sp) of None \<Rightarrow> None | Some c \<Rightarrow> sendto_common out c n)"

text \<open>To all the connected servers but one; \<open>servers\<close> are the connections \<^verbatim>\<open>ircd.connections.servers\<close>.\<close>

definition sendto_serv_butone :: "nat list \<Rightarrow> (nat \<Rightarrow> char list) \<Rightarrow> nat option \<Rightarrow> send_net \<Rightarrow> send_net option" where
  "sendto_serv_butone servers out one n =
     (case srv_uplink n one of
        None \<Rightarrow> None
      | Some ones \<Rightarrow> send_round (\<lambda>c n. Some (if Some c = ones then None else Some c, n)) out servers n)"

definition sendto_serv_pflag_butone ::
  "nat list \<Rightarrow> (nat \<Rightarrow> char list) \<Rightarrow> u64 \<Rightarrow> bool \<Rightarrow> nat option \<Rightarrow> send_net \<Rightarrow> send_net option" where
  "sendto_serv_pflag_butone servers out flag pos one n =
     (case srv_uplink n one of
        None \<Rightarrow> None
      | Some ones \<Rightarrow>
          send_round
            (\<lambda>c n. Some (if Some c = ones \<or> (pos \<and> sn_supports n c AND flag = 0) \<or> (\<not> pos \<and> sn_supports n c AND flag \<noteq> 0)
                         then None else Some c, n)) out servers n)"

text \<open>To the members of a channel. \<^verbatim>\<open>sendto_channel\<close> looks at the socket before it asks whether there is a connection.\<close>

definition pick_channel :: "nat \<Rightarrow> send_net \<Rightarrow> (nat option \<times> send_net) option" where
  "pick_channel x n =
     (case cli_uplink n (Some x) of None \<Rightarrow> None | Some None \<Rightarrow> None | Some (Some c) \<Rightarrow> unmarked c n)"

definition sendto_channel :: "nat list \<Rightarrow> (nat \<Rightarrow> char list) \<Rightarrow> send_net \<Rightarrow> send_net option" where
  "sendto_channel users out n = send_round pick_channel out users n"

definition pick_local :: "nat \<Rightarrow> send_net \<Rightarrow> (nat option \<times> send_net) option" where
  "pick_local x n =
     (case sn_client n x of
        None \<Rightarrow> None
      | Some cl \<Rightarrow> if \<not> my_client n cl then Some (None, n) else map_option (\<lambda>c. (c, n)) (cli_uplink n (Some x)))"

definition sendto_channel_local :: "nat list \<Rightarrow> (nat \<Rightarrow> char list) \<Rightarrow> send_net \<Rightarrow> send_net option" where
  "sendto_channel_local users out n = send_round pick_local out users n"

definition pick_remote :: "nat \<Rightarrow> send_net \<Rightarrow> (nat option \<times> send_net) option" where
  "pick_remote x n =
     (case sn_client n x of
        None \<Rightarrow> None
      | Some cl \<Rightarrow>
          if my_client n cl then Some (None, n)
          else
            (case cli_uplink n (Some x) of
               None \<Rightarrow> None
             | Some None \<Rightarrow> Some (None, n)
             | Some (Some c) \<Rightarrow> unmarked c n))"

definition sendto_channel_remote :: "nat list \<Rightarrow> (nat \<Rightarrow> char list) \<Rightarrow> send_net \<Rightarrow> send_net option" where
  "sendto_channel_remote users out n = send_round pick_remote out users n"

definition pick_butone :: "nat option \<Rightarrow> nat \<Rightarrow> send_net \<Rightarrow> (nat option \<times> send_net) option" where
  "pick_butone onec x n =
     (case cli_uplink n (Some x) of
        None \<Rightarrow> None
      | Some None \<Rightarrow> Some (None, n)
      | Some (Some c) \<Rightarrow> if Some c = onec then Some (None, n) else unmarked c n)"

definition sendto_channel_butone :: "nat list \<Rightarrow> (nat \<Rightarrow> char list) \<Rightarrow> nat option \<Rightarrow> send_net \<Rightarrow> send_net option" where
  "sendto_channel_butone users out one n =
     (case cli_uplink n one of None \<Rightarrow> None | Some onec \<Rightarrow> send_round (pick_butone onec) out users n)"

text \<open>Members with their flags; \<open>pfxmap\<close> gives the \<^verbatim>\<open>umask\<close> of the mode of a prefix.\<close>

definition prefix_mask :: "(char \<Rightarrow> 16 word option) \<Rightarrow> cstring \<Rightarrow> 16 word" where
  "prefix_mask pfxmap prefixes = foldl (\<lambda>m p. case pfxmap p of None \<Rightarrow> m | Some u \<Rightarrow> m OR u) 0 prefixes"

definition pick_prefixes :: "nat option \<Rightarrow> 16 word \<Rightarrow> nat \<times> 16 word \<Rightarrow> send_net \<Rightarrow> (nat option \<times> send_net) option" where
  "pick_prefixes onec pmask x n =
     (case cli_uplink n (Some (fst x)) of
        None \<Rightarrow> None
      | Some None \<Rightarrow> Some (None, n)
      | Some (Some c) \<Rightarrow>
          if Some c = onec then Some (None, n)
          else if \<not> sn_fd n c < length (sn_sends n) then None
          else if sn_sends n ! sn_fd n c then Some (None, n)
          else if pmask = 0 \<and> snd x \<noteq> 0 then Some (None, n)
          else if pmask \<noteq> 0 \<and> snd x AND pmask = 0 then Some (None, n)
          else unmarked c n)"

definition sendto_channel_prefixes_butone ::
  "(nat \<times> 16 word) list \<Rightarrow> (nat \<Rightarrow> char list) \<Rightarrow> nat option \<Rightarrow> (char \<Rightarrow> 16 word option) \<Rightarrow> cstring \<Rightarrow> send_net \<Rightarrow> send_net option" where
  "sendto_channel_prefixes_butone users out one pfxmap prefixes n =
     (case cli_uplink n one of
        None \<Rightarrow> None
      | Some onec \<Rightarrow> send_round (pick_prefixes onec (prefix_mask pfxmap prefixes)) out users n)"

text \<open>To the local members of all the channels of a client; \<open>chans\<close> are their members.\<close>

definition pick_common :: "nat \<Rightarrow> send_net \<Rightarrow> (nat option \<times> send_net) option" where
  "pick_common x n =
     (case sn_client n x of
        None \<Rightarrow> None
      | Some cl \<Rightarrow>
          if \<not> my_client n cl then Some (None, n)
          else
            (case cli_uplink n (Some x) of
               None \<Rightarrow> None
             | Some None \<Rightarrow> Some (None, n)
             | Some (Some c) \<Rightarrow> unmarked c n))"

definition sendto_common_channels :: "nat list list \<Rightarrow> (nat \<Rightarrow> char list) \<Rightarrow> nat \<Rightarrow> send_net \<Rightarrow> send_net option" where
  "sendto_common_channels chans out x n =
     (if chans = [] then
        (case sn_client n x of
           None \<Rightarrow> None
         | Some cl \<Rightarrow>
             if \<not> my_client n cl then Some (clear_send_temps n)
             else
               (case sl_conn cl of
                  None \<Rightarrow> None
                | Some c \<Rightarrow>
                    if \<not> sn_fd n c < length (sn_sends n) then None
                    else if sn_sends n ! sn_fd n c then Some (clear_send_temps n)
                    else map_option clear_send_temps (sendto_common out (Some c) n)))
      else send_round pick_common out (concat chans) n)"

text \<open>To the clients that match a mask of a host (\<^verbatim>\<open>$#\<close>) or a server (\<^verbatim>\<open>$\<close>); \<open>matches\<close> is \<^verbatim>\<open>match\<close>.\<close>

definition pick_match ::
  "(cstring \<Rightarrow> cstring \<Rightarrow> bool) \<Rightarrow> nat option \<Rightarrow> bool \<Rightarrow> cstring \<Rightarrow> nat \<Rightarrow> send_net \<Rightarrow> (nat option \<times> send_net) option" where
  "pick_match matches one host pat x n =
     (if Some x = one then Some (None, n)
      else
        (case sn_client n x of
           None \<Rightarrow> None
         | Some cl \<Rightarrow>
             if \<not> sl_registered cl then Some (None, n)
             else
               (case cli_uplink n (Some x) of
                  None \<Rightarrow> None
                | Some None \<Rightarrow> Some (None, n)
                | Some (Some c) \<Rightarrow>
                    if \<not> sn_fd n c < length (sn_sends n) then None
                    else if sn_sends n ! sn_fd n c then Some (None, n)
                    else
                      (case (if host then Some (sl_host cl) else map_option sv_name (sn_server n (sl_server cl))) of
                         None \<Rightarrow> None
                       | Some text \<Rightarrow> if matches pat text then unmarked c n else Some (None, n)))))"

definition sendto_match_butone ::
  "(cstring \<Rightarrow> cstring \<Rightarrow> bool) \<Rightarrow> nat list \<Rightarrow> (nat \<Rightarrow> char list) \<Rightarrow> nat option \<Rightarrow> cstring \<Rightarrow> send_net \<Rightarrow> send_net option" where
  "sendto_match_butone matches clients out one m n =
     (let pat = tl m; host = chd pat = CHR ''#''; pat = (if host then tl pat else pat) in
      send_round (pick_match matches one host pat) out clients n)"

text \<open>To a group of clients; \<open>out\<close> has the nick of the client as its target or none.\<close>

fun sendto_group :: "(nat \<Rightarrow> nat \<Rightarrow> char list) \<Rightarrow> nat list \<Rightarrow> send_net \<Rightarrow> send_net option" where
  "sendto_group out [] n = Some n"
| "sendto_group out (x # xs) n =
     (case sn_client n x of
        None \<Rightarrow> None
      | Some cl \<Rightarrow>
          if \<not> my_client n cl \<or> sl_conn cl = None then sendto_group out xs n
          else (case sendto_common (out x) (sl_conn cl) n of None \<Rightarrow> None | Some n \<Rightarrow> sendto_group out xs n))"

section \<open>A consistent view\<close>

text \<open>The parents of a server end in this server or in one without a parent; \<open>depth\<close> goes down on the way.\<close>

definition tree_ok :: "send_net \<Rightarrow> bool" where
  "tree_ok n \<longleftrightarrow> (\<exists>depth :: nat \<Rightarrow> nat. \<forall>s v p. sn_server n s = Some v \<longrightarrow> sv_parent v = Some p \<longrightarrow> p \<noteq> sn_me n \<longrightarrow>
     sn_server n p \<noteq> None \<and> depth p < depth s)"

text \<open>
  The connections of clients and servers are there, every descriptor has its mark and belongs to one
  connection, clients are on servers that are there, and between two rounds no mark is set and no message is kept.
\<close>

definition net_static :: "send_net \<Rightarrow> bool" where
  "net_static n \<longleftrightarrow> tree_ok n \<and>
     (\<forall>x cl. sn_client n x = Some cl \<longrightarrow> sn_server n (sl_server cl) \<noteq> None \<or> sl_server cl = sn_me n) \<and>
     (\<forall>x cl c. sn_client n x = Some cl \<longrightarrow> sl_conn cl = Some c \<longrightarrow> c \<in> dom (sm_conn (sn_queues n))) \<and>
     (\<forall>s v c. sn_server n s = Some v \<longrightarrow> sv_conn v = Some c \<longrightarrow> c \<in> dom (sm_conn (sn_queues n))) \<and>
     (\<forall>c\<in>dom (sm_conn (sn_queues n)). sn_fd n c < length (sn_sends n)) \<and>
     inj_on (sn_fd n) (dom (sm_conn (sn_queues n)))"

definition net_ok :: "send_net \<Rightarrow> bool" where
  "net_ok n \<longleftrightarrow> net_static n \<and> sendq_ok (sn_queues n) \<and> sn_temp n = (\<lambda>_. None) \<and>
     sn_sends n = replicate (length (sn_sends n)) False"

lemma top_server_ok:
  assumes "tree_ok n" "sn_server n s = Some v"
  shows "\<exists>t w. top_server (sn_me n) (sn_server n) s = Some t \<and> sn_server n t = Some w \<and>
    (sv_parent w = None \<or> sv_parent w = Some (sn_me n))"
proof -
  obtain depth :: "nat \<Rightarrow> nat" where d: "\<And>s v p. sn_server n s = Some v \<Longrightarrow> sv_parent v = Some p \<Longrightarrow> p \<noteq> sn_me n \<Longrightarrow>
     sn_server n p \<noteq> None \<and> depth p < depth s"
    using assms(1) unfolding tree_ok_def by blast
  show ?thesis using assms(2)
  proof (induction "depth s" arbitrary: s v rule: less_induct)
    case less
    show ?case
    proof (cases "sv_parent v = None \<or> sv_parent v = Some (sn_me n)")
      case True
      then show ?thesis using less.prems by (auto simp: top_server.simps [of _ _ s])
    next
      case False
      then obtain p where p: "sv_parent v = Some p" "p \<noteq> sn_me n" by auto
      obtain u where "sn_server n p = Some u" "depth p < depth s" using d [OF less.prems p] by auto
      then show ?thesis using less.hyps [of p u] less.prems p by (simp add: top_server.simps [of _ _ s])
    qed
  qed
qed

lemma srv_uplink_ok:
  assumes "net_static n" "sn_server n s \<noteq> None \<or> s = sn_me n"
  obtains c where "srv_uplink n (Some s) = Some c" "c = None \<or> (\<exists>x. c = Some x \<and> x \<in> dom (sm_conn (sn_queues n)))"
proof (cases "s = sn_me n")
  case True
  then show ?thesis using that by (simp add: srv_uplink_def)
next
  case False
  then obtain v where v: "sn_server n s = Some v" using assms(2) by auto
  have "tree_ok n" using assms(1) by (simp add: net_static_def)
  from top_server_ok [OF this v] obtain t w where "top_server (sn_me n) (sn_server n) s = Some t" "sn_server n t = Some w" by blast
  then show ?thesis using that [of "sv_conn w"] False assms(1)
    by (cases "sv_conn w") (auto simp: srv_uplink_def net_static_def)
qed

lemma cli_uplink_ok:
  assumes "net_static n" "sn_client n x = Some cl"
  obtains c where "cli_uplink n (Some x) = Some c" "c = None \<or> (\<exists>y. c = Some y \<and> y \<in> dom (sm_conn (sn_queues n)))"
proof (cases "my_client n cl")
  case True
  then show ?thesis using that [of "sl_conn cl"] assms by (cases "sl_conn cl") (auto simp: cli_uplink_def net_static_def)
next
  case False
  have "sn_server n (sl_server cl) \<noteq> None \<or> sl_server cl = sn_me n" using assms unfolding net_static_def by blast
  from srv_uplink_ok [OF assms(1) this] show ?thesis using that assms(2) False by (auto simp: cli_uplink_def)
qed

text \<open>The cache is never used, whatever the flags of the protocol.\<close>

lemma cache_never: "\<not> cache_msg flags"
  by (simp add: cache_msg_def PROTOCOL_MFL_NOCACHE_def)

text \<open>Messages change marks and queues only.\<close>

definition same_view :: "send_net \<Rightarrow> send_net \<Rightarrow> bool" where
  "same_view n n' \<longleftrightarrow> sn_me n' = sn_me n \<and> sn_server n' = sn_server n \<and> sn_client n' = sn_client n \<and> sn_fd n' = sn_fd n \<and>
     sn_proto n' = sn_proto n \<and> sn_supports n' = sn_supports n \<and> sn_pflags n' = sn_pflags n \<and>
     length (sn_sends n') = length (sn_sends n) \<and> dom (sm_conn (sn_queues n')) = dom (sm_conn (sn_queues n))"

lemma same_view_refl [simp]: "same_view n n"
  by (simp add: same_view_def)

lemma same_view_trans: "same_view n n1 \<Longrightarrow> same_view n1 n2 \<Longrightarrow> same_view n n2"
  by (simp add: same_view_def)

lemma same_view_static: "same_view n n' \<Longrightarrow> net_static n \<Longrightarrow> net_static n'"
  unfolding same_view_def net_static_def tree_ok_def by (elim conjE) (simp only:)

lemma same_view_uplink:
  assumes "same_view n n'"
  shows "srv_uplink n' = srv_uplink n" "cli_uplink n' = cli_uplink n"
proof -
  have e: "sn_me n' = sn_me n" "sn_server n' = sn_server n" "sn_client n' = sn_client n" using assms by (simp_all add: same_view_def)
  show s: "srv_uplink n' = srv_uplink n" by (intro ext) (simp only: srv_uplink_def e)
  show "cli_uplink n' = cli_uplink n" by (intro ext) (simp only: cli_uplink_def e s my_client_def)
qed

text \<open>What a round of sending adds to the queues: one copy in the form of its own protocol for each connection of a
  set, and nothing for any other.\<close>

definition delivered :: "(nat \<Rightarrow> char list) \<Rightarrow> nat set \<Rightarrow> send_net \<Rightarrow> send_net \<Rightarrow> bool" where
  "delivered out T n n' \<longleftrightarrow> same_view n n' \<and>
     (\<forall>c q. sm_conn (sn_queues n) c = Some q \<longrightarrow>
       (\<exists>q'. sm_conn (sn_queues n') c = Some q' \<and> sq_wire q' = sq_wire q \<and>
         sq_count q' = sq_count q + (if c \<in> T then 1 else 0) \<and>
         waiting (sn_queues n') q' = waiting (sn_queues n) q @ (if c \<in> T then out (sn_proto n c) else [])))"

lemma delivered_none: "same_view n n' \<Longrightarrow> sn_queues n' = sn_queues n \<Longrightarrow> delivered out {} n n'"
  by (simp add: delivered_def)

lemma delivered_trans:
  assumes "delivered out T n n1" "delivered out U n1 n2" "T \<inter> U = {}"
  shows "delivered out (T \<union> U) n n2"
proof -
  have v: "same_view n n1" "same_view n1 n2" using assms(1,2) by (auto simp: delivered_def)
  have p: "sn_proto n1 = sn_proto n" using v(1) by (simp add: same_view_def)
  show ?thesis unfolding delivered_def
  proof (intro conjI allI impI)
    show "same_view n n2" by (rule same_view_trans [OF v])
    fix c q
    assume q: "sm_conn (sn_queues n) c = Some q"
    obtain q1 where q1: "sm_conn (sn_queues n1) c = Some q1" "sq_wire q1 = sq_wire q"
      "sq_count q1 = sq_count q + (if c \<in> T then 1 else 0)"
      "waiting (sn_queues n1) q1 = waiting (sn_queues n) q @ (if c \<in> T then out (sn_proto n c) else [])"
      using assms(1) q unfolding delivered_def by blast
    obtain q2 where q2: "sm_conn (sn_queues n2) c = Some q2" "sq_wire q2 = sq_wire q1"
      "sq_count q2 = sq_count q1 + (if c \<in> U then 1 else 0)"
      "waiting (sn_queues n2) q2 = waiting (sn_queues n1) q1 @ (if c \<in> U then out (sn_proto n1 c) else [])"
      using assms(2) q1(1) unfolding delivered_def by blast
    have "\<not> (c \<in> T \<and> c \<in> U)" using assms(3) by blast
    then show "\<exists>q'. sm_conn (sn_queues n2) c = Some q' \<and> sq_wire q' = sq_wire q \<and>
        sq_count q' = sq_count q + (if c \<in> T \<union> U then 1 else 0) \<and>
        waiting (sn_queues n2) q' = waiting (sn_queues n) q @ (if c \<in> T \<union> U then out (sn_proto n c) else [])"
      using q1 q2 p by auto
  qed
qed

lemma send_copy_ok:
  assumes "sendq_ok (sn_queues n)" "sn_temp n = (\<lambda>_. None)" "c \<in> dom (sm_conn (sn_queues n))" "out (sn_proto n c) \<noteq> []"
  shows "\<exists>sm' n'. send_copy out c (sm, n) = Some (sm', n') \<and> delivered out {c} n n' \<and> sendq_ok (sn_queues n') \<and>
    sn_temp n' = (\<lambda>_. None) \<and> sn_sends n' = sn_sends n"
proof -
  let ?m = "out (sn_proto n c)"
  obtain q where q: "sm_conn (sn_queues n) c = Some q" using assms(3) by blast
  obtain s q' where s: "sendto c ?m (sn_queues n) = Some s" "sendq_ok s" "sm_conn s = (sm_conn (sn_queues n))(c \<mapsto> q')"
    "q' = q\<lparr>sq_items := sq_items q @ [(sm_next (sn_queues n), 0)], sq_count := sq_count q + 1\<rparr>"
    "waiting s q' = waiting (sn_queues n) q @ ?m"
    "\<forall>d p. sm_conn (sn_queues n) d = Some p \<longrightarrow> waiting s p = waiting (sn_queues n) p"
    using push_ok [OF assms(1) q assms(4)] by blast
  have "send_copy out c (sm, n) = Some (Some ?m, n\<lparr>sn_queues := s\<rparr>)"
    using s(1) assms(2) by (simp add: send_copy_def sendto_def cache_never create_sendq_block_def split: option.splits)
  moreover have "delivered out {c} n (n\<lparr>sn_queues := s\<rparr>)"
    using s(3-6) q by (auto simp: delivered_def same_view_def)
  ultimately show ?thesis using s(2) assms(2) by auto
qed

section \<open>Rounds\<close>

lemma round_end:
  assumes "delivered out T n n1" "net_static n" "sendq_ok (sn_queues n1)"
  shows "delivered out T n (clear_send_temps n1)" "net_ok (clear_send_temps n1)"
proof -
  have v: "same_view n1 (clear_send_temps n1)" by (simp add: same_view_def clear_send_temps_def)
  have n: "same_view n n1" using assms(1) by (simp add: delivered_def)
  show "delivered out T n (clear_send_temps n1)"
    using assms(1) same_view_trans [OF n v] by (simp add: delivered_def clear_send_temps_def)
  show "net_ok (clear_send_temps n1)"
    using same_view_static [OF same_view_trans [OF n v] assms(2)] assms(3)
    by (simp add: net_ok_def) (simp add: clear_send_temps_def)
qed

text \<open>A loop that chooses by the view only, from connections that are all different.\<close>

lemma send_each_plain:
  assumes "net_static n" "sendq_ok (sn_queues n)" "sn_temp n = (\<lambda>_. None)"
    and "\<forall>x\<in>set xs. \<forall>m. same_view n m \<longrightarrow> pick x m = Some (target x, m)"
    and "\<forall>x\<in>set xs. \<forall>c. target x = Some c \<longrightarrow> c \<in> dom (sm_conn (sn_queues n))"
    and "distinct (filter (\<lambda>t. t \<noteq> None) (map target xs))" "\<forall>c. out (sn_proto n c) \<noteq> []"
  shows "\<exists>sm' n'. send_each pick out xs (sm, n) = Some (sm', n') \<and> delivered out {c. Some c \<in> target ` set xs} n n' \<and>
    sendq_ok (sn_queues n')"
  using assms
proof (induction xs arbitrary: n sm)
  case Nil
  then show ?case by (simp add: delivered_none)
next
  case (Cons x xs)
  have p: "pick x n = Some (target x, n)" using Cons.prems(4) by simp
  have dom: "\<forall>x\<in>set xs. \<forall>c. target x = Some c \<longrightarrow> c \<in> dom (sm_conn (sn_queues n))" using Cons.prems(5) by simp
  have dist: "distinct (filter (\<lambda>t. t \<noteq> None) (map target xs))" using Cons.prems(6) by (simp split: if_splits)
  have picks: "\<forall>y\<in>set xs. \<forall>m. same_view n m \<longrightarrow> pick y m = Some (target y, m)" using Cons.prems(4) by simp
  show ?case
  proof (cases "target x")
    case None
    have T: "{c. Some c \<in> target ` set (x # xs)} = {c. Some c \<in> target ` set xs}" using None by auto
    have "send_each pick out (x # xs) (sm, n) = send_each pick out xs (sm, n)" using p None by simp
    then show ?thesis unfolding T using Cons.IH [OF Cons.prems(1-3) picks dom dist Cons.prems(7), of sm] by (simp only:)
  next
    case (Some c)
    have c: "c \<in> dom (sm_conn (sn_queues n))" using Cons.prems(5) Some by simp
    have m: "out (sn_proto n c) \<noteq> []" using Cons.prems(7) by blast
    obtain s1 n1 where s1: "send_copy out c (sm, n) = Some (s1, n1)" "delivered out {c} n n1" "sendq_ok (sn_queues n1)"
      "sn_temp n1 = (\<lambda>_. None)"
      using send_copy_ok [where out = out, OF Cons.prems(2,3) c m, of sm] by blast
    have v: "same_view n n1" using s1(2) by (simp add: delivered_def)
    have e: "sn_proto n1 = sn_proto n" "dom (sm_conn (sn_queues n1)) = dom (sm_conn (sn_queues n))"
      using v by (simp_all add: same_view_def)
    have picks1: "\<forall>y\<in>set xs. \<forall>m. same_view n1 m \<longrightarrow> pick y m = Some (target y, m)"
      using picks same_view_trans [OF v] by blast
    obtain sm' n' where I: "send_each pick out xs (s1, n1) = Some (sm', n')"
      "delivered out {c. Some c \<in> target ` set xs} n1 n'" "sendq_ok (sn_queues n')"
      using Cons.IH [OF same_view_static [OF v Cons.prems(1)] s1(3,4) picks1 dom [folded e(2)] dist Cons.prems(7) [folded e(1)], of s1]
      by blast
    have "Some c \<notin> set (filter (\<lambda>t. t \<noteq> None) (map target xs))" using Cons.prems(6) Some by simp
    then have "c \<notin> {c. Some c \<in> target ` set xs}" by auto
    then have "delivered out ({c} \<union> {c. Some c \<in> target ` set xs}) n n'"
      using delivered_trans [OF s1(2) I(2)] by blast
    moreover have "{c} \<union> {c. Some c \<in> target ` set xs} = {c. Some c \<in> target ` set (x # xs)}" using Some by auto
    ultimately show ?thesis using p Some s1(1) I(1,3) by auto
  qed
qed

text \<open>A loop with marks: the connections that are chosen and were not marked get one copy, and are marked.\<close>

definition marks :: "send_net \<Rightarrow> nat set \<Rightarrow> bool" where
  "marks n M \<longleftrightarrow> (\<forall>c\<in>dom (sm_conn (sn_queues n)). sn_sends n ! sn_fd n c \<longleftrightarrow> c \<in> M)"

definition once :: "nat option \<Rightarrow> send_net \<Rightarrow> (nat option \<times> send_net) option" where
  "once t n = (case t of None \<Rightarrow> Some (None, n) | Some c \<Rightarrow> unmarked c n)"

lemma unmarked_ok:
  assumes "net_static n" "marks n M" "c \<in> dom (sm_conn (sn_queues n))"
  shows "c \<in> M \<Longrightarrow> unmarked c n = Some (None, n)"
    "c \<notin> M \<Longrightarrow> \<exists>n'. unmarked c n = Some (Some c, n') \<and> same_view n n' \<and> sn_queues n' = sn_queues n \<and> sn_temp n' = sn_temp n \<and>
      marks n' (insert c M)"
proof -
  have fd: "sn_fd n c < length (sn_sends n)" "inj_on (sn_fd n) (dom (sm_conn (sn_queues n)))"
    using assms(1,3) unfolding net_static_def by blast+
  have m: "sn_sends n ! sn_fd n c \<longleftrightarrow> c \<in> M" using assms(2,3) unfolding marks_def by blast
  show "c \<in> M \<Longrightarrow> unmarked c n = Some (None, n)" using fd(1) m by (simp add: unmarked_def)
  assume c: "c \<notin> M"
  let ?n = "n\<lparr>sn_sends := (sn_sends n)[sn_fd n c := True]\<rparr>"
  have "marks ?n (insert c M)" unfolding marks_def
  proof
    fix d
    assume d: "d \<in> dom (sm_conn (sn_queues ?n))"
    then have "sn_fd n d = sn_fd n c \<longleftrightarrow> d = c" using fd(2) assms(3) by (auto dest: inj_onD)
    then show "sn_sends ?n ! sn_fd ?n d \<longleftrightarrow> d \<in> insert c M"
      using fd(1) assms(2) d unfolding marks_def by (auto simp: nth_list_update)
  qed
  then show "\<exists>n'. unmarked c n = Some (Some c, n') \<and> same_view n n' \<and> sn_queues n' = sn_queues n \<and> sn_temp n' = sn_temp n \<and>
      marks n' (insert c M)"
    using fd(1) m c by (intro exI [of _ ?n]) (simp add: unmarked_def same_view_def)
qed

lemma send_each_once:
  assumes "net_static n" "sendq_ok (sn_queues n)" "sn_temp n = (\<lambda>_. None)" "marks n M"
    and "\<forall>x\<in>set xs. \<forall>m. same_view n m \<longrightarrow> pick x m = once (target x) m"
    and "\<forall>x\<in>set xs. \<forall>c. target x = Some c \<longrightarrow> c \<in> dom (sm_conn (sn_queues n))" "\<forall>c. out (sn_proto n c) \<noteq> []"
  shows "\<exists>sm' n'. send_each pick out xs (sm, n) = Some (sm', n') \<and> delivered out ({c. Some c \<in> target ` set xs} - M) n n' \<and>
    sendq_ok (sn_queues n')"
  using assms
proof (induction xs arbitrary: n sm M)
  case Nil
  then show ?case by (simp add: delivered_none)
next
  case (Cons x xs)
  have p: "pick x n = once (target x) n" using Cons.prems(5) by simp
  have picks: "\<forall>y\<in>set xs. \<forall>m. same_view n m \<longrightarrow> pick y m = once (target y) m" using Cons.prems(5) by simp
  have dom: "\<forall>x\<in>set xs. \<forall>c. target x = Some c \<longrightarrow> c \<in> dom (sm_conn (sn_queues n))" using Cons.prems(6) by simp
  let ?T = "{c. Some c \<in> target ` set xs}"
  consider (skip) "pick x n = Some (None, n)" "{c. Some c \<in> target ` set (x # xs)} - M = ?T - M"
    | (send) c where "target x = Some c" "c \<notin> M" "c \<in> dom (sm_conn (sn_queues n))"
  proof (cases "target x")
    case None
    then show thesis using p that(1) by (auto simp: once_def)
  next
    case (Some c)
    have c: "c \<in> dom (sm_conn (sn_queues n))" using Cons.prems(6) Some by simp
    show thesis
    proof (cases "c \<in> M")
      case True
      then show thesis using unmarked_ok(1) [OF Cons.prems(1,4) c] p Some that(1) by (auto simp: once_def)
    next
      case False
      then show thesis using that(2) Some c by blast
    qed
  qed
  then show ?case
  proof cases
    case skip
    obtain sm' n' where "send_each pick out xs (sm, n) = Some (sm', n')" "delivered out (?T - M) n n'" "sendq_ok (sn_queues n')"
      using Cons.IH [OF Cons.prems(1-4) picks dom Cons.prems(7), of sm] by blast
    then show ?thesis using skip by auto
  next
    case send
    obtain n0 where n0: "unmarked c n = Some (Some c, n0)" "same_view n n0" "sn_queues n0 = sn_queues n" "sn_temp n0 = sn_temp n"
      "marks n0 (insert c M)"
      using unmarked_ok(2) [OF Cons.prems(1,4) send(3,2)] by blast
    have e0: "sn_proto n0 = sn_proto n" using n0(2) by (simp add: same_view_def)
    have "sendq_ok (sn_queues n0)" "sn_temp n0 = (\<lambda>_. None)" "c \<in> dom (sm_conn (sn_queues n0))" "out (sn_proto n0 c) \<noteq> []"
      using n0(3,4) Cons.prems(2,3,7) send(3) e0 by simp_all
    from send_copy_ok [where out = out and sm = sm, OF this] obtain s1 n1 where
      s1: "send_copy out c (sm, n0) = Some (s1, n1)" "delivered out {c} n0 n1" "sendq_ok (sn_queues n1)"
      "sn_temp n1 = (\<lambda>_. None)" "sn_sends n1 = sn_sends n0" by blast
    have v1: "same_view n0 n1" using s1(2) by (simp add: delivered_def)
    have v: "same_view n n1" by (rule same_view_trans [OF n0(2) v1])
    have e: "sn_proto n1 = sn_proto n" "dom (sm_conn (sn_queues n1)) = dom (sm_conn (sn_queues n))" "sn_fd n1 = sn_fd n"
      using v by (simp_all add: same_view_def)
    have mk: "marks n1 (insert c M)" using n0(5) v1 s1(5) by (simp add: marks_def same_view_def)
    have picks1: "\<forall>y\<in>set xs. \<forall>m. same_view n1 m \<longrightarrow> pick y m = once (target y) m"
      using picks same_view_trans [OF v] by blast
    obtain sm' n' where I: "send_each pick out xs (s1, n1) = Some (sm', n')"
      "delivered out (?T - insert c M) n1 n'" "sendq_ok (sn_queues n')"
      using Cons.IH [OF same_view_static [OF v Cons.prems(1)] s1(3,4) mk picks1 dom [folded e(2)] Cons.prems(7) [folded e(1)], of s1]
      by blast
    have d: "delivered out {c} n n1"
      using s1(2) [unfolded delivered_def e0 n0(3)] v by (simp only: delivered_def) simp
    have "delivered out ({c} \<union> (?T - insert c M)) n n'"
      using delivered_trans [OF d I(2)] by blast
    moreover have "{c} \<union> (?T - insert c M) = {c. Some c \<in> target ` set (x # xs)} - M" using send(1,2) by auto
    ultimately show ?thesis using p send(1) n0(1) s1(1) I(1,3) by (auto simp: once_def)
  qed
qed

lemma send_round_once:
  assumes "net_ok n"
    and "\<forall>x\<in>set xs. \<forall>m. same_view n m \<longrightarrow> pick x m = once (target x) m"
    and "\<forall>x\<in>set xs. \<forall>c. target x = Some c \<longrightarrow> c \<in> dom (sm_conn (sn_queues n))" "\<forall>c. out (sn_proto n c) \<noteq> []"
  shows "\<exists>n'. send_round pick out xs n = Some n' \<and> delivered out {c. Some c \<in> target ` set xs} n n' \<and> net_ok n'"
proof -
  have ok: "net_static n" "sendq_ok (sn_queues n)" "sn_temp n = (\<lambda>_. None)"
    "sn_sends n = replicate (length (sn_sends n)) False" using assms(1) by (simp_all add: net_ok_def)
  have "marks n {}" unfolding marks_def
  proof
    fix c
    assume "c \<in> dom (sm_conn (sn_queues n))"
    then have "sn_fd n c < length (sn_sends n)" using ok(1) unfolding net_static_def by blast
    then show "sn_sends n ! sn_fd n c \<longleftrightarrow> c \<in> {}" using ok(4) by (metis empty_iff nth_replicate)
  qed
  from send_each_once [where out = out and pick = pick and target = target and sm = None, OF ok(1-3) this assms(2-4)] obtain sm' n1 where
    "send_each pick out xs (None, n) = Some (sm', n1)" "delivered out {c. Some c \<in> target ` set xs} n n1" "sendq_ok (sn_queues n1)"
    by auto
  then show ?thesis using round_end [of out _ n n1] ok(1) by (auto simp: send_round_def)
qed

lemma send_round_plain:
  assumes "net_ok n"
    and "\<forall>x\<in>set xs. \<forall>m. same_view n m \<longrightarrow> pick x m = Some (target x, m)"
    and "\<forall>x\<in>set xs. \<forall>c. target x = Some c \<longrightarrow> c \<in> dom (sm_conn (sn_queues n))"
    and "distinct (filter (\<lambda>t. t \<noteq> None) (map target xs))" "\<forall>c. out (sn_proto n c) \<noteq> []"
  shows "\<exists>n'. send_round pick out xs n = Some n' \<and> delivered out {c. Some c \<in> target ` set xs} n n' \<and> net_ok n'"
proof -
  have ok: "net_static n" "sendq_ok (sn_queues n)" "sn_temp n = (\<lambda>_. None)" using assms(1) by (simp_all add: net_ok_def)
  from send_each_plain [where out = out and pick = pick and target = target and sm = None, OF ok assms(2-5)]
  obtain sm' n1 where "send_each pick out xs (None, n) = Some (sm', n1)"
    "delivered out {c. Some c \<in> target ` set xs} n n1" "sendq_ok (sn_queues n1)" by auto
  then show ?thesis using round_end [of out _ n n1] ok(1) by (auto simp: send_round_def)
qed

section \<open>What the functions send\<close>

lemma distinct_targets:
  "distinct xs \<Longrightarrow> \<forall>x\<in>set xs. \<forall>y\<in>set xs. \<forall>c. f x = Some c \<longrightarrow> f y = Some c \<longrightarrow> x = y \<Longrightarrow>
     distinct (filter (\<lambda>t. t \<noteq> None) (map f xs))"
proof (induction xs)
  case Nil
  then show ?case by simp
next
  case (Cons x xs)
  have "f x \<notin> f ` set xs" if x: "f x = Some c" for c
  proof
    assume "f x \<in> f ` set xs"
    then obtain y where y: "y \<in> set xs" "f y = f x" by (elim imageE) simp
    then have "x = y" using Cons.prems(2) x by simp
    then show False using Cons.prems(1) y(1) by simp
  qed
  then show ?case using Cons by auto
qed

lemma chosen_iff: "(if P \<or> \<not> Q then None else t) = Some c \<longleftrightarrow> \<not> P \<and> Q \<and> t = Some c"
  by simp

lemma image_Some: "{c. Some c \<in> f ` A} = {c. \<exists>x\<in>A. f x = Some c}"
  by (force simp: image_iff)

text \<open>The direction of a client, with the answer for one that is not there.\<close>

definition direction :: "send_net \<Rightarrow> nat \<Rightarrow> nat option" where
  "direction n x = (case cli_uplink n (Some x) of Some (Some c) \<Rightarrow> Some c | _ \<Rightarrow> None)"

definition members_ok :: "send_net \<Rightarrow> nat list \<Rightarrow> bool" where
  "members_ok n xs \<longleftrightarrow> (\<forall>x\<in>set xs. sn_client n x \<noteq> None)"

lemma direction_uplink:
  assumes "net_static n" "sn_client n x \<noteq> None"
  shows "cli_uplink n (Some x) = Some (direction n x)" "direction n x = Some c \<Longrightarrow> c \<in> dom (sm_conn (sn_queues n))"
proof -
  obtain cl where cl: "sn_client n x = Some cl" using assms(2) by auto
  from cli_uplink_ok [OF assms(1) cl] obtain d where
    d: "cli_uplink n (Some x) = Some d" "d = None \<or> (\<exists>y. d = Some y \<and> y \<in> dom (sm_conn (sn_queues n)))" by blast
  then have "direction n x = d" by (auto simp: direction_def split: option.splits)
  then show "cli_uplink n (Some x) = Some (direction n x)" "direction n x = Some c \<Longrightarrow> c \<in> dom (sm_conn (sn_queues n))"
    using d by auto
qed

lemma same_view_client: "same_view n m \<Longrightarrow> sn_client m = sn_client n \<and> my_client m = my_client n"
  by (simp add: same_view_def my_client_def fun_eq_iff)

text \<open>C7: a message to a channel goes once to every connection behind which a member lies, in the form of the
  protocol of that connection, and never back in the direction of the client it comes from.\<close>

theorem sendto_channel_butone_once:
  assumes "net_ok n" "members_ok n users" "\<forall>c. out (sn_proto n c) \<noteq> []" "cli_uplink n one = Some onec"
  shows "\<exists>n'. sendto_channel_butone users out one n = Some n' \<and> net_ok n' \<and>
    delivered out {c. (\<exists>x\<in>set users. direction n x = Some c) \<and> Some c \<noteq> onec} n n'"
proof -
  have st: "net_static n" using assms(1) by (simp add: net_ok_def)
  let ?t = "\<lambda>x. if direction n x = onec then None else direction n x"
  have "\<forall>x\<in>set users. \<forall>m. same_view n m \<longrightarrow> pick_butone onec x m = once (?t x) m"
    using direction_uplink(1) [OF st] assms(2)
    by (auto simp: members_ok_def pick_butone_def once_def same_view_uplink split: option.splits)
  moreover have "\<forall>x\<in>set users. \<forall>c. ?t x = Some c \<longrightarrow> c \<in> dom (sm_conn (sn_queues n))"
    using direction_uplink(2) [OF st] assms(2) unfolding members_ok_def by (metis option.distinct(1))
  ultimately obtain n' where "send_round (pick_butone onec) out users n = Some n'" "net_ok n'"
    "delivered out {c. Some c \<in> ?t ` set users} n n'"
    using send_round_once [where target = ?t and out = out, OF assms(1)] assms(3) by blast
  moreover have "{c. Some c \<in> ?t ` set users} = {c. (\<exists>x\<in>set users. direction n x = Some c) \<and> Some c \<noteq> onec}"
    unfolding image_Some by (intro Collect_cong) (metis option.distinct(1))
  ultimately show ?thesis using assms(4) by (simp add: sendto_channel_butone_def)
qed

text \<open>Members with a prefix.\<close>

lemma sendto_channel_prefixes_once:
  assumes "net_ok n" "members_ok n (map fst users)" "\<forall>c. out (sn_proto n c) \<noteq> []" "cli_uplink n one = Some onec"
    and "pmask = prefix_mask pfxmap prefixes"
  shows "\<exists>n'. sendto_channel_prefixes_butone users out one pfxmap prefixes n = Some n' \<and> net_ok n' \<and>
    delivered out {c. (\<exists>(x, fl)\<in>set users. direction n x = Some c \<and> (if pmask = 0 then fl = 0 else fl AND pmask \<noteq> 0)) \<and>
      Some c \<noteq> onec} n n'"
proof -
  have st: "net_static n" using assms(1) by (simp add: net_ok_def)
  let ?t = "\<lambda>x. if direction n (fst x) = onec \<or> \<not> (if pmask = 0 then snd x = 0 else snd x AND pmask \<noteq> 0) then None
    else direction n (fst x)"
  have mem: "sn_client n (fst x) \<noteq> None" if "x \<in> set users" for x using assms(2) that unfolding members_ok_def by force
  have dir: "\<And>x. x \<in> set users \<Longrightarrow> cli_uplink n (Some (fst x)) = Some (direction n (fst x))"
    "\<And>x c. x \<in> set users \<Longrightarrow> direction n (fst x) = Some c \<Longrightarrow> c \<in> dom (sm_conn (sn_queues n))"
    using direction_uplink [OF st mem] by blast+
  have fd: "sn_fd m c < length (sn_sends m)" if "same_view n m" "c \<in> dom (sm_conn (sn_queues n))" for m c
    using that st unfolding net_static_def same_view_def by metis
  have "\<forall>x\<in>set users. \<forall>m. same_view n m \<longrightarrow> pick_prefixes onec pmask x m = once (?t x) m"
    using dir fd by (auto simp: pick_prefixes_def once_def same_view_uplink unmarked_def Let_def split: option.splits)
  moreover have "\<forall>x\<in>set users. \<forall>c. ?t x = Some c \<longrightarrow> c \<in> dom (sm_conn (sn_queues n))"
    using dir(2) by (metis option.distinct(1))
  ultimately obtain n' where "send_round (pick_prefixes onec pmask) out users n = Some n'" "net_ok n'"
    "delivered out {c. Some c \<in> ?t ` set users} n n'"
    using send_round_once [where target = ?t and out = out, OF assms(1)] assms(3) by blast
  moreover have "{c. Some c \<in> ?t ` set users} =
      {c. (\<exists>(x, fl)\<in>set users. direction n x = Some c \<and> (if pmask = 0 then fl = 0 else fl AND pmask \<noteq> 0)) \<and> Some c \<noteq> onec}"
    unfolding image_Some split_beta chosen_iff by (intro Collect_cong iffI; elim bexE conjE; simp; force)
  ultimately show ?thesis using assms(4,5) by (simp add: sendto_channel_prefixes_butone_def)
qed


text \<open>C30: what a server passes on goes once over each of its links but the one in the direction of the server it
  comes from.\<close>

theorem sendto_serv_butone_once:
  assumes "net_ok n" "distinct servers" "set servers \<subseteq> dom (sm_conn (sn_queues n))" "\<forall>c. out (sn_proto n c) \<noteq> []"
    and "srv_uplink n one = Some ones"
  shows "\<exists>n'. sendto_serv_butone servers out one n = Some n' \<and> net_ok n' \<and>
    delivered out {c \<in> set servers. Some c \<noteq> ones} n n'"
proof -
  let ?t = "\<lambda>c. if Some c = ones then None else Some c"
  have "distinct (filter (\<lambda>t. t \<noteq> None) (map ?t servers))"
    using assms(2) by (induction servers) (auto simp: image_iff)
  moreover have "\<forall>c\<in>set servers. \<forall>d. ?t c = Some d \<longrightarrow> d \<in> dom (sm_conn (sn_queues n))"
    using assms(3) by (auto split: if_splits)
  ultimately obtain n' where "send_round (\<lambda>c n. Some (?t c, n)) out servers n = Some n'" "net_ok n'"
    "delivered out {c. Some c \<in> ?t ` set servers} n n'"
    using send_round_plain [where target = ?t and pick = "\<lambda>c n. Some (?t c, n)" and out = out and xs = servers, OF assms(1)] assms(4)
    by blast
  moreover have "{c. Some c \<in> ?t ` set servers} = {c \<in> set servers. Some c \<noteq> ones}"
    by (auto simp: image_iff split: if_splits)
  ultimately show ?thesis using assms(5) by (simp add: sendto_serv_butone_def)
qed

section \<open>The messages of a whole channel\<close>

text \<open>Local and remote members are the two halves: what both functions send together is one copy for each
  direction, when clients have connections of their own.\<close>

definition own_conns :: "send_net \<Rightarrow> nat list \<Rightarrow> bool" where
  "own_conns n users \<longleftrightarrow> distinct users \<and>
     (\<forall>x\<in>set users. \<forall>y\<in>set users. \<forall>cx cy c. sn_client n x = Some cx \<longrightarrow> sn_client n y = Some cy \<longrightarrow>
       my_client n cx \<longrightarrow> direction n x = Some c \<longrightarrow> direction n y = Some c \<longrightarrow> x = y)"

lemma sendto_channel_local_once:
  assumes "net_ok n" "members_ok n users" "own_conns n users" "\<forall>c. out (sn_proto n c) \<noteq> []"
  shows "\<exists>n'. sendto_channel_local users out n = Some n' \<and> net_ok n' \<and>
    delivered out {c. \<exists>x\<in>set users. \<exists>cl. sn_client n x = Some cl \<and> my_client n cl \<and> direction n x = Some c} n n'"
proof -
  have st: "net_static n" using assms(1) by (simp add: net_ok_def)
  let ?t = "\<lambda>x. if my_client n (the (sn_client n x)) then direction n x else None"
  have mem: "\<exists>cl. sn_client n x = Some cl" if "x \<in> set users" for x using assms(2) that by (auto simp: members_ok_def)
  have "\<forall>x\<in>set users. \<forall>m. same_view n m \<longrightarrow> pick_local x m = Some (?t x, m)"
  proof (intro ballI allI impI)
    fix x m
    assume x: "x \<in> set users" and m: "same_view n m"
    obtain cl where cl: "sn_client n x = Some cl" using mem [OF x] by blast
    have "cli_uplink n (Some x) = Some (direction n x)" using direction_uplink(1) [OF st] cl by blast
    then show "pick_local x m = Some (?t x, m)"
      using cl same_view_client [OF m] same_view_uplink(2) [OF m] by (simp add: pick_local_def)
  qed
  moreover have "\<forall>x\<in>set users. \<forall>c. ?t x = Some c \<longrightarrow> c \<in> dom (sm_conn (sn_queues n))"
    using direction_uplink(2) [OF st] mem by (metis option.distinct(1))
  moreover have "distinct (filter (\<lambda>t. t \<noteq> None) (map ?t users))"
  proof (rule distinct_targets)
    show "distinct users" using assms(3) by (simp add: own_conns_def)
    show "\<forall>x\<in>set users. \<forall>y\<in>set users. \<forall>c. ?t x = Some c \<longrightarrow> ?t y = Some c \<longrightarrow> x = y"
    proof (intro ballI allI impI)
      fix x y c
      assume x: "x \<in> set users" and y: "y \<in> set users" and tx: "?t x = Some c" and ty: "?t y = Some c"
      obtain cx cy where cl: "sn_client n x = Some cx" "sn_client n y = Some cy" using mem [OF x] mem [OF y] by blast
      have "my_client n cx" "direction n x = Some c" "direction n y = Some c" using tx ty cl by (auto split: if_splits)
      then show "x = y" using assms(3) x y cl unfolding own_conns_def by blast
    qed
  qed
  ultimately obtain n' where "send_round pick_local out users n = Some n'" "net_ok n'"
    "delivered out {c. Some c \<in> ?t ` set users} n n'"
    using send_round_plain [where target = ?t and out = out and pick = pick_local and xs = users, OF assms(1)] assms(4) by blast
  moreover have "{c. Some c \<in> ?t ` set users} =
      {c. \<exists>x\<in>set users. \<exists>cl. sn_client n x = Some cl \<and> my_client n cl \<and> direction n x = Some c}"
    unfolding image_Some using mem by (intro Collect_cong) (metis option.distinct(1) option.sel)
  ultimately show ?thesis by (simp add: sendto_channel_local_def)
qed

lemma sendto_channel_remote_once:
  assumes "net_ok n" "members_ok n users" "\<forall>c. out (sn_proto n c) \<noteq> []"
  shows "\<exists>n'. sendto_channel_remote users out n = Some n' \<and> net_ok n' \<and>
    delivered out {c. \<exists>x\<in>set users. \<exists>cl. sn_client n x = Some cl \<and> \<not> my_client n cl \<and> direction n x = Some c} n n'"
proof -
  have st: "net_static n" using assms(1) by (simp add: net_ok_def)
  let ?t = "\<lambda>x. if my_client n (the (sn_client n x)) then None else direction n x"
  have mem: "\<exists>cl. sn_client n x = Some cl" if "x \<in> set users" for x using assms(2) that by (auto simp: members_ok_def)
  have "\<forall>x\<in>set users. \<forall>m. same_view n m \<longrightarrow> pick_remote x m = once (?t x) m"
  proof (intro ballI allI impI)
    fix x m
    assume x: "x \<in> set users" and m: "same_view n m"
    obtain cl where cl: "sn_client n x = Some cl" using mem [OF x] by blast
    have "cli_uplink n (Some x) = Some (direction n x)" using direction_uplink(1) [OF st] cl by blast
    then show "pick_remote x m = once (?t x) m"
      using cl same_view_client [OF m] same_view_uplink(2) [OF m] by (auto simp: pick_remote_def once_def split: option.splits)
  qed
  moreover have "\<forall>x\<in>set users. \<forall>c. ?t x = Some c \<longrightarrow> c \<in> dom (sm_conn (sn_queues n))"
    using direction_uplink(2) [OF st] mem by (metis option.distinct(1))
  ultimately obtain n' where "send_round pick_remote out users n = Some n'" "net_ok n'"
    "delivered out {c. Some c \<in> ?t ` set users} n n'"
    using send_round_once [where target = ?t and out = out, OF assms(1)] assms(3) by blast
  moreover have "{c. Some c \<in> ?t ` set users} =
      {c. \<exists>x\<in>set users. \<exists>cl. sn_client n x = Some cl \<and> \<not> my_client n cl \<and> direction n x = Some c}"
    unfolding image_Some using mem by (intro Collect_cong) (metis option.distinct(1) option.sel)
  ultimately show ?thesis by (simp add: sendto_channel_remote_def)
qed

text \<open>A client without a connection on this server, as a module makes one, cannot be in a channel a message of
  \<^verbatim>\<open>sendto_channel\<close> goes to: its null connection is used.\<close>

lemma sendto_channel_pseudo_client:
  assumes "sn_client n x = Some cl" "my_client n cl" "sl_conn cl = None"
  shows "sendto_channel (x # users) out n = None"
  using assms by (simp add: sendto_channel_def send_round_def pick_channel_def cli_uplink_def)

section \<open>A network for the witnesses\<close>

text \<open>Server 0 is this one, 1 is linked over connection 10, 2 is behind 1; client 5 is here on connection 11, 6
  and 7 are on server 2.\<close>

definition demo_queues :: sendq_mem where
  "demo_queues = \<lparr>sm_block = (\<lambda>_. None), sm_next = 0,
     sm_conn = [10 \<mapsto> new_sendq_conn ''hub'' 50, 11 \<mapsto> new_sendq_conn ''user'' 50]\<rparr>"

definition demo_net :: send_net where
  "demo_net = \<lparr>sn_me = 0,
     sn_server = [1 \<mapsto> \<lparr>sv_parent = Some 0, sv_conn = Some 10, sv_name = ''hub''\<rparr>,
       2 \<mapsto> \<lparr>sv_parent = Some 1, sv_conn = None, sv_name = ''leaf''\<rparr>],
     sn_client = [5 \<mapsto> \<lparr>sl_server = 0, sl_conn = Some 11, sl_registered = True, sl_host = ''a''\<rparr>,
       6 \<mapsto> \<lparr>sl_server = 2, sl_conn = None, sl_registered = True, sl_host = ''b''\<rparr>,
       7 \<mapsto> \<lparr>sl_server = 2, sl_conn = None, sl_registered = True, sl_host = ''c''\<rparr>],
     sn_fd = (\<lambda>c. c - 10), sn_proto = (\<lambda>c. if c = 10 then 1 else 0), sn_supports = (\<lambda>_. 0), sn_pflags = (\<lambda>_. 0),
     sn_sends = [False, False, False], sn_temp = (\<lambda>_. None), sn_queues = demo_queues\<rparr>"

lemma demo_net_ok: "net_ok demo_net"
proof -
  have "tree_ok demo_net"
    unfolding tree_ok_def by (rule exI [of _ id]) (auto simp: demo_net_def split: if_splits)
  moreover have "sendq_ok demo_queues"
    by (auto simp: sendq_ok_def demo_queues_def refs_to_def new_sendq_conn_def split: if_splits)
  ultimately show ?thesis
    by (auto simp: net_ok_def net_static_def) (auto simp: demo_net_def demo_queues_def inj_on_def numeral_3_eq_3 split: if_splits)
qed

lemma demo_directions:
  "cli_uplink demo_net (Some 5) = Some (Some 11)" "cli_uplink demo_net (Some 6) = Some (Some 10)"
  "cli_uplink demo_net (Some 7) = Some (Some 10)" "srv_uplink demo_net (Some 2) = Some (Some 10)"
  by (simp_all add: demo_net_def cli_uplink_def srv_uplink_def my_client_def top_server.simps [of 0 _ 2] top_server.simps [of 0 _ "Suc 0"])

theorem sendto_channel_butone_once_witness:
  "\<exists>n' q. sendto_channel_butone [5, 6, 7] (\<lambda>p. if p = 1 then ''to server'' else ''to client'') (Some 5) demo_net = Some n' \<and>
    sm_conn (sn_queues n') 10 = Some q \<and> sq_count q = 1 \<and> waiting (sn_queues n') q = ''to server''"
proof -
  let ?out = "\<lambda>p. if p = (1 :: nat) then ''to server'' else ''to client''"
  have m: "members_ok demo_net [5, 6, 7]" by (simp add: members_ok_def demo_net_def)
  have o: "\<forall>c. ?out (sn_proto demo_net c) \<noteq> []" by simp
  obtain n' where n': "sendto_channel_butone [5, 6, 7] ?out (Some 5) demo_net = Some n'"
    "delivered ?out {c. (\<exists>x\<in>set [5, 6, 7]. direction demo_net x = Some c) \<and> Some c \<noteq> Some 11} demo_net n'"
    using sendto_channel_butone_once [OF demo_net_ok m o demo_directions(1)] by blast
  have "direction demo_net 6 = Some 10" by (simp add: direction_def demo_directions)
  moreover have "sm_conn (sn_queues demo_net) 10 = Some (new_sendq_conn ''hub'' 50)" "sn_proto demo_net 10 = 1"
    by (simp_all add: demo_net_def demo_queues_def)
  ultimately show ?thesis using n' unfolding delivered_def by (force simp: new_sendq_conn_def waiting_def)
qed


theorem sendto_serv_butone_once_witness:
  "\<exists>n' q. sendto_serv_butone [10] (\<lambda>_. ''news'') (Some 0) demo_net = Some n' \<and>
    sm_conn (sn_queues n') 10 = Some q \<and> sq_count q = 1 \<and> waiting (sn_queues n') q = ''news''"
proof -
  have u: "srv_uplink demo_net (Some 0) = Some None" by (simp add: srv_uplink_def demo_net_def)
  have d: "distinct [10 :: nat]" "set [10] \<subseteq> dom (sm_conn (sn_queues demo_net))" by (auto simp: demo_net_def demo_queues_def)
  obtain n' where n': "sendto_serv_butone [10] (\<lambda>_. ''news'') (Some 0) demo_net = Some n'"
    "delivered (\<lambda>_. ''news'') {c \<in> set [10]. Some c \<noteq> None} demo_net n'"
    using sendto_serv_butone_once [OF demo_net_ok d _ u, of "\<lambda>_. ''news''"] by auto
  have "sm_conn (sn_queues demo_net) 10 = Some (new_sendq_conn ''hub'' 50)" by (simp add: demo_net_def demo_queues_def)
  then show ?thesis using n' unfolding delivered_def by (force simp: new_sendq_conn_def waiting_def)
qed

end
