(* ===== verification/Spec2Isabelle.thy ===== *)
theory Spec2Isabelle
  imports CString CBuffer Wildcard HashTable BaseN Md5 Event Timer IrcString DnsName Conf Format Convert DnsPacket DnsLookup
    UserMode ChanMode Channel ChanCore ChanRun ChanBan Message CommandTable Command Sendq Send
begin

text \<open>
  A verification development for \<^verbatim>\<open>ithildin\<close>, an IRC server that is a small daemon (\<^verbatim>\<open>source/\<close>) which loads
  everything else as modules (\<^verbatim>\<open>modules/\<close>). Paths below are relative to \<^verbatim>\<open>src/\<close>.

  \<^bold>\<open>How the program is put together.\<close> The daemon has strings, hash tables, events (lists of hooks that are
  called in order), timers, sockets, a reader of configuration files and a loader of modules. The module
  \<^verbatim>\<open>dns\<close> looks up names of hosts; the module \<^verbatim>\<open>ircd\<close> is the server: connections read lines through
  their protocol, a line becomes the arguments of a command, the command table finds the command, its
  execution checks the client, the command works on clients, channels and modes, asks addons through
  events whether something is allowed, and sends messages, which wait in the queue of a connection until
  the writer of the main loop gives them to the socket.

  \<^bold>\<open>The theories and the code.\<close>
  \<^item> \<^theory_text>\<open>Prelude\<close>: characters, null-terminated strings, the 32-bit \<^verbatim>\<open>int\<close>, buffers with checked writes.
  \<^item> \<^theory_text>\<open>CString\<close>, \<^theory_text>\<open>CBuffer\<close>, \<^theory_text>\<open>Wildcard\<close>, \<^theory_text>\<open>BaseN\<close>, \<^theory_text>\<open>Format\<close>, \<^theory_text>\<open>Convert\<close>: \<^verbatim>\<open>source/string.c\<close> (comparison and
    search; copying and tokens; \<^verbatim>\<open>match\<close> and \<^verbatim>\<open>hostmatch\<close>; the base 2 to 64 codecs; \<^verbatim>\<open>vsnprintf\<close>; numbers, times
    and, from \<^verbatim>\<open>source/socket.c\<close>, address masks).
  \<^item> \<^theory_text>\<open>HashTable\<close>: \<^verbatim>\<open>source/hash.c\<close>. \<^theory_text>\<open>Md5\<close>: \<^verbatim>\<open>source/md5.c\<close>. \<^theory_text>\<open>Event\<close>: \<^verbatim>\<open>source/event.c\<close>. \<^theory_text>\<open>Timer\<close>:
    \<^verbatim>\<open>source/timer.c\<close>. \<^theory_text>\<open>Conf\<close>: \<^verbatim>\<open>source/conf.c\<close>.
  \<^item> \<^theory_text>\<open>DnsName\<close>, \<^theory_text>\<open>DnsPacket\<close>, \<^theory_text>\<open>DnsLookup\<close>: \<^verbatim>\<open>res_comp.c\<close>, \<^verbatim>\<open>packet.c\<close>, \<^verbatim>\<open>lookup.c\<close> and \<^verbatim>\<open>dns.c\<close> of \<^verbatim>\<open>modules/dns\<close>.
  \<^item> \<^theory_text>\<open>IrcString\<close>: \<^verbatim>\<open>ircstring.c\<close> of \<^verbatim>\<open>modules/ircd\<close>, as the theories that follow.
    \<^theory_text>\<open>UserMode\<close>: the modes of clients in \<^verbatim>\<open>client.c\<close>. \<^theory_text>\<open>ChanMode\<close>, \<^theory_text>\<open>Channel\<close>: \<^verbatim>\<open>channel.c\<close>.
    \<^theory_text>\<open>ChanCore\<close>, \<^theory_text>\<open>ChanRun\<close>, \<^theory_text>\<open>ChanBan\<close>: \<^verbatim>\<open>addons/core.c\<close>, its loading, and channels with it.
  \<^item> \<^theory_text>\<open>Message\<close>: \<^verbatim>\<open>protocols/shared/rfc1459_io.c\<close>, \<^verbatim>\<open>protocols/rfc1459.c\<close> and the reading half of
    \<^verbatim>\<open>connection.c\<close>. \<^theory_text>\<open>CommandTable\<close>, \<^theory_text>\<open>Command\<close>: \<^verbatim>\<open>command.c\<close>. \<^theory_text>\<open>Sendq\<close>, \<^theory_text>\<open>Send\<close>: \<^verbatim>\<open>send.c\<close> and the writing
    half of \<^verbatim>\<open>connection.c\<close>.

  A \<^verbatim>\<open>struct\<close> is a record with a field for each field of the code that the modelled functions use, an
  \<^verbatim>\<open>enum\<close> or a union a datatype, and a function has the name it has in the code. Objects that are freed
  (channels, commands, blocks, lookups) live in a map from addresses, so that their use after \<^verbatim>\<open>free\<close> is seen.
  Intrusive lists are lists of addresses or of objects, in the order of the code.

  \<^bold>\<open>What is undefined.\<close> A write outside a buffer, a use of a freed or null pointer and a loop that does not
  end give \<open>None\<close> (or a value of an error type where the code has errors too, as in \<^theory_text>\<open>Conf\<close> and
  \<^theory_text>\<open>Wildcard\<close>). A theorem that says \<open>Some\<close> of an operation says that none of these happens.

  \<^bold>\<open>What the lemmas show.\<close>
  \<^item> Strings: \<^verbatim>\<open>match\<close> decides the pattern language of \<open>glob\<close>, copies end inside their buffer, codecs are inverse
    to each other, formatted output is the rendered text cut to its size.
  \<^item> Containers: the hash table is a finite multiset by key under growth (the locale \<open>keyed_table\<close>, which is
    interpreted for the commands, the clients and the channels); timers stay in order; hooks may change the list
    that calls them.
  \<^item> Domain names: what is compressed is expanded again, and nothing outside a message is read by an
    answer within the bounds stated; the lists of lookups stay disjoint and every lookup ends.
  \<^item> Configuration: what is printed in the syntax of the reader is read back.
  \<^item> Modes and channels: the mode tables give out free letters and bits; the links of clients and channels agree
    in both directions in every reachable state; the decisions to join, send and see are those of bans, keys,
    limits and flags; bans silence; a client without a member flag changes nothing (the locale
    \<open>chan_handlers\<close> is the contract between \<^verbatim>\<open>channel.c\<close> and an addon, interpreted for \<^verbatim>\<open>core.c\<close>).
  \<^item> Lines and commands: the messages a client writes are executed once each with their arguments, whatever the
    sizes of the reads; the command table keeps its names and aliases consistent over loading and unloading;
    a command that is not allowed changes nothing; flood control cuts exactly the bursts above the limit.
  \<^item> Sending: what a socket took and what waits are the messages sent, in order; blocks are freed with their
    last item; a message to many goes once over each connection it has to go over.

  \<^bold>\<open>Bounds and fuel.\<close> Words have the width of the code on a 64-bit Unix with IPv6 (\<^verbatim>\<open>INET6\<close>): \<^verbatim>\<open>int\<close> is 32 bits,
  \<^verbatim>\<open>long\<close> and \<^verbatim>\<open>time_t\<close> 64. Hash tables hold less than \<open>2 ^ 28\<close> entries. \<^verbatim>\<open>match\<close> recurses at most as
  deep as its own counter allows. Removing a command recurses twice, since an alias has no aliases. Loops without
  a structural measure are partial functions in \<open>option\<close>, and their theorems state that they return.
  Counters of objects in memory are unbounded where an overflow needs more memory than there is.

  \<^bold>\<open>Parameters.\<close> Sockets are lists of reads and of results of writes, the clock is a sequence of readings,
  files are a map from names to contents, \<^verbatim>\<open>inet_pton\<close>, the loader of modules with its symbols, the functions of
  commands and the hooks of other modules are functions with the laws stated where they are used.

  \<^bold>\<open>Not modelled.\<close> Pure input and output: \<^verbatim>\<open>main.c\<close>, \<^verbatim>\<open>log.c\<close>, \<^verbatim>\<open>socket.c\<close> (but for address masks) with its
  pollers, \<^verbatim>\<open>util.c\<close>, \<^verbatim>\<open>modules/log\<close>, \<^verbatim>\<open>modules/ident\<close>, \<^verbatim>\<open>modules/proxyscan\<close>, and \<^verbatim>\<open>module.c\<close>, whose work is
  done by the dynamic loader. \<^verbatim>\<open>source/contrib\<close> is imported code; \<^verbatim>\<open>strlcpy\<close> and \<^verbatim>\<open>strlcat\<close> of it
  are in \<^theory_text>\<open>CBuffer\<close>. \<^verbatim>\<open>modules/services\<close> is a client of a database and a mail program, \<^verbatim>\<open>modules/helloworld\<close>
  an example. Of \<^verbatim>\<open>modules/ircd\<close>: the start and the configuration of the server (\<^verbatim>\<open>ircd.c\<close>, \<^verbatim>\<open>conf.c\<close>), classes,
  privileges, support tokens, servers and their introduction, the registration, nicknames and history of
  clients, the send flags and message sets of \<^verbatim>\<open>send.c\<close>, the lookups of a new connection, \<^verbatim>\<open>chanmode_getmodes\<close>, the
  commands in \<^verbatim>\<open>commands/\<close> (but for the user half of MODE), the other addons and the server protocols.
\<close>

end
